(* ===== verification/Prelude.thy ===== *)
theory Prelude
  imports Main "HOL-Library.Word"
begin

text \<open>
  The vocabulary the component theories share: the Go result conventions, the machine integer
  types, the theorem collections the component proofs draw on, and the generic facts about
  lists, maps, finite sets of bits and words that no single component owns.
\<close>

unbundle bit_operations_syntax

type_synonym u8 = "8 word"
type_synonym u16 = "16 word"
type_synonym u32 = "32 word"
type_synonym u64 = "64 word"
type_synonym u128 = "128 word"

text \<open>
  A Go function that returns \<open>(value, error)\<close> is a sum: \<open>Inl\<close> holds the error, \<open>Inr\<close> the value.
\<close>

type_synonym ('e, 'a) result = "'e + 'a"

abbreviation is_ok :: "('e, 'a) result \<Rightarrow> bool" where
  "is_ok r \<equiv> \<not> isl r"

named_theorems inv_intros \<open>an operation keeps the invariant of its component\<close>
named_theorems abs_simps \<open>what an operation does to the abstract state of its component\<close>
named_theorems word_unat \<open>words read as natural numbers\<close>

section \<open>Words as naturals\<close>

lemma unat_less_pow: "unat (w :: 'a::len word) < 2 ^ LENGTH('a)"
  by (rule unsigned_less)

lemma drop_bit_xor_eq_0_iff [word_unat]:
  fixes x y :: "'a::len word"
  shows "drop_bit n (x XOR y) = 0 \<longleftrightarrow> unat x div 2 ^ n = unat y div 2 ^ n"
proof -
  have "drop_bit n (x XOR y) = 0 \<longleftrightarrow> drop_bit n x = drop_bit n y"
    by (auto simp: bit_eq_iff bit_simps)
  also have "\<dots> \<longleftrightarrow> unat x div 2 ^ n = unat y div 2 ^ n"
    by (metis drop_bit_eq_div unat_drop_bit_eq word_unat_eq_iff)
  finally show ?thesis .
qed

lemmas xor_drop_bit_eq_0_iff [word_unat] = drop_bit_xor_eq_0_iff [unfolded drop_bit_xor]

lemma unat_and_not_mask [word_unat]:
  fixes x :: "'a::len word"
  shows "unat (x AND NOT (mask n)) = unat x div 2 ^ n * 2 ^ n"
proof -
  have "x AND NOT (mask n) = push_bit n (drop_bit n x)"
    by (rule bit_word_eqI) (auto simp: bit_simps)
  then have "unat (x AND NOT (mask n)) = take_bit LENGTH('a) (push_bit n (drop_bit n (unat x)))"
    by (simp add: unat_drop_bit_eq unsigned_push_bit_eq)
  also have "push_bit n (drop_bit n (unat x)) = unat x div 2 ^ n * 2 ^ n"
    by (simp add: push_bit_eq_mult drop_bit_eq_div)
  also have "take_bit LENGTH('a) (unat x div 2 ^ n * 2 ^ n) = unat x div 2 ^ n * 2 ^ n"
    by (rule take_bit_nat_eq_self) (rule le_less_trans [OF div_times_less_eq_dividend unsigned_less])
  finally show ?thesis .
qed

lemma and_not_mask_eq_0_iff:
  fixes z :: "'a::len word"
  shows "z AND NOT (mask n) = 0 \<longleftrightarrow> drop_bit n z = 0"
proof -
  have "z AND NOT (mask n) = push_bit n (drop_bit n z)"
    by (rule bit_word_eqI) (auto simp: bit_simps)
  moreover have "drop_bit n (push_bit n (drop_bit n z)) = drop_bit n z"
    by (rule bit_word_eqI) (auto simp: bit_simps dest: bit_imp_le_length)
  ultimately show ?thesis by (metis drop_bit_of_0 push_bit_of_0)
qed

lemma and_not_mask_xor_eq_0_iff [word_unat]:
  fixes x y :: "'a::len word"
  shows "(x XOR y) AND NOT (mask n) = 0 \<longleftrightarrow> unat x div 2 ^ n = unat y div 2 ^ n"
  using drop_bit_xor_eq_0_iff and_not_mask_eq_0_iff by blast

lemma drop_bit_and_not_mask:
  fixes w :: "'a::len word"
  shows "drop_bit n (w AND NOT (mask n)) = drop_bit n w"
  by (rule bit_word_eqI) (auto simp: bit_simps dest: bit_imp_le_length)

lemma drop_bit_clear_lsb: "drop_bit 1 (w AND NOT 1) = drop_bit 1 (w :: 'a::len word)"
  using drop_bit_and_not_mask [of 1 w] by (simp only: mask_Suc_0 One_nat_def)

lemma unat_drop_bit_1: "unat (drop_bit 1 (w :: 'a::len word)) = unat w div 2"
  using unat_drop_bit_eq [of 1 w] by (simp only: drop_bit_eq_div power_one_right)

lemma unat_add_no_wrap:
  fixes x :: "'a::len word"
  assumes "unat x + n < 2 ^ LENGTH('a)"
  shows "unat (x + word_of_nat n) = unat x + n"
  using assms by (simp add: unat_word_ariths take_bit_nat_def unat_of_nat)

text \<open>Two addresses in the same aligned block of size \<open>2 ^ n\<close> differ by less than \<open>2 ^ n\<close>.\<close>

lemma same_block_iff:
  fixes b x :: nat
  assumes "b mod 2 ^ n = 0"
  shows "x div 2 ^ n = b div 2 ^ n \<longleftrightarrow> b \<le> x \<and> x < b + 2 ^ n"
proof
  assume eq: "x div 2 ^ n = b div 2 ^ n"
  have "x = b div 2 ^ n * 2 ^ n + x mod 2 ^ n"
    using div_mult_mod_eq [of x "2 ^ n"] eq by simp
  moreover have "b div 2 ^ n * 2 ^ n = b" using assms by auto
  moreover have "x mod 2 ^ n < 2 ^ n" by simp
  ultimately show "b \<le> x \<and> x < b + 2 ^ n"
    by (metis le_add1 nat_add_left_cancel_less)
next
  assume "b \<le> x \<and> x < b + 2 ^ n"
  then obtain d where "x = b + d" and "d < 2 ^ n" by (metis le_iff_add nat_add_left_cancel_less)
  with assms show "x div 2 ^ n = b div 2 ^ n" by (auto elim!: dvdE simp: mod_eq_0_iff_dvd)
qed

section \<open>Finite sets of bits\<close>

text \<open>
  The bits of a natural number, Go's \<open>math/big.Int\<close> restricted to the non-negative values the
  allocators use: \<open>Bit\<close> is \<^const>\<open>bit\<close>, \<open>SetBit(x, i, 1)\<close> is \<^const>\<open>set_bit\<close> and
  \<open>SetBit(x, i, 0)\<close> is \<^const>\<open>unset_bit\<close>.
\<close>

definition bits_of :: "nat \<Rightarrow> nat set" where
  "bits_of n = {i. bit n i}"

lemma bit_nat_odd: "bit (n::nat) i \<longleftrightarrow> odd (n div 2 ^ i)"
  by (rule bit_iff_odd)

lemma bit_nat_less:
  assumes "bit (n::nat) i"
  shows "i < n"
proof (rule ccontr)
  assume "\<not> i < n"
  then have "n < 2 ^ i" using less_exp [of i] by linarith
  with assms show False by (simp add: bit_nat_odd)
qed

lemma bits_of_bounded: "i \<in> bits_of n \<Longrightarrow> i < n"
  by (simp add: bits_of_def bit_nat_less)

lemma finite_bits_of [simp]: "finite (bits_of n)"
  by (rule finite_subset [of _ "{..<n}"]) (auto dest: bits_of_bounded)

lemma bits_of_0 [simp]: "bits_of 0 = {}"
  by (simp add: bits_of_def)

lemma bits_of_set_bit [simp]: "bits_of (set_bit i n) = insert i (bits_of n)"
  by (auto simp: bits_of_def bit_set_bit_iff)

lemma bits_of_unset_bit [simp]: "bits_of (unset_bit i n) = bits_of n - {i}"
  by (auto simp: bits_of_def bit_simps)

lemma bits_of_eq_iff: "bits_of m = bits_of n \<longleftrightarrow> m = n"
  by (auto simp: bits_of_def set_eq_iff intro: bit_eqI)

lemma in_bits_of [simp]: "i \<in> bits_of n \<longleftrightarrow> bit n i"
  by (simp add: bits_of_def)

lemma nat_or_low: 
  fixes a y :: nat assumes "2 ^ h dvd a" "y < 2 ^ h" shows "a OR y = a + y"
proof -
  have y: "y = take_bit h y" using assms(2) by (simp add: take_bit_nat_eq_self)
  have a: "take_bit h a = 0" using assms(1) by (simp add: take_bit_eq_mod)
  have "a AND y = take_bit h a AND y" by (subst y, subst (2) y) (simp add: bit_eq_iff bit_simps, blast)
  with a have "a AND y = 0" by simp
  then show ?thesis by (rule disjunctive_add_eq_or [symmetric])
qed

lemma unat_or_low:
  fixes a y :: "'a::len word" assumes "2 ^ h dvd unat a" "unat y < 2 ^ h" shows "unat (a OR y) = unat a + unat y"
  unfolding unsigned_or_eq by (rule nat_or_low [OF assms])

section \<open>Significant bits\<close>

text \<open>The number of significant bits, \<open>64 - bits.LeadingZeros64(x)\<close> in the source.\<close>

fun bit_length :: "nat \<Rightarrow> nat" where
  "bit_length n = (if n = 0 then 0 else Suc (bit_length (n div 2)))"

declare bit_length.simps [simp del]

lemma bit_length_le: "bit_length n \<le> k \<longleftrightarrow> n < 2 ^ k"
proof (induction n arbitrary: k rule: bit_length.induct)
  case (1 n)
  show ?case
  proof (cases "n = 0 \<or> k = 0")
    case False
    then obtain j where k: "k = Suc j" by (cases k) auto
    have "bit_length n \<le> k \<longleftrightarrow> n div 2 < 2 ^ j" using 1 [of j] False k by (simp add: bit_length.simps [of n])
    then show ?thesis by (simp add: k less_mult_imp_div_less div_less_iff_less_mult mult.commute)
  qed (auto simp: bit_length.simps [of n])
qed

end
