(* ===== verification/Netip.thy ===== *)
theory Netip
  imports Prelude
begin

text \<open>
  What the program uses of Go's \<open>net/netip\<close>: addresses (the zero value, IPv4, and IPv6 with a
  zone) and prefixes. A prefix keeps, as Go's does, the address and the number of bits plus one,
  zero for an invalid prefix. These definitions model the standard library; the component
  theories build on them.
\<close>

section \<open>Addresses\<close>

datatype addr = AddrInvalid | V4 u32 | V6 u128 string

fun addr_is_valid :: "addr \<Rightarrow> bool" where
  "addr_is_valid AddrInvalid = False"
| "addr_is_valid _ = True"

fun addr_is4 :: "addr \<Rightarrow> bool" where
  "addr_is4 (V4 _) = True"
| "addr_is4 _ = False"

fun addr_is6 :: "addr \<Rightarrow> bool" where
  "addr_is6 (V6 _ _) = True"
| "addr_is6 _ = False"

fun addr_bitlen :: "addr \<Rightarrow> nat" where
  "addr_bitlen AddrInvalid = 0"
| "addr_bitlen (V4 _) = 32"
| "addr_bitlen (V6 _ _) = 128"

text \<open>\<open>Next\<close> yields the zero value after the last address of a family.\<close>

fun addr_next :: "addr \<Rightarrow> addr" where
  "addr_next AddrInvalid = V6 1 []"
| "addr_next (V4 a) = (if a + 1 = 0 then AddrInvalid else V4 (a + 1))"
| "addr_next (V6 a z) = (if a + 1 = 0 then AddrInvalid else V6 (a + 1) z)"

fun addr_without_zone :: "addr \<Rightarrow> addr" where
  "addr_without_zone (V6 a _) = V6 a []"
| "addr_without_zone a = a"

text \<open>\<open>As16\<close> forgets the zone; the zero value gives sixteen zero bytes.\<close>

fun addr_as16 :: "addr \<Rightarrow> u128" where
  "addr_as16 AddrInvalid = 0"
| "addr_as16 (V4 a) = 0xffff00000000 OR ucast a"
| "addr_as16 (V6 a _) = a"

fun addr_has_zone :: "addr \<Rightarrow> bool" where
  "addr_has_zone (V6 _ z) = (z \<noteq> [])"
| "addr_has_zone _ = False"

text \<open>The numeric value of an address, used in specifications only.\<close>

fun addr_val :: "addr \<Rightarrow> nat" where
  "addr_val AddrInvalid = 0"
| "addr_val (V4 a) = unat a"
| "addr_val (V6 a _) = unat a"

section \<open>Prefixes\<close>

record prefix =
  pfx_addr :: addr
  pfx_bits1 :: nat

definition prefix_zero :: prefix where
  "prefix_zero = \<lparr>pfx_addr = AddrInvalid, pfx_bits1 = 0\<rparr>"

definition pfx_valid :: "prefix \<Rightarrow> bool" where
  "pfx_valid p \<longleftrightarrow> 0 < pfx_bits1 p"

definition pfx_bits :: "prefix \<Rightarrow> int" where
  "pfx_bits p = int (pfx_bits1 p) - 1"

definition prefix_from :: "addr \<Rightarrow> int \<Rightarrow> prefix" where
  "prefix_from ip b =
     \<lparr>pfx_addr = addr_without_zone ip,
      pfx_bits1 = (if addr_is_valid ip \<and> 0 \<le> b \<and> b \<le> int (addr_bitlen ip)
                   then nat (b + 1) else 0)\<rparr>"

text \<open>\<open>Masked\<close> clears the host bits; an invalid prefix becomes the zero prefix.\<close>

definition pfx_masked :: "prefix \<Rightarrow> prefix" where
  "pfx_masked p =
     (if pfx_valid p then
        (case pfx_addr p of
           AddrInvalid \<Rightarrow> prefix_zero
         | V4 a \<Rightarrow> prefix_from (V4 (a AND NOT (mask (32 - nat (pfx_bits p))))) (pfx_bits p)
         | V6 a _ \<Rightarrow> prefix_from (V6 (a AND NOT (mask (128 - nat (pfx_bits p)))) []) (pfx_bits p))
      else prefix_zero)"

definition pfx_contains :: "prefix \<Rightarrow> addr \<Rightarrow> bool" where
  "pfx_contains p ip =
     (pfx_valid p \<and> \<not> addr_has_zone ip \<and>
      (case (pfx_addr p, ip) of
         (V4 b, V4 a) \<Rightarrow> drop_bit (32 - nat (pfx_bits p)) (a XOR b) = 0
       | (V6 b _, V6 a _) \<Rightarrow> (a XOR b) AND NOT (mask (128 - nat (pfx_bits p))) = 0
       | _ \<Rightarrow> False))"

text \<open>
  The prefixes Go can build: \<open>PrefixFrom\<close> leaves no zone and accepts only a length of the
  family. The host part has \<open>pfx_host_bits\<close> bits.
\<close>

definition pfx_wf :: "prefix \<Rightarrow> bool" where
  "pfx_wf p \<longleftrightarrow> pfx_valid p \<and> addr_is_valid (pfx_addr p) \<and> \<not> addr_has_zone (pfx_addr p) \<and>
     pfx_bits p \<le> int (addr_bitlen (pfx_addr p))"

definition pfx_host_bits :: "prefix \<Rightarrow> nat" where
  "pfx_host_bits p = addr_bitlen (pfx_addr p) - nat (pfx_bits p)"

definition pfx_is_masked :: "prefix \<Rightarrow> bool" where
  "pfx_is_masked p \<longleftrightarrow> addr_val (pfx_addr p) mod 2 ^ pfx_host_bits p = 0"

lemma pfx_bits_nonneg: "pfx_wf p \<Longrightarrow> 0 \<le> pfx_bits p"
  by (simp add: pfx_wf_def pfx_valid_def pfx_bits_def)

lemma prefix_from_wf: "pfx_valid (prefix_from ip b) \<Longrightarrow> pfx_wf (prefix_from ip b)"
  by (cases ip) (auto simp: pfx_wf_def pfx_valid_def prefix_from_def pfx_bits_def split: if_splits)

lemma pfx_masked_wf [intro]:
  assumes "pfx_wf p" shows "pfx_wf (pfx_masked p)"
  using assms pfx_bits_nonneg [OF assms]
  by (cases "pfx_addr p")
    (auto simp: pfx_masked_def pfx_wf_def pfx_valid_def prefix_from_def pfx_bits_def)

lemma pfx_masked_host_bits [simp]:
  assumes "pfx_wf p" shows "pfx_host_bits (pfx_masked p) = pfx_host_bits p"
  using assms pfx_bits_nonneg [OF assms]
  by (cases "pfx_addr p")
    (auto simp: pfx_masked_def pfx_wf_def pfx_valid_def prefix_from_def pfx_bits_def pfx_host_bits_def)

lemma pfx_masked_is_masked:
  assumes "pfx_wf p" shows "pfx_is_masked (pfx_masked p)"
proof -
  have "pfx_valid p" using assms by (simp add: pfx_wf_def)
  with assms show ?thesis
    unfolding pfx_is_masked_def pfx_masked_host_bits [OF assms]
    by (cases "pfx_addr p")
      (auto simp: pfx_masked_def prefix_from_def pfx_wf_def pfx_host_bits_def word_unat)
qed

text \<open>
  Membership as arithmetic: an address of the prefix's family, without zone, is in a masked
  prefix when it lies in the block of size \<open>2 ^ pfx_host_bits p\<close> that starts at the prefix.
\<close>

fun same_family :: "addr \<Rightarrow> addr \<Rightarrow> bool" where
  "same_family (V4 _) (V4 _) = True"
| "same_family (V6 _ _) (V6 _ _) = True"
| "same_family _ _ = False"

lemma pfx_contains_iff:
  assumes "pfx_wf p" "pfx_is_masked p"
  shows "pfx_contains p ip \<longleftrightarrow> same_family (pfx_addr p) ip \<and> \<not> addr_has_zone ip \<and>
    addr_val (pfx_addr p) \<le> addr_val ip \<and>
    addr_val ip < addr_val (pfx_addr p) + 2 ^ pfx_host_bits p"
proof -
  have v: "pfx_valid p" using assms(1) by (simp add: pfx_wf_def)
  have m: "addr_val (pfx_addr p) mod 2 ^ pfx_host_bits p = 0"
    using assms(2) by (simp add: pfx_is_masked_def)
  show ?thesis
  proof (cases "pfx_addr p")
    case AddrInvalid
    with assms show ?thesis by (simp add: pfx_wf_def)
  next
    case (V4 b)
    with v m same_block_iff [of "unat b" "pfx_host_bits p"] show ?thesis
      by (cases ip) (simp_all add: pfx_contains_def pfx_host_bits_def word_unat)
  next
    case (V6 b z)
    with v m same_block_iff [of "unat b" "pfx_host_bits p"] show ?thesis
      by (cases ip) (auto simp add: pfx_contains_def pfx_host_bits_def word_unat)
  qed
qed

lemma and_not_mask_div:
  "unat (w AND NOT (mask n)) div 2 ^ n = unat (w :: 'a::len word) div 2 ^ n"
  by (simp add: word_unat)

lemma pfx_contains_masked:
  assumes "pfx_wf p" shows "pfx_contains (pfx_masked p) ip \<longleftrightarrow> pfx_contains p ip"
proof -
  have v: "pfx_valid p" and b: "0 \<le> pfx_bits p" "pfx_bits p \<le> int (addr_bitlen (pfx_addr p))"
    using assms pfx_bits_nonneg [OF assms] by (auto simp: pfx_wf_def)
  have eq: "pfx_valid (prefix_from a (pfx_bits p)) \<and> pfx_bits (prefix_from a (pfx_bits p)) = pfx_bits p \<and>
      pfx_addr (prefix_from a (pfx_bits p)) = addr_without_zone a"
    if "addr_is_valid a" "addr_bitlen a = addr_bitlen (pfx_addr p)" for a
    using that b by (simp add: prefix_from_def pfx_valid_def pfx_bits_def)
  show ?thesis
  proof (cases "pfx_addr p")
    case (V4 a)
    with v eq [of "V4 _"] show ?thesis
      by (cases ip) (simp_all add: pfx_contains_def pfx_masked_def drop_bit_xor_eq_0_iff and_not_mask_div del: drop_bit_xor drop_bit_and)
  next
    case (V6 a z)
    with v eq [of "V6 _ []"] show ?thesis
      by (cases ip) (auto simp add: pfx_contains_def pfx_masked_def and_not_mask_xor_eq_0_iff and_not_mask_div)
  qed (use assms in \<open>simp add: pfx_wf_def\<close>)
qed

lemma pfx_contains_same_family: "pfx_contains p ip \<Longrightarrow> same_family (pfx_addr p) ip"
  by (cases "pfx_addr p"; cases ip) (auto simp: pfx_contains_def)

lemma pfx_contains_no_zone: "pfx_contains p ip \<Longrightarrow> \<not> addr_has_zone ip"
  by (simp add: pfx_contains_def)

lemma same_family_val_eq:
  "same_family a b \<Longrightarrow> \<not> addr_has_zone a \<Longrightarrow> \<not> addr_has_zone b \<Longrightarrow> addr_val a = addr_val b \<Longrightarrow> a = b"
  by (cases a; cases b) (auto simp: word_unat_eq_iff)

lemma addr_val_bound: "addr_val a < 2 ^ addr_bitlen a"
proof (cases a)
  case (V4 w)
  then show ?thesis using unat_less_pow [of w] by simp
next
  case (V6 w z)
  then show ?thesis using unat_less_pow [of w] by simp
qed simp

section \<open>IPv6 addresses as two 64-bit halves\<close>

text \<open>
  \<open>binary.BigEndian.Uint64\<close> over the two halves of the sixteen bytes, and the inverse.
\<close>

definition hi64 :: "u128 \<Rightarrow> u64" where
  "hi64 w = ucast (drop_bit 64 w)"

definition lo64 :: "u128 \<Rightarrow> u64" where
  "lo64 w = ucast w"

definition from_hi_lo :: "u64 \<Rightarrow> u64 \<Rightarrow> u128" where
  "from_hi_lo hi lo = push_bit 64 (ucast hi) OR ucast lo"

lemma unat_hi64: "unat (hi64 w) = unat w div 2 ^ 64"
proof -
  have "unat w div 2 ^ 64 < 2 ^ 64"
    using unat_less_pow [of w] by (simp add: div_less_iff_less_mult)
  moreover have "unat (hi64 w) = take_bit 64 (unat w div 2 ^ 64)"
    unfolding hi64_def unsigned_ucast_eq unat_drop_bit_eq by (simp add: drop_bit_eq_div)
  ultimately show ?thesis by (simp only: take_bit_nat_eq_self)
qed

lemma unat_lo64: "unat (lo64 w) = unat w mod 2 ^ 64"
  by (simp add: lo64_def unsigned_ucast_eq take_bit_eq_mod)

lemma unat_from_hi_lo: "unat (from_hi_lo hi lo) = unat hi * 2 ^ 64 + unat lo"
proof -
  have "unat hi < 2 ^ 64" "unat lo < 2 ^ 64"
    using unat_less_pow [of hi] unat_less_pow [of lo] by simp_all
  then have "unat hi * 2 ^ 64 + unat lo < 2 ^ 128" by simp
  moreover have "from_hi_lo hi lo = word_cat hi lo"
    by (simp add: from_hi_lo_def word_cat_eq_push_bit_or)
  ultimately show ?thesis
    by (simp add: word_cat_eq unat_word_ariths unsigned_push_bit_eq unsigned_ucast_eq
        push_bit_eq_mult take_bit_nat_eq_self take_bit_eq_mod mod_simps)
qed

text \<open>Unfoldings that evaluate prefixes with known lengths.\<close>

lemmas netip_eval = prefix_from_def pfx_masked_def pfx_valid_def pfx_bits_def pfx_wf_def pfx_contains_def
  mask_eq_exp_minus_1

end
