(* ===== verification/Alloc_Bitmap.thy ===== *)
theory Alloc_Bitmap
  imports Netip
begin

text \<open>
  The bit-set allocator under every IPAM range: \<open>pkg/ipam/service/allocator\<close> (\<open>bitmap.go\<close>,
  \<open>interfaces.go\<close>, \<open>utils.go\<close>). The allocated set is a \<open>math/big.Int\<close>, here a natural number
  read bit by bit; the number drawn by \<open>rand.IntN\<close> is an argument of the operations that draw.
\<close>

section \<open>The contract of an offset allocator\<close>

text \<open>
  \<open>allocator.Interface\<close>: what a range may rely on. The abstract state is the set of offsets in
  use, a subset of \<open>{..<cap s}\<close>.
\<close>

locale offset_allocator =
  fixes allocate :: "'s \<Rightarrow> nat \<Rightarrow> 's \<times> bool"
    and allocate_next :: "'s \<Rightarrow> nat \<Rightarrow> 's \<times> nat option"
    and release :: "'s \<Rightarrow> nat \<Rightarrow> 's"
    and has :: "'s \<Rightarrow> nat \<Rightarrow> bool"
    and free :: "'s \<Rightarrow> int"
    and for_each :: "'s \<Rightarrow> nat list"
    and used :: "'s \<Rightarrow> nat set"
    and cap :: "'s \<Rightarrow> nat"
    and inv :: "'s \<Rightarrow> bool"
  assumes used_bounded: "inv s \<Longrightarrow> used s \<subseteq> {..<cap s}"
    and allocate_ok: "inv s \<Longrightarrow> i < cap s \<Longrightarrow> snd (allocate s i) \<longleftrightarrow> i \<notin> used s"
    and allocate_used: "inv s \<Longrightarrow> i < cap s \<Longrightarrow> used (fst (allocate s i)) = insert i (used s)"
    and allocate_inv: "inv s \<Longrightarrow> i < cap s \<Longrightarrow> inv (fst (allocate s i))"
    and allocate_cap: "cap (fst (allocate s i)) = cap s"
    and next_Some: "inv s \<Longrightarrow> allocate_next s r = (t, Some i) \<Longrightarrow>
          i < cap s \<and> i \<notin> used s \<and> used t = insert i (used s) \<and> inv t \<and> cap t = cap s"
    and next_None: "inv s \<Longrightarrow> allocate_next s r = (t, None) \<Longrightarrow> used s = {..<cap s} \<and> t = s"
    and release_used: "inv s \<Longrightarrow> used (release s i) = used s - {i}"
    and release_inv: "inv s \<Longrightarrow> inv (release s i)"
    and release_cap: "cap (release s i) = cap s"
    and has_iff: "inv s \<Longrightarrow> has s i \<longleftrightarrow> i \<in> used s"
    and free_eq: "inv s \<Longrightarrow> free s = int (cap s) - int (card (used s))"
    and for_each_eq: "inv s \<Longrightarrow> for_each s = sorted_list_of_set (used s)"
begin

lemma used_finite: "inv s \<Longrightarrow> finite (used s)"
  using used_bounded finite_subset by blast

lemma card_used_le: "inv s \<Longrightarrow> card (used s) \<le> cap s"
  using card_mono [OF finite_lessThan used_bounded] by simp

text \<open>The pool hands out an offset exactly while something is free.\<close>

lemma next_succeeds_iff: "inv s \<Longrightarrow> snd (allocate_next s r) \<noteq> None \<longleftrightarrow> 0 < free s"
proof -
  assume i: "inv s"
  obtain t x where e: "allocate_next s r = (t, x)" by force
  show ?thesis
  proof (cases x)
    case None
    with next_None [OF i] e have "used s = {..<cap s}" by blast
    with None e i show ?thesis by (simp add: free_eq)
  next
    case (Some n)
    with next_Some [OF i] e have "n < cap s" "n \<notin> used s" by blast+
    with used_bounded [OF i] have "used s \<subset> {..<cap s}" by blast
    from psubset_card_mono [OF finite_lessThan this] have "card (used s) < cap s" by simp
    with Some e i show ?thesis by (simp add: free_eq)
  qed
qed

text \<open>A released offset can be allocated again, and the round trip restores the set.\<close>

lemma release_allocate:
  assumes "inv s" "i \<in> used s"
  shows "snd (allocate (release s i) i) \<and> used (fst (allocate (release s i) i)) = used s"
proof -
  have "i < cap (release s i)" using assms used_bounded by (auto simp: release_cap)
  with assms show ?thesis
    by (simp add: allocate_ok allocate_used release_inv release_used insert_absorb)
qed

text \<open>Draining: repeated \<open>AllocateNext\<close> calls, one drawn number each.\<close>

fun drain :: "'s \<Rightarrow> nat list \<Rightarrow> 's \<times> nat list" where
  "drain s [] = (s, [])"
| "drain s (r # rs) =
     (case allocate_next s r of
        (t, None) \<Rightarrow> (t, [])
      | (t, Some i) \<Rightarrow> (let (u, js) = drain t rs in (u, i # js)))"

lemma drain_props:
  assumes "inv s"
  shows "inv (fst (drain s rs)) \<and> cap (fst (drain s rs)) = cap s \<and> distinct (snd (drain s rs)) \<and>
    set (snd (drain s rs)) \<inter> used s = {} \<and>
    used (fst (drain s rs)) = used s \<union> set (snd (drain s rs))"
  using assms
proof (induction s rs rule: drain.induct)
  case (1 s)
  then show ?case by simp
next
  case (2 s r rs)
  obtain t x where e: "allocate_next s r = (t, x)" by force
  show ?case
  proof (cases x)
    case None
    with next_None [OF 2(2)] e have "t = s" by blast
    with None e 2(2) show ?thesis by simp
  next
    case (Some i)
    note t = next_Some [OF 2(2) e [unfolded Some]]
    obtain u js where d: "drain t rs = (u, js)" by force
    from "2.IH" e Some t d
    have "inv u \<and> cap u = cap t \<and> distinct js \<and> set js \<inter> used t = {} \<and> used u = used t \<union> set js"
      by simp
    with t e Some d show ?thesis by auto
  qed
qed

text \<open>Every free offset is handed out, each once, before the pool reports that it is full.\<close>

lemma drain_complete:
  assumes "inv s" and "free s \<le> int (length rs)"
  shows "used (fst (drain s rs)) = {..<cap s}"
  using assms
proof (induction s rs rule: drain.induct)
  case (1 s)
  then have "cap s \<le> card (used s)" by (simp add: free_eq)
  with card_seteq [OF finite_lessThan used_bounded [OF 1(1)]] show ?case by simp
next
  case (2 s r rs)
  obtain t x where e: "allocate_next s r = (t, x)" by force
  show ?case
  proof (cases x)
    case None
    with next_None [OF 2(2)] e show ?thesis by auto
  next
    case (Some i)
    note t = next_Some [OF 2(2) e [unfolded Some]]
    then have "card (used t) = Suc (card (used s))" using used_finite [OF 2(2)] by simp
    with 2(3) t 2(2) have "free t \<le> int (length rs)" by (simp add: free_eq)
    with "2.IH" e Some t have "used (fst (drain t rs)) = {..<cap t}" by simp
    with t e Some show ?thesis by (simp add: case_prod_unfold Let_def)
  qed
qed

end

section \<open>Bitmap state and construction\<close>

datatype scan_strategy = RandomScan | ContiguousScan

record allocation_bitmap =
  bm_strategy :: scan_strategy
  bm_max :: nat
  bm_rangeSpec :: prefix
  bm_count :: nat
  bm_allocated :: nat

definition NewAllocationMap :: "nat \<Rightarrow> prefix \<Rightarrow> allocation_bitmap" where
  "NewAllocationMap mx rangeSpec =
     \<lparr>bm_strategy = RandomScan, bm_max = mx, bm_rangeSpec = rangeSpec, bm_count = 0,
      bm_allocated = 0\<rparr>"

definition NewContiguousAllocationMap :: "nat \<Rightarrow> prefix \<Rightarrow> allocation_bitmap" where
  "NewContiguousAllocationMap mx rangeSpec =
     \<lparr>bm_strategy = ContiguousScan, bm_max = mx, bm_rangeSpec = rangeSpec, bm_count = 0,
      bm_allocated = 0\<rparr>"

section \<open>Operations\<close>

definition bm_Allocate :: "allocation_bitmap \<Rightarrow> nat \<Rightarrow> allocation_bitmap \<times> bool" where
  "bm_Allocate r offset =
     (if bit (bm_allocated r) offset then (r, False)
      else (r\<lparr>bm_allocated := set_bit offset (bm_allocated r), bm_count := bm_count r + 1\<rparr>, True))"

text \<open>The scan loops: \<open>i\<close> runs from 0 to \<open>max - 1\<close>; \<open>None\<close> is the \<open>(0, false)\<close> after the loop.\<close>

function random_scan :: "nat \<Rightarrow> nat \<Rightarrow> nat \<Rightarrow> nat \<Rightarrow> nat option" where
  "random_scan allocated mx offset i =
     (if i < mx then
        let at = (offset + i) mod mx in
        if \<not> bit allocated at then Some at else random_scan allocated mx offset (Suc i)
      else None)"
  by pat_completeness auto
termination
  by (relation "measure (\<lambda>(allocated, mx, offset, i). mx - i)") auto

function contiguous_scan :: "nat \<Rightarrow> nat \<Rightarrow> nat \<Rightarrow> nat option" where
  "contiguous_scan allocated mx i =
     (if i < mx then if \<not> bit allocated i then Some i else contiguous_scan allocated mx (Suc i)
      else None)"
  by pat_completeness auto
termination
  by (relation "measure (\<lambda>(allocated, mx, i). mx - i)") auto

declare random_scan.simps [simp del] contiguous_scan.simps [simp del]

definition randomScanStrategy_AllocateBit :: "nat \<Rightarrow> nat \<Rightarrow> nat \<Rightarrow> nat \<Rightarrow> nat option" where
  "randomScanStrategy_AllocateBit rnd allocated mx count =
     (if count \<ge> mx then None else random_scan allocated mx (rnd mod mx) 0)"

definition contiguousScanStrategy_AllocateBit :: "nat \<Rightarrow> nat \<Rightarrow> nat \<Rightarrow> nat option" where
  "contiguousScanStrategy_AllocateBit allocated mx count =
     (if count \<ge> mx then None else contiguous_scan allocated mx 0)"

definition bm_AllocateBit :: "allocation_bitmap \<Rightarrow> nat \<Rightarrow> nat option" where
  "bm_AllocateBit r rnd =
     (case bm_strategy r of
        RandomScan \<Rightarrow> randomScanStrategy_AllocateBit rnd (bm_allocated r) (bm_max r) (bm_count r)
      | ContiguousScan \<Rightarrow> contiguousScanStrategy_AllocateBit (bm_allocated r) (bm_max r) (bm_count r))"

definition bm_AllocateNext :: "allocation_bitmap \<Rightarrow> nat \<Rightarrow> allocation_bitmap \<times> nat option" where
  "bm_AllocateNext r rnd =
     (case bm_AllocateBit r rnd of
        None \<Rightarrow> (r, None)
      | Some nxt \<Rightarrow>
          (r\<lparr>bm_count := bm_count r + 1, bm_allocated := set_bit nxt (bm_allocated r)\<rparr>, Some nxt))"

definition bm_Release :: "allocation_bitmap \<Rightarrow> nat \<Rightarrow> allocation_bitmap" where
  "bm_Release r offset =
     (if \<not> bit (bm_allocated r) offset then r
      else r\<lparr>bm_allocated := unset_bit offset (bm_allocated r), bm_count := bm_count r - 1\<rparr>)"

definition bm_Has :: "allocation_bitmap \<Rightarrow> nat \<Rightarrow> bool" where
  "bm_Has r offset = bit (bm_allocated r) offset"

definition bm_Free :: "allocation_bitmap \<Rightarrow> int" where
  "bm_Free r = int (bm_max r) - int (bm_count r)"

text \<open>
  \<open>ForEach\<close> walks the 64-bit words of the big integer (\<open>big.Int.Bits\<close>, least significant word
  first) and, in each word, the bits from the lowest up.
\<close>

definition notZero :: u64 where
  "notZero = NOT 0"

definition wordPower :: u64 where
  "wordPower = (drop_bit 8 notZero AND 1) + (drop_bit 16 notZero AND 1) + (drop_bit 32 notZero AND 1)"

definition wordSize :: nat where
  "wordSize = push_bit (unat wordPower) 1"

function big_words :: "nat \<Rightarrow> u64 list" where
  "big_words n = (if n = 0 then [] else word_of_nat n # big_words (n div 2 ^ 64))"
  by pat_completeness auto
termination
  by (relation "measure id") auto

function word_bits :: "u64 \<Rightarrow> nat \<Rightarrow> nat list" where
  "word_bits w b =
     (if w > 0 then
        (if w AND 1 \<noteq> 0 then b # word_bits (drop_bit 1 (w AND NOT 1)) (Suc b)
         else word_bits (drop_bit 1 w) (Suc b))
      else [])"
  by pat_completeness auto
termination
  by (relation "measure (\<lambda>(w, b). unat w)")
    (simp_all only: drop_bit_clear_lsb unat_drop_bit_1 in_measure prod.case,
     auto simp: unat_gt_0)

declare big_words.simps [simp del] word_bits.simps [simp del]

fun for_each_words :: "nat \<Rightarrow> u64 list \<Rightarrow> nat list" where
  "for_each_words wordIdx [] = []"
| "for_each_words wordIdx (word # words) =
     map (\<lambda>b. wordIdx * wordSize * 8 + b) (word_bits word 0) @ for_each_words (Suc wordIdx) words"

definition bm_ForEach :: "allocation_bitmap \<Rightarrow> nat list" where
  "bm_ForEach r = for_each_words 0 (big_words (bm_allocated r))"

definition ones_count :: "u64 \<Rightarrow> nat" where
  "ones_count w = length (filter (bit w) [0..<64])"

definition countBits :: "nat \<Rightarrow> nat" where
  "countBits n = sum_list (map ones_count (big_words n))"

text \<open>\<open>big.Int.Bytes\<close> (big endian, no leading zero) and \<open>SetBytes\<close>.\<close>

function big_bytes_le :: "nat \<Rightarrow> u8 list" where
  "big_bytes_le n = (if n = 0 then [] else word_of_nat n # big_bytes_le (n div 256))"
  by pat_completeness auto
termination
  by (relation "measure id") auto

declare big_bytes_le.simps [simp del]

definition big_Bytes :: "nat \<Rightarrow> u8 list" where
  "big_Bytes n = rev (big_bytes_le n)"

definition big_SetBytes :: "u8 list \<Rightarrow> nat" where
  "big_SetBytes = foldl (\<lambda>acc b. acc * 256 + unat b) 0"

definition bm_Snapshot :: "allocation_bitmap \<Rightarrow> prefix \<times> u8 list" where
  "bm_Snapshot r = (bm_rangeSpec r, big_Bytes (bm_allocated r))"

datatype bitmap_error = RangeMismatch

definition bm_Restore ::
  "allocation_bitmap \<Rightarrow> prefix \<Rightarrow> u8 list \<Rightarrow> (bitmap_error, allocation_bitmap) result" where
  "bm_Restore r rangeSpec data =
     (if bm_rangeSpec r \<noteq> rangeSpec then Inl RangeMismatch
      else Inr (r\<lparr>bm_allocated := big_SetBytes data,
                  bm_count := countBits (big_SetBytes data)\<rparr>))"

section \<open>Words and bits\<close>

lemma wordSize_eq [simp]: "wordSize = 8"
  by (simp add: wordSize_def wordPower_def notZero_def and_one_eq mod_2_eq_odd even_mask_iff)

lemma word_bits_set: "set (word_bits w b) = (+) b ` {i. bit w i}"
proof (induction w b rule: word_bits.induct)
  case (1 w b)
  have shift: "{i. bit w i} = (if odd w then {0} else {}) \<union> Suc ` {i. bit (drop_bit 1 w) i}"
    by (auto simp: bit_simps image_iff bit_0 split: if_splits) (metis bit_0 not0_implies_Suc)+
  show ?case
  proof (cases "w = 0")
    case True
    then show ?thesis by (simp add: word_bits.simps)
  next
    case False
    then have pos: "w > 0" by (simp add: word_neq_0_conv)
    have odd: "w AND 1 \<noteq> 0 \<longleftrightarrow> odd w" by (simp add: and_one_eq odd_iff_mod_2_eq_one)
    show ?thesis
      using pos odd "1.IH" unfolding drop_bit_clear_lsb
      by (subst word_bits.simps, subst shift, unfold drop_bit_clear_lsb) (auto simp: image_image image_Un)
  qed
qed

lemma word_bits_ge: "x \<in> set (word_bits w b) \<Longrightarrow> b \<le> x"
  by (auto simp: word_bits_set)

lemma word_bits_sorted: "sorted_wrt (<) (word_bits w b)"
proof (induction w b rule: word_bits.induct)
  case (1 w b)
  then show ?case
    by (subst word_bits.simps) (auto dest: word_bits_ge)
qed

lemma bits_of_split: "bits_of n = {i. bit (word_of_nat n :: u64) i} \<union> (+) 64 ` bits_of (n div 2 ^ 64)"
proof -
  have a: "bit (word_of_nat n :: u64) i \<longleftrightarrow> i < 64 \<and> bit n i" for i
    by (transfer, auto simp: bit_take_bit_iff bit_of_nat_iff)
  have b: "bit (n div 2 ^ 64) i \<longleftrightarrow> bit n (64 + i)" for i
    by (simp add: bit_nat_odd div_mult2_eq power_add)
  have "i \<in> (+) 64 ` {i. bit n (64 + i)}" if "\<not> i < 64" "bit n i" for i
    using that by (intro image_eqI [of _ _ "i - 64"]) auto
  then show ?thesis unfolding bits_of_def a b by auto
qed


lemma for_each_words_set: "set (for_each_words k (big_words n)) = (+) (k * 64) ` bits_of n"
proof (induction n arbitrary: k rule: big_words.induct)
  case (1 n)
  show ?case
  proof (cases "n = 0")
    case True
    then show ?thesis by (simp add: big_words.simps)
  next
    case False
    with "1.IH" [of "Suc k"] show ?thesis
      by (subst big_words.simps, subst bits_of_split)
        (simp add: word_bits_set image_Un image_image ac_simps)
  qed
qed

lemma for_each_words_sorted: "sorted_wrt (<) (for_each_words k (big_words n))"
proof (induction n arbitrary: k rule: big_words.induct)
  case (1 n)
  show ?case
  proof (cases "n = 0")
    case True
    then show ?thesis by (simp add: big_words.simps)
  next
    case False
    have "x < y" if "x \<in> set (word_bits (word_of_nat n) 0)" "y \<in> (+) 64 ` bits_of m" for x y m
      using that by (auto simp: word_bits_set dest: bit_imp_le_length)
    with False "1.IH" [of "Suc k"] word_bits_sorted [of "word_of_nat n" 0] show ?thesis
      by (subst big_words.simps)
        (fastforce simp: sorted_wrt_append sorted_wrt_map for_each_words_set)
  qed
qed

lemma ones_count_eq: "ones_count w = card {i. bit w i}"
proof -
  have "{i. bit w i} = set (filter (bit w) [0..<64])"
    by (auto dest: bit_imp_le_length)
  then show ?thesis
    by (simp only: ones_count_def) (metis distinct_card distinct_filter distinct_upt)
qed

lemma countBits_eq: "countBits n = card (bits_of n)"
proof (induction n rule: big_words.induct)
  case (1 n)
  show ?case
  proof (cases "n = 0")
    case True
    then show ?thesis by (simp add: countBits_def big_words.simps)
  next
    case False
    let ?w = "word_of_nat n :: u64"
    have "{i. bit ?w i} \<inter> (+) 64 ` bits_of (n div 2 ^ 64) = {}"
      by (auto dest: bit_imp_le_length)
    moreover have "finite {i. bit ?w i}"
      by (rule finite_subset [of _ "{..<64}"]) (auto dest: bit_imp_le_length)
    ultimately have "card (bits_of n) = card {i. bit ?w i} + card (bits_of (n div 2 ^ 64))"
      by (subst bits_of_split) (simp add: card_Un_disjoint card_image)
    moreover have "countBits n = ones_count ?w + countBits (n div 2 ^ 64)"
      using False by (simp add: countBits_def big_words.simps [of n])
    ultimately show ?thesis using 1 False by (simp add: ones_count_eq)
  qed
qed

lemma big_SetBytes_Bytes: "big_SetBytes (big_Bytes n) = n"
proof -
  have "foldr (\<lambda>b acc. acc * 256 + unat b) (big_bytes_le n) 0 = n"
  proof (induction n rule: big_bytes_le.induct)
    case (1 n)
    then show ?case
      by (subst big_bytes_le.simps) (simp add: unat_of_nat mult.commute)
  qed
  then show ?thesis by (simp add: big_SetBytes_def big_Bytes_def foldl_conv_foldr)
qed

section \<open>The invariant and the abstract set\<close>

text \<open>
  \<open>r.count is always equal to the number of set bits\<close> (the comment of \<open>AllocationBitmap\<close>), and
  no bit at or above \<open>max\<close> is set.
\<close>

definition bm_used :: "allocation_bitmap \<Rightarrow> nat set" where
  "bm_used r = bits_of (bm_allocated r)"

definition bm_inv :: "allocation_bitmap \<Rightarrow> bool" where
  "bm_inv r \<longleftrightarrow> bm_count r = card (bm_used r) \<and> bm_used r \<subseteq> {..<bm_max r}"

lemma NewAllocationMap_inv [inv_intros]: "bm_inv (NewAllocationMap mx spec)"
  by (simp add: bm_inv_def bm_used_def NewAllocationMap_def)

lemma NewContiguousAllocationMap_inv [inv_intros]: "bm_inv (NewContiguousAllocationMap mx spec)"
  by (simp add: bm_inv_def bm_used_def NewContiguousAllocationMap_def)

lemma random_scan_Some:
  "random_scan a mx off i = Some at \<Longrightarrow> at < mx \<and> \<not> bit a at"
proof (induction a mx off i rule: random_scan.induct)
  case (1 a mx off i)
  then show ?case
    by (subst (asm) (2) random_scan.simps) (auto simp: Let_def split: if_splits)
qed

lemma random_scan_None:
  "random_scan a mx off i = None \<Longrightarrow> i \<le> j \<Longrightarrow> j < mx \<Longrightarrow> bit a ((off + j) mod mx)"
proof (induction a mx off i rule: random_scan.induct)
  case (1 a mx off i)
  have "bit a ((off + i) mod mx)" and "random_scan a mx off (Suc i) = None"
    using 1(2-4) random_scan.simps [of a mx off i] by (auto simp: Let_def split: if_splits)
  with 1 show ?case by (cases "i = j") (auto simp: Let_def)
qed

text \<open>The wrapped scan visits every offset below \<open>max\<close>.\<close>

lemma rotation_surj:
  fixes at mx off :: nat
  assumes "at < mx" "off < mx"
  shows "\<exists>j < mx. (off + j) mod mx = at"
proof (cases "off \<le> at")
  case True
  with assms show ?thesis by (intro exI [of _ "at - off"]) auto
next
  case False
  with assms have "(off + (at + mx - off)) mod mx = at" by simp
  with False assms show ?thesis by (intro exI [of _ "at + mx - off"]) auto
qed

lemma random_scan_None_full:
  assumes "random_scan a mx off 0 = None" "off < mx" "at < mx"
  shows "bit a at"
  using random_scan_None [OF assms(1)] rotation_surj [OF assms(3,2)] by auto

lemma contiguous_scan_Some:
  "contiguous_scan a mx i = Some at \<Longrightarrow> i \<le> at \<and> at < mx \<and> \<not> bit a at \<and> (\<forall>j. i \<le> j \<and> j < at \<longrightarrow> bit a j)"
proof (induction a mx i rule: contiguous_scan.induct)
  case (1 a mx i)
  show ?case
  proof (cases "i < mx \<and> bit a i")
    case True
    with 1(2) have "contiguous_scan a mx (Suc i) = Some at"
      by (simp add: contiguous_scan.simps [of a mx i])
    with 1(1) True show ?thesis by (metis Suc_leD Suc_leI le_neq_implies_less)
  next
    case False
    with 1(2) show ?thesis by (auto simp: contiguous_scan.simps [of a mx i] split: if_splits)
  qed
qed

lemma contiguous_scan_None:
  "contiguous_scan a mx i = None \<Longrightarrow> i \<le> j \<Longrightarrow> j < mx \<Longrightarrow> bit a j"
proof (induction a mx i rule: contiguous_scan.induct)
  case (1 a mx i)
  have "bit a i" and "contiguous_scan a mx (Suc i) = None"
    using 1(2-4) contiguous_scan.simps [of a mx i] by (auto split: if_splits)
  with 1 show ?case by (cases "i = j") auto
qed

lemma bm_AllocateBit_Some:
  "bm_AllocateBit r rnd = Some at \<Longrightarrow> at < bm_max r \<and> \<not> bit (bm_allocated r) at"
  by (auto simp: bm_AllocateBit_def randomScanStrategy_AllocateBit_def
      contiguousScanStrategy_AllocateBit_def split: scan_strategy.splits if_splits
      dest: random_scan_Some contiguous_scan_Some)

lemma bm_inv_full:
  assumes "bm_inv r" "bm_max r \<le> bm_count r"
  shows "bm_used r = {..<bm_max r}"
  using assms card_seteq [of "{..<bm_max r}" "bm_used r"] by (simp add: bm_inv_def)

lemma bm_AllocateBit_None:
  assumes inv: "bm_inv r" and none: "bm_AllocateBit r rnd = None"
  shows "bm_used r = {..<bm_max r}"
proof (cases "bm_max r \<le> bm_count r")
  case True
  with inv show ?thesis by (rule bm_inv_full)
next
  case False
  have "bit (bm_allocated r) at" if "at < bm_max r" for at
  proof (cases "bm_strategy r")
    case RandomScan
    with none False have "random_scan (bm_allocated r) (bm_max r) (rnd mod bm_max r) 0 = None"
      by (simp add: bm_AllocateBit_def randomScanStrategy_AllocateBit_def)
    with that show ?thesis by (auto intro: random_scan_None_full)
  next
    case ContiguousScan
    with none False have "contiguous_scan (bm_allocated r) (bm_max r) 0 = None"
      by (simp add: bm_AllocateBit_def contiguousScanStrategy_AllocateBit_def)
    with that show ?thesis by (auto intro: contiguous_scan_None)
  qed
  with inv show ?thesis by (auto simp: bm_inv_def bm_used_def)
qed

lemma bm_AllocateNext_Some:
  assumes "bm_inv r" and "bm_AllocateNext r rnd = (t, Some i)"
  shows "i < bm_max r \<and> i \<notin> bm_used r \<and> bm_used t = insert i (bm_used r) \<and> bm_inv t \<and>
    bm_max t = bm_max r"
proof -
  from assms(2) have a: "bm_AllocateBit r rnd = Some i"
    and t: "t = r\<lparr>bm_count := bm_count r + 1, bm_allocated := set_bit i (bm_allocated r)\<rparr>"
    by (auto simp: bm_AllocateNext_def split: option.splits)
  from bm_AllocateBit_Some [OF a] assms(1) t show ?thesis
    by (auto simp: bm_inv_def bm_used_def)
qed

lemma bm_ForEach_eq: "bm_ForEach r = sorted_list_of_set (bm_used r)"
proof (rule strict_sorted_equal)
  show "sorted_wrt (<) (bm_ForEach r)"
    by (simp add: bm_ForEach_def for_each_words_sorted)
  show "set (bm_ForEach r) = set (sorted_list_of_set (bm_used r))"
    by (simp add: bm_ForEach_def for_each_words_set bm_used_def)
qed simp

interpretation bitmap: offset_allocator bm_Allocate bm_AllocateNext bm_Release bm_Has bm_Free
  bm_ForEach bm_used bm_max bm_inv
proof (unfold_locales, goal_cases)
  case (1 s)
  then show ?case by (simp add: bm_inv_def)
next
  case (2 s i)
  then show ?case by (simp add: bm_Allocate_def bm_used_def)
next
  case (3 s i)
  then show ?case by (auto simp: bm_Allocate_def bm_used_def)
next
  case (4 s i)
  then show ?case by (auto simp: bm_Allocate_def bm_used_def bm_inv_def)
next
  case (5 s i)
  then show ?case by (simp add: bm_Allocate_def)
next
  case (6 s r t i)
  then show ?case by (rule bm_AllocateNext_Some)
next
  case (7 s r t)
  then show ?case
    by (auto simp: bm_AllocateNext_def split: option.splits dest: bm_AllocateBit_None)
next
  case (8 s i)
  then show ?case by (auto simp: bm_Release_def bm_used_def)
next
  case (9 s i)
  then show ?case by (auto simp: bm_Release_def bm_used_def bm_inv_def)
next
  case (10 s i)
  then show ?case by (simp add: bm_Release_def)
next
  case (11 s i)
  then show ?case by (simp add: bm_Has_def bm_used_def)
next
  case (12 s)
  then show ?case by (simp add: bm_Free_def bm_inv_def)
next
  case (13 s)
  then show ?case by (simp add: bm_ForEach_eq)
qed

end
