(* ===== verification/IP_Range.thy ===== *)
theory IP_Range
  imports Alloc_Bitmap
begin

text \<open>
  Ranges of addresses: \<open>pkg/ipam/service/ipallocator/allocator.go\<close>. A \<open>Range\<close> maps the usable
  addresses of a CIDR to the offsets of an allocation bitmap, so everything rests on
  \<open>addOffset\<close> and \<open>addrOffset\<close> being inverse on the range.
\<close>

section \<open>Address arithmetic\<close>

text \<open>
  \<open>As4\<close> panics, \<open>None\<close> here, on the zero value and on an IPv6 address that is not IPv4-mapped;
  \<open>range_contains\<close> below never reaches that case (\<open>pfx_contains_same_family\<close>).
\<close>

fun addr_as4 :: "addr \<Rightarrow> u32 option" where
  "addr_as4 (V4 a) = Some a"
| "addr_as4 (V6 a z) = (if drop_bit 32 a = 0xffff then Some (ucast a) else None)"
| "addr_as4 AddrInvalid = None"

definition max_int :: nat where
  "max_int = unat (drop_bit 1 (NOT 0 :: u64))"

definition add_offset6 :: "u128 \<Rightarrow> u64 \<Rightarrow> u128" where
  "add_offset6 b offset =
     (let hi = hi64 b; lo = lo64 b;
          newLo = lo + offset;
          hi' = (if newLo < lo then hi + 1 else hi)
      in from_hi_lo hi' newLo)"

definition addOffset :: "addr \<Rightarrow> nat \<Rightarrow> addr" where
  "addOffset base offset =
     (case base of
        V4 b \<Rightarrow> V4 (b + word_of_nat offset)
      | _ \<Rightarrow> V6 (add_offset6 (addr_as16 base) (word_of_nat offset)) [])"

definition addr_offset6 :: "u128 \<Rightarrow> u128 \<Rightarrow> nat option" where
  "addr_offset6 b a =
     (let baseHi = hi64 b; baseLo = lo64 b; addrHi = hi64 a; addrLo = lo64 a in
      if addrHi < baseHi \<or> (addrHi = baseHi \<and> addrLo < baseLo) then None
      else
        let lo = addrLo - baseLo;
            hi = (if addrLo < baseLo then addrHi - baseHi - 1 else addrHi - baseHi) in
        if hi \<noteq> 0 then None
        else if unat lo > max_int then None
        else Some (unat lo))"

definition addrOffset :: "addr \<Rightarrow> addr \<Rightarrow> nat option" where
  "addrOffset base addr =
     (case base of
        V4 b \<Rightarrow>
          (case addr_as4 addr of
             None \<Rightarrow> None
           | Some a \<Rightarrow>
               if a < b then None
               else let offset = a - b in
                 if unat offset > max_int then None else Some (unat offset))
      | _ \<Rightarrow> addr_offset6 (addr_as16 base) (addr_as16 addr))"

text \<open>
  The limits of a range: nothing for an IPv4 prefix of one bit or less and an IPv6 prefix of one
  bit or less, at most 65536 offsets for IPv6.
\<close>

definition RangeSize :: "prefix \<Rightarrow> nat" where
  "RangeSize p =
     (let bits = int (addr_bitlen (pfx_addr p)); ones = pfx_bits p in
      if bits = 32 \<and> bits - ones \<ge> 31 \<or> bits = 128 \<and> bits - ones \<ge> 127 then 0
      else if bits = 128 \<and> bits - ones \<ge> 16 then 2 ^ 16
      else 2 ^ nat (bits - ones))"

section \<open>Ranges\<close>

datatype range_error =
    ErrFull
  | ErrAllocated
  | ErrMismatchedNetwork
  | ErrNotInRange prefix
  | ErrRestoringSnapshot bitmap_error

record cidrRangeOptions =
  allowFirstIP :: bool
  allowLastIP :: bool

definition default_range_options :: cidrRangeOptions where
  "default_range_options = \<lparr>allowFirstIP = False, allowLastIP = False\<rparr>"

definition WithAllowFirstIP :: "cidrRangeOptions \<Rightarrow> cidrRangeOptions" where
  "WithAllowFirstIP o' = o'\<lparr>allowFirstIP := True\<rparr>"

definition WithAllowLastIP :: "cidrRangeOptions \<Rightarrow> cidrRangeOptions" where
  "WithAllowLastIP o' = o'\<lparr>allowLastIP := True\<rparr>"

definition WithAllowFirstLastIPs :: "cidrRangeOptions \<Rightarrow> cidrRangeOptions" where
  "WithAllowFirstLastIPs o' = o'\<lparr>allowFirstIP := True, allowLastIP := True\<rparr>"

record ip_range =
  rg_prefix :: prefix
  rg_base :: addr
  rg_max :: nat
  rg_alloc :: allocation_bitmap

definition NewCIDRRange ::
  "prefix \<Rightarrow> (cidrRangeOptions \<Rightarrow> cidrRangeOptions) list \<Rightarrow> ip_range" where
  "NewCIDRRange prefix0 opts =
     (let o' = fold (\<lambda>opt. opt) opts default_range_options;
          p = pfx_masked prefix0;
          base0 = pfx_addr p;
          size0 = RangeSize p;
          (size1, base1) = (if size0 > 2 \<and> \<not> allowFirstIP o' then (size0 - 1, addr_next base0)
                            else (size0, base0));
          size2 = (if size0 > 2 \<and> \<not> allowLastIP o' then size1 - 1 else size1)
      in \<lparr>rg_prefix = p, rg_base = base1, rg_max = size2, rg_alloc = NewAllocationMap size2 p\<rparr>)"

definition rg_Free :: "ip_range \<Rightarrow> int" where
  "rg_Free r = bm_Free (rg_alloc r)"

definition rg_Used :: "ip_range \<Rightarrow> int" where
  "rg_Used r = int (rg_max r) - bm_Free (rg_alloc r)"

definition range_contains :: "ip_range \<Rightarrow> addr \<Rightarrow> nat option" where
  "range_contains r ip =
     (if \<not> pfx_contains (rg_prefix r) ip then None
      else case addrOffset (rg_base r) ip of
             None \<Rightarrow> None
           | Some offset \<Rightarrow> if offset \<ge> rg_max r then None else Some offset)"

definition rg_Allocate :: "ip_range \<Rightarrow> addr \<Rightarrow> (range_error, ip_range) result" where
  "rg_Allocate r ip =
     (case range_contains r ip of
        None \<Rightarrow> Inl (ErrNotInRange (rg_prefix r))
      | Some offset \<Rightarrow>
          (let (al, allocated) = bm_Allocate (rg_alloc r) offset in
           if \<not> allocated then Inl ErrAllocated else Inr (r\<lparr>rg_alloc := al\<rparr>)))"

definition rg_AllocateNext :: "ip_range \<Rightarrow> nat \<Rightarrow> (range_error, ip_range \<times> addr) result" where
  "rg_AllocateNext r rnd =
     (case bm_AllocateNext (rg_alloc r) rnd of
        (al, None) \<Rightarrow> Inl ErrFull
      | (al, Some offset) \<Rightarrow> Inr (r\<lparr>rg_alloc := al\<rparr>, addOffset (rg_base r) offset))"

definition rg_Release :: "ip_range \<Rightarrow> addr \<Rightarrow> ip_range" where
  "rg_Release r ip =
     (case range_contains r ip of
        None \<Rightarrow> r
      | Some offset \<Rightarrow> r\<lparr>rg_alloc := bm_Release (rg_alloc r) offset\<rparr>)"

definition rg_ForEach :: "ip_range \<Rightarrow> addr list" where
  "rg_ForEach r = map (addOffset (rg_base r)) (bm_ForEach (rg_alloc r))"

definition rg_Has :: "ip_range \<Rightarrow> addr \<Rightarrow> bool" where
  "rg_Has r ip =
     (case range_contains r ip of None \<Rightarrow> False | Some offset \<Rightarrow> bm_Has (rg_alloc r) offset)"

definition rg_Snapshot :: "ip_range \<Rightarrow> prefix \<times> u8 list" where
  "rg_Snapshot r = bm_Snapshot (rg_alloc r)"

definition rg_Restore :: "ip_range \<Rightarrow> prefix \<Rightarrow> u8 list \<Rightarrow> (range_error, ip_range) result" where
  "rg_Restore r p data =
     (if p \<noteq> rg_prefix r then Inl ErrMismatchedNetwork
      else case bm_Restore (rg_alloc r) p data of
             Inl e \<Rightarrow> Inl (ErrRestoringSnapshot e)
           | Inr al \<Rightarrow> Inr (r\<lparr>rg_alloc := al\<rparr>))"

section \<open>The offset arithmetic is exact\<close>

lemma max_int_eq: "max_int = 2 ^ 63 - 1"
  by (simp add: max_int_def mask_eq_exp_minus_1)

lemma unat_hi_lo_eq: "unat w = unat (hi64 w) * 2 ^ 64 + unat (lo64 w)"
  unfolding unat_hi64 unat_lo64 by (rule div_mult_mod_eq [symmetric])

lemma unat_u64_less: "unat (w :: u64) < 2 ^ 64"
  using unat_less_pow [of w] by simp

lemma add_offset6_no_wrap:
  assumes "unat b + unat off < 2 ^ 128"
  shows "unat (add_offset6 b off) = unat b + unat off"
proof -
  let ?H = "unat (hi64 b)" and ?L = "unat (lo64 b)" and ?o = "unat off"
  have b: "unat b = ?H * 2 ^ 64 + ?L" by (rule unat_hi_lo_eq)
  have lt: "?L < 2 ^ 64" "?o < 2 ^ 64" "?H < 2 ^ 64" by (rule unat_u64_less)+
  have sum: "unat (lo64 b + off) = (if ?L + ?o < 2 ^ 64 then ?L + ?o else ?L + ?o - 2 ^ 64)"
    using lt by (simp add: unat_word_ariths take_bit_nat_def mod_if)
  have carry: "lo64 b + off < lo64 b \<longleftrightarrow> \<not> ?L + ?o < 2 ^ 64"
    unfolding word_less_nat_alt sum using lt by auto
  show ?thesis
  proof (cases "?L + ?o < 2 ^ 64")
    case True
    then show ?thesis using carry sum b by (simp add: add_offset6_def unat_from_hi_lo)
  next
    case False
    then have "(?H + 1) * 2 ^ 64 < 2 ^ 128" using assms b by simp
    then have "?H + 1 < 2 ^ 64" by simp
    then have "unat (hi64 b + 1) = ?H + 1" by (simp add: unat_word_ariths)
    then show ?thesis using False carry sum b by (simp add: add_offset6_def unat_from_hi_lo)
  qed
qed

lemma add_offset6_eq: "add_offset6 b off = b + ucast off"
proof (cases "unat b + unat off < 2 ^ 128")
  case True
  moreover have "unat (b + ucast off) = unat b + unat off"
    using unat_add_no_wrap [of b "unat off"] True by simp
  ultimately show ?thesis by (simp add: add_offset6_no_wrap word_unat_eq_iff)
next
  case False
  let ?H = "unat (hi64 b)" and ?L = "unat (lo64 b)" and ?o = "unat off"
  have b: "unat b = ?H * 2 ^ 64 + ?L" by (rule unat_hi_lo_eq)
  have lt: "?L < 2 ^ 64" "?o < 2 ^ 64" "?H < 2 ^ 64" by (rule unat_u64_less)+
  with False b have H: "?H = 2 ^ 64 - 1" and c: "\<not> ?L + ?o < 2 ^ 64" by auto
  have sum: "unat (lo64 b + off) = ?L + ?o - 2 ^ 64"
    using lt c by (simp add: unat_word_ariths take_bit_nat_def mod_if)
  then have "lo64 b + off < lo64 b"
    unfolding word_less_nat_alt using lt c by auto
  moreover have "unat (hi64 b + 1) = 0" using H by (simp add: unat_word_ariths)
  ultimately have "unat (add_offset6 b off) = ?L + ?o - 2 ^ 64"
    using sum by (simp add: add_offset6_def unat_from_hi_lo)
  moreover have "unat (b + ucast off) = ?L + ?o - 2 ^ 64"
    using False b H lt by (simp add: unat_word_ariths unsigned_ucast_eq take_bit_nat_eq_self mod_if)
  ultimately show ?thesis by (simp add: word_unat_eq_iff)
qed

lemma addr_offset6_eq:
  "addr_offset6 b a =
     (if unat b \<le> unat a \<and> unat a - unat b \<le> max_int then Some (unat a - unat b) else None)"
proof -
  let ?H = "unat (hi64 b)" and ?L = "unat (lo64 b)" and ?H' = "unat (hi64 a)" and ?L' = "unat (lo64 a)"
  have b: "unat b = ?H * 2 ^ 64 + ?L" and a: "unat a = ?H' * 2 ^ 64 + ?L'" by (rule unat_hi_lo_eq)+
  have lt: "?L < 2 ^ 64" "?L' < 2 ^ 64" "?H < 2 ^ 64" "?H' < 2 ^ 64" by (rule unat_u64_less)+
  have before: "hi64 a < hi64 b \<or> (hi64 a = hi64 b \<and> lo64 a < lo64 b) \<longleftrightarrow> unat a < unat b"
    unfolding word_less_nat_alt word_unat_eq_iff using a b lt by auto
  show ?thesis
  proof (cases "unat a < unat b")
    case True
    then show ?thesis using before by (auto simp: addr_offset6_def Let_def)
  next
    case False
    show ?thesis
    proof (cases "lo64 a < lo64 b")
      case True
      then have l: "?L' < ?L" by (simp add: word_less_nat_alt)
      with False a b have h: "?H < ?H'" by (metis add_less_mono less_le_not_le mult_le_mono1 not_less order_less_imp_le add_le_less_mono)
      have "unat (hi64 a - hi64 b - 1) = ?H' - ?H - 1"
        using h by (simp add: unat_sub_if' word_le_nat_alt)
      moreover have "unat (lo64 a - lo64 b) = ?L' + 2 ^ 64 - ?L"
        using l by (simp add: unat_sub_if')
      moreover have "unat a - unat b = (?H' - ?H - 1) * 2 ^ 64 + (?L' + 2 ^ 64 - ?L)"
        using a b h l lt by (simp add: algebra_simps)
      ultimately show ?thesis using False before True
        by (auto simp: addr_offset6_def Let_def max_int_eq word_unat_eq_iff)
    next
      case lo: False
      then have l: "?L \<le> ?L'" by (simp add: word_less_nat_alt)
      with False a b lt have h: "?H \<le> ?H'" by auto
      have "unat (hi64 a - hi64 b) = ?H' - ?H" "unat (lo64 a - lo64 b) = ?L' - ?L"
        using h l by (simp_all add: unat_sub_if')
      moreover have "unat a - unat b = (?H' - ?H) * 2 ^ 64 + (?L' - ?L)"
        using a b h l by (simp add: diff_mult_distrib)
      ultimately show ?thesis using False before lo lt
        by (auto simp: addr_offset6_def Let_def max_int_eq word_unat_eq_iff)
    qed
  qed
qed

lemma addOffset_val:
  assumes "addr_is_valid base" "addr_val base + off < 2 ^ addr_bitlen base" "off \<le> max_int"
  shows "addr_val (addOffset base off) = addr_val base + off"
proof (cases base)
  case (V4 b)
  with assms show ?thesis using unat_add_no_wrap [of b off] by (simp add: addOffset_def)
next
  case (V6 b z)
  have "unat (word_of_nat off :: u64) = off"
    using assms(3) by (simp add: max_int_eq unat_of_nat)
  with V6 assms(2) show ?thesis
    using add_offset6_no_wrap [of b "word_of_nat off"] by (simp add: addOffset_def)
qed (use assms in simp)

lemma addOffset_family:
  "addr_is_valid base \<Longrightarrow> same_family base (addOffset base off) \<and> \<not> addr_has_zone (addOffset base off)"
  by (cases base) (simp_all add: addOffset_def)

lemma addrOffset_eq:
  assumes "same_family base a"
  shows "addrOffset base a =
    (if addr_val base \<le> addr_val a \<and> addr_val a - addr_val base \<le> max_int
     then Some (addr_val a - addr_val base) else None)"
proof (cases base)
  case (V4 b)
  with assms obtain a' where "a = V4 a'" by (cases a) auto
  moreover have "unat (a' - b) = unat a' - unat b" if "unat b \<le> unat a'"
    using that by (simp add: unat_sub_if')
  ultimately show ?thesis using V4
    by (auto simp: addrOffset_def word_less_nat_alt Let_def)
next
  case (V6 b z)
  with assms obtain a' z' where "a = V6 a' z'" by (cases a) auto
  with V6 show ?thesis by (simp add: addrOffset_def addr_offset6_eq)
qed (use assms in simp)

section \<open>The invariant of a range\<close>

text \<open>
  The usable block \<open>[base, base + max)\<close> lies inside the masked prefix, and the bitmap has one
  offset for each of its addresses.
\<close>

definition rg_inv :: "ip_range \<Rightarrow> bool" where
  "rg_inv r \<longleftrightarrow>
     bm_inv (rg_alloc r) \<and> bm_max (rg_alloc r) = rg_max r \<and> bm_rangeSpec (rg_alloc r) = rg_prefix r \<and>
     pfx_wf (rg_prefix r) \<and> pfx_is_masked (rg_prefix r) \<and>
     same_family (pfx_addr (rg_prefix r)) (rg_base r) \<and> \<not> addr_has_zone (rg_base r) \<and>
     addr_val (pfx_addr (rg_prefix r)) \<le> addr_val (rg_base r) \<and>
     addr_val (rg_base r) + rg_max r \<le> addr_val (pfx_addr (rg_prefix r)) + 2 ^ pfx_host_bits (rg_prefix r) \<and>
     rg_max r \<le> max_int"

definition rg_usable :: "ip_range \<Rightarrow> addr set" where
  "rg_usable r = addOffset (rg_base r) ` {..<rg_max r}"

definition rg_addrs :: "ip_range \<Rightarrow> addr set" where
  "rg_addrs r = addOffset (rg_base r) ` bm_used (rg_alloc r)"

lemma same_family_trans: "same_family a b \<Longrightarrow> same_family b c \<Longrightarrow> same_family a c"
  by (cases a; cases b; cases c) auto

lemma same_family_sym: "same_family a b \<Longrightarrow> same_family b a"
  by (cases a; cases b) auto

lemma same_family_bitlen: "same_family a b \<Longrightarrow> addr_bitlen a = addr_bitlen b"
  by (cases a; cases b) auto

lemma same_family_valid: "same_family a b \<Longrightarrow> addr_is_valid a \<and> addr_is_valid b"
  by (cases a; cases b) auto

lemma pfx_block_bound:
  assumes "pfx_wf p" "pfx_is_masked p"
  shows "addr_val (pfx_addr p) + 2 ^ pfx_host_bits p \<le> 2 ^ addr_bitlen (pfx_addr p)"
proof -
  let ?v = "addr_val (pfx_addr p)" and ?h = "pfx_host_bits p" and ?L = "addr_bitlen (pfx_addr p)"
  have "?h \<le> ?L" by (simp add: pfx_host_bits_def)
  then have L: "(2::nat) ^ ?L = 2 ^ (?L - ?h) * 2 ^ ?h" by (simp flip: power_add)
  obtain q where q: "?v = q * 2 ^ ?h"
    using assms(2) by (auto simp: pfx_is_masked_def mod_eq_0_iff_dvd elim!: dvdE)
  have "?v < 2 ^ ?L" by (rule addr_val_bound)
  with q L have "q < 2 ^ (?L - ?h)" by (metis mult_less_cancel2)
  then have "Suc q * 2 ^ ?h \<le> 2 ^ (?L - ?h) * 2 ^ ?h" by (intro mult_le_mono1) simp
  with q L show ?thesis by simp
qed

lemma rg_inv_offset:
  assumes "rg_inv r" "off < rg_max r"
  shows "addr_val (addOffset (rg_base r) off) = addr_val (rg_base r) + off"
    and "same_family (rg_base r) (addOffset (rg_base r) off)"
    and "\<not> addr_has_zone (addOffset (rg_base r) off)"
    and "pfx_contains (rg_prefix r) (addOffset (rg_base r) off)"
proof -
  let ?p = "rg_prefix r" and ?b = "rg_base r"
  from assms(1) have i: "pfx_wf ?p" "pfx_is_masked ?p" "same_family (pfx_addr ?p) ?b"
    "addr_val (pfx_addr ?p) \<le> addr_val ?b"
    "addr_val ?b + rg_max r \<le> addr_val (pfx_addr ?p) + 2 ^ pfx_host_bits ?p" "rg_max r \<le> max_int"
    by (simp_all add: rg_inv_def)
  have v: "addr_is_valid ?b" using i(3) by (simp add: same_family_valid)
  have "addr_val ?b + rg_max r \<le> 2 ^ addr_bitlen ?b"
    using pfx_block_bound [OF i(1,2)] i(5) same_family_bitlen [OF i(3)] by simp
  then show val: "addr_val (addOffset ?b off) = addr_val ?b + off"
    using assms(2) i(6) v by (intro addOffset_val) auto
  show fam: "same_family ?b (addOffset ?b off)" and z: "\<not> addr_has_zone (addOffset ?b off)"
    using addOffset_family [OF v] by auto
  show "pfx_contains ?p (addOffset ?b off)"
    unfolding pfx_contains_iff [OF i(1,2)]
    using same_family_trans [OF i(3) fam] z val i(4,5) assms(2) by auto
qed

text \<open>\<open>contains\<close> decides membership in the usable block and computes the offset.\<close>

lemma range_contains_iff:
  assumes "rg_inv r"
  shows "range_contains r ip = Some off \<longleftrightarrow> off < rg_max r \<and> ip = addOffset (rg_base r) off"
proof
  assume c: "range_contains r ip = Some off"
  then have p: "pfx_contains (rg_prefix r) ip" and o: "addrOffset (rg_base r) ip = Some off"
    and lt: "off < rg_max r"
    by (auto simp: range_contains_def split: if_splits option.splits)
  from assms have b: "same_family (pfx_addr (rg_prefix r)) (rg_base r)" by (simp add: rg_inv_def)
  have fam: "same_family (rg_base r) ip"
    using same_family_trans [OF same_family_sym [OF b] pfx_contains_same_family [OF p]] .
  from o addrOffset_eq [OF fam] have "addr_val ip = addr_val (rg_base r) + off"
    by (auto split: if_splits)
  with rg_inv_offset [OF assms lt] pfx_contains_no_zone [OF p] fam have "ip = addOffset (rg_base r) off"
    by (intro same_family_val_eq) (auto intro: same_family_trans same_family_sym)
  with lt show "off < rg_max r \<and> ip = addOffset (rg_base r) off" by simp
next
  assume c: "off < rg_max r \<and> ip = addOffset (rg_base r) off"
  moreover from assms have "rg_max r \<le> max_int" by (simp add: rg_inv_def)
  ultimately show "range_contains r ip = Some off"
    using rg_inv_offset [OF assms, of off] addrOffset_eq [of "rg_base r" ip]
    by (simp add: range_contains_def)
qed

lemma range_contains_None:
  assumes "rg_inv r"
  shows "range_contains r ip = None \<longleftrightarrow> ip \<notin> rg_usable r"
  using range_contains_iff [OF assms, of ip]
  by (cases "range_contains r ip") (auto simp: rg_usable_def)

lemma addOffset_inj:
  assumes "rg_inv r" shows "inj_on (addOffset (rg_base r)) {..<rg_max r}"
proof (rule inj_onI)
  fix x y
  assume "x \<in> {..<rg_max r}" and "y \<in> {..<rg_max r}"
    and e: "addOffset (rg_base r) x = addOffset (rg_base r) y"
  then have "x < rg_max r" and "y < rg_max r" by simp_all
  from this [THEN rg_inv_offset(1) [OF assms]]
  have "addr_val (rg_base r) + x = addr_val (rg_base r) + y" using e by metis
  then show "x = y" by simp
qed

lemma bm_used_below: "rg_inv r \<Longrightarrow> bm_used (rg_alloc r) \<subseteq> {..<rg_max r}"
  using bitmap.used_bounded [of "rg_alloc r"] by (simp add: rg_inv_def)

lemma rg_addrs_usable: "rg_inv r \<Longrightarrow> rg_addrs r \<subseteq> rg_usable r"
  using bm_used_below by (auto simp: rg_addrs_def rg_usable_def)

lemma rg_usable_contains: "rg_inv r \<Longrightarrow> a \<in> rg_usable r \<Longrightarrow> pfx_contains (rg_prefix r) a"
  by (auto simp: rg_usable_def rg_inv_offset)

lemma in_rg_addrs_iff:
  assumes "rg_inv r" "off < rg_max r"
  shows "addOffset (rg_base r) off \<in> rg_addrs r \<longleftrightarrow> off \<in> bm_used (rg_alloc r)"
  unfolding rg_addrs_def
  using inj_on_image_mem_iff [OF addOffset_inj [OF assms(1)] _ bm_used_below [OF assms(1)]] assms(2)
  by simp

lemma card_rg_addrs: "rg_inv r \<Longrightarrow> card (rg_addrs r) = card (bm_used (rg_alloc r))"
  unfolding rg_addrs_def
  by (rule card_image) (rule inj_on_subset [OF addOffset_inj bm_used_below])

lemma card_rg_usable: "rg_inv r \<Longrightarrow> card (rg_usable r) = rg_max r"
  unfolding rg_usable_def by (simp add: card_image addOffset_inj)

lemma finite_rg_addrs [simp]: "finite (rg_addrs r)"
  by (simp add: rg_addrs_def bm_used_def)

section \<open>What the operations do\<close>

lemma rg_Allocate_ok:
  assumes "rg_inv r"
  shows "is_ok (rg_Allocate r ip) \<longleftrightarrow> ip \<in> rg_usable r \<and> ip \<notin> rg_addrs r"
proof (cases "range_contains r ip")
  case None
  moreover from this have "ip \<notin> rg_usable r" by (simp add: range_contains_None [OF assms])
  ultimately show ?thesis by (simp add: rg_Allocate_def)
next
  case (Some off)
  then have o: "off < rg_max r" "ip = addOffset (rg_base r) off"
    by (simp_all add: range_contains_iff [OF assms])
  have "snd (bm_Allocate (rg_alloc r) off) \<longleftrightarrow> off \<notin> bm_used (rg_alloc r)"
    using assms o(1) by (intro bitmap.allocate_ok) (auto simp: rg_inv_def)
  with Some o in_rg_addrs_iff [OF assms o(1)] show ?thesis
    by (auto simp: rg_Allocate_def rg_usable_def case_prod_unfold Let_def)
qed

lemma rg_Allocate_errors:
  assumes "rg_inv r" "rg_Allocate r ip = Inl e"
  shows "e = (if ip \<in> rg_usable r then ErrAllocated else ErrNotInRange (rg_prefix r))"
  using assms(2) range_contains_None [OF assms(1), of ip]
  by (auto simp: rg_Allocate_def case_prod_unfold Let_def split: option.splits if_splits)

lemma rg_Allocate_Inr:
  assumes "rg_inv r" "rg_Allocate r ip = Inr t"
  shows "rg_inv t \<and> rg_addrs t = insert ip (rg_addrs r) \<and> rg_prefix t = rg_prefix r \<and>
    rg_usable t = rg_usable r"
proof -
  obtain off where o: "range_contains r ip = Some off"
    and t: "t = r\<lparr>rg_alloc := fst (bm_Allocate (rg_alloc r) off)\<rparr>"
    using assms(2) by (auto simp: rg_Allocate_def case_prod_unfold Let_def split: option.splits if_splits)
  from o have off: "off < rg_max r" "ip = addOffset (rg_base r) off"
    by (simp_all add: range_contains_iff [OF assms(1)])
  have b: "bm_inv (rg_alloc r)" "off < bm_max (rg_alloc r)" using assms(1) off by (auto simp: rg_inv_def)
  have "bm_rangeSpec (fst (bm_Allocate (rg_alloc r) off)) = bm_rangeSpec (rg_alloc r)"
    by (simp add: bm_Allocate_def)
  then show ?thesis
    using assms(1) t off bitmap.allocate_inv [OF b] bitmap.allocate_cap bitmap.allocate_used [OF b]
    by (simp add: rg_inv_def rg_addrs_def rg_usable_def)
qed

lemma rg_AllocateNext_Inr:
  assumes "rg_inv r" "rg_AllocateNext r rnd = Inr (t, ip)"
  shows "rg_inv t \<and> ip \<in> rg_usable r \<and> ip \<notin> rg_addrs r \<and> rg_addrs t = insert ip (rg_addrs r) \<and>
    rg_prefix t = rg_prefix r \<and> rg_usable t = rg_usable r"
proof -
  obtain al off where n: "bm_AllocateNext (rg_alloc r) rnd = (al, Some off)"
    and t: "t = r\<lparr>rg_alloc := al\<rparr>" "ip = addOffset (rg_base r) off"
    using assms(2) by (auto simp: rg_AllocateNext_def split: prod.splits option.splits)
  have b: "bm_inv (rg_alloc r)" "bm_max (rg_alloc r) = rg_max r" using assms(1) by (auto simp: rg_inv_def)
  note a = bitmap.next_Some [OF b(1) n]
  have "bm_rangeSpec al = bm_rangeSpec (rg_alloc r)"
    using n by (auto simp: bm_AllocateNext_def split: option.splits)
  then show ?thesis
    using assms(1) t a b in_rg_addrs_iff [OF assms(1), of off]
    by (simp add: rg_inv_def rg_addrs_def rg_usable_def)
qed

lemma rg_AllocateNext_Inl:
  assumes "rg_inv r"
  shows "rg_AllocateNext r rnd = Inl e \<longleftrightarrow> e = ErrFull \<and> rg_addrs r = rg_usable r"
proof -
  have b: "bm_inv (rg_alloc r)" "bm_max (rg_alloc r) = rg_max r" using assms by (auto simp: rg_inv_def)
  have full: "rg_addrs r = rg_usable r \<longleftrightarrow> bm_used (rg_alloc r) = {..<rg_max r}"
    unfolding rg_addrs_def rg_usable_def
    using inj_on_image_eq_iff [OF addOffset_inj [OF assms] bm_used_below [OF assms]] by auto
  obtain al x where n: "bm_AllocateNext (rg_alloc r) rnd = (al, x)" by force
  show ?thesis
  proof (cases x)
    case None
    with bitmap.next_None [OF b(1)] n b(2) full show ?thesis by (auto simp: rg_AllocateNext_def)
  next
    case (Some off)
    with bitmap.next_Some [OF b(1), of rnd al off] n b(2)
    have "off < rg_max r" "off \<notin> bm_used (rg_alloc r)" by auto
    then have "rg_addrs r \<noteq> rg_usable r" unfolding full by auto
    with n Some show ?thesis by (simp add: rg_AllocateNext_def)
  qed
qed

lemma rg_Release_spec:
  assumes "rg_inv r"
  shows "rg_inv (rg_Release r ip) \<and> rg_addrs (rg_Release r ip) = rg_addrs r - {ip} \<and>
    rg_prefix (rg_Release r ip) = rg_prefix r \<and> rg_usable (rg_Release r ip) = rg_usable r"
proof (cases "range_contains r ip")
  case None
  with range_contains_None [OF assms] rg_addrs_usable [OF assms] have "ip \<notin> rg_addrs r" by blast
  with None assms show ?thesis by (simp add: rg_Release_def)
next
  case (Some off)
  then have o: "off < rg_max r" "ip = addOffset (rg_base r) off"
    by (simp_all add: range_contains_iff [OF assms])
  have b: "bm_inv (rg_alloc r)" using assms by (simp add: rg_inv_def)
  have "bm_rangeSpec (bm_Release (rg_alloc r) off) = bm_rangeSpec (rg_alloc r)"
    by (simp add: bm_Release_def)
  then have inv: "rg_inv (rg_Release r ip)"
    using Some assms bitmap.release_inv [OF b] bitmap.release_cap by (simp add: rg_inv_def rg_Release_def)
  have "addOffset (rg_base r) ` (bm_used (rg_alloc r) - {off}) = rg_addrs r - {ip}"
    unfolding rg_addrs_def o(2)
    using inj_on_image_set_diff [OF addOffset_inj [OF assms], of "bm_used (rg_alloc r)" "{off}"]
      bm_used_below [OF assms] o(1) by auto
  with Some inv show ?thesis
    by (simp add: rg_Release_def rg_addrs_def rg_usable_def bitmap.release_used [OF b])
qed

lemma rg_Has_iff: "rg_inv r \<Longrightarrow> rg_Has r ip \<longleftrightarrow> ip \<in> rg_addrs r"
proof -
  assume i: "rg_inv r"
  then have b: "bm_inv (rg_alloc r)" by (simp add: rg_inv_def)
  show ?thesis
  proof (cases "range_contains r ip")
    case None
    with range_contains_None [OF i] rg_addrs_usable [OF i] have "ip \<notin> rg_addrs r" by blast
    with None show ?thesis by (simp add: rg_Has_def)
  next
    case (Some off)
    with range_contains_iff [OF i, of ip off] in_rg_addrs_iff [OF i, of off] bitmap.has_iff [OF b]
    show ?thesis by (simp add: rg_Has_def)
  qed
qed

lemma rg_ForEach_set: "set (rg_ForEach r) = rg_addrs r"
  by (simp add: rg_ForEach_def rg_addrs_def bm_ForEach_eq bm_used_def)

lemma rg_Free_eq: "rg_inv r \<Longrightarrow> rg_Free r = int (card (rg_usable r)) - int (card (rg_addrs r))"
  by (simp add: rg_Free_def card_rg_usable card_rg_addrs bitmap.free_eq rg_inv_def)

section \<open>Construction\<close>

lemma RangeSize_le:
  assumes "pfx_wf p"
  shows "RangeSize p \<le> 2 ^ pfx_host_bits p" and "RangeSize p \<le> max_int"
proof -
  let ?L = "addr_bitlen (pfx_addr p)"
  have L: "?L = 32 \<or> ?L = 128" using assms by (cases "pfx_addr p") (auto simp: pfx_wf_def)
  have h: "nat (int ?L - pfx_bits p) = pfx_host_bits p"
    using pfx_bits_nonneg [OF assms] by (simp add: pfx_host_bits_def nat_diff_distrib)
  have b: "pfx_bits p \<le> int ?L" using assms by (simp add: pfx_wf_def)
  have "(2::nat) ^ 16 \<le> 2 ^ nat (int ?L - pfx_bits p)" if "16 \<le> int ?L - pfx_bits p"
    using that by (intro power_increasing) auto
  then show "RangeSize p \<le> 2 ^ pfx_host_bits p"
    using h by (auto simp: RangeSize_def Let_def)
  show "RangeSize p \<le> max_int"
  proof (cases "RangeSize p = 0 \<or> RangeSize p = 2 ^ 16")
    case True
    then show ?thesis by (auto simp: max_int_eq)
  next
    case False
    then have "nat (int ?L - pfx_bits p) \<le> 31" and "RangeSize p = 2 ^ nat (int ?L - pfx_bits p)"
      using L by (auto simp: RangeSize_def Let_def split: if_splits)
    then have "RangeSize p \<le> 2 ^ 31" by (simp only: power_increasing one_le_numeral)
    also have "\<dots> \<le> max_int" by (simp add: max_int_eq)
    finally show ?thesis .
  qed
qed

lemma addr_next_val:
  assumes "addr_is_valid a" "\<not> addr_has_zone a" "addr_val a + 1 < 2 ^ addr_bitlen a"
  shows "addr_val (addr_next a) = addr_val a + 1 \<and> same_family a (addr_next a) \<and> \<not> addr_has_zone (addr_next a)"
proof (cases a)
  case (V4 w)
  with assms unat_add_no_wrap [of w 1] have "unat (w + 1) = unat w + 1" by simp
  moreover from this have "w + 1 \<noteq> 0" by auto
  ultimately show ?thesis using V4 by simp
next
  case (V6 w z)
  with assms unat_add_no_wrap [of w 1] have "unat (w + 1) = unat w + 1" by simp
  moreover from this have "w + 1 \<noteq> 0" by auto
  ultimately show ?thesis using V6 assms by simp
qed (use assms in simp)

lemma NewCIDRRange_inv [inv_intros]:
  assumes "pfx_wf p"
  shows "rg_inv (NewCIDRRange p opts)" and "rg_addrs (NewCIDRRange p opts) = {}"
proof -
  let ?q = "pfx_masked p"
  have w: "pfx_wf ?q" and m: "pfx_is_masked ?q"
    using assms pfx_masked_is_masked by auto
  have v: "addr_is_valid (pfx_addr ?q)" "\<not> addr_has_zone (pfx_addr ?q)" using w by (auto simp: pfx_wf_def)
  note le = RangeSize_le [OF w]
  have nx: "addr_val (addr_next (pfx_addr ?q)) = addr_val (pfx_addr ?q) + 1 \<and>
      same_family (pfx_addr ?q) (addr_next (pfx_addr ?q)) \<and> \<not> addr_has_zone (addr_next (pfx_addr ?q))"
    if "2 < RangeSize ?q"
    using that le(1) pfx_block_bound [OF w m] by (intro addr_next_val v) linarith
  have fam: "same_family (pfx_addr ?q) (pfx_addr ?q)" using v by (cases "pfx_addr ?q") auto
  show "rg_inv (NewCIDRRange p opts)"
    using w m v fam nx le NewAllocationMap_inv
    by (auto simp: rg_inv_def NewCIDRRange_def Let_def NewAllocationMap_def)
  show "rg_addrs (NewCIDRRange p opts) = {}"
    by (simp add: rg_addrs_def NewCIDRRange_def Let_def NewAllocationMap_def bm_used_def case_prod_unfold)
qed

text \<open>The usable block, for the options as they are after all have been applied.\<close>

definition range_options :: "(cidrRangeOptions \<Rightarrow> cidrRangeOptions) list \<Rightarrow> cidrRangeOptions" where
  "range_options opts = fold (\<lambda>opt. opt) opts default_range_options"

lemma NewCIDRRange_block:
  assumes "pfx_wf p"
  shows "rg_prefix (NewCIDRRange p opts) = pfx_masked p"
    and "addr_val (rg_base (NewCIDRRange p opts)) = addr_val (pfx_addr (pfx_masked p)) +
      (if 2 < RangeSize (pfx_masked p) \<and> \<not> allowFirstIP (range_options opts) then 1 else 0)"
    and "rg_max (NewCIDRRange p opts) = RangeSize (pfx_masked p) -
      (if 2 < RangeSize (pfx_masked p) \<and> \<not> allowFirstIP (range_options opts) then 1 else 0) -
      (if 2 < RangeSize (pfx_masked p) \<and> \<not> allowLastIP (range_options opts) then 1 else 0)"
proof -
  let ?q = "pfx_masked p"
  have w: "pfx_wf ?q" and m: "pfx_is_masked ?q" using assms pfx_masked_is_masked by auto
  have "addr_val (addr_next (pfx_addr ?q)) = addr_val (pfx_addr ?q) + 1" if "2 < RangeSize ?q"
  proof -
    have "addr_val (pfx_addr ?q) + 1 < 2 ^ addr_bitlen (pfx_addr ?q)"
      using that RangeSize_le(1) [OF w] pfx_block_bound [OF w m] by linarith
    with w show ?thesis by (simp add: addr_next_val pfx_wf_def)
  qed
  then show "rg_prefix (NewCIDRRange p opts) = ?q"
    "addr_val (rg_base (NewCIDRRange p opts)) = addr_val (pfx_addr ?q) +
      (if 2 < RangeSize ?q \<and> \<not> allowFirstIP (range_options opts) then 1 else 0)"
    "rg_max (NewCIDRRange p opts) = RangeSize ?q - (if 2 < RangeSize ?q \<and> \<not> allowFirstIP (range_options opts) then 1 else 0) -
      (if 2 < RangeSize ?q \<and> \<not> allowLastIP (range_options opts) then 1 else 0)"
    by (auto simp: NewCIDRRange_def Let_def range_options_def)
qed

text \<open>The options of the package.\<close>

definition range_option_set :: "(cidrRangeOptions \<Rightarrow> cidrRangeOptions) set" where
  "range_option_set = {WithAllowFirstIP, WithAllowLastIP, WithAllowFirstLastIPs}"

lemma range_options_eq:
  assumes "set opts \<subseteq> range_option_set"
  shows "allowFirstIP (range_options opts) \<longleftrightarrow> WithAllowFirstIP \<in> set opts \<or> WithAllowFirstLastIPs \<in> set opts"
    and "allowLastIP (range_options opts) \<longleftrightarrow> WithAllowLastIP \<in> set opts \<or> WithAllowFirstLastIPs \<in> set opts"
proof -
  have d: "WithAllowFirstIP default_range_options = \<lparr>allowFirstIP = True, allowLastIP = False\<rparr>"
    "WithAllowLastIP default_range_options = \<lparr>allowFirstIP = False, allowLastIP = True\<rparr>"
    "WithAllowFirstLastIPs default_range_options = \<lparr>allowFirstIP = True, allowLastIP = True\<rparr>"
    by (simp_all add: WithAllowFirstIP_def WithAllowLastIP_def WithAllowFirstLastIPs_def default_range_options_def)
  then have ne: "WithAllowFirstIP \<noteq> WithAllowLastIP" "WithAllowFirstIP \<noteq> WithAllowFirstLastIPs" "WithAllowLastIP \<noteq> WithAllowFirstLastIPs"
    by (metis cidrRangeOptions.ext_inject)+
  have "(allowFirstIP (fold (\<lambda>opt. opt) opts o') \<longleftrightarrow> allowFirstIP o' \<or> WithAllowFirstIP \<in> set opts \<or> WithAllowFirstLastIPs \<in> set opts) \<and>
      (allowLastIP (fold (\<lambda>opt. opt) opts o') \<longleftrightarrow> allowLastIP o' \<or> WithAllowLastIP \<in> set opts \<or> WithAllowFirstLastIPs \<in> set opts)" for o'
    using assms
  proof (induction opts arbitrary: o')
    case (Cons opt opts)
    then consider "opt = WithAllowFirstIP" | "opt = WithAllowLastIP" | "opt = WithAllowFirstLastIPs" by (auto simp: range_option_set_def)
    then have "(allowFirstIP (opt o') \<longleftrightarrow> allowFirstIP o' \<or> opt \<in> {WithAllowFirstIP, WithAllowFirstLastIPs}) \<and>
        (allowLastIP (opt o') \<longleftrightarrow> allowLastIP o' \<or> opt \<in> {WithAllowLastIP, WithAllowFirstLastIPs})"
      by cases (use ne in \<open>auto simp: WithAllowFirstIP_def WithAllowLastIP_def WithAllowFirstLastIPs_def\<close>)
    with Cons.IH [of "opt o'"] Cons.prems show ?case by auto
  qed simp
  from this [of default_range_options] show
    "allowFirstIP (range_options opts) \<longleftrightarrow> WithAllowFirstIP \<in> set opts \<or> WithAllowFirstLastIPs \<in> set opts"
    "allowLastIP (range_options opts) \<longleftrightarrow> WithAllowLastIP \<in> set opts \<or> WithAllowFirstLastIPs \<in> set opts"
    by (simp_all add: range_options_def default_range_options_def)
qed

lemma RangeSize_v4:
  assumes "pfx_wf p" "pfx_addr p = V4 a"
  shows "RangeSize p = (if 2 \<le> pfx_bits p then 2 ^ pfx_host_bits p else 0)"
  using assms pfx_bits_nonneg [OF assms(1)]
  by (auto simp: RangeSize_def Let_def pfx_host_bits_def nat_diff_distrib')

lemma pfx_masked_V4:
  "pfx_wf p \<Longrightarrow> pfx_addr p = V4 a \<Longrightarrow>
   \<exists>b. pfx_addr (pfx_masked p) = V4 b \<and> pfx_bits (pfx_masked p) = pfx_bits p"
  using pfx_bits_nonneg [of p]
  by (auto simp: pfx_masked_def prefix_from_def pfx_wf_def pfx_bits_def pfx_valid_def)

lemma rg_usable_iff:
  assumes "rg_inv r"
  shows "ip \<in> rg_usable r \<longleftrightarrow> pfx_contains (rg_prefix r) ip \<and> addr_val (rg_base r) \<le> addr_val ip \<and>
    addr_val ip < addr_val (rg_base r) + rg_max r"
proof
  assume "ip \<in> rg_usable r"
  with rg_inv_offset [OF assms] show "pfx_contains (rg_prefix r) ip \<and>
      addr_val (rg_base r) \<le> addr_val ip \<and> addr_val ip < addr_val (rg_base r) + rg_max r"
    by (auto simp: rg_usable_def)
next
  assume a: "pfx_contains (rg_prefix r) ip \<and> addr_val (rg_base r) \<le> addr_val ip \<and>
    addr_val ip < addr_val (rg_base r) + rg_max r"
  let ?off = "addr_val ip - addr_val (rg_base r)"
  have lt: "?off < rg_max r" using a by linarith
  have "same_family (rg_base r) ip"
    using assms a pfx_contains_same_family same_family_trans same_family_sym by (meson rg_inv_def)
  then have "ip = addOffset (rg_base r) ?off"
    using rg_inv_offset [OF assms lt] a
    by (intro same_family_val_eq)
      (auto intro: same_family_trans same_family_sym dest: pfx_contains_no_zone)
  with lt show "ip \<in> rg_usable r" unfolding rg_usable_def by blast
qed

text \<open>Unfoldings that evaluate ranges over known prefixes.\<close>

lemmas range_eval = netip_eval NewCIDRRange_def Let_def RangeSize_def default_range_options_def
  NewAllocationMap_def rg_AllocateNext_def bm_AllocateNext_def bm_AllocateBit_def
  randomScanStrategy_AllocateBit_def random_scan.simps addOffset_def rg_Free_def bm_Free_def

section \<open>Properties\<close>

text \<open>
  \<open>addrOffset\<close> inverts \<open>addOffset\<close>: the offset of the address at offset \<open>off\<close> is \<open>off\<close>, for
  both families, as long as the sum stays in the address space and the offset fits a Go \<open>int\<close>;
  the IPv6 case goes through the carry and borrow between the two 64-bit halves.
\<close>

theorem addrOffset_addOffset:
  assumes "addr_is_valid base" and "addr_val base + off < 2 ^ addr_bitlen base" and "off \<le> max_int"
  shows "addrOffset base (addOffset base off) = Some off"
  using addOffset_val [OF assms] addOffset_family [OF assms(1)] assms(3)
  by (simp add: addrOffset_eq)

theorem addrOffset_addOffset_witness:
  "addrOffset (V6 0xffffffffffffffff []) (addOffset (V6 0xffffffffffffffff []) 2) = Some 2"
  by (rule addrOffset_addOffset) (simp_all add: max_int_eq)

text \<open>
  (C25) Which addresses an IPv4 range can hand out, for a CIDR of any length and any of the package's options. The
  addresses of the CIDR, except that one of 0 or 1 bits has none; of a CIDR of at most 30 bits, the first address is left out
  unless \<open>WithAllowFirstIP\<close> or \<open>WithAllowFirstLastIPs\<close> is given, and the last one unless
  \<open>WithAllowLastIP\<close> or \<open>WithAllowFirstLastIPs\<close> is. A CIDR of 31 or 32 bits is handed out whole.
\<close>

theorem NewCIDRRange_usable_v4:
  assumes "pfx_wf p" and "pfx_addr p = V4 a" and "set opts \<subseteq> range_option_set"
  shows "ip \<in> rg_usable (NewCIDRRange p opts) \<longleftrightarrow>
    2 \<le> pfx_bits p \<and> pfx_contains (pfx_masked p) ip \<and>
    (pfx_bits p \<le> 30 \<and> WithAllowFirstIP \<notin> set opts \<and> WithAllowFirstLastIPs \<notin> set opts \<longrightarrow>
       addr_val ip \<noteq> addr_val (pfx_addr (pfx_masked p))) \<and>
    (pfx_bits p \<le> 30 \<and> WithAllowLastIP \<notin> set opts \<and> WithAllowFirstLastIPs \<notin> set opts \<longrightarrow>
       addr_val ip \<noteq> addr_val (pfx_addr (pfx_masked p)) + 2 ^ (32 - nat (pfx_bits p)) - 1)"
proof -
  let ?q = "pfx_masked p" and ?n = "(2 :: nat) ^ (32 - nat (pfx_bits p))"
  have w: "pfx_wf ?q" and m: "pfx_is_masked ?q" using assms pfx_masked_is_masked by auto
  obtain b where b: "pfx_addr ?q = V4 b" "pfx_bits ?q = pfx_bits p" using pfx_masked_V4 assms by blast
  have h: "pfx_host_bits ?q = 32 - nat (pfx_bits p)" using b by (simp add: pfx_host_bits_def)
  have bits: "0 \<le> pfx_bits p" "pfx_bits p \<le> 32" using pfx_bits_nonneg [OF assms(1)] assms(1,2) by (auto simp: pfx_wf_def pfx_valid_def pfx_bits_def)
  have size: "RangeSize ?q = (if 2 \<le> pfx_bits p then ?n else 0)" using RangeSize_v4 [OF w b(1)] b(2) h by simp
  have big: "2 < ?n \<longleftrightarrow> pfx_bits p \<le> 30"
  proof (cases "pfx_bits p \<le> 30")
    case True
    then have "(2::nat) ^ 2 \<le> ?n" by (intro power_increasing) auto
    with True show ?thesis by simp
  next
    case False
    then have "?n \<le> 2 ^ 1" using bits by (intro power_increasing) auto
    with False show ?thesis by simp
  qed
  have c: "pfx_contains ?q ip \<Longrightarrow> addr_val (pfx_addr ?q) \<le> addr_val ip \<and> addr_val ip < addr_val (pfx_addr ?q) + ?n"
    using pfx_contains_iff [OF w m] h by simp
  have arith: "(b + (if f then 1 else 0) \<le> v \<and> v < b + (if f then 1 else 0) + (n - (if f then 1 else 0) - (if l then 1 else 0))) =
      ((f \<longrightarrow> v \<noteq> b) \<and> (l \<longrightarrow> v \<noteq> b + n - 1))" if "b \<le> v \<and> v < b + n" "f \<or> l \<longrightarrow> 2 < n" for b v n :: nat and f l
    using that by (cases f; cases l) (simp_all, arith+)
  note o = range_options_eq [OF assms(3)]
  show ?thesis
  proof (cases "2 \<le> pfx_bits p \<and> pfx_contains ?q ip")
    case True
    let ?v = "addr_val ip" and ?b = "addr_val (pfx_addr ?q)"
    let ?f = "pfx_bits p \<le> 30 \<and> \<not> allowFirstIP (range_options opts)" and ?l = "pfx_bits p \<le> 30 \<and> \<not> allowLastIP (range_options opts)"
    have s: "RangeSize ?q = ?n" using True size by simp
    have "ip \<in> rg_usable (NewCIDRRange p opts) \<longleftrightarrow>
        ?b + (if ?f then 1 else 0) \<le> ?v \<and> ?v < ?b + (if ?f then 1 else 0) + (?n - (if ?f then 1 else 0) - (if ?l then 1 else 0))"
      unfolding rg_usable_iff [OF NewCIDRRange_inv(1) [OF assms(1)]] NewCIDRRange_block [OF assms(1)] s big using True by blast
    also have "\<dots> \<longleftrightarrow> (?f \<longrightarrow> ?v \<noteq> ?b) \<and> (?l \<longrightarrow> ?v \<noteq> ?b + ?n - 1)"
      using c True big by (intro arith) blast+
    finally show ?thesis using True o by blast
  next
    case False
    then show ?thesis
      unfolding rg_usable_iff [OF NewCIDRRange_inv(1) [OF assms(1)]] NewCIDRRange_block [OF assms(1)] size by auto
  qed
qed

theorem NewCIDRRange_usable_v4_witness:
  "V4 0x0a000001 \<in> rg_usable (NewCIDRRange (prefix_from (V4 0x0a000007) 24) []) \<and>
   V4 0x0a0000ff \<notin> rg_usable (NewCIDRRange (prefix_from (V4 0x0a000007) 24) []) \<and>
   V4 0x0a0000ff \<in> rg_usable (NewCIDRRange (prefix_from (V4 0x0a000007) 24) [WithAllowLastIP])"
proof -
  let ?p = "prefix_from (V4 0x0a000007) 24"
  have wf: "pfx_wf ?p"
    by (simp add: prefix_from_def pfx_wf_def pfx_valid_def pfx_bits_def)
  have bits: "pfx_bits ?p = 24" and a: "pfx_addr ?p = V4 0x0a000007"
    by (simp_all add: prefix_from_def pfx_bits_def)
  have m: "pfx_masked ?p = prefix_from (V4 0x0a000000) 24"
    by (simp add: prefix_from_def pfx_masked_def pfx_bits_def pfx_valid_def mask_eq_exp_minus_1)
  show ?thesis
    using NewCIDRRange_usable_v4 [OF wf a, of "[]"] NewCIDRRange_usable_v4 [OF wf a, of "[WithAllowLastIP]"] bits unfolding m
    by (simp add: pfx_contains_def prefix_from_def pfx_bits_def pfx_valid_def range_option_set_def)
qed

text \<open>
  \<open>AllocateNext\<close> on a range returns an address of the CIDR that was free, marks it and only
  it as taken, and uses up one free address; it fails, with \<open>ErrFull\<close> and no change, exactly when
  every usable address is taken.
\<close>

theorem rg_AllocateNext_correct:
  assumes "rg_inv r"
  shows "case rg_AllocateNext r rnd of
      Inr (t, ip) \<Rightarrow> rg_inv t \<and> pfx_contains (rg_prefix r) ip \<and> \<not> rg_Has r ip \<and>
        (\<forall>a. rg_Has t a = (a = ip \<or> rg_Has r a)) \<and> rg_Free t = rg_Free r - 1
    | Inl e \<Rightarrow> e = ErrFull \<and> rg_Free r = 0"
proof (cases "rg_AllocateNext r rnd")
  case (Inl e)
  with rg_AllocateNext_Inl [OF assms] have "e = ErrFull" "rg_addrs r = rg_usable r" by auto
  with Inl assms show ?thesis by (simp add: rg_Free_eq)
next
  case (Inr x)
  obtain t ip where x: "x = (t, ip)" by force
  note n = rg_AllocateNext_Inr [OF assms Inr [unfolded x]]
  then have "card (rg_addrs t) = Suc (card (rg_addrs r))" by simp
  with n Inr x assms rg_usable_contains [OF assms] show ?thesis
    by (simp add: rg_Has_iff rg_Free_eq)
qed

theorem rg_AllocateNext_correct_witness:
  "\<exists>t. rg_AllocateNext (NewCIDRRange (prefix_from (V4 0x0a000000) 30) []) 0 = Inr (t, V4 0x0a000001) \<and>
     rg_Free t = 1"
proof -
  let ?r = "NewCIDRRange (prefix_from (V4 0x0a000000) 30) []"
  have "rg_inv ?r"
    by (rule NewCIDRRange_inv) (simp add: prefix_from_def pfx_wf_def pfx_valid_def pfx_bits_def)
  from rg_AllocateNext_correct [OF this, of 0] show ?thesis
    by (simp add: range_eval)
qed

text \<open>
  Restoring a snapshot into a fresh range over the same CIDR, built with the same options,
  gives back the range the snapshot was taken from.
\<close>

theorem rg_Restore_Snapshot:
  assumes "rg_inv r" and "rg_prefix r0 = rg_prefix r" "rg_base r0 = rg_base r" "rg_max r0 = rg_max r"
    and "rg_inv r0" and "bm_strategy (rg_alloc r0) = bm_strategy (rg_alloc r)"
  shows "rg_Restore r0 (rg_prefix r) (snd (rg_Snapshot r)) = Inr r"
proof -
  have "countBits (bm_allocated (rg_alloc r)) = bm_count (rg_alloc r)"
    using assms(1) by (simp add: rg_inv_def bm_inv_def countBits_eq bm_used_def)
  with assms show ?thesis
    by (simp add: rg_Restore_def rg_Snapshot_def bm_Snapshot_def bm_Restore_def big_SetBytes_Bytes rg_inv_def)
qed

theorem rg_Restore_Snapshot_witness:
  "let r0 = NewCIDRRange (prefix_from (V4 0x0a000000) 24) [] in
   \<exists>r. rg_Allocate r0 (V4 0x0a000005) = Inr r \<and> rg_Restore r0 (rg_prefix r) (snd (rg_Snapshot r)) = Inr r"
proof -
  let ?r0 = "NewCIDRRange (prefix_from (V4 0x0a000000) 24) []"
  have i: "rg_inv ?r0"
    by (rule NewCIDRRange_inv) (simp add: prefix_from_def pfx_wf_def pfx_valid_def pfx_bits_def)
  obtain r where r: "rg_Allocate ?r0 (V4 0x0a000005) = Inr r" "rg_prefix r = rg_prefix ?r0"
    "rg_base r = rg_base ?r0" "rg_max r = rg_max ?r0"
    "bm_strategy (rg_alloc r) = bm_strategy (rg_alloc ?r0)"
    by (simp add: range_eval rg_Allocate_def range_contains_def addrOffset_def max_int_eq bm_Allocate_def)
  with rg_Restore_Snapshot [OF _ _ _ _ i, of r] rg_Allocate_Inr [OF i r(1)] show ?thesis by auto
qed

end
