(* ===== verification/Scope_Allocators.thy ===== *)
theory Scope_Allocators
  imports IP_Range
begin

text \<open>
  The allocators an agent plugs into IPAM: the host-scope allocator (one CIDR), the managed-scope
  allocator (one sub-allocator per managed node, the fork's own) and the no-op allocator of the
  delegated plugin. Sources: \<open>pkg/ipam/hostscope.go\<close>, \<open>pkg/ipam/managed_scope.go\<close>,
  \<open>pkg/ipam/noop_allocator.go\<close>, and the \<open>Allocator\<close> interface of \<open>pkg/ipam/types.go\<close>.
\<close>

section \<open>Results and errors\<close>

type_synonym pool = string
type_synonym owner = string

record allocation_result =
  res_IP :: addr
  res_IPPoolName :: pool
  res_ExpirationUUID :: string

definition alloc_result :: "addr \<Rightarrow> pool \<Rightarrow> allocation_result" where
  "alloc_result ip p = \<lparr>res_IP = ip, res_IPPoolName = p, res_ExpirationUUID = []\<rparr>"

datatype alloc_error =
    RangeErr range_error
  | NotInManagedCIDR addr
  | PoolExhausted string prefix range_error
  | NotSupported
  | NilDereference

section \<open>The contract of an allocator\<close>

text \<open>
  What IPAM relies on, as in the \<open>Allocator\<close> interface: \<open>Allocate\<close> reserves a given address or
  fails, \<open>AllocateNext\<close> reserves some free address of those that the pool serves, \<open>Release\<close> frees.
  The abstract state is the finite set of addresses in use; \<open>avail\<close> bounds how many more
  \<open>AllocateNext\<close> calls can succeed.
\<close>

locale ip_allocator =
  fixes allocate :: "'s \<Rightarrow> addr \<Rightarrow> owner \<Rightarrow> pool \<Rightarrow> (alloc_error, 's \<times> allocation_result) result"
    and allocate_next :: "'s \<Rightarrow> nat \<Rightarrow> owner \<Rightarrow> pool \<Rightarrow> (alloc_error, 's \<times> allocation_result) result"
    and release :: "'s \<Rightarrow> addr \<Rightarrow> pool \<Rightarrow> 's \<times> alloc_error option"
    and used :: "'s \<Rightarrow> addr set"
    and avail :: "'s \<Rightarrow> nat"
    and inv :: "'s \<Rightarrow> bool"
  assumes allocate_Inr: "inv s \<Longrightarrow> allocate s ip own p = Inr (t, res) \<Longrightarrow>
        inv t \<and> ip \<notin> used s \<and> used t = insert ip (used s) \<and> res_IP res = ip"
    and next_Inr: "inv s \<Longrightarrow> allocate_next s rnd own p = Inr (t, res) \<Longrightarrow>
        inv t \<and> res_IP res \<notin> used s \<and> used t = insert (res_IP res) (used s) \<and>
        addr_is_valid (res_IP res) \<and> avail t < avail s"
    and release_spec: "inv s \<Longrightarrow> inv (fst (release s ip p)) \<and> used (fst (release s ip p)) = used s - {ip}"
    and used_finite: "inv s \<Longrightarrow> finite (used s)"
begin

text \<open>An address handed out twice was released in between.\<close>

lemma no_double_next:
  assumes "inv s" "allocate_next s r1 o1 p1 = Inr (t, a)" "allocate_next t r2 o2 p2 = Inr (u, b)"
  shows "res_IP a \<noteq> res_IP b"
  using next_Inr [OF assms(1,2)] next_Inr [of t, OF _ assms(3)] by auto

lemma allocate_taken_fails:
  assumes "inv s" "ip \<in> used s"
  shows "\<not> is_ok (allocate s ip own p)"
proof
  assume "is_ok (allocate s ip own p)"
  then obtain t res where "allocate s ip own p = Inr (t, res)"
    by (cases "allocate s ip own p") auto
  from allocate_Inr [OF assms(1) this] assms(2) show False by simp
qed

text \<open>Releasing what an allocation took restores the set of addresses in use.\<close>

lemma release_undoes_next:
  assumes "inv s" "allocate_next s rnd own p = Inr (t, res)"
  shows "used (fst (release t (res_IP res) q)) = used s"
  using next_Inr [OF assms] release_spec [of t "res_IP res" q] by auto

end

section \<open>Host scope\<close>

record host_scope =
  hs_allocCIDR :: prefix
  hs_allocator :: ip_range

definition newHostScopeAllocator :: "prefix \<Rightarrow> host_scope" where
  "newHostScopeAllocator p = \<lparr>hs_allocCIDR = p, hs_allocator = NewCIDRRange p []\<rparr>"

definition hs_Allocate ::
  "host_scope \<Rightarrow> addr \<Rightarrow> owner \<Rightarrow> pool \<Rightarrow> (alloc_error, host_scope \<times> allocation_result) result" where
  "hs_Allocate h addr own p =
     (case rg_Allocate (hs_allocator h) addr of
        Inl e \<Rightarrow> Inl (RangeErr e)
      | Inr r \<Rightarrow> Inr (h\<lparr>hs_allocator := r\<rparr>, alloc_result addr []))"

definition hs_AllocateWithoutSyncUpstream ::
  "host_scope \<Rightarrow> addr \<Rightarrow> owner \<Rightarrow> pool \<Rightarrow> (alloc_error, host_scope \<times> allocation_result) result" where
  "hs_AllocateWithoutSyncUpstream h addr own p =
     (case rg_Allocate (hs_allocator h) addr of
        Inl e \<Rightarrow> Inl (RangeErr e)
      | Inr r \<Rightarrow> Inr (h\<lparr>hs_allocator := r\<rparr>, alloc_result addr []))"

definition hs_Release :: "host_scope \<Rightarrow> addr \<Rightarrow> pool \<Rightarrow> host_scope \<times> alloc_error option" where
  "hs_Release h addr p = (h\<lparr>hs_allocator := rg_Release (hs_allocator h) addr\<rparr>, None)"

definition hs_AllocateNext ::
  "host_scope \<Rightarrow> nat \<Rightarrow> owner \<Rightarrow> pool \<Rightarrow> (alloc_error, host_scope \<times> allocation_result) result" where
  "hs_AllocateNext h rnd own p =
     (case rg_AllocateNext (hs_allocator h) rnd of
        Inl e \<Rightarrow> Inl (RangeErr e)
      | Inr (r, addr) \<Rightarrow> Inr (h\<lparr>hs_allocator := r\<rparr>, alloc_result addr []))"

definition hs_AllocateNextWithoutSyncUpstream ::
  "host_scope \<Rightarrow> nat \<Rightarrow> owner \<Rightarrow> pool \<Rightarrow> (alloc_error, host_scope \<times> allocation_result) result" where
  "hs_AllocateNextWithoutSyncUpstream h rnd own p =
     (case rg_AllocateNext (hs_allocator h) rnd of
        Inl e \<Rightarrow> Inl (RangeErr e)
      | Inr (r, addr) \<Rightarrow> Inr (h\<lparr>hs_allocator := r\<rparr>, alloc_result addr []))"

text \<open>
  \<open>ip.CountIPsInCIDR\<close> over the mask length and the width of the address: an exact (big integer)
  count of the addresses other than the first and the last, 0 for a single address.
\<close>

definition CountIPsInCIDR :: "prefix \<Rightarrow> nat" where
  "CountIPsInCIDR p =
     (let subnet = nat (pfx_bits p); size = addr_bitlen (pfx_addr p) in
      if subnet = size then 0 else 2 ^ (size - subnet) - 2)"

definition hs_Capacity :: "host_scope \<Rightarrow> u64" where
  "hs_Capacity h = word_of_nat (CountIPsInCIDR (hs_allocCIDR h))"

text \<open>
  \<open>Dump\<close>: the addresses in use, once each, and the two numbers of the status line.
\<close>

definition hs_Dump :: "host_scope \<Rightarrow> addr list \<times> nat \<times> nat" where
  "hs_Dump h =
     (let alloc = remdups (rg_ForEach (hs_allocator h)) in
      (alloc, length alloc, CountIPsInCIDR (hs_allocCIDR h)))"

section \<open>No-op\<close>

definition noop_Allocate ::
  "unit \<Rightarrow> addr \<Rightarrow> owner \<Rightarrow> pool \<Rightarrow> (alloc_error, unit \<times> allocation_result) result" where
  "noop_Allocate n addr own p = Inl NotSupported"

definition noop_AllocateNext ::
  "unit \<Rightarrow> nat \<Rightarrow> owner \<Rightarrow> pool \<Rightarrow> (alloc_error, unit \<times> allocation_result) result" where
  "noop_AllocateNext n rnd own p = Inl NotSupported"

definition noop_Release :: "unit \<Rightarrow> addr \<Rightarrow> pool \<Rightarrow> unit \<times> alloc_error option" where
  "noop_Release n addr p = (n, Some NotSupported)"

definition noop_Capacity :: "unit \<Rightarrow> u64" where
  "noop_Capacity n = 0"

section \<open>Managed scope\<close>

text \<open>
  The list \<open>subs\<close> and the map \<open>subByNode\<close> point to the same sub-allocators, so the sub-allocators
  live in a store and the two hold their indices. A \<open>*net.IPNet\<close> argument is the prefix that
  \<open>netipx.FromStdIPNet\<close> makes of it, \<open>None\<close> when that conversion fails.
\<close>

type_synonym ipnet = "prefix option"

record sub_allocator =
  sub_nodeName :: string
  sub_allocCIDR :: prefix
  sub_allocator :: ip_range

record managed_scope =
  ms_store :: "sub_allocator list"
  ms_subs :: "nat list"
  ms_subByNode :: "string \<rightharpoonup> nat"
  ms_primaryNode :: string

definition ms_addCIDR :: "managed_scope \<Rightarrow> string \<Rightarrow> ipnet \<Rightarrow> managed_scope" where
  "ms_addCIDR m nodeName cidr =
     (case cidr of
        None \<Rightarrow> m
      | Some p \<Rightarrow>
          let i = length (ms_store m);
              sub = \<lparr>sub_nodeName = nodeName, sub_allocCIDR = p, sub_allocator = NewCIDRRange p []\<rparr>
          in m\<lparr>ms_store := ms_store m @ [sub], ms_subs := ms_subs m @ [i],
               ms_subByNode := (ms_subByNode m)(nodeName \<mapsto> i)\<rparr>)"

text \<open>The loop deletes the first entry with the node's name and returns.\<close>

fun remove_first_sub :: "sub_allocator list \<Rightarrow> string \<Rightarrow> nat list \<Rightarrow> nat list" where
  "remove_first_sub st nodeName [] = []"
| "remove_first_sub st nodeName (i # js) =
     (if sub_nodeName (st ! i) = nodeName then js else i # remove_first_sub st nodeName js)"

definition ms_removeCIDRLocked :: "managed_scope \<Rightarrow> string \<Rightarrow> managed_scope" where
  "ms_removeCIDRLocked m nodeName =
     m\<lparr>ms_subByNode := (ms_subByNode m)(nodeName := None),
       ms_subs := remove_first_sub (ms_store m) nodeName (ms_subs m)\<rparr>"

definition ms_AddCIDR :: "managed_scope \<Rightarrow> string \<Rightarrow> ipnet \<Rightarrow> managed_scope" where
  "ms_AddCIDR m nodeName cidr =
     (case cidr of
        None \<Rightarrow> m
      | Some p \<Rightarrow>
          (case ms_subByNode m nodeName of
             None \<Rightarrow> ms_addCIDR m nodeName cidr
           | Some i \<Rightarrow>
               if sub_allocCIDR (ms_store m ! i) = p then m
               else ms_addCIDR (ms_removeCIDRLocked m nodeName) nodeName cidr))"

text \<open>
  The constructor. What the API server answers for a node name is an argument: \<open>None\<close> when the
  CiliumNode cannot be fetched, otherwise its pod CIDRs. \<open>ciliumNodeIPv4CIDR\<close> takes the first
  IPv4 one.
\<close>

fun ciliumNodeIPv4CIDR :: "prefix list \<Rightarrow> prefix option" where
  "ciliumNodeIPv4CIDR [] = None"
| "ciliumNodeIPv4CIDR (p # ps) = (if addr_is4 (pfx_addr p) then Some p else ciliumNodeIPv4CIDR ps)"

fun ms_fetch_nodes ::
  "(string \<Rightarrow> prefix list option) \<Rightarrow> string \<Rightarrow> string list \<Rightarrow> managed_scope \<Rightarrow> managed_scope" where
  "ms_fetch_nodes get localName [] m = m"
| "ms_fetch_nodes get localName (name # names) m =
     (if name = localName then ms_fetch_nodes get localName names m
      else case get name of
             None \<Rightarrow> ms_fetch_nodes get localName names m
           | Some cidrs \<Rightarrow>
               (case ciliumNodeIPv4CIDR cidrs of
                  None \<Rightarrow> ms_fetch_nodes get localName names m
                | Some p \<Rightarrow> ms_fetch_nodes get localName names (ms_addCIDR m name (Some p))))"

definition newManagedScopeAllocator ::
  "(string \<Rightarrow> prefix list option) \<Rightarrow> string \<Rightarrow> string list \<Rightarrow> ipnet \<Rightarrow> managed_scope" where
  "newManagedScopeAllocator get localName managedNames primaryCIDR =
     (let m = \<lparr>ms_store = [], ms_subs = [], ms_subByNode = Map.empty, ms_primaryNode = localName\<rparr>;
          m' = ms_addCIDR m localName primaryCIDR
      in ms_fetch_nodes get localName managedNames m')"

definition ms_findSubForIP :: "managed_scope \<Rightarrow> addr \<Rightarrow> nat option" where
  "ms_findSubForIP m addr =
     find (\<lambda>i. pfx_contains (sub_allocCIDR (ms_store m ! i)) addr) (ms_subs m)"

definition ms_resolvePool :: "managed_scope \<Rightarrow> pool \<Rightarrow> nat option" where
  "ms_resolvePool m p = ms_subByNode m (if p = [] then ms_primaryNode m else p)"

definition ms_set_range :: "managed_scope \<Rightarrow> nat \<Rightarrow> ip_range \<Rightarrow> managed_scope" where
  "ms_set_range m i r = m\<lparr>ms_store := (ms_store m)[i := (ms_store m ! i)\<lparr>sub_allocator := r\<rparr>]\<rparr>"

definition ms_Allocate ::
  "managed_scope \<Rightarrow> addr \<Rightarrow> owner \<Rightarrow> pool \<Rightarrow> (alloc_error, managed_scope \<times> allocation_result) result" where
  "ms_Allocate m addr own p =
     (case ms_findSubForIP m addr of
        None \<Rightarrow> Inl (NotInManagedCIDR addr)
      | Some i \<Rightarrow>
          (case rg_Allocate (sub_allocator (ms_store m ! i)) addr of
             Inl e \<Rightarrow> Inl (RangeErr e)
           | Inr r \<Rightarrow> Inr (ms_set_range m i r, alloc_result addr (sub_nodeName (ms_store m ! i)))))"

definition ms_AllocateWithoutSyncUpstream ::
  "managed_scope \<Rightarrow> addr \<Rightarrow> owner \<Rightarrow> pool \<Rightarrow> (alloc_error, managed_scope \<times> allocation_result) result" where
  "ms_AllocateWithoutSyncUpstream m addr own p = ms_Allocate m addr own p"

definition ms_Release :: "managed_scope \<Rightarrow> addr \<Rightarrow> pool \<Rightarrow> managed_scope \<times> alloc_error option" where
  "ms_Release m addr p =
     (case ms_findSubForIP m addr of
        None \<Rightarrow> (m, Some (NotInManagedCIDR addr))
      | Some i \<Rightarrow> (ms_set_range m i (rg_Release (sub_allocator (ms_store m ! i)) addr), None))"

text \<open>With neither the pool nor the primary node known, \<open>sub\<close> is nil and its use panics.\<close>

definition ms_AllocateNext ::
  "managed_scope \<Rightarrow> nat \<Rightarrow> owner \<Rightarrow> pool \<Rightarrow> (alloc_error, managed_scope \<times> allocation_result) result" where
  "ms_AllocateNext m rnd own p =
     (let sub = (case ms_resolvePool m p of
                   None \<Rightarrow> ms_subByNode m (ms_primaryNode m)
                 | Some i \<Rightarrow> Some i)
      in case sub of
           None \<Rightarrow> Inl NilDereference
         | Some i \<Rightarrow>
             (let s = ms_store m ! i in
              case rg_AllocateNext (sub_allocator s) rnd of
                Inl e \<Rightarrow> Inl (PoolExhausted (sub_nodeName s) (sub_allocCIDR s) e)
              | Inr (r, addr) \<Rightarrow> Inr (ms_set_range m i r, alloc_result addr (sub_nodeName s))))"

definition ms_AllocateNextWithoutSyncUpstream ::
  "managed_scope \<Rightarrow> nat \<Rightarrow> owner \<Rightarrow> pool \<Rightarrow> (alloc_error, managed_scope \<times> allocation_result) result" where
  "ms_AllocateNextWithoutSyncUpstream m rnd own p = ms_AllocateNext m rnd own p"

definition ms_Dump :: "managed_scope \<Rightarrow> addr list \<times> nat \<times> u64 \<times> nat" where
  "ms_Dump m =
     (let alloc = remdups (concat (map (\<lambda>i. rg_ForEach (sub_allocator (ms_store m ! i))) (ms_subs m)));
          totalCapacity =
            sum_list (map (\<lambda>i. word_of_nat (CountIPsInCIDR (sub_allocCIDR (ms_store m ! i)))) (ms_subs m))
      in (alloc, length alloc, totalCapacity, length (ms_subs m)))"

definition ms_Capacity :: "managed_scope \<Rightarrow> u64" where
  "ms_Capacity m =
     sum_list (map (\<lambda>i. word_of_nat (CountIPsInCIDR (sub_allocCIDR (ms_store m ! i)))) (ms_subs m))"

section \<open>Host scope implements the contract\<close>

definition rg_avail :: "ip_range \<Rightarrow> nat" where
  "rg_avail r = card (rg_usable r) - card (rg_addrs r)"

lemma finite_rg_usable [simp]: "finite (rg_usable r)"
  by (simp add: rg_usable_def)

lemma rg_usable_valid: "rg_inv r \<Longrightarrow> a \<in> rg_usable r \<Longrightarrow> addr_is_valid a"
  by (auto dest!: rg_usable_contains pfx_contains_same_family same_family_valid)

lemma rg_AllocateNext_avail:
  assumes "rg_inv r" "rg_AllocateNext r rnd = Inr (t, ip)"
  shows "rg_avail t < rg_avail r"
proof -
  note n = rg_AllocateNext_Inr [OF assms]
  then have "insert ip (rg_addrs r) \<subseteq> rg_usable r" using rg_addrs_usable [OF assms(1)] by blast
  then have "card (insert ip (rg_addrs r)) \<le> card (rg_usable r)" by (simp add: card_mono)
  with n show ?thesis by (simp add: rg_avail_def)
qed

definition hs_inv :: "host_scope \<Rightarrow> bool" where
  "hs_inv h \<longleftrightarrow> rg_inv (hs_allocator h) \<and> rg_prefix (hs_allocator h) = pfx_masked (hs_allocCIDR h)"

definition hs_used :: "host_scope \<Rightarrow> addr set" where
  "hs_used h = rg_addrs (hs_allocator h)"

definition hs_avail :: "host_scope \<Rightarrow> nat" where
  "hs_avail h = rg_avail (hs_allocator h)"

lemma newHostScopeAllocator_inv [inv_intros]:
  "pfx_wf p \<Longrightarrow> hs_inv (newHostScopeAllocator p) \<and> hs_used (newHostScopeAllocator p) = {}"
  using NewCIDRRange_inv [of p "[]"]
  by (simp add: hs_inv_def hs_used_def newHostScopeAllocator_def)
    (simp add: NewCIDRRange_def Let_def case_prod_unfold)

lemma rg_Allocate_fresh: "rg_inv r \<Longrightarrow> rg_Allocate r ip = Inr t \<Longrightarrow> ip \<in> rg_usable r \<and> ip \<notin> rg_addrs r"
  using rg_Allocate_ok [of r ip] by simp

interpretation host: ip_allocator hs_Allocate hs_AllocateNext hs_Release hs_used hs_avail hs_inv
proof (unfold_locales, goal_cases)
  case (1 s ip own p t res)
  then show ?case
    by (auto simp: hs_Allocate_def hs_inv_def hs_used_def alloc_result_def split: sum.splits
        dest: rg_Allocate_Inr rg_Allocate_fresh)
next
  case (2 s rnd own p t res)
  then obtain r a where n: "rg_AllocateNext (hs_allocator s) rnd = Inr (r, a)"
    and t: "t = s\<lparr>hs_allocator := r\<rparr>" "res = alloc_result a []"
    by (auto simp: hs_AllocateNext_def split: sum.splits)
  from 2 have i: "rg_inv (hs_allocator s)" by (simp add: hs_inv_def)
  from rg_AllocateNext_Inr [OF i n] rg_AllocateNext_avail [OF i n] t rg_usable_valid [OF i] 2(1)
  show ?case by (simp add: hs_inv_def hs_used_def hs_avail_def alloc_result_def)
next
  case (3 s ip p)
  then show ?case
    using rg_Release_spec [of "hs_allocator s" ip] by (simp add: hs_Release_def hs_inv_def hs_used_def)
next
  case (4 s)
  then show ?case by (simp add: hs_used_def)
qed

section \<open>The invariant of the managed scope\<close>

text \<open>
  The list and the map agree: each listed sub-allocator is the map's entry for its node and
  conversely, and each owns a sound range over its CIDR.
\<close>

definition sub_inv :: "sub_allocator \<Rightarrow> bool" where
  "sub_inv s \<longleftrightarrow> pfx_wf (sub_allocCIDR s) \<and> rg_inv (sub_allocator s) \<and>
     rg_prefix (sub_allocator s) = pfx_masked (sub_allocCIDR s)"

definition ms_inv :: "managed_scope \<Rightarrow> bool" where
  "ms_inv m \<longleftrightarrow> distinct (ms_subs m) \<and>
     (\<forall>i \<in> set (ms_subs m). i < length (ms_store m) \<and> sub_inv (ms_store m ! i) \<and>
        ms_subByNode m (sub_nodeName (ms_store m ! i)) = Some i) \<and>
     (\<forall>n i. ms_subByNode m n = Some i \<longrightarrow> i \<in> set (ms_subs m) \<and> sub_nodeName (ms_store m ! i) = n)"

text \<open>The CIDRs of distinct managed nodes do not overlap: the operator hands out disjoint CIDRs.\<close>

definition ms_disjoint :: "managed_scope \<Rightarrow> bool" where
  "ms_disjoint m \<longleftrightarrow>
     (\<forall>i \<in> set (ms_subs m). \<forall>j \<in> set (ms_subs m). i \<noteq> j \<longrightarrow>
        (\<forall>a. \<not> (pfx_contains (sub_allocCIDR (ms_store m ! i)) a \<and>
                pfx_contains (sub_allocCIDR (ms_store m ! j)) a)))"

definition ms_range :: "managed_scope \<Rightarrow> nat \<Rightarrow> ip_range" where
  "ms_range m i = sub_allocator (ms_store m ! i)"

definition ms_used :: "managed_scope \<Rightarrow> addr set" where
  "ms_used m = (\<Union>i \<in> set (ms_subs m). rg_addrs (ms_range m i))"

definition ms_avail :: "managed_scope \<Rightarrow> nat" where
  "ms_avail m = (\<Sum>i \<in> set (ms_subs m). rg_avail (ms_range m i))"

lemma sub_usable_contains:
  "sub_inv s \<Longrightarrow> a \<in> rg_usable (sub_allocator s) \<Longrightarrow> pfx_contains (sub_allocCIDR s) a"
  using rg_usable_contains [of "sub_allocator s" a] by (simp add: sub_inv_def pfx_contains_masked)

lemma sub_addrs_contains:
  "sub_inv s \<Longrightarrow> a \<in> rg_addrs (sub_allocator s) \<Longrightarrow> pfx_contains (sub_allocCIDR s) a"
  using rg_addrs_usable [of "sub_allocator s"] sub_usable_contains [of s a] by (auto simp: sub_inv_def)

lemma ms_invD:
  assumes "ms_inv m" "i \<in> set (ms_subs m)"
  shows "i < length (ms_store m)" "sub_inv (ms_store m ! i)" "rg_inv (ms_range m i)"
    "ms_subByNode m (sub_nodeName (ms_store m ! i)) = Some i"
  using assms by (auto simp: ms_inv_def ms_range_def sub_inv_def)

lemma ms_inv_mapD:
  assumes "ms_inv m" "ms_subByNode m n = Some i"
  shows "i \<in> set (ms_subs m)" "sub_nodeName (ms_store m ! i) = n"
  using assms by (auto simp: ms_inv_def)

lemma ms_findSub_Some:
  "ms_findSubForIP m a = Some i \<Longrightarrow>
   i \<in> set (ms_subs m) \<and> pfx_contains (sub_allocCIDR (ms_store m ! i)) a"
  by (auto simp: ms_findSubForIP_def find_Some_iff)

lemma ms_findSub_None:
  "ms_findSubForIP m a = None \<Longrightarrow> i \<in> set (ms_subs m) \<Longrightarrow> \<not> pfx_contains (sub_allocCIDR (ms_store m ! i)) a"
  by (auto simp: ms_findSubForIP_def find_None_iff)

text \<open>Replacing the range of one sub-allocator by one over the same CIDR.\<close>

lemma ms_set_range_frame:
  assumes "ms_inv m" "i \<in> set (ms_subs m)" "rg_inv r" "rg_prefix r = rg_prefix (ms_range m i)"
  shows "ms_inv (ms_set_range m i r)" "ms_subs (ms_set_range m i r) = ms_subs m"
    "ms_subByNode (ms_set_range m i r) = ms_subByNode m"
    "ms_primaryNode (ms_set_range m i r) = ms_primaryNode m"
    "\<And>j. j \<in> set (ms_subs m) \<Longrightarrow> ms_range (ms_set_range m i r) j = (if j = i then r else ms_range m j)"
    "\<And>j. j \<in> set (ms_subs m) \<Longrightarrow> sub_allocCIDR (ms_store (ms_set_range m i r) ! j) = sub_allocCIDR (ms_store m ! j)"
    "\<And>j. j \<in> set (ms_subs m) \<Longrightarrow> sub_nodeName (ms_store (ms_set_range m i r) ! j) = sub_nodeName (ms_store m ! j)"
proof -
  have i: "i < length (ms_store m)" using assms by (auto simp: ms_inv_def)
  show "ms_subs (ms_set_range m i r) = ms_subs m" "ms_subByNode (ms_set_range m i r) = ms_subByNode m"
    "ms_primaryNode (ms_set_range m i r) = ms_primaryNode m"
    by (simp_all add: ms_set_range_def)
  show rng: "ms_range (ms_set_range m i r) j = (if j = i then r else ms_range m j)"
    and cidr: "sub_allocCIDR (ms_store (ms_set_range m i r) ! j) = sub_allocCIDR (ms_store m ! j)"
    and name: "sub_nodeName (ms_store (ms_set_range m i r) ! j) = sub_nodeName (ms_store m ! j)"
    if "j \<in> set (ms_subs m)" for j
    using i by (auto simp: ms_set_range_def ms_range_def nth_list_update)
  have "sub_inv (ms_store (ms_set_range m i r) ! j)" if "j \<in> set (ms_subs m)" for j
    using ms_invD(2) [OF assms(1) that] assms(3,4) rng [OF that] cidr [OF that]
    by (auto simp: sub_inv_def ms_range_def split: if_splits)
  with assms(1) name show "ms_inv (ms_set_range m i r)"
    by (auto simp: ms_inv_def) (auto simp: ms_set_range_def)
qed

lemma ms_set_range_disjoint:
  assumes "ms_inv m" "i \<in> set (ms_subs m)" "rg_inv r" "rg_prefix r = rg_prefix (ms_range m i)"
  shows "ms_disjoint (ms_set_range m i r) \<longleftrightarrow> ms_disjoint m"
  using ms_set_range_frame(2,6) [OF assms] by (simp add: ms_disjoint_def)

lemma ms_used_set_range:
  assumes "ms_inv m" "i \<in> set (ms_subs m)" "rg_inv r" "rg_prefix r = rg_prefix (ms_range m i)"
  shows "ms_used (ms_set_range m i r) =
    rg_addrs r \<union> (\<Union>j \<in> set (ms_subs m) - {i}. rg_addrs (ms_range m j))"
  using ms_set_range_frame(2,5) [OF assms] assms(2) by (auto simp: ms_used_def split: if_splits)

lemma ms_used_split:
  "i \<in> set (ms_subs m) \<Longrightarrow>
   ms_used m = rg_addrs (ms_range m i) \<union> (\<Union>j \<in> set (ms_subs m) - {i}. rg_addrs (ms_range m j))"
  by (auto simp: ms_used_def)

lemma ms_disjointD:
  "ms_disjoint m \<Longrightarrow> i \<in> set (ms_subs m) \<Longrightarrow> j \<in> set (ms_subs m) \<Longrightarrow>
   pfx_contains (sub_allocCIDR (ms_store m ! i)) a \<Longrightarrow>
   pfx_contains (sub_allocCIDR (ms_store m ! j)) a \<Longrightarrow> i = j"
  unfolding ms_disjoint_def by blast

text \<open>An address inside one node's CIDR is never in use at another node.\<close>

lemma ms_other_nodes_free:
  assumes "ms_inv m" "ms_disjoint m" "i \<in> set (ms_subs m)"
    and "pfx_contains (sub_allocCIDR (ms_store m ! i)) a"
  shows "a \<notin> (\<Union>j \<in> set (ms_subs m) - {i}. rg_addrs (ms_range m j))"
proof
  assume "a \<in> (\<Union>j \<in> set (ms_subs m) - {i}. rg_addrs (ms_range m j))"
  then obtain j where j: "j \<in> set (ms_subs m)" "j \<noteq> i" "a \<in> rg_addrs (ms_range m j)" by blast
  then have "pfx_contains (sub_allocCIDR (ms_store m ! j)) a"
    using sub_addrs_contains ms_invD(2) [OF assms(1)] by (simp add: ms_range_def)
  with ms_disjointD [OF assms(2,3) j(1) assms(4)] j(2) show False by simp
qed

section \<open>The managed scope implements the contract\<close>

lemma ms_Allocate_Inr:
  assumes "ms_inv m" "ms_disjoint m" "ms_Allocate m a own p = Inr (t, res)"
  shows "ms_inv t \<and> ms_disjoint t \<and> a \<notin> ms_used m \<and> ms_used t = insert a (ms_used m) \<and> res_IP res = a"
proof -
  obtain i r where i: "ms_findSubForIP m a = Some i" and r: "rg_Allocate (ms_range m i) a = Inr r"
    and t: "t = ms_set_range m i r" "res_IP res = a"
    using assms(3) by (auto simp: ms_Allocate_def ms_range_def alloc_result_def split: option.splits sum.splits)
  from ms_findSub_Some [OF i] have s: "i \<in> set (ms_subs m)"
    and c: "pfx_contains (sub_allocCIDR (ms_store m ! i)) a" by auto
  note ri = ms_invD(3) [OF assms(1) s]
  note ra = rg_Allocate_Inr [OF ri r] and fr = rg_Allocate_fresh [OF ri r]
  have fresh: "a \<notin> ms_used m"
    unfolding ms_used_split [OF s] using fr ms_other_nodes_free [OF assms(1,2) s c] by blast
  have "ms_used t = insert a (ms_used m)"
    unfolding t(1) ms_used_split [OF s] using ra ms_used_set_range [OF assms(1) s] by simp
  with fresh t ra ms_set_range_frame(1) [OF assms(1) s] ms_set_range_disjoint [OF assms(1) s] assms(2)
  show ?thesis by simp
qed

text \<open>Which sub-allocator \<open>AllocateNext\<close> draws from.\<close>

definition ms_route :: "managed_scope \<Rightarrow> pool \<Rightarrow> nat option" where
  "ms_route m p =
     (case ms_resolvePool m p of None \<Rightarrow> ms_subByNode m (ms_primaryNode m) | Some i \<Rightarrow> Some i)"

lemma ms_route_listed: "ms_inv m \<Longrightarrow> ms_route m p = Some i \<Longrightarrow> i \<in> set (ms_subs m)"
  by (auto simp: ms_route_def ms_resolvePool_def ms_inv_def split: option.splits)

lemma ms_AllocateNext_route:
  "ms_AllocateNext m rnd own p =
     (case ms_route m p of
        None \<Rightarrow> Inl NilDereference
      | Some i \<Rightarrow>
          (case rg_AllocateNext (ms_range m i) rnd of
             Inl e \<Rightarrow> Inl (PoolExhausted (sub_nodeName (ms_store m ! i)) (sub_allocCIDR (ms_store m ! i)) e)
           | Inr (r, a) \<Rightarrow> Inr (ms_set_range m i r, alloc_result a (sub_nodeName (ms_store m ! i)))))"
  by (simp add: ms_AllocateNext_def ms_route_def ms_range_def Let_def split: option.split)

lemma ms_AllocateNext_cases:
  assumes "ms_AllocateNext m rnd own p = Inr (t, res)"
  obtains i r where "ms_route m p = Some i" "rg_AllocateNext (ms_range m i) rnd = Inr (r, res_IP res)"
    "t = ms_set_range m i r" "res_IPPoolName res = sub_nodeName (ms_store m ! i)"
  using assms
  by (auto simp: ms_AllocateNext_route alloc_result_def split: option.splits sum.splits prod.splits)

lemma ms_avail_set_range:
  assumes "ms_inv m" "i \<in> set (ms_subs m)" "rg_inv r" "rg_prefix r = rg_prefix (ms_range m i)"
    and "rg_avail r < rg_avail (ms_range m i)"
  shows "ms_avail (ms_set_range m i r) < ms_avail m"
proof -
  note f = ms_set_range_frame(2,5) [OF assms(1-4)]
  have "ms_avail (ms_set_range m i r) = rg_avail r + (\<Sum>j \<in> set (ms_subs m) - {i}. rg_avail (ms_range m j))"
    unfolding ms_avail_def f(1) using assms(2) f(2) by (simp add: sum.remove [of _ i])
  moreover have "ms_avail m = rg_avail (ms_range m i) + (\<Sum>j \<in> set (ms_subs m) - {i}. rg_avail (ms_range m j))"
    unfolding ms_avail_def using assms(2) by (simp add: sum.remove [of _ i])
  ultimately show ?thesis using assms(5) by simp
qed

lemma ms_AllocateNext_Inr:
  assumes "ms_inv m" "ms_disjoint m" "ms_AllocateNext m rnd own p = Inr (t, res)"
  shows "ms_inv t \<and> ms_disjoint t \<and> res_IP res \<notin> ms_used m \<and>
    ms_used t = insert (res_IP res) (ms_used m) \<and> addr_is_valid (res_IP res) \<and> ms_avail t < ms_avail m"
proof -
  obtain i r where i: "ms_route m p = Some i" and r: "rg_AllocateNext (ms_range m i) rnd = Inr (r, res_IP res)"
    and t: "t = ms_set_range m i r"
    by (rule ms_AllocateNext_cases [OF assms(3)])
  have s: "i \<in> set (ms_subs m)" by (rule ms_route_listed [OF assms(1) i])
  note ri = ms_invD(2,3) [OF assms(1) s]
  note ra = rg_AllocateNext_Inr [OF ri(2) r] and av = rg_AllocateNext_avail [OF ri(2) r]
  have "pfx_contains (sub_allocCIDR (ms_store m ! i)) (res_IP res)"
    using ra sub_usable_contains [OF ri(1)] by (simp add: ms_range_def)
  then have fresh: "res_IP res \<notin> ms_used m"
    unfolding ms_used_split [OF s] using ra ms_other_nodes_free [OF assms(1,2) s] by blast
  have "ms_used t = insert (res_IP res) (ms_used m)"
    unfolding t(1) ms_used_split [OF s] using ra ms_used_set_range [OF assms(1) s] by simp
  with fresh t ra av ms_set_range_frame(1) [OF assms(1) s] ms_set_range_disjoint [OF assms(1) s]
    ms_avail_set_range [OF assms(1) s] rg_usable_valid [OF ri(2)] assms(2)
  show ?thesis by simp
qed

lemma ms_Release_spec:
  assumes "ms_inv m" "ms_disjoint m"
  shows "ms_inv (fst (ms_Release m a p)) \<and> ms_disjoint (fst (ms_Release m a p)) \<and>
    ms_used (fst (ms_Release m a p)) = ms_used m - {a}"
proof (cases "ms_findSubForIP m a")
  case None
  then have "a \<notin> ms_used m"
    using ms_findSub_None [OF None] sub_addrs_contains ms_invD(2) [OF assms(1)]
    by (fastforce simp: ms_used_def ms_range_def)
  with None assms show ?thesis by (simp add: ms_Release_def)
next
  case (Some i)
  from ms_findSub_Some [OF Some] have s: "i \<in> set (ms_subs m)"
    and c: "pfx_contains (sub_allocCIDR (ms_store m ! i)) a" by auto
  note ri = ms_invD(3) [OF assms(1) s]
  note rr = rg_Release_spec [OF ri, of a]
  have t: "fst (ms_Release m a p) = ms_set_range m i (rg_Release (ms_range m i) a)"
    using Some by (simp add: ms_Release_def ms_range_def)
  have "ms_used (fst (ms_Release m a p)) = ms_used m - {a}"
    unfolding t ms_used_split [OF s] ms_used_set_range [OF assms(1) s conjunct1 [OF rr] rr [THEN conjunct2, THEN conjunct2, THEN conjunct1]]
    using rr ms_other_nodes_free [OF assms(1,2) s c] by blast
  with t rr ms_set_range_frame(1) [OF assms(1) s] ms_set_range_disjoint [OF assms(1) s] assms(2)
  show ?thesis by simp
qed

definition ms_ok :: "managed_scope \<Rightarrow> bool" where
  "ms_ok m \<longleftrightarrow> ms_inv m \<and> ms_disjoint m"

interpretation managed: ip_allocator ms_Allocate ms_AllocateNext ms_Release ms_used ms_avail ms_ok
proof (unfold_locales, goal_cases)
  case (1 s ip own p t res)
  then show ?case using ms_Allocate_Inr [of s ip own p t res] by (simp add: ms_ok_def)
next
  case (2 s rnd own p t res)
  then show ?case using ms_AllocateNext_Inr [of s rnd own p t res] by (simp add: ms_ok_def)
next
  case (3 s ip p)
  then show ?case using ms_Release_spec [of s ip p] by (simp add: ms_ok_def)
next
  case (4 s)
  then show ?case by (simp add: ms_used_def)
qed

section \<open>Construction and reconfiguration\<close>

lemma ms_addCIDR_inv:
  assumes "ms_inv m" "pfx_wf p" "ms_subByNode m n = None"
  shows "ms_inv (ms_addCIDR m n (Some p))" "ms_used (ms_addCIDR m n (Some p)) = ms_used m"
    "ms_subByNode (ms_addCIDR m n (Some p)) = (ms_subByNode m)(n \<mapsto> length (ms_store m))"
proof -
  let ?t = "ms_addCIDR m n (Some p)" and ?k = "length (ms_store m)"
  show map: "ms_subByNode ?t = (ms_subByNode m)(n \<mapsto> ?k)" by (simp add: ms_addCIDR_def Let_def)
  have subs: "ms_subs ?t = ms_subs m @ [?k]" by (simp add: ms_addCIDR_def Let_def)
  have old: "ms_store ?t ! i = ms_store m ! i" if "i \<in> set (ms_subs m)" for i
    using ms_invD(1) [OF assms(1) that] by (simp add: ms_addCIDR_def Let_def nth_append)
  have new: "ms_store ?t ! ?k = \<lparr>sub_nodeName = n, sub_allocCIDR = p, sub_allocator = NewCIDRRange p []\<rparr>"
    by (simp add: ms_addCIDR_def Let_def)
  have "rg_prefix (NewCIDRRange p []) = pfx_masked p"
    by (simp add: NewCIDRRange_def Let_def case_prod_unfold)
  then have sub: "sub_inv (ms_store ?t ! ?k)" using assms(2) NewCIDRRange_inv(1) by (simp add: new sub_inv_def)
  have names: "sub_nodeName (ms_store m ! i) \<noteq> n" if "i \<in> set (ms_subs m)" for i
    using ms_invD(4) [OF assms(1) that] assms(3) by auto
  have k: "?k \<notin> set (ms_subs m)" using ms_invD(1) [OF assms(1)] by blast
  have len: "length (ms_store ?t) = Suc ?k" by (simp add: ms_addCIDR_def Let_def)
  show "ms_inv ?t"
    unfolding ms_inv_def
  proof (intro conjI ballI allI impI)
    show "distinct (ms_subs ?t)" using assms(1) k by (simp add: subs ms_inv_def)
  next
    fix i assume i: "i \<in> set (ms_subs ?t)"
    show "i < length (ms_store ?t)" "sub_inv (ms_store ?t ! i)"
      "ms_subByNode ?t (sub_nodeName (ms_store ?t ! i)) = Some i"
      using i subs sub new old names map len ms_invD [OF assms(1)] by (auto simp: less_Suc_eq)
  next
    fix n' i assume "ms_subByNode ?t n' = Some i"
    then show "i \<in> set (ms_subs ?t)" "sub_nodeName (ms_store ?t ! i) = n'"
      using assms(1) map subs new old unfolding ms_inv_def by (auto split: if_splits)
  qed
  have "rg_addrs (ms_range ?t ?k) = {}" using new NewCIDRRange_inv(2) [OF assms(2)] by (simp add: ms_range_def)
  moreover have "rg_addrs (ms_range ?t i) = rg_addrs (ms_range m i)" if "i \<in> set (ms_subs m)" for i
    using old [OF that] by (simp add: ms_range_def)
  ultimately show "ms_used ?t = ms_used m" by (simp add: ms_used_def subs)
qed

lemma remove_first_sub_eq:
  assumes "distinct js" "\<And>j. j \<in> set js \<Longrightarrow> sub_nodeName (st ! j) = n \<longleftrightarrow> j = i"
  shows "remove_first_sub st n js = remove1 i js"
  using assms by (induction js) auto

lemma ms_removeCIDR_inv:
  assumes "ms_inv m" "ms_subByNode m n = Some i"
  shows "ms_inv (ms_removeCIDRLocked m n)"
    and "ms_subs (ms_removeCIDRLocked m n) = remove1 i (ms_subs m)"
    and "ms_subByNode (ms_removeCIDRLocked m n) = (ms_subByNode m)(n := None)"
    and "ms_store (ms_removeCIDRLocked m n) = ms_store m"
proof -
  have name: "sub_nodeName (ms_store m ! j) = n \<longleftrightarrow> j = i" if "j \<in> set (ms_subs m)" for j
    using ms_invD(4) [OF assms(1) that] ms_inv_mapD(2) [OF assms] assms(2) by (metis option.inject)
  show subs: "ms_subs (ms_removeCIDRLocked m n) = remove1 i (ms_subs m)"
    using remove_first_sub_eq [of "ms_subs m" "ms_store m" n i] name assms(1)
    by (simp add: ms_removeCIDRLocked_def ms_inv_def)
  show map: "ms_subByNode (ms_removeCIDRLocked m n) = (ms_subByNode m)(n := None)"
    and st: "ms_store (ms_removeCIDRLocked m n) = ms_store m"
    by (simp_all add: ms_removeCIDRLocked_def)
  have d: "distinct (ms_subs m)" using assms(1) by (simp add: ms_inv_def)
  show "ms_inv (ms_removeCIDRLocked m n)"
    unfolding ms_inv_def subs map st
  proof (intro conjI ballI allI impI)
    fix j assume "j \<in> set (remove1 i (ms_subs m))"
    then have j: "j \<in> set (ms_subs m)" "j \<noteq> i" using d by auto
    then show "j < length (ms_store m)" "sub_inv (ms_store m ! j)"
      "((ms_subByNode m)(n := None)) (sub_nodeName (ms_store m ! j)) = Some j"
      using ms_invD [OF assms(1) j(1)] name [OF j(1)] by auto
  next
    fix n' j assume a: "((ms_subByNode m)(n := None)) n' = Some j"
    then have j: "j \<in> set (ms_subs m)" "sub_nodeName (ms_store m ! j) = n'" "n' \<noteq> n"
      using ms_inv_mapD [OF assms(1), of n' j] by (auto split: if_splits)
    then show "j \<in> set (remove1 i (ms_subs m))" "sub_nodeName (ms_store m ! j) = n'"
      using d name [OF j(1)] by auto
  qed (use d in simp)
qed

lemma ms_AddCIDR_inv [inv_intros]:
  assumes "ms_inv m" "pfx_wf p"
  shows "ms_inv (ms_AddCIDR m n (Some p))"
proof (cases "ms_subByNode m n")
  case None
  with assms show ?thesis by (simp add: ms_AddCIDR_def ms_addCIDR_inv)
next
  case (Some i)
  note r = ms_removeCIDR_inv [OF assms(1) Some]
  have "ms_inv (ms_addCIDR (ms_removeCIDRLocked m n) n (Some p))"
    using r by (intro ms_addCIDR_inv assms(2)) auto
  with Some assms(1) show ?thesis by (simp add: ms_AddCIDR_def)
qed

text \<open>After \<open>AddCIDR\<close> the node is served from the new CIDR and every other node as before.\<close>

lemma ms_AddCIDR_entry:
  assumes "ms_inv m" "pfx_wf p"
  shows "\<exists>i. ms_subByNode (ms_AddCIDR m n (Some p)) n = Some i \<and>
      sub_allocCIDR (ms_store (ms_AddCIDR m n (Some p)) ! i) = p"
    and "n' \<noteq> n \<Longrightarrow> ms_subByNode (ms_AddCIDR m n (Some p)) n' = ms_subByNode m n'"
    and "ms_subByNode m n' = Some j \<Longrightarrow> n' \<noteq> n \<Longrightarrow>
      ms_store (ms_AddCIDR m n (Some p)) ! j = ms_store m ! j"
proof -
  show "\<exists>i. ms_subByNode (ms_AddCIDR m n (Some p)) n = Some i \<and>
      sub_allocCIDR (ms_store (ms_AddCIDR m n (Some p)) ! i) = p"
    by (cases "ms_subByNode m n")
      (auto simp: ms_AddCIDR_def ms_addCIDR_def Let_def ms_removeCIDRLocked_def)
  show "n' \<noteq> n \<Longrightarrow> ms_subByNode (ms_AddCIDR m n (Some p)) n' = ms_subByNode m n'"
    by (cases "ms_subByNode m n")
      (auto simp: ms_AddCIDR_def ms_addCIDR_def Let_def ms_removeCIDRLocked_def)
  assume "ms_subByNode m n' = Some j" "n' \<noteq> n"
  with ms_inv_mapD(1) [OF assms(1)] have "j < length (ms_store m)" by (intro ms_invD(1) [OF assms(1)])
  then show "ms_store (ms_AddCIDR m n (Some p)) ! j = ms_store m ! j"
    by (cases "ms_subByNode m n")
      (auto simp: ms_AddCIDR_def ms_addCIDR_def Let_def ms_removeCIDRLocked_def nth_append)
qed

lemma ciliumNodeIPv4CIDR_Some:
  "ciliumNodeIPv4CIDR ps = Some p \<Longrightarrow> p \<in> set ps \<and> addr_is4 (pfx_addr p)"
  by (induction ps) (auto split: if_splits)

lemma ms_fetch_nodes_inv:
  assumes "ms_inv m" "distinct names" "\<And>n. n \<in> set names \<Longrightarrow> n \<noteq> l \<Longrightarrow> ms_subByNode m n = None"
    and "\<And>n ps p. get n = Some ps \<Longrightarrow> p \<in> set ps \<Longrightarrow> pfx_wf p"
  shows "ms_inv (ms_fetch_nodes get l names m)"
  using assms(1-3)
proof (induction names arbitrary: m)
  case (Cons n names)
  show ?case
  proof (cases "n = l \<or> get n = None \<or> ciliumNodeIPv4CIDR (the (get n)) = None")
    case True
    with Cons show ?thesis by (auto split: option.splits)
  next
    case False
    then obtain ps p where g: "get n = Some ps" "ciliumNodeIPv4CIDR ps = Some p" "n \<noteq> l" by auto
    have wf: "pfx_wf p" using assms(4) g ciliumNodeIPv4CIDR_Some by blast
    have none: "ms_subByNode m n = None" using Cons.prems(3) g by simp
    note a = ms_addCIDR_inv [OF Cons.prems(1) wf none]
    have "ms_inv (ms_fetch_nodes get l names (ms_addCIDR m n (Some p)))"
      using Cons.prems a(1,3) by (intro Cons.IH) auto
    with g show ?thesis by simp
  qed
qed simp

lemma newManagedScopeAllocator_inv [inv_intros]:
  assumes "distinct managed" "pfx_wf p"
    and "\<And>n ps q. get n = Some ps \<Longrightarrow> q \<in> set ps \<Longrightarrow> pfx_wf q"
  shows "ms_inv (newManagedScopeAllocator get l managed (Some p))"
proof -
  let ?m = "\<lparr>ms_store = [], ms_subs = [], ms_subByNode = Map.empty, ms_primaryNode = l\<rparr>"
  have e: "ms_inv ?m" by (simp add: ms_inv_def)
  note a = ms_addCIDR_inv [OF e assms(2), of l]
  have "ms_inv (ms_fetch_nodes get l managed (ms_addCIDR ?m l (Some p)))"
    using assms(1,3) a by (intro ms_fetch_nodes_inv) auto
  then show ?thesis by (simp add: newManagedScopeAllocator_def)
qed

section \<open>Properties\<close>

text \<open>
  (C22) Routing. When a managed node is known under the requested pool name, \<open>AllocateNext\<close> takes
  the address from that node's own CIDR, reports that node as the pool, and leaves the
  sub-allocators of all other nodes as they were.
\<close>

theorem managed_routes_to_node:
  assumes "ms_inv m" and "ms_subByNode m n = Some i" and "n \<noteq> []"
    and "ms_AllocateNext m rnd own n = Inr (t, res)"
  shows "pfx_contains (sub_allocCIDR (ms_store m ! i)) (res_IP res) \<and> res_IPPoolName res = n \<and>
    (\<forall>j \<in> set (ms_subs m). j \<noteq> i \<longrightarrow> ms_range t j = ms_range m j)"
proof -
  obtain k r where k: "ms_route m n = Some k" and r: "rg_AllocateNext (ms_range m k) rnd = Inr (r, res_IP res)"
    and t: "t = ms_set_range m k r" and pool: "res_IPPoolName res = sub_nodeName (ms_store m ! k)"
    by (rule ms_AllocateNext_cases [OF assms(4)])
  have ki: "k = i" using k assms(2,3) by (simp add: ms_route_def ms_resolvePool_def)
  have s: "i \<in> set (ms_subs m)" using ms_route_listed [OF assms(1) k] ki by simp
  note ri = ms_invD(2,3) [OF assms(1) s]
  note a = rg_AllocateNext_Inr [OF ri(2) r [unfolded ki]]
  have c: "pfx_contains (sub_allocCIDR (ms_store m ! i)) (res_IP res)"
    using a sub_usable_contains [OF ri(1)] by (simp add: ms_range_def)
  have n: "sub_nodeName (ms_store m ! i) = n" using assms(1,2) by (simp add: ms_inv_def)
  show ?thesis
    using c n pool ki t ms_set_range_frame(5) [OF assms(1) s, of r] a by simp
qed

text \<open>
  (C23) Uniqueness across nodes. While the managed nodes' CIDRs do not overlap, an address that
  \<open>AllocateNext\<close> returns, for any pool, is in use at no managed node, it is in use afterwards, and
  allocating it again explicitly fails.
\<close>

theorem managed_addresses_unique:
  assumes "ms_inv m" and "ms_disjoint m" and "ms_AllocateNext m rnd own p = Inr (t, res)"
  shows "res_IP res \<notin> ms_used m \<and> ms_used t = insert (res_IP res) (ms_used m) \<and>
    \<not> is_ok (ms_Allocate t (res_IP res) own' p')"
proof -
  have ok: "ms_ok m" using assms by (simp add: ms_ok_def)
  note n = managed.next_Inr [OF ok assms(3)]
  then show ?thesis using managed.allocate_taken_fails [of t "res_IP res"] by simp
qed

text \<open>
  (C24) Reconfiguration. \<open>AddCIDR\<close> keeps the allocator well formed; afterwards the node has a
  sub-allocator over the given CIDR, every other node keeps its own, and repeating a CIDR the node
  already has changes nothing.
\<close>

theorem managed_AddCIDR_correct:
  assumes "ms_inv m" and "pfx_wf p"
  shows "ms_inv (ms_AddCIDR m n (Some p)) \<and>
    (\<exists>i. ms_subByNode (ms_AddCIDR m n (Some p)) n = Some i \<and>
         sub_allocCIDR (ms_store (ms_AddCIDR m n (Some p)) ! i) = p) \<and>
    (\<forall>n' j. n' \<noteq> n \<longrightarrow> ms_subByNode (ms_AddCIDR m n (Some p)) n' = ms_subByNode m n' \<and>
       (ms_subByNode m n' = Some j \<longrightarrow> ms_store (ms_AddCIDR m n (Some p)) ! j = ms_store m ! j)) \<and>
    (\<forall>i. ms_subByNode m n = Some i \<and> sub_allocCIDR (ms_store m ! i) = p \<longrightarrow>
       ms_AddCIDR m n (Some p) = m)"
  using ms_AddCIDR_inv [OF assms] ms_AddCIDR_entry [OF assms] by (auto simp: ms_AddCIDR_def)

text \<open>A host with two managed nodes, \<open>infra\<close> (primary) and \<open>w1\<close>, for the witnesses.\<close>

definition ex_managed :: managed_scope where
  "ex_managed = newManagedScopeAllocator
     (\<lambda>n. if n = ''w1'' then Some [prefix_from (V4 0x0a001000) 20] else None)
     ''infra'' [''infra'', ''w1''] (Some (prefix_from (V4 0x0a000000) 20))"

lemma ex_managed_eq:
  "ex_managed =
    \<lparr>ms_store =
       [\<lparr>sub_nodeName = ''infra'', sub_allocCIDR = prefix_from (V4 0x0a000000) 20,
         sub_allocator = NewCIDRRange (prefix_from (V4 0x0a000000) 20) []\<rparr>,
        \<lparr>sub_nodeName = ''w1'', sub_allocCIDR = prefix_from (V4 0x0a001000) 20,
         sub_allocator = NewCIDRRange (prefix_from (V4 0x0a001000) 20) []\<rparr>],
     ms_subs = [0, 1], ms_subByNode = [''infra'' \<mapsto> 0, ''w1'' \<mapsto> 1], ms_primaryNode = ''infra''\<rparr>"
  by (simp add: ex_managed_def newManagedScopeAllocator_def ms_addCIDR_def Let_def prefix_from_def)

lemma ex_prefix_wf: "pfx_wf (prefix_from (V4 a) 20)"
  by (simp add: netip_eval)

lemma ex_managed_inv: "ms_inv ex_managed"
  unfolding ex_managed_def
  by (rule newManagedScopeAllocator_inv) (auto simp: ex_prefix_wf split: if_splits)

lemma ex_contains:
  "pfx_contains (prefix_from (V4 b) 20) a \<Longrightarrow> \<exists>w. a = V4 w \<and> unat w div 4096 = unat b div 4096"
  by (cases a) (simp_all add: netip_eval drop_bit_xor_eq_0_iff del: drop_bit_xor)

lemma ex_managed_disjoint: "ms_disjoint ex_managed"
proof -
  have "\<not> (pfx_contains (prefix_from (V4 0x0a000000) 20) a \<and> pfx_contains (prefix_from (V4 0x0a001000) 20) a)" for a
    by (auto dest!: ex_contains)
  then show ?thesis by (auto simp: ms_disjoint_def ex_managed_eq)
qed

theorem managed_routes_to_node_witness:
  "\<exists>t. ms_AllocateNext ex_managed 7 ''ns/pod'' ''w1'' = Inr (t, alloc_result (V4 0x0a001008) ''w1'') \<and>
     pfx_contains (prefix_from (V4 0x0a001000) 20) (V4 0x0a001008) \<and>
     ms_range t 0 = ms_range ex_managed 0"
proof -
  have i: "ms_subByNode ex_managed ''w1'' = Some 1" by (simp add: ex_managed_eq)
  obtain t where t: "ms_AllocateNext ex_managed 7 ''ns/pod'' ''w1'' = Inr (t, alloc_result (V4 0x0a001008) ''w1'')"
    by (simp add: ms_AllocateNext_def ms_resolvePool_def ex_managed_eq range_eval)
  from managed_routes_to_node [OF ex_managed_inv i _ t] t show ?thesis
    by (simp add: ex_managed_eq alloc_result_def)
qed

theorem managed_addresses_unique_witness:
  "\<exists>t. ms_AllocateNext ex_managed 7 ''ns/pod'' ''w1'' = Inr (t, alloc_result (V4 0x0a001008) ''w1'') \<and>
     \<not> is_ok (ms_Allocate t (V4 0x0a001008) ''ns/other'' ''w1'')"
proof -
  obtain t where t: "ms_AllocateNext ex_managed 7 ''ns/pod'' ''w1'' = Inr (t, alloc_result (V4 0x0a001008) ''w1'')"
    by (simp add: ms_AllocateNext_def ms_resolvePool_def ex_managed_eq range_eval)
  from managed_addresses_unique [OF ex_managed_inv ex_managed_disjoint t, of "''ns/other''" "''w1''"] t
  show ?thesis by (simp add: alloc_result_def)
qed

theorem managed_AddCIDR_correct_witness:
  "ms_subByNode (ms_AddCIDR ex_managed ''w1'' (Some (prefix_from (V4 0x0a002000) 20))) ''w1'' = Some 2 \<and>
   ms_subs (ms_AddCIDR ex_managed ''w1'' (Some (prefix_from (V4 0x0a002000) 20))) = [0, 2] \<and>
   ms_inv (ms_AddCIDR ex_managed ''w1'' (Some (prefix_from (V4 0x0a002000) 20)))"
  using managed_AddCIDR_correct [OF ex_managed_inv ex_prefix_wf, of "''w1''" "0x0a002000"]
  by (simp add: ex_managed_eq ms_AddCIDR_def ms_addCIDR_def ms_removeCIDRLocked_def prefix_from_def Let_def)

end
