(* ===== verification/Scale_To_Zero.thy ===== *)
theory Scale_To_Zero
  imports IP_Range
begin

text \<open>
  The agent's side of the scale-to-zero datapath: \<open>pkg/maps/constellationstz\<close>. Two BPF maps keyed
  by the bare IPv4 address hold the armed triggers and the flow timestamps; IPAM clears both
  entries of an address whenever it hands the address out or takes it back. Which kernel deletions
  fail is part of the environment.
\<close>

record stz_maps =
  stz_triggers :: "u32 \<rightharpoonup> u8"
  stz_flows :: "u32 \<rightharpoonup> u64"
  stz_trigger_delete_fails :: "u32 \<Rightarrow> bool"
  stz_flow_delete_fails :: "u32 \<Rightarrow> bool"

datatype stz_error = ClearingTriggers | ClearingFlows

text \<open>
  \<open>newKey\<close> goes through \<open>net.IP.To4\<close>, which accepts four bytes and the IPv4-mapped sixteen.
\<close>

definition stz_newKey :: "addr \<Rightarrow> u32 option" where
  "stz_newKey ip = addr_as4 ip"

definition stz_delete_trigger :: "stz_maps \<Rightarrow> u32 \<Rightarrow> stz_maps \<times> stz_error list" where
  "stz_delete_trigger m k =
     (if stz_trigger_delete_fails m k then (m, [ClearingTriggers])
      else (m\<lparr>stz_triggers := (stz_triggers m)(k := None)\<rparr>, []))"

definition stz_delete_flow :: "stz_maps \<Rightarrow> u32 \<Rightarrow> stz_maps \<times> stz_error list" where
  "stz_delete_flow m k =
     (if stz_flow_delete_fails m k then (m, [ClearingFlows])
      else (m\<lparr>stz_flows := (stz_flows m)(k := None)\<rparr>, []))"

definition stz_Clear :: "stz_maps \<Rightarrow> addr \<Rightarrow> stz_maps \<times> stz_error list" where
  "stz_Clear m ip =
     (case stz_newKey ip of
        None \<Rightarrow> (m, [])
      | Some key \<Rightarrow>
          (let (m1, e1) = stz_delete_trigger m key;
               (m2, e2) = stz_delete_flow m1 key
           in (m2, e1 @ e2)))"

text \<open>
  A bare SYN to an address is dropped while a trigger is armed for it
  (\<open>bpf/lib/constellation_stz.h\<close>); what matters to IPAM is that none is left behind.
\<close>

definition stz_clean :: "stz_maps \<Rightarrow> addr \<Rightarrow> bool" where
  "stz_clean m ip \<longleftrightarrow> (\<forall>k. stz_newKey ip = Some k \<longrightarrow> stz_triggers m k = None \<and> stz_flows m k = None)"

definition stz_deletable :: "stz_maps \<Rightarrow> addr \<Rightarrow> bool" where
  "stz_deletable m ip \<longleftrightarrow>
     (\<forall>k. stz_newKey ip = Some k \<longrightarrow> \<not> stz_trigger_delete_fails m k \<and> \<not> stz_flow_delete_fails m k)"

lemma stz_Clear_env [simp]:
  "stz_trigger_delete_fails (fst (stz_Clear m ip)) = stz_trigger_delete_fails m"
  "stz_flow_delete_fails (fst (stz_Clear m ip)) = stz_flow_delete_fails m"
  by (simp_all add: stz_Clear_def stz_delete_trigger_def stz_delete_flow_def Let_def split: option.split)

lemma stz_Clear_clean: "stz_deletable m ip \<Longrightarrow> stz_clean (fst (stz_Clear m ip)) ip \<and> snd (stz_Clear m ip) = []"
  by (auto simp: stz_Clear_def stz_clean_def stz_deletable_def stz_delete_trigger_def
      stz_delete_flow_def split: option.splits)

text \<open>Clearing never adds an entry and touches only the key of the address.\<close>

lemma stz_Clear_frame:
  "stz_newKey ip \<noteq> Some k \<Longrightarrow> stz_triggers (fst (stz_Clear m ip)) k = stz_triggers m k \<and>
     stz_flows (fst (stz_Clear m ip)) k = stz_flows m k"
  by (auto simp: stz_Clear_def stz_delete_trigger_def stz_delete_flow_def split: option.splits)

lemma stz_Clear_mono:
  "stz_triggers m k = None \<Longrightarrow> stz_triggers (fst (stz_Clear m ip)) k = None"
  "stz_flows m k = None \<Longrightarrow> stz_flows (fst (stz_Clear m ip)) k = None"
  by (auto simp: stz_Clear_def stz_delete_trigger_def stz_delete_flow_def split: option.splits)

lemma stz_clean_Clear: "stz_clean m a \<Longrightarrow> stz_clean (fst (stz_Clear m ip)) a"
  by (simp add: stz_clean_def stz_Clear_mono)

end
