(* ===== verification/IPAM_Core.thy ===== *)
theory IPAM_Core
  imports Scope_Allocators Scale_To_Zero "HOL-Library.AList"
begin

text \<open>
  The IP address manager: \<open>pkg/ipam/allocator.go\<close>, the ownership and exclusion bookkeeping of
  \<open>pkg/ipam/ipam.go\<close> and the endpoint hook of \<open>pkg/ipam/types.go\<close>. Every exported operation runs
  under \<open>allocatorMutex\<close>, so an operation is one step on the state; the goroutine behind an
  expiration timer is the separate step \<open>expire_timer\<close>. Metrics and logging have no effect on the
  state and are left out.
\<close>

section \<open>Allocators behind the interface\<close>

datatype allocator_impl = HostScope host_scope | ManagedScope managed_scope | NoOp

fun al_Allocate ::
  "allocator_impl \<Rightarrow> addr \<Rightarrow> owner \<Rightarrow> pool \<Rightarrow> (alloc_error, allocator_impl \<times> allocation_result) result" where
  "al_Allocate (HostScope h) a own p = map_sum id (map_prod HostScope id) (hs_Allocate h a own p)"
| "al_Allocate (ManagedScope m) a own p = map_sum id (map_prod ManagedScope id) (ms_Allocate m a own p)"
| "al_Allocate NoOp a own p = map_sum id (map_prod (\<lambda>_. NoOp) id) (noop_Allocate () a own p)"

fun al_AllocateWithoutSyncUpstream ::
  "allocator_impl \<Rightarrow> addr \<Rightarrow> owner \<Rightarrow> pool \<Rightarrow> (alloc_error, allocator_impl \<times> allocation_result) result" where
  "al_AllocateWithoutSyncUpstream (HostScope h) a own p =
     map_sum id (map_prod HostScope id) (hs_AllocateWithoutSyncUpstream h a own p)"
| "al_AllocateWithoutSyncUpstream (ManagedScope m) a own p =
     map_sum id (map_prod ManagedScope id) (ms_AllocateWithoutSyncUpstream m a own p)"
| "al_AllocateWithoutSyncUpstream NoOp a own p = Inl NotSupported"

fun al_AllocateNext ::
  "allocator_impl \<Rightarrow> nat \<Rightarrow> owner \<Rightarrow> pool \<Rightarrow> (alloc_error, allocator_impl \<times> allocation_result) result" where
  "al_AllocateNext (HostScope h) rnd own p = map_sum id (map_prod HostScope id) (hs_AllocateNext h rnd own p)"
| "al_AllocateNext (ManagedScope m) rnd own p = map_sum id (map_prod ManagedScope id) (ms_AllocateNext m rnd own p)"
| "al_AllocateNext NoOp rnd own p = map_sum id (map_prod (\<lambda>_. NoOp) id) (noop_AllocateNext () rnd own p)"

fun al_AllocateNextWithoutSyncUpstream ::
  "allocator_impl \<Rightarrow> nat \<Rightarrow> owner \<Rightarrow> pool \<Rightarrow> (alloc_error, allocator_impl \<times> allocation_result) result" where
  "al_AllocateNextWithoutSyncUpstream (HostScope h) rnd own p =
     map_sum id (map_prod HostScope id) (hs_AllocateNextWithoutSyncUpstream h rnd own p)"
| "al_AllocateNextWithoutSyncUpstream (ManagedScope m) rnd own p =
     map_sum id (map_prod ManagedScope id) (ms_AllocateNextWithoutSyncUpstream m rnd own p)"
| "al_AllocateNextWithoutSyncUpstream NoOp rnd own p = Inl NotSupported"

fun al_Release :: "allocator_impl \<Rightarrow> addr \<Rightarrow> pool \<Rightarrow> allocator_impl \<times> alloc_error option" where
  "al_Release (HostScope h) a p = map_prod HostScope id (hs_Release h a p)"
| "al_Release (ManagedScope m) a p = map_prod ManagedScope id (ms_Release m a p)"
| "al_Release NoOp a p = map_prod (\<lambda>_. NoOp) id (noop_Release () a p)"

fun al_Dump :: "allocator_impl \<Rightarrow> addr list" where
  "al_Dump (HostScope h) = fst (hs_Dump h)"
| "al_Dump (ManagedScope m) = fst (ms_Dump m)"
| "al_Dump NoOp = []"

text \<open>How many addresses are left, a bound for the search loop below.\<close>

fun al_free :: "allocator_impl \<Rightarrow> nat" where
  "al_free (HostScope h) = nat (rg_Free (hs_allocator h))"
| "al_free (ManagedScope m) = sum_list (map (\<lambda>i. nat (rg_Free (sub_allocator (ms_store m ! i)))) (ms_subs m))"
| "al_free NoOp = 0"

fun al_used :: "allocator_impl \<Rightarrow> addr set" where
  "al_used (HostScope h) = hs_used h"
| "al_used (ManagedScope m) = ms_used m"
| "al_used NoOp = {}"

fun al_inv :: "allocator_impl \<Rightarrow> bool" where
  "al_inv (HostScope h) = hs_inv h"
| "al_inv (ManagedScope m) = ms_ok m"
| "al_inv NoOp = True"

lemma rg_avail_Free: "rg_inv r \<Longrightarrow> rg_avail r = nat (rg_Free r)"
  by (simp add: rg_avail_def rg_Free_eq)

lemma al_free_eq: "al_inv s \<Longrightarrow> al_free s = (case s of HostScope h \<Rightarrow> hs_avail h | ManagedScope m \<Rightarrow> ms_avail m | NoOp \<Rightarrow> 0)"
proof (cases s)
  case (HostScope h)
  assume "al_inv s"
  with HostScope show ?thesis by (simp add: hs_avail_def rg_avail_Free hs_inv_def)
next
  case (ManagedScope m)
  assume "al_inv s"
  with ManagedScope have i: "ms_inv m" by (simp add: ms_ok_def)
  then have d: "distinct (ms_subs m)" by (simp add: ms_inv_def)
  have "nat (rg_Free (sub_allocator (ms_store m ! i))) = rg_avail (ms_range m i)" if "i \<in> set (ms_subs m)" for i
    using ms_invD(3) [OF i that] by (simp add: rg_avail_Free ms_range_def)
  then have "map (\<lambda>i. nat (rg_Free (sub_allocator (ms_store m ! i)))) (ms_subs m) =
      map (\<lambda>i. rg_avail (ms_range m i)) (ms_subs m)" by simp
  then show ?thesis using ManagedScope d by (simp add: ms_avail_def sum_list_distinct_conv_sum_set)
qed simp

interpretation impl: ip_allocator al_Allocate al_AllocateNext al_Release al_used al_free al_inv
proof (unfold_locales, goal_cases)
  case (1 s ip own p t res)
  then show ?case
  proof (cases s)
    case (HostScope h)
    with 1 obtain h' where "hs_Allocate h ip own p = Inr (h', res)" "t = HostScope h'"
      by (cases "hs_Allocate h ip own p") auto
    with HostScope 1(1) host.allocate_Inr [of h ip own p h' res] show ?thesis by simp
  next
    case (ManagedScope m)
    with 1 obtain m' where "ms_Allocate m ip own p = Inr (m', res)" "t = ManagedScope m'"
      by (cases "ms_Allocate m ip own p") auto
    with ManagedScope 1(1) managed.allocate_Inr [of m ip own p m' res] show ?thesis by simp
  next
    case NoOp
    with 1(2) show ?thesis by (simp add: noop_Allocate_def)
  qed
next
  case (2 s rnd own p t res)
  then show ?case
  proof (cases s)
    case (HostScope h)
    with 2 obtain h' where "hs_AllocateNext h rnd own p = Inr (h', res)" "t = HostScope h'"
      by (cases "hs_AllocateNext h rnd own p") auto
    with HostScope 2(1) host.next_Inr [of h rnd own p h' res] show ?thesis
      by (simp add: al_free_eq del: al_free.simps)
  next
    case (ManagedScope m)
    with 2 obtain m' where "ms_AllocateNext m rnd own p = Inr (m', res)" "t = ManagedScope m'"
      by (cases "ms_AllocateNext m rnd own p") auto
    with ManagedScope 2(1) managed.next_Inr [of m rnd own p m' res] show ?thesis
      by (simp add: al_free_eq del: al_free.simps)
  next
    case NoOp
    with 2(2) show ?thesis by (simp add: noop_AllocateNext_def)
  qed
next
  case (3 s ip p)
  then show ?case
    using host.release_spec managed.release_spec by (cases s) simp_all
next
  case (4 s)
  then show ?case using host.used_finite managed.used_finite by (cases s) simp_all
qed

text \<open>None of these allocators talks to an upstream: the variants without sync are the same.\<close>

lemma al_sync_irrelevant [simp]:
  "al_AllocateWithoutSyncUpstream s a own p = al_Allocate s a own p"
  "al_AllocateNextWithoutSyncUpstream s rnd own p = al_AllocateNext s rnd own p"
  by (cases s; simp add: hs_AllocateWithoutSyncUpstream_def hs_Allocate_def
      ms_AllocateWithoutSyncUpstream_def noop_Allocate_def hs_AllocateNextWithoutSyncUpstream_def
      hs_AllocateNext_def ms_AllocateNextWithoutSyncUpstream_def noop_AllocateNext_def)+

section \<open>State\<close>

datatype family = IPv4 | IPv6 | OtherFamily string

datatype ipam_error =
    PoolNameRequired addr owner
  | InvalidIP addr
  | IPExcluded addr owner
  | ErrIPv4Disabled
  | ErrIPv6Disabled
  | AllocFailed alloc_error
  | UnknownFamily string
  | AllocatorNotAvailable family
  | PoolUndetermined owner string
  | NoReleasePool addr
  | TimerAlreadyRegistered
  | NoTimerRegistered
  | UUIDMismatch
  | NilAllocatorPanic
  | SearchBoundReached

record ipam_config =
  cfg_EnableScaleToZeroDatapath :: bool
  cfg_IPAMDefaultIPPool :: pool
  cfg_EnableIPv4 :: bool
  cfg_EnableIPv6 :: bool

text \<open>
  Maps keyed by \<open>ip.String()\<close> are keyed by the address, whose text form is unique, and the map
  keyed by \<open>pool:ip\<close> by the pair. \<open>GetIPPoolForPod\<close> of the metadata manager is a parameter.
\<close>

record ipam =
  im_ipv6Allocator :: "allocator_impl option"
  im_ipv4Allocator :: "allocator_impl option"
  im_metadata :: "owner \<Rightarrow> family \<Rightarrow> (string, pool) result"
  im_owner :: "(pool \<times> (addr \<times> owner) list) list"
  im_expirationTimers :: "addr \<times> pool \<rightharpoonup> string"
  im_excludedIPs :: "pool \<times> addr \<rightharpoonup> owner"
  im_stz :: stz_maps
  im_config :: ipam_config

section \<open>Pools, owners, exclusions\<close>

definition PoolDefault :: "ipam_config \<Rightarrow> pool" where
  "PoolDefault c = cfg_IPAMDefaultIPPool c"

definition PoolOrDefault :: "ipam_config \<Rightarrow> pool \<Rightarrow> pool" where
  "PoolOrDefault c p = (if p = [] then PoolDefault c else p)"

definition NewIPAM :: "ipam_config \<Rightarrow> (owner \<Rightarrow> family \<Rightarrow> (string, pool) result) \<Rightarrow> stz_maps \<Rightarrow> ipam" where
  "NewIPAM c md stz =
     \<lparr>im_ipv6Allocator = None, im_ipv4Allocator = None, im_metadata = md, im_owner = [],
      im_expirationTimers = Map.empty, im_excludedIPs = Map.empty, im_stz = stz, im_config = c\<rparr>"

definition getIPOwner :: "ipam \<Rightarrow> addr \<Rightarrow> pool \<Rightarrow> owner" where
  "getIPOwner im ip p =
     (case map_of (im_owner im) p of
        Some m \<Rightarrow> (case map_of m ip of Some own \<Rightarrow> own | None \<Rightarrow> [])
      | None \<Rightarrow> [])"

definition registerIPOwner :: "ipam \<Rightarrow> addr \<Rightarrow> owner \<Rightarrow> pool \<Rightarrow> ipam" where
  "registerIPOwner im ip own p =
     (let im1 = (if map_of (im_owner im) p = None
                 then im\<lparr>im_owner := AList.update p [] (im_owner im)\<rparr> else im);
          m = the (map_of (im_owner im1) p)
      in im1\<lparr>im_owner := AList.update p (AList.update ip own m) (im_owner im1)\<rparr>)"

definition releaseIPOwner :: "ipam \<Rightarrow> addr \<Rightarrow> pool \<Rightarrow> ipam \<times> owner" where
  "releaseIPOwner im ip p =
     (case map_of (im_owner im) p of
        None \<Rightarrow> (im, [])
      | Some m \<Rightarrow>
          (let own = (case map_of m ip of Some x \<Rightarrow> x | None \<Rightarrow> []);
               m' = AList.delete ip m
           in (im\<lparr>im_owner := (if m' = [] then AList.delete p (im_owner im)
                              else AList.update p m' (im_owner im))\<rparr>, own)))"

definition ExcludeIP :: "ipam \<Rightarrow> addr \<Rightarrow> owner \<Rightarrow> pool \<Rightarrow> ipam" where
  "ExcludeIP im ip own p = im\<lparr>im_excludedIPs := (im_excludedIPs im)((p, ip) \<mapsto> own)\<rparr>"

text \<open>The source builds the key of \<open>excludedIPs\<close> from the two texts; here it is the pair.\<close>

definition isIPExcluded :: "ipam \<Rightarrow> addr \<Rightarrow> pool \<Rightarrow> owner option" where
  "isIPExcluded im ip p = im_excludedIPs im (p, ip)"

definition clearScaleToZeroState :: "ipam \<Rightarrow> addr \<Rightarrow> ipam" where
  "clearScaleToZeroState im ip =
     (if \<not> cfg_EnableScaleToZeroDatapath (im_config im) then im
      else im\<lparr>im_stz := fst (stz_Clear (im_stz im) ip)\<rparr>)"

definition determineIPAMPool :: "ipam \<Rightarrow> owner \<Rightarrow> family \<Rightarrow> (ipam_error, pool) result" where
  "determineIPAMPool im own fam =
     (case im_metadata im own fam of Inl e \<Rightarrow> Inl (PoolUndetermined own e) | Inr p \<Rightarrow> Inr p)"

section \<open>Allocation of a given address\<close>

definition set_allocator :: "ipam \<Rightarrow> bool \<Rightarrow> allocator_impl \<Rightarrow> ipam" where
  "set_allocator im is4 al =
     (if is4 then im\<lparr>im_ipv4Allocator := Some al\<rparr> else im\<lparr>im_ipv6Allocator := Some al\<rparr>)"

definition get_allocator :: "ipam \<Rightarrow> bool \<Rightarrow> allocator_impl option" where
  "get_allocator im is4 = (if is4 then im_ipv4Allocator im else im_ipv6Allocator im)"

definition with_default_pool :: "ipam_config \<Rightarrow> allocation_result \<Rightarrow> allocation_result" where
  "with_default_pool c res =
     (if res_IPPoolName res = [] then res\<lparr>res_IPPoolName := PoolDefault c\<rparr> else res)"

definition allocateIP ::
  "ipam \<Rightarrow> addr \<Rightarrow> owner \<Rightarrow> pool \<Rightarrow> bool \<Rightarrow> ipam \<times> (ipam_error, allocation_result) result" where
  "allocateIP im ip own p needSyncUpstream =
     (if p = [] then (im, Inl (PoolNameRequired ip own))
      else if \<not> addr_is_valid ip then (im, Inl (InvalidIP ip))
      else case isIPExcluded im ip p of
        Some ownedBy \<Rightarrow> (im, Inl (IPExcluded ip ownedBy))
      | None \<Rightarrow>
          (case get_allocator im (addr_is4 ip) of
             None \<Rightarrow> (im, Inl (if addr_is4 ip then ErrIPv4Disabled else ErrIPv6Disabled))
           | Some al \<Rightarrow>
               (case (if needSyncUpstream then al_Allocate al ip own p
                      else al_AllocateWithoutSyncUpstream al ip own p) of
                  Inl e \<Rightarrow> (im, Inl (AllocFailed e))
                | Inr (al', res) \<Rightarrow>
                    (let im1 = set_allocator im (addr_is4 ip) al';
                         res' = with_default_pool (im_config im) res;
                         im2 = registerIPOwner im1 ip own p;
                         im3 = clearScaleToZeroState im2 ip
                     in (im3, Inr res')))))"

definition AllocateIP :: "ipam \<Rightarrow> addr \<Rightarrow> owner \<Rightarrow> pool \<Rightarrow> ipam \<times> ipam_error option" where
  "AllocateIP im ip own p =
     (case allocateIP im ip own p True of
        (im', Inl e) \<Rightarrow> (im', Some e)
      | (im', Inr res) \<Rightarrow> (im', None))"

definition AllocateIPWithoutSyncUpstream ::
  "ipam \<Rightarrow> addr \<Rightarrow> owner \<Rightarrow> pool \<Rightarrow> ipam \<times> (ipam_error, allocation_result) result" where
  "AllocateIPWithoutSyncUpstream im ip own p = allocateIP im ip own p False"

section \<open>Allocation of the next address\<close>

text \<open>
  The \<open>for\<close> loop. Each round draws an address; an excluded one stays allocated under the owner's
  name with a suffix and the loop goes on. \<open>rnd k\<close> is the random draw of round \<open>k\<close>. The bound is
  one more than the number of free addresses, and a round that does not return uses one up.
\<close>

fun next_loop ::
  "nat \<Rightarrow> nat \<Rightarrow> ipam \<Rightarrow> bool \<Rightarrow> (nat \<Rightarrow> nat) \<Rightarrow> owner \<Rightarrow> pool \<Rightarrow> bool \<Rightarrow>
   ipam \<times> (ipam_error, allocation_result) result" where
  "next_loop 0 k im is4 rnd own p sync = (im, Inl SearchBoundReached)"
| "next_loop (Suc n) k im is4 rnd own p sync =
     (case get_allocator im is4 of
        None \<Rightarrow> (im, Inl NilAllocatorPanic)
      | Some al \<Rightarrow>
          (case (if sync then al_AllocateNext al (rnd k) own p
                 else al_AllocateNextWithoutSyncUpstream al (rnd k) own p) of
             Inl e \<Rightarrow> (im, Inl (AllocFailed e))
           | Inr (al', res) \<Rightarrow>
               (let im1 = set_allocator im is4 al';
                    res' = with_default_pool (im_config im) res;
                    ip = res_IP res'
                in if isIPExcluded im1 ip p = None
                   then (clearScaleToZeroState (registerIPOwner im1 ip own p) ip, Inr res')
                   else next_loop n (Suc k) (registerIPOwner im1 ip (own @ '' (excluded)'') p)
                          is4 rnd own p sync)))"

text \<open>
  The capacity metric is read through the allocator of the family before that allocator is
  compared with nil, so a disabled family ends in a nil dereference.
\<close>

definition allocateNextFamily ::
  "ipam \<Rightarrow> (nat \<Rightarrow> nat) \<Rightarrow> family \<Rightarrow> owner \<Rightarrow> pool \<Rightarrow> bool \<Rightarrow> ipam \<times> (ipam_error, allocation_result) result" where
  "allocateNextFamily im rnd fam own p sync =
     (case fam of
        OtherFamily s \<Rightarrow> (im, Inl (UnknownFamily s))
      | _ \<Rightarrow>
          (case get_allocator im (fam = IPv4) of
             None \<Rightarrow> (im, Inl NilAllocatorPanic)
           | Some al \<Rightarrow>
               (case (if p = [] then determineIPAMPool im own fam else Inr p) of
                  Inl e \<Rightarrow> (im, Inl e)
                | Inr p' \<Rightarrow> next_loop (Suc (al_free al)) 0 im (fam = IPv4) rnd own p' sync)))"

text \<open>The pool a request is served from: the one it names, or the one the metadata gives for the owner and family.\<close>

definition requested_pool :: "ipam \<Rightarrow> owner \<Rightarrow> family \<Rightarrow> pool \<Rightarrow> (ipam_error, pool) result" where
  "requested_pool im own fam p = (if p = [] then determineIPAMPool im own fam else Inr p)"

definition AllocateNextFamily ::
  "ipam \<Rightarrow> (nat \<Rightarrow> nat) \<Rightarrow> family \<Rightarrow> owner \<Rightarrow> pool \<Rightarrow> ipam \<times> (ipam_error, allocation_result) result" where
  "AllocateNextFamily im rnd fam own p = allocateNextFamily im rnd fam own p True"

definition AllocateNextFamilyWithoutSyncUpstream ::
  "ipam \<Rightarrow> (nat \<Rightarrow> nat) \<Rightarrow> family \<Rightarrow> owner \<Rightarrow> pool \<Rightarrow> ipam \<times> (ipam_error, allocation_result) result" where
  "AllocateNextFamilyWithoutSyncUpstream im rnd fam own p = allocateNextFamily im rnd fam own p False"

section \<open>Release\<close>

definition releaseIPLocked :: "ipam \<Rightarrow> addr \<Rightarrow> pool \<Rightarrow> ipam \<times> ipam_error option" where
  "releaseIPLocked im ip p =
     (if p = [] then (im, Some (NoReleasePool ip))
      else if \<not> addr_is_valid ip then (im, Some (InvalidIP ip))
      else case get_allocator im (addr_is4 ip) of
        None \<Rightarrow> (im, Some (if addr_is4 ip then ErrIPv4Disabled else ErrIPv6Disabled))
      | Some al \<Rightarrow>
          (let im1 = set_allocator im (addr_is4 ip) (fst (al_Release al ip p));
               im2 = fst (releaseIPOwner im1 ip p);
               im3 = clearScaleToZeroState im2 ip
           in (im3\<lparr>im_expirationTimers := (im_expirationTimers im3)((ip, p) := None)\<rparr>, None)))"

definition ReleaseIP :: "ipam \<Rightarrow> addr \<Rightarrow> pool \<Rightarrow> ipam \<times> ipam_error option" where
  "ReleaseIP im ip p = releaseIPLocked im ip p"

section \<open>Both families\<close>

text \<open>
  The family is the string of the API. Besides the error the Go function returns both results,
  also when it fails, so the model does.
\<close>

type_synonym dual_result = "allocation_result option \<times> allocation_result option \<times> ipam_error option"

definition release_result :: "ipam \<Rightarrow> allocation_result option \<Rightarrow> ipam" where
  "release_result im r =
     (case r of None \<Rightarrow> im | Some res \<Rightarrow> fst (ReleaseIP im (res_IP res) (res_IPPoolName res)))"

definition AllocateNext_v6 ::
  "ipam \<Rightarrow> (nat \<Rightarrow> nat) \<Rightarrow> string \<Rightarrow> owner \<Rightarrow> pool \<Rightarrow> ipam \<times> (ipam_error, allocation_result option) result" where
  "AllocateNext_v6 im rnd fam own p =
     (if (fam = ''ipv6'' \<or> fam = []) \<and> im_ipv6Allocator im \<noteq> None
      then apsnd (map_sum id Some) (AllocateNextFamily im rnd IPv6 own p)
      else (im, Inr None))"

definition AllocateNext_v4 ::
  "ipam \<Rightarrow> (nat \<Rightarrow> nat) \<Rightarrow> string \<Rightarrow> owner \<Rightarrow> pool \<Rightarrow> ipam \<times> (ipam_error, allocation_result option) result" where
  "AllocateNext_v4 im rnd fam own p =
     (if (fam = ''ipv4'' \<or> fam = []) \<and> im_ipv4Allocator im \<noteq> None
      then apsnd (map_sum id Some) (AllocateNextFamily im rnd IPv4 own p)
      else (im, Inr None))"

definition AllocateNext ::
  "ipam \<Rightarrow> (nat \<Rightarrow> nat) \<Rightarrow> (nat \<Rightarrow> nat) \<Rightarrow> string \<Rightarrow> owner \<Rightarrow> pool \<Rightarrow> ipam \<times> dual_result" where
  "AllocateNext im rnd6 rnd4 fam own p =
     (case AllocateNext_v6 im rnd6 fam own p of
        (im1, Inl e) \<Rightarrow> (im1, None, None, Some e)
      | (im1, Inr ipv6Result) \<Rightarrow>
          (case AllocateNext_v4 im1 rnd4 fam own p of
             (im2, Inl e) \<Rightarrow> (release_result im2 ipv6Result, None, ipv6Result, Some e)
           | (im2, Inr ipv4Result) \<Rightarrow> (im2, ipv4Result, ipv6Result, None)))"

section \<open>Expiration timers\<close>

text \<open>\<open>u\<close> is the UUID that \<open>uuid.New\<close> draws.\<close>

definition StartExpirationTimer :: "ipam \<Rightarrow> addr \<Rightarrow> pool \<Rightarrow> string \<Rightarrow> ipam \<times> (ipam_error, string) result" where
  "StartExpirationTimer im ip p u =
     (case im_expirationTimers im (ip, p) of
        Some _ \<Rightarrow> (im, Inl TimerAlreadyRegistered)
      | None \<Rightarrow> (im\<lparr>im_expirationTimers := (im_expirationTimers im)((ip, p) \<mapsto> u)\<rparr>, Inr u))"

text \<open>The locked part of the timer's goroutine, once its timeout has passed.\<close>

definition expire_timer :: "ipam \<Rightarrow> addr \<Rightarrow> pool \<Rightarrow> string \<Rightarrow> ipam" where
  "expire_timer im ip p u =
     (case im_expirationTimers im (ip, p) of
        None \<Rightarrow> im
      | Some t \<Rightarrow> if t = u then fst (releaseIPLocked im ip p) else im)"

definition StopExpirationTimer :: "ipam \<Rightarrow> addr \<Rightarrow> pool \<Rightarrow> string \<Rightarrow> ipam \<times> ipam_error option" where
  "StopExpirationTimer im ip p u =
     (case im_expirationTimers im (ip, p) of
        None \<Rightarrow> (im, Some NoTimerRegistered)
      | Some t \<Rightarrow>
          if t \<noteq> u then (im, Some UUIDMismatch)
          else (im\<lparr>im_expirationTimers := (im_expirationTimers im)((ip, p) := None)\<rparr>, None))"

definition start_result_timer ::
  "ipam \<Rightarrow> allocation_result option \<Rightarrow> string \<Rightarrow> ipam \<times> allocation_result option \<times> ipam_error option" where
  "start_result_timer im r u =
     (case r of
        None \<Rightarrow> (im, None, None)
      | Some res \<Rightarrow>
          (case StartExpirationTimer im (res_IP res) (res_IPPoolName res) u of
             (im', Inl e) \<Rightarrow> (im', Some (res\<lparr>res_ExpirationUUID := []\<rparr>), Some e)
           | (im', Inr u') \<Rightarrow> (im', Some (res\<lparr>res_ExpirationUUID := u'\<rparr>), None)))"

definition AllocateNextWithExpiration ::
  "ipam \<Rightarrow> (nat \<Rightarrow> nat) \<Rightarrow> (nat \<Rightarrow> nat) \<Rightarrow> string \<Rightarrow> owner \<Rightarrow> pool \<Rightarrow> nat \<Rightarrow> string \<Rightarrow> string \<Rightarrow>
   ipam \<times> dual_result" where
  "AllocateNextWithExpiration im rnd6 rnd4 fam own p timeout u4 u6 =
     (case AllocateNext im rnd6 rnd4 fam own p of
        (im1, r4, r6, Some e) \<Rightarrow> (im1, None, None, Some e)
      | (im1, r4, r6, None) \<Rightarrow>
          if timeout = 0 then (im1, r4, r6, None)
          else case start_result_timer im1 r4 u4 of
            (im2, r4', Some e) \<Rightarrow> (release_result (release_result im2 r4') r6, r4', r6, Some e)
          | (im2, r4', None) \<Rightarrow>
              (case start_result_timer im2 r6 u6 of
                 (im3, r6', Some e) \<Rightarrow> (release_result (release_result im3 r4') r6', r4', r6', Some e)
               | (im3, r6', None) \<Rightarrow> (im3, r4', r6', None)))"

section \<open>Endpoint hook, node hook, dump\<close>

record endpoint_ips =
  ep_IPv4 :: addr
  ep_IPv4IPAMPool :: pool
  ep_IPv6 :: addr
  ep_IPv6IPAMPool :: pool

definition EndpointDeleted :: "ipam \<Rightarrow> endpoint_ips \<Rightarrow> bool \<Rightarrow> ipam" where
  "EndpointDeleted im ep noIPRelease =
     (if noIPRelease then im
      else let c = im_config im;
               im1 = (if cfg_EnableIPv4 c
                      then fst (ReleaseIP im (ep_IPv4 ep) (PoolOrDefault c (ep_IPv4IPAMPool ep))) else im);
               im2 = (if cfg_EnableIPv6 c
                      then fst (ReleaseIP im1 (ep_IPv6 ep) (PoolOrDefault c (ep_IPv6IPAMPool ep))) else im1)
           in im2)"

definition addManagedNodeCIDR :: "ipam \<Rightarrow> (string \<Rightarrow> prefix list option) \<Rightarrow> string \<Rightarrow> ipam" where
  "addManagedNodeCIDR im get nodeName =
     (case im_ipv4Allocator im of
        Some (ManagedScope m) \<Rightarrow>
          (case get nodeName of
             None \<Rightarrow> im
           | Some cidrs \<Rightarrow>
               (case ciliumNodeIPv4CIDR cidrs of
                  None \<Rightarrow> im
                | Some cidr \<Rightarrow> im\<lparr>im_ipv4Allocator := Some (ManagedScope (ms_AddCIDR m nodeName (Some cidr)))\<rparr>))
      | _ \<Rightarrow> im)"

text \<open>
  The modelled allocators report everything under the default pool, so \<open>Dump\<close> writes no pool
  prefix and looks each owner up in the default pool.
\<close>

definition dump_family :: "ipam \<Rightarrow> bool \<Rightarrow> (addr \<times> owner) list" where
  "dump_family im is4 =
     (case get_allocator im is4 of
        None \<Rightarrow> []
      | Some al \<Rightarrow> map (\<lambda>ip. (ip, getIPOwner im ip (PoolDefault (im_config im)))) (al_Dump al))"

definition Dump :: "ipam \<Rightarrow> (addr \<times> owner) list \<times> (addr \<times> owner) list" where
  "Dump im = (dump_family im True, dump_family im False)"

text \<open>
  \<open>ConfigureAllocator\<close>, the modes \<open>kubernetes\<close> and \<open>cluster-pool\<close>, and the delegated plugin.
\<close>

datatype configure_error = InvalidIPv6CIDR | InvalidIPv4CIDR

definition configure_v4 ::
  "ipam \<Rightarrow> bool \<Rightarrow> (string \<Rightarrow> prefix list option) \<Rightarrow> string \<Rightarrow> string list \<Rightarrow> prefix \<Rightarrow>
   ipam \<times> configure_error option" where
  "configure_v4 im clusterPool get localName managedNames v4CIDR =
     (if \<not> cfg_EnableIPv4 (im_config im) then (im, None)
      else if 1 < length managedNames \<and> clusterPool
      then (im\<lparr>im_ipv4Allocator := Some (ManagedScope (newManagedScopeAllocator get localName managedNames
                 (if pfx_valid v4CIDR then Some v4CIDR else None)))\<rparr>, None)
      else if \<not> pfx_valid v4CIDR then (im, Some InvalidIPv4CIDR)
      else (im\<lparr>im_ipv4Allocator := Some (HostScope (newHostScopeAllocator v4CIDR))\<rparr>, None))"

definition configure_kubernetes_clusterpool ::
  "ipam \<Rightarrow> bool \<Rightarrow> (string \<Rightarrow> prefix list option) \<Rightarrow> string \<Rightarrow> string list \<Rightarrow> prefix \<Rightarrow> prefix \<Rightarrow>
   ipam \<times> configure_error option" where
  "configure_kubernetes_clusterpool im clusterPool get localName managedNames v4CIDR v6CIDR =
     (if cfg_EnableIPv6 (im_config im) then
        if \<not> pfx_valid v6CIDR then (im, Some InvalidIPv6CIDR)
        else configure_v4 (im\<lparr>im_ipv6Allocator := Some (HostScope (newHostScopeAllocator v6CIDR))\<rparr>)
               clusterPool get localName managedNames v4CIDR
      else configure_v4 im clusterPool get localName managedNames v4CIDR)"

definition configure_delegated :: "ipam \<Rightarrow> ipam" where
  "configure_delegated im =
     (let im1 = (if cfg_EnableIPv6 (im_config im) then im\<lparr>im_ipv6Allocator := Some NoOp\<rparr> else im)
      in if cfg_EnableIPv4 (im_config im1) then im1\<lparr>im_ipv4Allocator := Some NoOp\<rparr> else im1)"

section \<open>Abstract view\<close>

text \<open>An address is in use when the allocator of its family holds it.\<close>

definition in_use :: "ipam \<Rightarrow> addr \<Rightarrow> bool" where
  "in_use im ip \<longleftrightarrow> (case get_allocator im (addr_is4 ip) of None \<Rightarrow> False | Some al \<Rightarrow> ip \<in> al_used al)"

definition owner_of :: "ipam \<Rightarrow> pool \<Rightarrow> addr \<Rightarrow> owner option" where
  "owner_of im p ip = Option.bind (map_of (im_owner im) p) (\<lambda>m. map_of m ip)"

text \<open>Which family an allocator serves: its CIDRs are all IPv4, or all not.\<close>

fun al_serves :: "bool \<Rightarrow> allocator_impl \<Rightarrow> bool" where
  "al_serves b (HostScope h) = (addr_is4 (pfx_addr (hs_allocCIDR h)) = b)"
| "al_serves b (ManagedScope m) =
     (\<forall>i \<in> set (ms_subs m). addr_is4 (pfx_addr (sub_allocCIDR (ms_store m ! i))) = b)"
| "al_serves b NoOp = True"

definition ipam_inv :: "ipam \<Rightarrow> bool" where
  "ipam_inv im \<longleftrightarrow> (\<forall>b al. get_allocator im b = Some al \<longrightarrow> al_inv al \<and> al_serves b al)"

text \<open>Every address in use has a registered owner in some pool.\<close>

definition ipam_owned :: "ipam \<Rightarrow> bool" where
  "ipam_owned im \<longleftrightarrow> (\<forall>ip. in_use im ip \<longrightarrow> (\<exists>p. owner_of im p ip \<noteq> None))"

definition same_env :: "ipam \<Rightarrow> ipam \<Rightarrow> bool" where
  "same_env im im' \<longleftrightarrow> im_config im' = im_config im \<and> im_metadata im' = im_metadata im \<and>
     im_excludedIPs im' = im_excludedIPs im \<and>
     stz_trigger_delete_fails (im_stz im') = stz_trigger_delete_fails (im_stz im) \<and>
     stz_flow_delete_fails (im_stz im') = stz_flow_delete_fails (im_stz im)"

lemma same_env_refl [simp]: "same_env im im"
  by (simp add: same_env_def)

lemma same_env_trans: "same_env a b \<Longrightarrow> same_env b c \<Longrightarrow> same_env a c"
  by (simp add: same_env_def)

lemma same_env_excluded: "same_env im im' \<Longrightarrow> isIPExcluded im' = isIPExcluded im"
  by (simp add: same_env_def isIPExcluded_def fun_eq_iff)

lemma same_env_deletable: "same_env im im' \<Longrightarrow> stz_deletable (im_stz im') = stz_deletable (im_stz im)"
  by (simp add: same_env_def stz_deletable_def fun_eq_iff)

text \<open>How the small state updates act on each part of the abstract view.\<close>

lemma get_allocator_simps [simp]:
  "get_allocator (set_allocator im b al) b' = (if b = b' then Some al else get_allocator im b')"
  "get_allocator (registerIPOwner im ip own p) b' = get_allocator im b'"
  "get_allocator (fst (releaseIPOwner im ip p)) b' = get_allocator im b'"
  "get_allocator (clearScaleToZeroState im ip) b' = get_allocator im b'"
  "get_allocator (im\<lparr>im_expirationTimers := ts\<rparr>) b' = get_allocator im b'"
  "get_allocator (im\<lparr>im_excludedIPs := ex\<rparr>) b' = get_allocator im b'"
  by (auto simp: get_allocator_def set_allocator_def registerIPOwner_def releaseIPOwner_def
      clearScaleToZeroState_def Let_def split: option.split)

lemma same_env_simps [simp]:
  "same_env im (set_allocator im' b al) = same_env im im'"
  "same_env im (registerIPOwner im' ip own p) = same_env im im'"
  "same_env im (fst (releaseIPOwner im' ip p)) = same_env im im'"
  "same_env im (clearScaleToZeroState im' ip) = same_env im im'"
  "same_env im (im'\<lparr>im_expirationTimers := ts\<rparr>) = same_env im im'"
  by (simp_all add: same_env_def set_allocator_def registerIPOwner_def releaseIPOwner_def
      clearScaleToZeroState_def Let_def split: option.split)

lemma timers_simps [simp]:
  "im_expirationTimers (set_allocator im b al) = im_expirationTimers im"
  "im_expirationTimers (registerIPOwner im ip own p) = im_expirationTimers im"
  "im_expirationTimers (fst (releaseIPOwner im ip p)) = im_expirationTimers im"
  "im_expirationTimers (clearScaleToZeroState im ip) = im_expirationTimers im"
  by (simp_all add: set_allocator_def registerIPOwner_def releaseIPOwner_def
      clearScaleToZeroState_def Let_def split: option.split)

lemma stz_simps [simp]:
  "im_stz (set_allocator im b al) = im_stz im"
  "im_stz (registerIPOwner im ip own p) = im_stz im"
  "im_stz (fst (releaseIPOwner im ip p)) = im_stz im"
  "im_config (set_allocator im b al) = im_config im"
  "im_config (registerIPOwner im ip own p) = im_config im"
  "im_config (fst (releaseIPOwner im ip p)) = im_config im"
  "im_config (clearScaleToZeroState im ip) = im_config im"
  by (simp_all add: set_allocator_def registerIPOwner_def releaseIPOwner_def
      clearScaleToZeroState_def Let_def split: option.split)

lemma excluded_simps [simp]:
  "isIPExcluded (set_allocator im b al) = isIPExcluded im"
  "isIPExcluded (registerIPOwner im ip own p) = isIPExcluded im"
  by (simp_all add: isIPExcluded_def set_allocator_def registerIPOwner_def fun_eq_iff Let_def)

lemma owner_of_simps [simp]:
  "owner_of (set_allocator im b al) q x = owner_of im q x"
  "owner_of (clearScaleToZeroState im ip) q x = owner_of im q x"
  "owner_of (im\<lparr>im_expirationTimers := ts\<rparr>) q x = owner_of im q x"
  by (simp_all add: owner_of_def set_allocator_def clearScaleToZeroState_def)

lemma owner_of_register [simp]:
  "owner_of (registerIPOwner im ip own p) q x = (if q = p \<and> x = ip then Some own else owner_of im q x)"
  by (auto simp: owner_of_def registerIPOwner_def Let_def update_conv' split: option.split)

lemma AList_delete_Nil: "AList.delete k m = [] \<Longrightarrow> x \<noteq> k \<Longrightarrow> map_of m x = None"
  by (metis delete_conv' fun_upd_apply map_of.simps(1))

lemma owner_of_release [simp]:
  "owner_of (fst (releaseIPOwner im ip p)) q x = (if q = p \<and> x = ip then None else owner_of im q x)"
  by (auto simp: owner_of_def releaseIPOwner_def Let_def update_conv' delete_conv' AList_delete_Nil
      split: option.split)

lemma clear_stz_clean:
  assumes "cfg_EnableScaleToZeroDatapath (im_config im)" "stz_deletable (im_stz im) ip"
  shows "stz_clean (im_stz (clearScaleToZeroState im ip)) ip"
  using assms stz_Clear_clean [of "im_stz im" ip] by (simp add: clearScaleToZeroState_def)

lemma in_use_cong: "(\<And>b. get_allocator im' b = get_allocator im b) \<Longrightarrow> in_use im' = in_use im"
  by (simp add: in_use_def fun_eq_iff)

lemma in_use_simps [simp]:
  "in_use (registerIPOwner im ip own p) = in_use im"
  "in_use (fst (releaseIPOwner im ip p)) = in_use im"
  "in_use (clearScaleToZeroState im ip) = in_use im"
  "in_use (im\<lparr>im_expirationTimers := ts\<rparr>) = in_use im"
  "in_use (im\<lparr>im_excludedIPs := ex\<rparr>) = in_use im"
  by (rule in_use_cong, simp)+

lemma ipam_inv_cong: "(\<And>b. get_allocator im' b = get_allocator im b) \<Longrightarrow> ipam_inv im' = ipam_inv im"
  by (simp add: ipam_inv_def)

lemma ipam_inv_simps [simp]:
  "ipam_inv (registerIPOwner im ip own p) = ipam_inv im"
  "ipam_inv (fst (releaseIPOwner im ip p)) = ipam_inv im"
  "ipam_inv (clearScaleToZeroState im ip) = ipam_inv im"
  "ipam_inv (im\<lparr>im_expirationTimers := ts\<rparr>) = ipam_inv im"
  "ipam_inv (im\<lparr>im_excludedIPs := ex\<rparr>) = ipam_inv im"
  by (rule ipam_inv_cong, simp)+

lemma ipam_invD:
  assumes "ipam_inv im" "get_allocator im b = Some al"
  shows "al_inv al" "al_serves b al"
  using assms by (auto simp: ipam_inv_def)

lemma ipam_inv_set [inv_intros]:
  "ipam_inv im \<Longrightarrow> al_inv al \<Longrightarrow> al_serves b al \<Longrightarrow> ipam_inv (set_allocator im b al)"
  by (simp add: ipam_inv_def)

section \<open>Families\<close>

lemma pfx_contains_is4: "pfx_contains p a \<Longrightarrow> addr_is4 a = addr_is4 (pfx_addr p)"
  using pfx_contains_same_family [of p a] by (cases a; cases "pfx_addr p") auto

lemma masked_is4: "pfx_wf (pfx_masked p) \<Longrightarrow> addr_is4 (pfx_addr (pfx_masked p)) = addr_is4 (pfx_addr p)"
  by (cases "pfx_addr p") (auto simp: pfx_masked_def prefix_from_def pfx_wf_def prefix_zero_def split: if_splits)

lemma rg_usable_is4:
  assumes "rg_inv r" "rg_prefix r = pfx_masked p" "a \<in> rg_usable r"
  shows "addr_is4 a = addr_is4 (pfx_addr p)"
proof -
  have "pfx_wf (pfx_masked p)" using assms(1,2) by (simp add: rg_inv_def)
  then show ?thesis using pfx_contains_is4 [OF rg_usable_contains [OF assms(1,3)]] assms(2) masked_is4 by simp
qed

lemma ms_set_range_serves:
  "ms_inv m \<Longrightarrow> i \<in> set (ms_subs m) \<Longrightarrow> al_serves b (ManagedScope (ms_set_range m i r)) = al_serves b (ManagedScope m)"
  using ms_invD(1) [of m i] by (auto simp: ms_set_range_def nth_list_update)

lemma al_serves_Allocate:
  assumes "al_inv s" "al_serves b s" "al_Allocate s ip own p = Inr (t, res)"
  shows "al_serves b t"
proof (cases s)
  case (HostScope h)
  with assms show ?thesis by (auto simp: hs_Allocate_def split: sum.splits)
next
  case (ManagedScope m)
  with assms obtain i r where i: "ms_findSubForIP m ip = Some i" and t: "t = ManagedScope (ms_set_range m i r)"
    by (auto simp: ms_Allocate_def split: sum.splits option.splits)
  show ?thesis using ms_set_range_serves [of m i b r] ms_findSub_Some [OF i] assms(1,2) ManagedScope t
    by (simp add: ms_ok_def)
next
  case NoOp
  with assms show ?thesis by (simp add: noop_Allocate_def)
qed

lemma al_serves_AllocateNext:
  assumes "al_inv s" "al_serves b s" "al_AllocateNext s rnd own p = Inr (t, res)"
  shows "al_serves b t \<and> addr_is4 (res_IP res) = b"
proof (cases s)
  case (HostScope h)
  with assms obtain r a where n: "rg_AllocateNext (hs_allocator h) rnd = Inr (r, a)"
    and t: "t = HostScope (h\<lparr>hs_allocator := r\<rparr>)" "res = alloc_result a []"
    by (auto simp: hs_AllocateNext_def split: sum.splits)
  have i: "rg_inv (hs_allocator h)" "rg_prefix (hs_allocator h) = pfx_masked (hs_allocCIDR h)"
    using assms(1) HostScope by (simp_all add: hs_inv_def)
  show ?thesis using rg_AllocateNext_Inr [OF i(1) n] rg_usable_is4 [OF i] assms(2) HostScope t
    by (simp add: alloc_result_def)
next
  case (ManagedScope m)
  with assms obtain m' where n: "ms_AllocateNext m rnd own p = Inr (m', res)" and m': "t = ManagedScope m'"
    by (cases "ms_AllocateNext m rnd own p") auto
  obtain i r where i: "ms_route m p = Some i" and r: "rg_AllocateNext (ms_range m i) rnd = Inr (r, res_IP res)"
    and t: "m' = ms_set_range m i r"
    by (rule ms_AllocateNext_cases [OF n])
  have inv: "ms_inv m" using assms(1) ManagedScope by (simp add: ms_ok_def)
  have s: "i \<in> set (ms_subs m)" by (rule ms_route_listed [OF inv i])
  have q: "rg_inv (ms_range m i)" "rg_prefix (ms_range m i) = pfx_masked (sub_allocCIDR (ms_store m ! i))"
    using ms_invD(2) [OF inv s] by (simp_all add: sub_inv_def ms_range_def)
  show ?thesis using rg_AllocateNext_Inr [OF q(1) r] rg_usable_is4 [OF q] assms(2) ManagedScope t m' s
      ms_set_range_serves [OF inv s, of b r] by simp
next
  case NoOp
  with assms show ?thesis by (simp add: noop_AllocateNext_def)
qed

lemma al_serves_Release:
  assumes "al_inv s" "al_serves b s" shows "al_serves b (fst (al_Release s ip p))"
proof (cases s)
  case (ManagedScope m)
  show ?thesis
  proof (cases "ms_findSubForIP m ip")
    case (Some i)
    then show ?thesis using ms_set_range_serves [of m i b] ms_findSub_Some [OF Some] assms ManagedScope
      by (simp add: ms_Release_def ms_ok_def)
  qed (use assms ManagedScope in \<open>simp add: ms_Release_def\<close>)
qed (use assms in \<open>simp_all add: hs_Release_def\<close>)

section \<open>One allocator call inside IPAM\<close>

lemma in_use_set:
  assumes "get_allocator im b = Some al" "al_used t = insert ip (al_used al)" "addr_is4 ip = b"
  shows "in_use (set_allocator im b t) x \<longleftrightarrow> in_use im x \<or> x = ip"
  using assms by (cases "addr_is4 x = b") (simp_all add: in_use_def, blast+)

lemma ipam_Allocate:
  assumes "ipam_inv im" "get_allocator im (addr_is4 ip) = Some al" "al_Allocate al ip own p = Inr (t, res)"
  shows "ipam_inv (set_allocator im (addr_is4 ip) t)" "\<not> in_use im ip" "res_IP res = ip"
    "in_use (set_allocator im (addr_is4 ip) t) x \<longleftrightarrow> in_use im x \<or> x = ip"
proof -
  note i = ipam_invD [OF assms(1,2)]
  note a = impl.allocate_Inr [OF i(1) assms(3)]
  show "ipam_inv (set_allocator im (addr_is4 ip) t)"
    using a al_serves_Allocate [OF i assms(3)] assms(1) by (intro ipam_inv_set) auto
  show "\<not> in_use im ip" "res_IP res = ip" using a assms(2) by (simp_all add: in_use_def)
  show "in_use (set_allocator im (addr_is4 ip) t) x \<longleftrightarrow> in_use im x \<or> x = ip"
    using a in_use_set [OF assms(2), of t ip] by simp
qed

lemma ipam_AllocateNext:
  assumes "ipam_inv im" "get_allocator im b = Some al" "al_AllocateNext al rnd own p = Inr (t, res)"
  shows "ipam_inv (set_allocator im b t)" "\<not> in_use im (res_IP res)" "addr_is4 (res_IP res) = b"
    "addr_is_valid (res_IP res)" "al_free t < al_free al"
    "in_use (set_allocator im b t) x \<longleftrightarrow> in_use im x \<or> x = res_IP res"
proof -
  note i = ipam_invD [OF assms(1,2)]
  note a = impl.next_Inr [OF i(1) assms(3)] and f = al_serves_AllocateNext [OF i assms(3)]
  show "ipam_inv (set_allocator im b t)" using a f assms(1) by (intro ipam_inv_set) auto
  show "\<not> in_use im (res_IP res)" "addr_is4 (res_IP res) = b" "addr_is_valid (res_IP res)" "al_free t < al_free al"
    using a f assms(2) by (simp_all add: in_use_def)
  show "in_use (set_allocator im b t) x \<longleftrightarrow> in_use im x \<or> x = res_IP res"
    using a f in_use_set [OF assms(2), of t "res_IP res"] by simp
qed

lemma ipam_Release:
  assumes "ipam_inv im" "get_allocator im (addr_is4 ip) = Some al"
  shows "ipam_inv (set_allocator im (addr_is4 ip) (fst (al_Release al ip p)))"
    "in_use (set_allocator im (addr_is4 ip) (fst (al_Release al ip p))) x \<longleftrightarrow> in_use im x \<and> x \<noteq> ip"
proof -
  note i = ipam_invD [OF assms]
  note r = impl.release_spec [OF i(1), of ip p]
  show "ipam_inv (set_allocator im (addr_is4 ip) (fst (al_Release al ip p)))"
    using r al_serves_Release [OF i] assms(1) by (intro ipam_inv_set) auto
  show "in_use (set_allocator im (addr_is4 ip) (fst (al_Release al ip p))) x \<longleftrightarrow> in_use im x \<and> x \<noteq> ip"
    using r assms(2) by (cases "addr_is4 x = addr_is4 ip") (simp_all add: in_use_def, blast+)
qed

section \<open>Operations on the abstract view\<close>

lemma al_sync_if [simp]:
  "(if sync then al_Allocate al ip own p else al_AllocateWithoutSyncUpstream al ip own p) = al_Allocate al ip own p"
  "(if sync then al_AllocateNext al rnd own p else al_AllocateNextWithoutSyncUpstream al rnd own p) =
     al_AllocateNext al rnd own p"
  by simp_all

lemma allocateIP_Inr:
  assumes "ipam_inv im" "allocateIP im ip own p sync = (im', Inr res)"
  shows "p \<noteq> [] \<and> addr_is_valid ip \<and> isIPExcluded im ip p = None \<and> \<not> in_use im ip \<and>
    ipam_inv im' \<and> same_env im im' \<and> im_expirationTimers im' = im_expirationTimers im \<and>
    res_IP res = ip \<and> (\<forall>x. in_use im' x \<longleftrightarrow> in_use im x \<or> x = ip) \<and>
    (\<forall>q x. owner_of im' q x = (if q = p \<and> x = ip then Some own else owner_of im q x)) \<and>
    (cfg_EnableScaleToZeroDatapath (im_config im) \<longrightarrow> stz_deletable (im_stz im) ip \<longrightarrow> stz_clean (im_stz im') ip)"
proof -
  from assms(2) obtain al al' r where
    pre: "p \<noteq> []" "addr_is_valid ip" "isIPExcluded im ip p = None"
    and al: "get_allocator im (addr_is4 ip) = Some al" and a: "al_Allocate al ip own p = Inr (al', r)"
    and im': "im' = clearScaleToZeroState (registerIPOwner (set_allocator im (addr_is4 ip) al') ip own p) ip"
    and res: "res = with_default_pool (im_config im) r"
    by (auto simp: allocateIP_def Let_def split: if_splits option.splits sum.splits)
  note s = ipam_Allocate [OF assms(1) al a]
  show ?thesis using pre s res clear_stz_clean [of "registerIPOwner (set_allocator im (addr_is4 ip) al') ip own p" ip]
    by (simp add: im' with_default_pool_def)
qed

lemma allocateIP_Inl:
  assumes "allocateIP im ip own p sync = (im', Inl e)" shows "im' = im"
  using assms by (auto simp: allocateIP_def Let_def split: if_splits option.splits sum.splits)

text \<open>
  What a run of the search loop leaves: addresses are only added, and each added one is the result
  or an excluded one, with its owner on record.
\<close>

definition next_frame :: "bool \<Rightarrow> pool \<Rightarrow> ipam \<Rightarrow> ipam \<Rightarrow> addr set \<Rightarrow> bool" where
  "next_frame b p im im' X \<longleftrightarrow> ipam_inv im' \<and> same_env im im' \<and>
     im_expirationTimers im' = im_expirationTimers im \<and>
     (\<forall>x. in_use im' x \<longleftrightarrow> in_use im x \<or> x \<in> X) \<and>
     (\<forall>x \<in> X. \<not> in_use im x \<and> addr_is4 x = b) \<and>
     (\<forall>q x. x \<notin> X \<longrightarrow> owner_of im' q x = owner_of im q x) \<and>
     (\<forall>q x. q \<noteq> p \<longrightarrow> owner_of im' q x = owner_of im q x)"

definition next_result ::
  "pool \<Rightarrow> owner \<Rightarrow> ipam \<Rightarrow> ipam \<Rightarrow> (ipam_error, allocation_result) result \<Rightarrow> addr set \<Rightarrow> bool" where
  "next_result p own im im' r X \<longleftrightarrow>
     (case r of
         Inl e \<Rightarrow> (\<exists>f. e = AllocFailed f) \<and>
           (\<forall>x \<in> X. isIPExcluded im x p \<noteq> None \<and> owner_of im' p x = Some (own @ '' (excluded)''))
       | Inr res \<Rightarrow> res_IP res \<in> X \<and> addr_is_valid (res_IP res) \<and> isIPExcluded im (res_IP res) p = None \<and>
           owner_of im' p (res_IP res) = Some own \<and>
           (res_IPPoolName res = [] \<longrightarrow> PoolDefault (im_config im) = []) \<and>
           (\<forall>x \<in> X - {res_IP res}. isIPExcluded im x p \<noteq> None \<and> owner_of im' p x = Some (own @ '' (excluded)'')) \<and>
           (cfg_EnableScaleToZeroDatapath (im_config im) \<longrightarrow> stz_deletable (im_stz im) (res_IP res) \<longrightarrow>
              stz_clean (im_stz im') (res_IP res)))"

lemma next_loop_spec:
  assumes "ipam_inv im" "get_allocator im b = Some al" "al_free al < n"
    and "next_loop n k im b rnd own p sync = (im', r)"
  shows "\<exists>X. next_frame b p im im' X \<and>
      next_result p own im im' r X"
  using assms
proof (induction n arbitrary: k im al)
  case (Suc n)
  let ?s = "al_AllocateNext al (rnd k) own p"
  show ?case
  proof (cases ?s)
    case (Inl e)
    with Suc.prems have "im' = im" "r = Inl (AllocFailed e)" by auto
    with Suc.prems(1) show ?thesis by (intro exI [of _ "{}"]) (simp add: next_frame_def next_result_def)
  next
    case (Inr tr)
    obtain t res where s: "?s = Inr (t, res)" using Inr by (cases tr) auto
    note a = ipam_AllocateNext [OF Suc.prems(1,2) s]
    let ?im1 = "set_allocator im b t" and ?ip = "res_IP res"
    let ?res = "with_default_pool (im_config im) res"
    have ip: "res_IP ?res = ?ip" and pn: "res_IPPoolName ?res = [] \<longrightarrow> PoolDefault (im_config im) = []"
      by (simp_all add: with_default_pool_def)
    show ?thesis
    proof (cases "isIPExcluded im ?ip p")
      case None
      let ?im' = "clearScaleToZeroState (registerIPOwner ?im1 ?ip own p) ?ip"
      have r: "im' = ?im'" "r = Inr ?res" using Suc.prems(2,4) s ip None by (auto simp: Let_def)
      have "next_frame b p im ?im' {?ip}" using a by (simp add: next_frame_def)
      moreover have "owner_of ?im' p ?ip = Some own" by simp
      moreover have "cfg_EnableScaleToZeroDatapath (im_config im) \<longrightarrow> stz_deletable (im_stz im) ?ip \<longrightarrow>
          stz_clean (im_stz ?im') ?ip"
        using clear_stz_clean [of "registerIPOwner ?im1 ?ip own p" ?ip] by simp
      ultimately show ?thesis using r ip pn None a(4) by (intro exI [of _ "{?ip}"]) (simp add: next_result_def)
    next
      case (Some o')
      let ?im2 = "registerIPOwner ?im1 ?ip (own @ '' (excluded)'') p"
      have loop: "next_loop n (Suc k) ?im2 b rnd own p sync = (im', r)"
        using Suc.prems(2,4) s ip Some by (simp add: Let_def)
      have inv: "ipam_inv ?im2" and al: "get_allocator ?im2 b = Some t" and f: "al_free t < n"
        using a Suc.prems(3) by simp_all
      from Suc.IH [OF inv al f loop] obtain X where X: "next_frame b p ?im2 im' X" and
        post: "next_result p own ?im2 im' r X" by blast
      have nX: "?ip \<notin> X" using X a(6) by (auto simp: next_frame_def)
      have e: "same_env im im'" using X same_env_trans [of im ?im2 im'] by (simp add: next_frame_def)
      have own: "owner_of im' p ?ip = Some (own @ '' (excluded)'')" using X nX by (simp add: next_frame_def)
      have "next_frame b p im im' (insert ?ip X)"
        using X e a(2,3,6) by (auto simp: next_frame_def)
      then show ?thesis using post own Some nX
        by (intro exI [of _ "insert ?ip X"]) (auto simp: next_result_def split: sum.splits)
    qed
  qed
qed simp

lemma allocateNextFamily_spec:
  assumes "ipam_inv im" "allocateNextFamily im rnd fam own p sync = (im', r)"
  shows "(im' = im \<and> (\<exists>e. r = Inl e \<and> e \<noteq> SearchBoundReached)) \<or>
    (\<exists>p' X. requested_pool im own fam p = Inr p' \<and> next_frame (fam = IPv4) p' im im' X \<and> next_result p' own im im' r X)"
proof (cases "(\<exists>s. fam = OtherFamily s) \<or> get_allocator im (fam = IPv4) = None \<or>
    (p = [] \<and> \<not> is_ok (determineIPAMPool im own fam))")
  case True
  then have "im' = im \<and> (\<exists>e. r = Inl e \<and> e \<noteq> SearchBoundReached)"
    using assms(2) by (auto simp: allocateNextFamily_def determineIPAMPool_def
        split: family.splits option.splits sum.splits if_splits)
  then show ?thesis by blast
next
  case False
  then obtain al where al: "get_allocator im (fam = IPv4) = Some al" by auto
  obtain p' where p': "requested_pool im own fam p = Inr p'"
    using False by (cases "determineIPAMPool im own fam"; cases "p = []") (auto simp: requested_pool_def)
  have "next_loop (Suc (al_free al)) 0 im (fam = IPv4) rnd own p' sync = (im', r)"
    using assms(2) al p' False by (cases fam) (auto simp: allocateNextFamily_def requested_pool_def simp del: next_loop.simps)
  from next_loop_spec [OF assms(1) al lessI this] p' show ?thesis by blast
qed

lemma releaseIPLocked_None:
  assumes "ipam_inv im" "releaseIPLocked im ip p = (im', None)"
  shows "ipam_inv im' \<and> same_env im im' \<and> (\<forall>x. in_use im' x \<longleftrightarrow> in_use im x \<and> x \<noteq> ip) \<and>
    im_expirationTimers im' = (im_expirationTimers im)((ip, p) := None) \<and>
    (\<forall>q x. owner_of im' q x = (if q = p \<and> x = ip then None else owner_of im q x)) \<and>
    (cfg_EnableScaleToZeroDatapath (im_config im) \<longrightarrow> stz_deletable (im_stz im) ip \<longrightarrow> stz_clean (im_stz im') ip)"
proof -
  from assms(2) obtain al where al: "get_allocator im (addr_is4 ip) = Some al"
    by (auto simp: releaseIPLocked_def split: if_splits option.splits)
  let ?im2 = "fst (releaseIPOwner (set_allocator im (addr_is4 ip) (fst (al_Release al ip p))) ip p)"
  have im': "im' = clearScaleToZeroState ?im2 ip\<lparr>im_expirationTimers := (im_expirationTimers im)((ip, p) := None)\<rparr>"
    using assms(2) al by (simp add: releaseIPLocked_def Let_def split: if_splits)
  note r = ipam_Release [OF assms(1) al, of p]
  show ?thesis using r clear_stz_clean [of ?im2 ip] by (simp add: im')
qed

lemma releaseIPLocked_Some: "releaseIPLocked im ip p = (im', Some e) \<Longrightarrow> im' = im"
  by (auto simp: releaseIPLocked_def Let_def split: if_splits option.splits)

lemma releaseIPLocked_ok_iff:
  "snd (releaseIPLocked im ip p) = None \<longleftrightarrow>
     p \<noteq> [] \<and> addr_is_valid ip \<and> get_allocator im (addr_is4 ip) \<noteq> None"
  by (auto simp: releaseIPLocked_def Let_def split: option.split)

lemma releaseIPLocked_frame:
  assumes "ipam_inv im"
  shows "ipam_inv (fst (releaseIPLocked im ip p)) \<and> same_env im (fst (releaseIPLocked im ip p)) \<and>
    (\<forall>x. in_use (fst (releaseIPLocked im ip p)) x \<longrightarrow> in_use im x) \<and>
    (\<forall>x. x \<noteq> ip \<longrightarrow> in_use (fst (releaseIPLocked im ip p)) x = in_use im x) \<and>
    (\<forall>q x. x \<noteq> ip \<longrightarrow> owner_of (fst (releaseIPLocked im ip p)) q x = owner_of im q x) \<and>
    (in_use (fst (releaseIPLocked im ip p)) ip \<longrightarrow> fst (releaseIPLocked im ip p) = im)"
proof (cases "releaseIPLocked im ip p")
  case (Pair im' e)
  then show ?thesis
    using assms releaseIPLocked_Some [of im ip p im'] releaseIPLocked_None [OF assms, of ip p im']
    by (cases e) auto
qed

section \<open>Operations as steps\<close>

text \<open>
  One step per critical section of \<open>allocatorMutex\<close>, in any order: \<open>AllocateNext\<close>,
  \<open>AllocateNextWithExpiration\<close> and \<open>EndpointDeleted\<close> are sequences of these, between which other
  callers may run. A step carries the choices made outside: random draws, UUIDs, and what the API
  server answers for a node. \<open>addManagedNodeCIDR\<close> is no section of \<open>allocatorMutex\<close>: it changes the managed allocator under the
  mutex of that allocator alone. It is taken as a step between sections, not between two calls of the allocator within one.
\<close>

datatype ipam_op =
    OpAllocateIP addr owner pool bool
  | OpAllocateNextFamily "nat \<Rightarrow> nat" family owner pool bool
  | OpReleaseIP addr pool
  | OpStartTimer addr pool string
  | OpStopTimer addr pool string
  | OpExpire addr pool string
  | OpExcludeIP addr owner pool
  | OpNodeAdded "string \<Rightarrow> prefix list option" string

fun exec_op :: "ipam \<Rightarrow> ipam_op \<Rightarrow> ipam" where
  "exec_op im (OpAllocateIP ip own p sync) = fst (allocateIP im ip own p sync)"
| "exec_op im (OpAllocateNextFamily rnd fam own p sync) = fst (allocateNextFamily im rnd fam own p sync)"
| "exec_op im (OpReleaseIP ip p) = fst (ReleaseIP im ip p)"
| "exec_op im (OpStartTimer ip p u) = fst (StartExpirationTimer im ip p u)"
| "exec_op im (OpStopTimer ip p u) = fst (StopExpirationTimer im ip p u)"
| "exec_op im (OpExpire ip p u) = expire_timer im ip p u"
| "exec_op im (OpExcludeIP ip own p) = ExcludeIP im ip own p"
| "exec_op im (OpNodeAdded get n) = addManagedNodeCIDR im get n"

fun exec_ops :: "ipam \<Rightarrow> ipam_op list \<Rightarrow> ipam" where
  "exec_ops im [] = im"
| "exec_ops im (op # ops) = exec_ops (exec_op im op) ops"

text \<open>The address a step hands out.\<close>

fun op_result :: "ipam \<Rightarrow> ipam_op \<Rightarrow> addr option" where
  "op_result im (OpAllocateIP ip own p sync) =
     (case snd (allocateIP im ip own p sync) of Inl e \<Rightarrow> None | Inr res \<Rightarrow> Some (res_IP res))"
| "op_result im (OpAllocateNextFamily rnd fam own p sync) =
     (case snd (allocateNextFamily im rnd fam own p sync) of Inl e \<Rightarrow> None | Inr res \<Rightarrow> Some (res_IP res))"
| "op_result im _ = None"

text \<open>
  What is expected of the API server's answer: valid CIDRs, disjoint from those of other nodes.
\<close>

fun op_ok :: "ipam \<Rightarrow> ipam_op \<Rightarrow> bool" where
  "op_ok im (OpNodeAdded get n) \<longleftrightarrow>
     (\<forall>ps p. get n = Some ps \<longrightarrow> p \<in> set ps \<longrightarrow> pfx_wf p) \<and>
     (\<forall>m. im_ipv4Allocator (addManagedNodeCIDR im get n) = Some (ManagedScope m) \<longrightarrow> ms_disjoint m)"
| "op_ok im _ \<longleftrightarrow> True"

fun ops_ok :: "ipam \<Rightarrow> ipam_op list \<Rightarrow> bool" where
  "ops_ok im [] \<longleftrightarrow> True"
| "ops_ok im (op # ops) \<longleftrightarrow> op_ok im op \<and> ops_ok (exec_op im op) ops"

text \<open>
  Steps that take an address away: its release, the firing of its timer, and a managed node that announces
  another CIDR than its present one, which the address lies in.
\<close>

definition replaces_cidr :: "ipam \<Rightarrow> (string \<Rightarrow> prefix list option) \<Rightarrow> string \<Rightarrow> addr \<Rightarrow> bool" where
  "replaces_cidr im get n a \<longleftrightarrow>
     (case im_ipv4Allocator im of
        Some (ManagedScope m) \<Rightarrow>
          (case (ms_subByNode m n, Option.bind (get n) ciliumNodeIPv4CIDR) of
             (Some i, Some cidr) \<Rightarrow> pfx_contains (sub_allocCIDR (ms_store m ! i)) a \<and> cidr \<noteq> sub_allocCIDR (ms_store m ! i)
           | _ \<Rightarrow> False)
      | _ \<Rightarrow> False)"

fun op_frees :: "ipam \<Rightarrow> addr \<Rightarrow> ipam_op \<Rightarrow> bool" where
  "op_frees im a (OpReleaseIP ip p) \<longleftrightarrow> ip = a"
| "op_frees im a (OpExpire ip p u) \<longleftrightarrow> ip = a \<and> im_expirationTimers im (ip, p) = Some u"
| "op_frees im a (OpNodeAdded get n) \<longleftrightarrow> replaces_cidr im get n a"
| "op_frees im a _ \<longleftrightarrow> False"

fun ops_free :: "ipam \<Rightarrow> addr \<Rightarrow> ipam_op list \<Rightarrow> bool" where
  "ops_free im a [] \<longleftrightarrow> False"
| "ops_free im a (op # ops) \<longleftrightarrow> op_frees im a op \<or> ops_free (exec_op im op) a ops"

lemma ms_AddCIDR_used:
  assumes "ms_inv m" "pfx_wf p"
  shows "ms_used (ms_AddCIDR m n (Some p)) \<subseteq> ms_used m"
    and "a \<in> ms_used m \<Longrightarrow> a \<notin> ms_used (ms_AddCIDR m n (Some p)) \<Longrightarrow>
      \<exists>i. ms_subByNode m n = Some i \<and> pfx_contains (sub_allocCIDR (ms_store m ! i)) a \<and> sub_allocCIDR (ms_store m ! i) \<noteq> p"
proof -
  have u: "ms_used (ms_AddCIDR m n (Some p)) =
      (case ms_subByNode m n of
         Some i \<Rightarrow> if sub_allocCIDR (ms_store m ! i) = p then ms_used m else (\<Union>j \<in> set (ms_subs m) - {i}. rg_addrs (ms_range m j))
       | None \<Rightarrow> ms_used m)"
  proof (cases "ms_subByNode m n")
    case None
    with ms_addCIDR_inv(2) [OF assms] show ?thesis by (simp add: ms_AddCIDR_def)
  next
    case (Some i)
    note r = ms_removeCIDR_inv [OF assms(1) Some]
    have "distinct (ms_subs m)" using assms(1) by (simp add: ms_inv_def)
    moreover have "ms_used (ms_addCIDR (ms_removeCIDRLocked m n) n (Some p)) = ms_used (ms_removeCIDRLocked m n)"
      using r by (intro ms_addCIDR_inv assms(2)) auto
    ultimately have "ms_used (ms_addCIDR (ms_removeCIDRLocked m n) n (Some p)) = (\<Union>j \<in> set (ms_subs m) - {i}. rg_addrs (ms_range m j))"
      by (simp add: ms_used_def ms_range_def r)
    with Some show ?thesis by (simp add: ms_AddCIDR_def)
  qed
  then show "ms_used (ms_AddCIDR m n (Some p)) \<subseteq> ms_used m" by (auto simp: ms_used_def split: option.splits if_splits)
  assume a: "a \<in> ms_used m" "a \<notin> ms_used (ms_AddCIDR m n (Some p))"
  then obtain i where i: "ms_subByNode m n = Some i" "sub_allocCIDR (ms_store m ! i) \<noteq> p" "a \<in> rg_addrs (ms_range m i)"
    using u by (auto simp: ms_used_def split: option.splits if_splits)
  then show "\<exists>i. ms_subByNode m n = Some i \<and> pfx_contains (sub_allocCIDR (ms_store m ! i)) a \<and> sub_allocCIDR (ms_store m ! i) \<noteq> p"
    using sub_addrs_contains [OF ms_invD(2) [OF assms(1) ms_inv_mapD(1) [OF assms(1) i(1)]]] by (auto simp: ms_range_def)
qed

lemma ms_AddCIDR_serves:
  assumes "ms_inv m" "al_serves True (ManagedScope m)" "addr_is4 (pfx_addr p)"
  shows "al_serves True (ManagedScope (ms_AddCIDR m n (Some p)))"
proof -
  have add: "al_serves True (ManagedScope (ms_addCIDR m' n (Some p)))"
    if "\<And>i. i \<in> set (ms_subs m') \<Longrightarrow> i < length (ms_store m')" "al_serves True (ManagedScope m')" for m'
    using that assms(3) by (auto simp: ms_addCIDR_def Let_def nth_append)
  show ?thesis
  proof (cases "ms_subByNode m n")
    case None
    with add [of m] ms_invD(1) [OF assms(1)] assms(2) show ?thesis by (simp add: ms_AddCIDR_def)
  next
    case (Some i)
    note r = ms_removeCIDR_inv [OF assms(1) Some]
    have "al_serves True (ManagedScope (ms_removeCIDRLocked m n))"
      using assms(2) set_remove1_subset [of i "ms_subs m"] by (auto simp: r)
    with add [of "ms_removeCIDRLocked m n"] ms_invD(1) [OF r(1)] assms(2) Some
    show ?thesis by (simp add: ms_AddCIDR_def)
  qed
qed

lemma addManagedNodeCIDR_cases:
  obtains "addManagedNodeCIDR im get n = im"
  | m ps p where "im_ipv4Allocator im = Some (ManagedScope m)" "get n = Some ps" "p \<in> set ps" "addr_is4 (pfx_addr p)" "ciliumNodeIPv4CIDR ps = Some p"
    "addManagedNodeCIDR im get n = set_allocator im True (ManagedScope (ms_AddCIDR m n (Some p)))"
  using ciliumNodeIPv4CIDR_Some
  by (fastforce simp: addManagedNodeCIDR_def set_allocator_def split: option.splits allocator_impl.splits)

lemma addManagedNodeCIDR_inv:
  assumes "ipam_inv im" "op_ok im (OpNodeAdded get n)"
  shows "ipam_inv (addManagedNodeCIDR im get n)"
    and "in_use (addManagedNodeCIDR im get n) x \<Longrightarrow> in_use im x"
    and "\<not> replaces_cidr im get n x \<Longrightarrow> in_use (addManagedNodeCIDR im get n) x = in_use im x"
    and "owner_of (addManagedNodeCIDR im get n) = owner_of im"
proof -
  have "ipam_inv (addManagedNodeCIDR im get n) \<and> (in_use (addManagedNodeCIDR im get n) x \<longrightarrow> in_use im x) \<and>
    (\<not> replaces_cidr im get n x \<longrightarrow> in_use (addManagedNodeCIDR im get n) x = in_use im x) \<and>
    owner_of (addManagedNodeCIDR im get n) = owner_of im"
  proof (cases rule: addManagedNodeCIDR_cases [of im get n])
    case 1
    with assms(1) show ?thesis by simp
  next
    case (2 m ps p)
    let ?m = "ms_AddCIDR m n (Some p)"
    have al: "get_allocator im True = Some (ManagedScope m)" using 2(1) by (simp add: get_allocator_def)
    note i = ipam_invD [OF assms(1) al]
    have wf: "pfx_wf p" using assms(2) 2(2,3) by simp
    have inv: "ms_inv m" using i(1) by (simp add: ms_ok_def)
    have "ms_disjoint ?m" using assms(2) 2(6) by (simp add: set_allocator_def)
    then have ok: "ms_ok ?m" using ms_AddCIDR_inv [OF inv wf] by (simp add: ms_ok_def)
    have "ipam_inv (set_allocator im True (ManagedScope ?m))"
      using ipam_inv_set [OF assms(1), of "ManagedScope ?m" True] ok ms_AddCIDR_serves [OF inv i(2) 2(4)] by simp
    moreover have "in_use (set_allocator im True (ManagedScope ?m)) x \<longrightarrow> in_use im x"
      using ms_AddCIDR_used(1) [OF inv wf, where n = n] al by (cases "addr_is4 x") (auto simp: in_use_def)
    moreover have "\<not> replaces_cidr im get n x \<longrightarrow> in_use (set_allocator im True (ManagedScope ?m)) x = in_use im x"
      using ms_AddCIDR_used [OF inv wf, where n = n] al 2(1,2,5) by (cases "addr_is4 x") (fastforce simp: in_use_def replaces_cidr_def)+
    ultimately show ?thesis using 2(6) by (simp add: fun_eq_iff)
  qed
  then show "ipam_inv (addManagedNodeCIDR im get n)"
    and "in_use (addManagedNodeCIDR im get n) x \<Longrightarrow> in_use im x"
    and "\<not> replaces_cidr im get n x \<Longrightarrow> in_use (addManagedNodeCIDR im get n) x = in_use im x"
    and "owner_of (addManagedNodeCIDR im get n) = owner_of im" by blast+
qed

section \<open>Invariants of every step\<close>

lemma ipam_ownedD:
  assumes "ipam_owned im" "in_use im x" obtains q where "owner_of im q x \<noteq> None"
  using assms unfolding ipam_owned_def by blast

lemma same_owners_owned:
  "ipam_owned im \<Longrightarrow> (\<And>x. in_use im' x \<Longrightarrow> in_use im x) \<Longrightarrow> owner_of im' = owner_of im \<Longrightarrow> ipam_owned im'"
  by (simp add: ipam_owned_def)

lemma allocateIP_owned:
  assumes "ipam_inv im" "ipam_owned im"
  shows "ipam_inv (fst (allocateIP im ip own p sync)) \<and> ipam_owned (fst (allocateIP im ip own p sync))"
proof (cases "allocateIP im ip own p sync")
  case (Pair im' r)
  show ?thesis
  proof (cases r)
    case (Inl e)
    with Pair assms allocateIP_Inl show ?thesis by fastforce
  next
    case (Inr res)
    note a = allocateIP_Inr [OF assms(1) Pair [unfolded Inr]]
    have "\<exists>q. owner_of im' q x \<noteq> None" if "in_use im' x" for x
    proof (cases "x = ip")
      case True
      with a show ?thesis by (intro exI [of _ p]) simp
    next
      case False
      then have "in_use im x" using a that by blast
      then obtain q where "owner_of im q x \<noteq> None" by (rule ipam_ownedD [OF assms(2)])
      with a False show ?thesis by (intro exI [of _ q]) simp
    qed
    with a Pair show ?thesis by (simp add: ipam_owned_def)
  qed
qed

lemma next_frame_owned:
  assumes "ipam_owned im" "next_frame b p im im' X" "next_result p own im im' r X"
  shows "ipam_owned im'"
proof -
  have "\<exists>q. owner_of im' q x \<noteq> None" if "in_use im' x" for x
  proof (cases "x \<in> X")
    case True
    then have "owner_of im' p x \<noteq> None"
      using assms(3) by (cases r) (auto simp: next_result_def)
    then show ?thesis by blast
  next
    case False
    then have "in_use im x" and o: "\<And>q. owner_of im' q x = owner_of im q x"
      using that assms(2) by (auto simp: next_frame_def)
    then show ?thesis using assms(1) by (simp add: ipam_owned_def)
  qed
  then show ?thesis by (simp add: ipam_owned_def)
qed

lemma allocateNextFamily_owned:
  assumes "ipam_inv im" "ipam_owned im"
  shows "ipam_inv (fst (allocateNextFamily im rnd fam own p sync)) \<and>
    ipam_owned (fst (allocateNextFamily im rnd fam own p sync))"
proof (cases "allocateNextFamily im rnd fam own p sync")
  case (Pair im' r)
  from allocateNextFamily_spec [OF assms(1) Pair] show ?thesis
  proof
    assume "im' = im \<and> (\<exists>e. r = Inl e \<and> e \<noteq> SearchBoundReached)"
    with Pair assms show ?thesis by simp
  next
    assume "\<exists>p' X. requested_pool im own fam p = Inr p' \<and> next_frame (fam = IPv4) p' im im' X \<and> next_result p' own im im' r X"
    then obtain p' X where n: "next_frame (fam = IPv4) p' im im' X" "next_result p' own im im' r X" by blast
    have "ipam_inv im'" using n(1) by (simp add: next_frame_def)
    with Pair next_frame_owned [OF assms(2) n] show ?thesis by simp
  qed
qed

lemma release_owned:
  assumes "ipam_inv im" "ipam_owned im" shows "ipam_owned (fst (releaseIPLocked im ip p))"
proof -
  note f = releaseIPLocked_frame [OF assms(1), of ip p]
  show ?thesis
  proof (cases "in_use (fst (releaseIPLocked im ip p)) ip")
    case True
    with f assms(2) show ?thesis by simp
  next
    case False
    have "\<exists>q. owner_of (fst (releaseIPLocked im ip p)) q x \<noteq> None"
      if "in_use (fst (releaseIPLocked im ip p)) x" for x
    proof -
      have "x \<noteq> ip" using False that by blast
      moreover have "in_use im x" using that f by blast
      then obtain q where "owner_of im q x \<noteq> None" by (rule ipam_ownedD [OF assms(2)])
      ultimately show ?thesis using f by (intro exI [of _ q]) simp
    qed
    then show ?thesis by (simp add: ipam_owned_def)
  qed
qed

lemma timer_ops_frame:
  "get_allocator (fst (StartExpirationTimer im ip p u)) b = get_allocator im b"
  "get_allocator (fst (StopExpirationTimer im ip p u)) b = get_allocator im b"
  "owner_of (fst (StartExpirationTimer im ip p u)) = owner_of im"
  "owner_of (fst (StopExpirationTimer im ip p u)) = owner_of im"
  by (simp_all add: StartExpirationTimer_def StopExpirationTimer_def fun_eq_iff split: option.split)

lemma ExcludeIP_frame:
  "get_allocator (ExcludeIP im ip own p) b = get_allocator im b" "owner_of (ExcludeIP im ip own p) = owner_of im"
  by (simp_all add: ExcludeIP_def get_allocator_def owner_of_def fun_eq_iff)

lemma quiet_step:
  assumes "\<And>b. get_allocator im' b = get_allocator im b" "owner_of im' = owner_of im"
  shows "ipam_inv im' = ipam_inv im" "ipam_owned im' = ipam_owned im" "in_use im' = in_use im"
  using ipam_inv_cong [OF assms(1)] in_use_cong [OF assms(1)] assms(2) by (simp_all add: ipam_owned_def)

lemmas quiet_steps = quiet_step [OF timer_ops_frame(1,3)] quiet_step [OF timer_ops_frame(2,4)]
  quiet_step [OF ExcludeIP_frame]

lemma exec_op_inv [inv_intros]:
  assumes "ipam_inv im" "ipam_owned im" "op_ok im op"
  shows "ipam_inv (exec_op im op) \<and> ipam_owned (exec_op im op)"
proof (cases op)
  case (OpReleaseIP ip p)
  with assms release_owned releaseIPLocked_frame show ?thesis by (simp add: ReleaseIP_def)
next
  case (OpExpire ip p u)
  with assms release_owned [of im ip p] releaseIPLocked_frame [of im ip p] show ?thesis
    by (simp add: expire_timer_def split: option.split)
next
  case (OpNodeAdded get n)
  note a = addManagedNodeCIDR_inv [OF assms(1) assms(3) [unfolded OpNodeAdded]]
  with OpNodeAdded same_owners_owned [OF assms(2) a(2) a(4)] show ?thesis by simp
qed (use assms allocateIP_owned allocateNextFamily_owned quiet_steps in simp_all)

lemma op_result_fresh:
  assumes "ipam_inv im" "op_result im op = Some a"
  shows "\<not> in_use im a \<and> in_use (exec_op im op) a"
proof (cases op)
  case (OpAllocateIP ip own p sync)
  then obtain im' res where r: "allocateIP im ip own p sync = (im', Inr res)" and a: "a = res_IP res"
    using assms(2) by (cases "allocateIP im ip own p sync") (auto split: sum.splits)
  from allocateIP_Inr [OF assms(1) r] OpAllocateIP r a show ?thesis by simp
next
  case (OpAllocateNextFamily rnd fam own p sync)
  then obtain im' res where r: "allocateNextFamily im rnd fam own p sync = (im', Inr res)" and a: "a = res_IP res"
    using assms(2) by (cases "allocateNextFamily im rnd fam own p sync") (auto split: sum.splits)
  from allocateNextFamily_spec [OF assms(1) r] obtain p' X
    where "next_frame (fam = IPv4) p' im im' X" "next_result p' own im im' (Inr res) X" by auto
  then have "\<not> in_use im a" "in_use im' a" using a by (auto simp: next_frame_def next_result_def)
  with OpAllocateNextFamily r show ?thesis by simp
qed (use assms in simp_all)

lemma exec_op_keeps:
  assumes "ipam_inv im" "op_ok im op" "in_use im a" "\<not> op_frees im a op"
  shows "in_use (exec_op im op) a"
proof (cases op)
  case (OpAllocateIP ip own p sync)
  obtain im' r where r: "allocateIP im ip own p sync = (im', r)" by fastforce
  show ?thesis
  proof (cases r)
    case Inl
    with r allocateIP_Inl OpAllocateIP assms(3) show ?thesis by fastforce
  next
    case (Inr res)
    from allocateIP_Inr [OF assms(1) r [unfolded Inr]] OpAllocateIP r assms(3) show ?thesis by simp
  qed
next
  case (OpAllocateNextFamily rnd fam own p sync)
  obtain im' r where r: "allocateNextFamily im rnd fam own p sync = (im', r)" by fastforce
  from allocateNextFamily_spec [OF assms(1) r] assms(3) have "in_use im' a" by (auto simp: next_frame_def)
  with r OpAllocateNextFamily show ?thesis by simp
next
  case (OpReleaseIP ip p)
  with assms releaseIPLocked_frame [OF assms(1), of ip p] show ?thesis by (simp add: ReleaseIP_def)
next
  case (OpExpire ip p u)
  with assms releaseIPLocked_frame [OF assms(1), of ip p] show ?thesis
    by (auto simp: expire_timer_def split: option.splits)
next
  case (OpNodeAdded get n)
  with assms(3,4) addManagedNodeCIDR_inv(3) [OF assms(1) assms(2) [unfolded OpNodeAdded]] show ?thesis by simp
qed (use assms quiet_steps in simp_all)

lemma exec_ops_inv:
  "ipam_inv im \<Longrightarrow> ipam_owned im \<Longrightarrow> ops_ok im ops \<Longrightarrow>
   ipam_inv (exec_ops im ops) \<and> ipam_owned (exec_ops im ops)"
proof (induction ops arbitrary: im)
  case (Cons op ops)
  with exec_op_inv [of im op] show ?case by simp
qed simp

lemma exec_ops_keeps:
  "ipam_inv im \<Longrightarrow> ipam_owned im \<Longrightarrow> ops_ok im ops \<Longrightarrow> in_use im a \<Longrightarrow> \<not> ops_free im a ops \<Longrightarrow>
   in_use (exec_ops im ops) a"
proof (induction ops arbitrary: im)
  case (Cons op ops)
  with exec_op_inv [of im op] exec_op_keeps [of im op a] show ?case by simp
qed simp

text \<open>Only \<open>StartExpirationTimer\<close> attaches a UUID.\<close>

lemma next_loop_timers:
  "im_expirationTimers (fst (next_loop n k im b rnd own p sync)) = im_expirationTimers im"
  by (induction n arbitrary: k im) (simp_all add: Let_def split: option.split sum.split)

lemma exec_op_timer:
  assumes "im_expirationTimers im (ip, p) \<noteq> Some u" "op \<noteq> OpStartTimer ip p u"
  shows "im_expirationTimers (exec_op im op) (ip, p) \<noteq> Some u"
proof (cases op)
  case (OpNodeAdded get n)
  with assms(1) show ?thesis by (cases rule: addManagedNodeCIDR_cases [of im get n]) simp_all
qed (use assms in \<open>auto simp: allocateIP_def allocateNextFamily_def ReleaseIP_def releaseIPLocked_def
      StartExpirationTimer_def StopExpirationTimer_def expire_timer_def ExcludeIP_def Let_def next_loop_timers
      simp del: next_loop.simps split: option.split sum.split family.split if_splits\<close>)

lemma exec_ops_timer:
  "im_expirationTimers im (ip, p) \<noteq> Some u \<Longrightarrow> OpStartTimer ip p u \<notin> set ops \<Longrightarrow>
   im_expirationTimers (exec_ops im ops) (ip, p) \<noteq> Some u"
proof (induction ops arbitrary: im)
  case (Cons op ops)
  then have "op \<noteq> OpStartTimer ip p u" by auto
  from Cons.IH [OF exec_op_timer [OF Cons.prems(1) this]] Cons.prems(2) show ?case by simp
qed simp

end
