(* ===== verification/IPAM_Properties.thy ===== *)
theory IPAM_Properties
  imports IPAM_Core
begin

text \<open>
  The state that \<open>ConfigureAllocator\<close> sets up, and the properties of the IP address manager of
  \<open>IPAM_Core\<close> with their witnesses.
\<close>

section \<open>The configured state\<close>

lemma ms_fetch_nodes_serves:
  assumes "\<And>i. i \<in> set (ms_subs m) \<Longrightarrow> i < length (ms_store m)" "al_serves True (ManagedScope m)"
  shows "al_serves True (ManagedScope (ms_fetch_nodes get l names m))"
  using assms
proof (induction names arbitrary: m)
  case (Cons n names)
  have add: "(\<forall>i \<in> set (ms_subs (ms_addCIDR m n (Some p))). i < length (ms_store (ms_addCIDR m n (Some p)))) \<and>
      al_serves True (ManagedScope (ms_addCIDR m n (Some p)))" if "addr_is4 (pfx_addr p)" for p
    using that Cons.prems by (auto simp: ms_addCIDR_def Let_def nth_append less_Suc_eq)
  show ?case
    using Cons.IH [OF Cons.prems] Cons.IH [of "ms_addCIDR m n (Some _)"] add ciliumNodeIPv4CIDR_Some
    by (auto simp del: al_serves.simps split: option.split)
qed simp

lemma newManagedScope_used:
  assumes "distinct names" "pfx_wf p" "\<And>n ps q. get n = Some ps \<Longrightarrow> q \<in> set ps \<Longrightarrow> pfx_wf q"
  shows "ms_used (newManagedScopeAllocator get l names (Some p)) = {}"
proof -
  have fetch: "ms_used (ms_fetch_nodes get l names m) = {}"
    if "ms_inv m" "ms_used m = {}" "distinct names" "\<And>n. n \<in> set names \<Longrightarrow> n \<noteq> l \<Longrightarrow> ms_subByNode m n = None" for m
    using that
  proof (induction names arbitrary: m)
    case (Cons n names)
    show ?case
    proof (cases "n = l \<or> get n = None \<or> ciliumNodeIPv4CIDR (the (get n)) = None")
      case True
      with Cons show ?thesis by (auto split: option.splits)
    next
      case False
      then obtain ps q where g: "get n = Some ps" "ciliumNodeIPv4CIDR ps = Some q" "n \<noteq> l" by auto
      have wf: "pfx_wf q" using assms(3) g ciliumNodeIPv4CIDR_Some by blast
      have none: "ms_subByNode m n = None" using Cons.prems(4) g by simp
      note a = ms_addCIDR_inv [OF Cons.prems(1) wf none]
      have "ms_used (ms_fetch_nodes get l names (ms_addCIDR m n (Some q))) = {}"
        using Cons.prems a by (intro Cons.IH) auto
      with g show ?thesis by simp
    qed
  qed simp
  let ?m = "\<lparr>ms_store = [], ms_subs = [], ms_subByNode = Map.empty, ms_primaryNode = l\<rparr>"
  have e: "ms_inv ?m" by (simp add: ms_inv_def)
  have u: "ms_used ?m = {}" by (simp add: ms_used_def)
  note a = ms_addCIDR_inv [OF e assms(2), of l]
  have "ms_used (ms_fetch_nodes get l names (ms_addCIDR ?m l (Some p))) = {}"
    using assms(1) a u by (intro fetch) auto
  then show ?thesis by (simp add: newManagedScopeAllocator_def)
qed

text \<open>
  What the agent's environment provides at start: valid CIDRs of the right families, distinct
  managed names, and managed CIDRs that do not overlap.
\<close>

definition good_setup ::
  "(string \<Rightarrow> prefix list option) \<Rightarrow> string \<Rightarrow> string list \<Rightarrow> prefix \<Rightarrow> prefix \<Rightarrow> bool" where
  "good_setup get localName names v4CIDR v6CIDR \<longleftrightarrow>
     pfx_wf v4CIDR \<and> addr_is4 (pfx_addr v4CIDR) \<and> pfx_wf v6CIDR \<and> \<not> addr_is4 (pfx_addr v6CIDR) \<and>
     distinct names \<and> (\<forall>n ps q. get n = Some ps \<longrightarrow> q \<in> set ps \<longrightarrow> pfx_wf q) \<and>
     ms_disjoint (newManagedScopeAllocator get localName names (Some v4CIDR))"

lemma good_setup_v4:
  assumes "good_setup get l names v4 v6"
  shows "al_inv (HostScope (newHostScopeAllocator v4)) \<and> al_serves True (HostScope (newHostScopeAllocator v4)) \<and>
      al_used (HostScope (newHostScopeAllocator v4)) = {}"
    and "al_inv (ManagedScope (newManagedScopeAllocator get l names (Some v4))) \<and>
      al_serves True (ManagedScope (newManagedScopeAllocator get l names (Some v4))) \<and>
      al_used (ManagedScope (newManagedScopeAllocator get l names (Some v4))) = {}"
    and "al_inv (HostScope (newHostScopeAllocator v6)) \<and> al_serves False (HostScope (newHostScopeAllocator v6)) \<and>
      al_used (HostScope (newHostScopeAllocator v6)) = {}"
proof -
  note g = assms [unfolded good_setup_def]
  show "al_inv (HostScope (newHostScopeAllocator v4)) \<and> al_serves True (HostScope (newHostScopeAllocator v4)) \<and>
      al_used (HostScope (newHostScopeAllocator v4)) = {}"
    and "al_inv (HostScope (newHostScopeAllocator v6)) \<and> al_serves False (HostScope (newHostScopeAllocator v6)) \<and>
      al_used (HostScope (newHostScopeAllocator v6)) = {}"
    using g newHostScopeAllocator_inv [of v4] newHostScopeAllocator_inv [of v6]
    by (simp_all, simp_all add: newHostScopeAllocator_def)
  have wf: "\<And>n ps q. get n = Some ps \<Longrightarrow> q \<in> set ps \<Longrightarrow> pfx_wf q" using g by blast
  have "al_serves True (ManagedScope (newManagedScopeAllocator get l names (Some v4)))"
    unfolding newManagedScopeAllocator_def Let_def
    using g by (intro ms_fetch_nodes_serves) (auto simp: ms_addCIDR_def Let_def)
  then show "al_inv (ManagedScope (newManagedScopeAllocator get l names (Some v4))) \<and>
      al_serves True (ManagedScope (newManagedScopeAllocator get l names (Some v4))) \<and>
      al_used (ManagedScope (newManagedScopeAllocator get l names (Some v4))) = {}"
    using g newManagedScopeAllocator_inv [of names v4 get l] newManagedScope_used [of names v4 get l] wf
    by (simp add: ms_ok_def)
qed

lemma configured_state:
  assumes "good_setup get l names v4 v6"
    and "configure_kubernetes_clusterpool (NewIPAM c md stz) cp get l names v4 v6 = (im, e)"
  shows "e = None" "ipam_inv im" "\<not> in_use im x"
proof -
  have v: "pfx_valid v4" "pfx_valid v6" using assms(1) by (simp_all add: good_setup_def pfx_wf_def)
  show "e = None" using assms(2) v
    by (auto simp: configure_kubernetes_clusterpool_def configure_v4_def split: if_splits)
  have a: "al_inv al \<and> al_serves b al \<and> al_used al = {}" if "get_allocator im b = Some al" for b al
    using that assms(2) v good_setup_v4 [OF assms(1)]
    by (auto simp: configure_kubernetes_clusterpool_def configure_v4_def get_allocator_def NewIPAM_def
        simp del: al_inv.simps al_serves.simps al_used.simps split: if_splits)
  show "ipam_inv im" using a by (simp add: ipam_inv_def)
  show "\<not> in_use im x" using a by (simp add: in_use_def split: option.split)
qed

section \<open>Growth of the set in use\<close>

text \<open>
  An address is excluded for a request if it is excluded in the pool that serves the request in the address's family.
  A run loses nothing, and what is new is excluded for the request or one of the addresses \<open>S\<close>.
\<close>

definition excluded_for :: "ipam \<Rightarrow> owner \<Rightarrow> pool \<Rightarrow> addr \<Rightarrow> bool" where
  "excluded_for im own p x \<longleftrightarrow>
     (case requested_pool im own (if addr_is4 x then IPv4 else IPv6) p of Inl e \<Rightarrow> False | Inr q \<Rightarrow> isIPExcluded im x q \<noteq> None)"

definition grows :: "owner \<Rightarrow> pool \<Rightarrow> addr set \<Rightarrow> ipam \<Rightarrow> ipam \<Rightarrow> bool" where
  "grows own p S im im' \<longleftrightarrow> ipam_inv im' \<and> same_env im im' \<and> (\<forall>x. in_use im x \<longrightarrow> in_use im' x) \<and>
     (\<forall>x. in_use im' x \<longrightarrow> in_use im x \<or> excluded_for im own p x \<or> x \<in> S)"

lemma growsD:
  assumes "grows own p S im im'"
  shows "ipam_inv im'" "same_env im im'" "in_use im x \<Longrightarrow> in_use im' x"
    "in_use im' x \<Longrightarrow> in_use im x \<or> excluded_for im own p x \<or> x \<in> S"
  using assms unfolding grows_def by blast+

lemma same_env_excluded_for: "same_env im im' \<Longrightarrow> excluded_for im' own p x = excluded_for im own p x"
  using same_env_excluded [of im im']
  by (simp add: excluded_for_def requested_pool_def determineIPAMPool_def same_env_def split: sum.split)

lemma grows_trans:
  assumes "grows own p S im im1" "grows own p T im1 im2" shows "grows own p (S \<union> T) im im2"
proof -
  note a = growsD [OF assms(1)] and b = growsD [OF assms(2)]
  have "in_use im x \<or> excluded_for im own p x \<or> x \<in> S \<union> T" if "in_use im2 x" for x
    using b(4) [OF that] a(4) [of x] same_env_excluded_for [OF a(2)] by auto
  with a b same_env_trans [OF a(2) b(2)] show ?thesis by (simp add: grows_def)
qed

lemma next_frame_grows:
  assumes "requested_pool im own fam p = Inr q" "fam = IPv4 \<or> fam = IPv6"
    "next_frame (fam = IPv4) q im im' X" "next_result q own im im' r X"
  shows "grows own p (case r of Inl e \<Rightarrow> {} | Inr res \<Rightarrow> {res_IP res}) im im'"
proof -
  have "excluded_for im own p x" if "x \<in> X" "isIPExcluded im x q \<noteq> None" for x
    using assms(1,2,3) that by (auto simp: excluded_for_def next_frame_def)
  then show ?thesis using assms(3,4) by (cases r) (auto simp: next_frame_def next_result_def grows_def)
qed

lemma AllocateNextFamily_served:
  assumes "ipam_inv im" "AllocateNextFamily im rnd fam own p = (im', r)"
  obtains (refused) e where "im' = im" "r = Inl e" "e \<noteq> SearchBoundReached"
  | (served) q X where "requested_pool im own fam p = Inr q" "fam = IPv4 \<or> fam = IPv6"
      "next_frame (fam = IPv4) q im im' X" "next_result q own im im' r X"
proof (cases fam)
  case (OtherFamily s)
  with assms(2) refused [of "UnknownFamily s"] show ?thesis by (simp add: AllocateNextFamily_def allocateNextFamily_def)
qed (use allocateNextFamily_spec [OF assms(1) assms(2) [unfolded AllocateNextFamily_def]] refused served in blast)+

lemma AllocateNextFamily_Inl:
  assumes "ipam_inv im" "AllocateNextFamily im rnd fam own p = (im', Inl e)"
  shows "grows own p {} im im'"
  using assms
proof (cases rule: AllocateNextFamily_served)
  case (refused f)
  with assms(1) show ?thesis by (simp add: grows_def)
next
  case (served q X)
  from next_frame_grows [OF served] show ?thesis by simp
qed

lemma AllocateNextFamily_Inr:
  assumes "ipam_inv im" "AllocateNextFamily im rnd fam own p = (im', Inr res)"
  shows "grows own p {res_IP res} im im' \<and> \<not> in_use im (res_IP res) \<and> in_use im' (res_IP res) \<and>
    addr_is_valid (res_IP res) \<and> (res_IPPoolName res = [] \<longrightarrow> PoolDefault (im_config im) = [])"
  using assms
proof (cases rule: AllocateNextFamily_served)
  case (served q X)
  from next_frame_grows [OF served] served show ?thesis by (auto simp: next_frame_def next_result_def)
qed simp

text \<open>Giving back an address that was free before undoes its part of the growth.\<close>

lemma grows_release:
  assumes "grows own p {res_IP res} im im'" "\<not> in_use im (res_IP res)" "in_use im' (res_IP res)"
    "addr_is_valid (res_IP res)" "res_IPPoolName res \<noteq> []"
  shows "grows own p {} im (release_result im' (Some res))"
proof -
  note g = growsD [OF assms(1)]
  have "get_allocator im' (addr_is4 (res_IP res)) \<noteq> None" using assms(3) by (auto simp: in_use_def split: option.splits)
  then obtain im2 where r: "releaseIPLocked im' (res_IP res) (res_IPPoolName res) = (im2, None)"
    using releaseIPLocked_ok_iff [of im' "res_IP res" "res_IPPoolName res"] assms(4,5)
    by (cases "releaseIPLocked im' (res_IP res) (res_IPPoolName res)") auto
  note s = releaseIPLocked_None [OF g(1) r]
  have "release_result im' (Some res) = im2" using r by (simp add: release_result_def ReleaseIP_def)
  moreover have "in_use im x \<Longrightarrow> in_use im2 x" "in_use im2 x \<Longrightarrow> in_use im x \<or> excluded_for im own p x" for x
    using s g(3,4) [of x] assms(2) by auto
  ultimately show ?thesis using s same_env_trans [OF g(2)] by (simp add: grows_def)
qed

lemma AllocateNext_half_cases:
  "AllocateNext_v6 im rnd fam own p = (im1, r) \<Longrightarrow>
     (im1 = im \<and> r = Inr None) \<or> (\<exists>s. AllocateNextFamily im rnd IPv6 own p = (im1, s) \<and> r = map_sum id Some s)"
  "AllocateNext_v4 im rnd fam own p = (im1, r) \<Longrightarrow>
     (im1 = im \<and> r = Inr None) \<or> (\<exists>s. AllocateNextFamily im rnd IPv4 own p = (im1, s) \<and> r = map_sum id Some s)"
  by (cases "AllocateNextFamily im rnd IPv6 own p"; cases "AllocateNextFamily im rnd IPv4 own p";
      auto simp: AllocateNext_v6_def AllocateNext_v4_def split: if_splits)+

lemma AllocateNext_half_Inl:
  assumes "ipam_inv im"
  shows "AllocateNext_v6 im rnd fam own p = (im1, Inl e) \<Longrightarrow> grows own p {} im im1"
    and "AllocateNext_v4 im rnd fam own p = (im1, Inl e) \<Longrightarrow> grows own p {} im im1"
proof -
  have s: "grows own p {} im im1" if "AllocateNextFamily im rnd f own p = (im1, s)" "Inl e = map_sum id Some s" for s f
    using that AllocateNextFamily_Inl [OF assms, of rnd f own p im1] by (cases s) auto
  show "AllocateNext_v6 im rnd fam own p = (im1, Inl e) \<Longrightarrow> grows own p {} im im1"
    "AllocateNext_v4 im rnd fam own p = (im1, Inl e) \<Longrightarrow> grows own p {} im im1"
    using AllocateNext_half_cases s by blast+
qed

lemma AllocateNext_v6_Inr:
  assumes "AllocateNext_v6 im rnd fam own p = (im1, Inr r6)"
  obtains "r6 = None" "im1 = im"
  | res where "r6 = Some res" "AllocateNextFamily im rnd IPv6 own p = (im1, Inr res)"
  using AllocateNext_half_cases(1) [OF assms]
proof (elim disjE exE conjE)
  fix s assume "AllocateNextFamily im rnd IPv6 own p = (im1, s)" "Inr r6 = map_sum id Some s"
  with that(2) show thesis by (cases s) auto
qed (use that(1) in simp)

section \<open>Properties\<close>

text \<open>
  (C2) Whatever sequence of critical sections runs after \<open>ConfigureAllocator\<close> (allocations,
  releases, timers started, stopped and firing, exclusions, nodes arriving), the allocators stay
  well formed and every address in use has an owner on record.
\<close>

theorem ipam_reachable_invariant:
  assumes "good_setup get l names v4 v6"
    and "configure_kubernetes_clusterpool (NewIPAM c md stz) cp get l names v4 v6 = (im, e)"
    and "ops_ok im ops"
  shows "e = None \<and> ipam_inv (exec_ops im ops) \<and> ipam_owned (exec_ops im ops)"
proof -
  note s = configured_state [OF assms(1,2)]
  have "ipam_owned im" using s(3) by (simp add: ipam_owned_def)
  with exec_ops_inv [OF s(2) _ assms(3)] s(1) show ?thesis by blast
qed

text \<open>
  (C1) No address is handed out twice: once a step has returned an address, no later step returns
  it again, unless in between the address was released, its registered timer fired, or the managed node in whose
  CIDR the address lies announced another CIDR. Announcements of other nodes, and repeated ones of the same CIDR, free
  nothing. The CIDRs announced are expected to be valid and not to overlap those of other nodes.
\<close>

theorem ipam_no_double_allocation:
  assumes "ipam_inv im" and "ipam_owned im"
    and "op_result im op = Some a" and "ops_ok im (op # ops)" and "\<not> ops_free (exec_op im op) a ops"
  shows "op_result (exec_ops im (op # ops)) op' \<noteq> Some a"
proof
  have i: "ipam_inv (exec_op im op)" "ipam_owned (exec_op im op)"
    using exec_op_inv [OF assms(1,2)] assms(4) by simp_all
  have k: "in_use (exec_ops (exec_op im op) ops) a"
    using op_result_fresh [OF assms(1,3)] assms(4,5) exec_ops_keeps [OF i] by simp
  have j: "ipam_inv (exec_ops (exec_op im op) ops)" using exec_ops_inv [OF i] assms(4) by simp
  assume "op_result (exec_ops im (op # ops)) op' = Some a"
  with op_result_fresh [OF j, of op' a] k show False by simp
qed

text \<open>
  (C11) \<open>AllocateNextFamily\<close> terminates with an answer, for a request that names its pool as for one
  whose pool is determined from the metadata. If no pool can be determined, it fails and changes nothing. A returned address
  was free and is valid, of the requested family, not excluded in the pool, registered to the caller in that pool, and
  free of stale scale-to-zero state where the maps can be written. Addresses in use stay in use; any other address the
  call takes is an excluded one, also when it fails.
\<close>

theorem AllocateNextFamily_correct:
  assumes "ipam_inv im" and "AllocateNextFamily im rnd fam own p = (im', r)"
  shows "r \<noteq> Inl SearchBoundReached \<and> ipam_inv im' \<and>
    (\<forall>x. in_use im x \<longrightarrow> in_use im' x) \<and>
    (case requested_pool im own fam p of
       Inl e \<Rightarrow> im' = im \<and> \<not> is_ok r
     | Inr q \<Rightarrow>
         (\<forall>x. in_use im' x \<longrightarrow> in_use im x \<or> isIPExcluded im x q \<noteq> None \<or> (\<exists>res. r = Inr res \<and> x = res_IP res)) \<and>
         (\<forall>res. r = Inr res \<longrightarrow>
            \<not> in_use im (res_IP res) \<and> in_use im' (res_IP res) \<and> addr_is_valid (res_IP res) \<and>
            addr_is4 (res_IP res) = (fam = IPv4) \<and> isIPExcluded im (res_IP res) q = None \<and>
            owner_of im' q (res_IP res) = Some own \<and>
            (cfg_EnableScaleToZeroDatapath (im_config im) \<longrightarrow> stz_deletable (im_stz im) (res_IP res) \<longrightarrow>
               stz_clean (im_stz im') (res_IP res))))"
  using assms
proof (cases rule: AllocateNextFamily_served)
  case (refused e)
  with assms(1) show ?thesis by (simp split: sum.split)
next
  case (served q X)
  have X: "\<And>x. in_use im' x \<longleftrightarrow> in_use im x \<or> x \<in> X" "\<And>x. x \<in> X \<Longrightarrow> \<not> in_use im x \<and> addr_is4 x = (fam = IPv4)"
    and inv: "ipam_inv im'" using served(3) by (simp_all add: next_frame_def)
  note n = served(4) and q = served(1)
  show ?thesis
  proof (cases r)
    case (Inl e)
    with n X inv q show ?thesis by (auto simp: next_result_def)
  next
    case (Inr res)
    have ex: "isIPExcluded im x q \<noteq> None \<or> x = res_IP res" if "x \<in> X" for x
      using n that Inr by (auto simp: next_result_def)
    have res: "res_IP res \<in> X \<and> addr_is_valid (res_IP res) \<and> isIPExcluded im (res_IP res) q = None \<and>
        owner_of im' q (res_IP res) = Some own \<and>
        (cfg_EnableScaleToZeroDatapath (im_config im) \<longrightarrow> stz_deletable (im_stz im) (res_IP res) \<longrightarrow>
          stz_clean (im_stz im') (res_IP res))" using n Inr by (simp add: next_result_def)
    show ?thesis using X(2) [of "res_IP res"] inv Inr res q by (auto simp: X(1) dest: ex)
  qed
qed

text \<open>
  (C12) Dual stack is all or nothing, whether the request names its pool or not. When \<open>AllocateNext\<close> fails, nothing that
  was in use is lost and no address is kept for the caller: the IPv6 address taken before a failing IPv4 allocation is
  given back, and what remains are addresses excluded in the pool of the request. The configuration has to name a default pool,
  which is the pool that an address is given back to when its allocator names none.
\<close>

theorem AllocateNext_rolls_back:
  assumes "ipam_inv im" and "PoolDefault (im_config im) \<noteq> []"
    and "AllocateNext im rnd6 rnd4 fam own p = (im', r4, r6, Some e)"
  shows "ipam_inv im' \<and> (\<forall>x. in_use im x \<longrightarrow> in_use im' x) \<and>
    (\<forall>x. in_use im' x \<longrightarrow> in_use im x \<or> excluded_for im own p x)"
proof -
  obtain im1 r where v6: "AllocateNext_v6 im rnd6 fam own p = (im1, r)" by fastforce
  have "grows own p {} im im'"
  proof (cases r)
    case (Inl f)
    with v6 assms(3) have "im' = im1" by (simp add: AllocateNext_def)
    with v6 Inl AllocateNext_half_Inl(1) [OF assms(1)] show ?thesis by blast
  next
    case (Inr r6')
    with v6 assms(3) obtain im2 f where v4: "AllocateNext_v4 im1 rnd4 fam own p = (im2, Inl f)"
      and im': "im' = release_result im2 r6'"
      by (auto simp: AllocateNext_def split: prod.splits sum.splits)
    show ?thesis
    proof (cases rule: AllocateNext_v6_Inr [OF v6 [unfolded Inr]])
      case 1
      with v4 im' AllocateNext_half_Inl(2) [OF assms(1)] show ?thesis by (simp add: release_result_def)
    next
      case (2 res)
      note a = AllocateNextFamily_Inr [OF assms(1) 2(2)]
      then have i: "ipam_inv im1" and g: "grows own p {res_IP res} im im1" by (auto simp: grows_def)
      have g2: "grows own p {} im1 im2" by (rule AllocateNext_half_Inl(2) [OF i v4])
      have "grows own p {res_IP res} im im2" using grows_trans [OF g g2] by simp
      with a assms(2) growsD(3) [OF g2] 2(1) im' show ?thesis by (auto intro: grows_release)
    qed
  qed
  then show ?thesis by (simp add: grows_def)
qed

text \<open>
  (C13) Release. \<open>ReleaseIP\<close> succeeds exactly for a valid address of an enabled family with a pool
  given; it then frees that address and no other, forgets its owner in that pool, cancels its
  expiration timer, and leaves no scale-to-zero trigger behind.
\<close>

theorem ReleaseIP_correct:
  assumes "ipam_inv im" and "ReleaseIP im ip p = (im', e)"
  shows "(e = None \<longleftrightarrow> p \<noteq> [] \<and> addr_is_valid ip \<and> get_allocator im (addr_is4 ip) \<noteq> None) \<and>
    (e \<noteq> None \<longrightarrow> im' = im) \<and>
    (e = None \<longrightarrow> ipam_inv im' \<and> (\<forall>x. in_use im' x \<longleftrightarrow> in_use im x \<and> x \<noteq> ip) \<and>
       owner_of im' p ip = None \<and> (\<forall>q x. (q, x) \<noteq> (p, ip) \<longrightarrow> owner_of im' q x = owner_of im q x) \<and>
       im_expirationTimers im' = (im_expirationTimers im)((ip, p) := None) \<and>
       (cfg_EnableScaleToZeroDatapath (im_config im) \<longrightarrow> stz_deletable (im_stz im) ip \<longrightarrow> stz_clean (im_stz im') ip))"
proof -
  have r: "releaseIPLocked im ip p = (im', e)" using assms(2) by (simp add: ReleaseIP_def)
  show ?thesis
    using releaseIPLocked_ok_iff [of im ip p] r releaseIPLocked_None [OF assms(1), of ip p im']
      releaseIPLocked_Some [of im ip p im'] by (cases e) auto
qed

text \<open>
  (C14) An obsolete timer is harmless. Once a timer is stopped, or its address released, its
  goroutine may still fire at any later point, after the address was allocated again and given a new
  timer: it changes nothing, as UUIDs are never drawn twice.
\<close>

theorem obsolete_timer_harmless:
  assumes "StopExpirationTimer im ip p u = (im1, None) \<or> ReleaseIP im ip p = (im1, None)"
    and "OpStartTimer ip p u \<notin> set ops"
  shows "exec_op (exec_ops im1 ops) (OpExpire ip p u) = exec_ops im1 ops"
proof -
  have "im_expirationTimers im1 (ip, p) \<noteq> Some u"
    using assms(1) by (auto simp: StopExpirationTimer_def ReleaseIP_def releaseIPLocked_def Let_def
        split: option.splits if_splits)
  from exec_ops_timer [OF this assms(2)] show ?thesis by (simp add: expire_timer_def split: option.split)
qed

text \<open>
  (C15) A timer that is still registered when it fires frees its address and only that one, and is
  gone afterwards, so a second firing has no effect.
\<close>

theorem expire_timer_releases:
  assumes "ipam_inv im" and "im_expirationTimers im (ip, p) = Some u"
    and "p \<noteq> []" and "addr_is_valid ip" and "get_allocator im (addr_is4 ip) \<noteq> None"
  shows "(\<forall>x. in_use (expire_timer im ip p u) x \<longleftrightarrow> in_use im x \<and> x \<noteq> ip) \<and>
    expire_timer (expire_timer im ip p u) ip p u = expire_timer im ip p u"
proof -
  obtain im' where r: "releaseIPLocked im ip p = (im', None)"
    using releaseIPLocked_ok_iff [of im ip p] assms(3-5) by (cases "releaseIPLocked im ip p") auto
  have e: "expire_timer im ip p u = im'" using assms(2) r by (simp add: expire_timer_def)
  from releaseIPLocked_None [OF assms(1) r] show ?thesis unfolding e by (simp add: expire_timer_def)
qed

text \<open>
  The owner is recorded under the pool that was asked for, not the pool the result names. When
  the two differ (an unknown node falling back to the primary), releasing with the returned pool, as
  the documentation of \<open>ReleaseIP\<close> asks, frees the address but leaves the owner entry behind.
\<close>

theorem release_returned_pool_keeps_owner:
  assumes "ipam_inv im" and "p \<noteq> []" and "AllocateNextFamily im rnd fam own p = (im1, Inr res)"
    and "res_IPPoolName res \<noteq> p" and "ReleaseIP im1 (res_IP res) (res_IPPoolName res) = (im2, None)"
  shows "\<not> in_use im2 (res_IP res) \<and> owner_of im2 p (res_IP res) = Some own"
proof -
  from allocateNextFamily_spec [OF assms(1) assms(3) [unfolded AllocateNextFamily_def]] assms(2)
  obtain X where "next_frame (fam = IPv4) p im im1 X" "next_result p own im im1 (Inr res) X" by (auto simp: requested_pool_def)
  then have i: "ipam_inv im1" and o: "owner_of im1 p (res_IP res) = Some own"
    by (auto simp: next_frame_def next_result_def)
  from releaseIPLocked_None [OF i assms(5) [unfolded ReleaseIP_def]] o assms(4) show ?thesis by simp
qed

text \<open>
  (C16) Allocating a given address and releasing it again with the same pool restores which addresses
  are in use and, if the address had no owner in that pool before, all owner records.
\<close>

theorem allocate_release_roundtrip:
  assumes "ipam_inv im" and "AllocateIP im ip own p = (im1, None)"
  shows "snd (ReleaseIP im1 ip p) = None \<and> in_use (fst (ReleaseIP im1 ip p)) = in_use im \<and>
    (owner_of im p ip = None \<longrightarrow> owner_of (fst (ReleaseIP im1 ip p)) = owner_of im)"
proof -
  from assms(2) obtain res where r: "allocateIP im ip own p True = (im1, Inr res)"
    by (auto simp: AllocateIP_def split: prod.splits sum.splits)
  note a = allocateIP_Inr [OF assms(1) r]
  have i: "ipam_inv im1" and g: "get_allocator im1 (addr_is4 ip) \<noteq> None"
    using a by (auto simp: in_use_def split: option.splits)
  then obtain im2 where r2: "releaseIPLocked im1 ip p = (im2, None)"
    using releaseIPLocked_ok_iff [of im1 ip p] a by (cases "releaseIPLocked im1 ip p") auto
  from releaseIPLocked_None [OF i r2] a show ?thesis by (auto simp: r2 ReleaseIP_def fun_eq_iff)
qed

section \<open>Witnesses\<close>

text \<open>
  A cluster-pool agent with the managed nodes \<open>infra\<close> and \<open>w1\<close>, an IPv6 host range, scale-to-zero
  enabled, and a stale trigger armed for an address of \<open>w1\<close>.
\<close>

definition ex_get :: "string \<Rightarrow> prefix list option" where
  "ex_get n = (if n = ''w1'' then Some [prefix_from (V4 0x0a001000) 20] else None)"

definition ex_stz :: stz_maps where
  "ex_stz = \<lparr>stz_triggers = [0x0a001008 \<mapsto> 1], stz_flows = Map.empty,
     stz_trigger_delete_fails = (\<lambda>_. False), stz_flow_delete_fails = (\<lambda>_. False)\<rparr>"

definition ex_config :: ipam_config where
  "ex_config = \<lparr>cfg_EnableScaleToZeroDatapath = True, cfg_IPAMDefaultIPPool = ''default'',
     cfg_EnableIPv4 = True, cfg_EnableIPv6 = True\<rparr>"

definition ex_v6 :: prefix where
  "ex_v6 = prefix_from (V6 0xfd000000000000000000000000000000 []) 120"

definition ex_ipam :: ipam where
  "ex_ipam = fst (configure_kubernetes_clusterpool
     (NewIPAM ex_config (\<lambda>own fam. Inr ''default'') ex_stz) True ex_get ''infra'' [''infra'', ''w1'']
     (prefix_from (V4 0x0a000000) 20) ex_v6)"

lemma ex_managed_get: "newManagedScopeAllocator ex_get ''infra'' [''infra'', ''w1''] (Some (prefix_from (V4 0x0a000000) 20)) = ex_managed"
  unfolding ex_managed_def ex_get_def ..

lemma ex_good: "good_setup ex_get ''infra'' [''infra'', ''w1''] (prefix_from (V4 0x0a000000) 20) ex_v6"
proof -
  have "pfx_wf ex_v6" "\<not> addr_is4 (pfx_addr ex_v6)" by (simp_all add: ex_v6_def netip_eval)
  moreover have "addr_is4 (pfx_addr (prefix_from (V4 0x0a000000) 20))" by (simp add: prefix_from_def)
  moreover have "pfx_wf q" if "ex_get n = Some ps" "q \<in> set ps" for n ps q
    using that ex_prefix_wf by (auto simp: ex_get_def split: if_splits)
  ultimately show ?thesis
    using ex_prefix_wf ex_managed_disjoint by (simp add: good_setup_def ex_managed_get)
qed

lemma ex_conf:
  "configure_kubernetes_clusterpool (NewIPAM ex_config (\<lambda>own fam. Inr ''default'') ex_stz) True ex_get
     ''infra'' [''infra'', ''w1''] (prefix_from (V4 0x0a000000) 20) ex_v6 = (ex_ipam, None)"
  using configured_state(1) [OF ex_good] unfolding ex_ipam_def by (metis prod.collapse)

lemma ex_ipam_eq:
  "ex_ipam = \<lparr>im_ipv6Allocator = Some (HostScope (newHostScopeAllocator ex_v6)),
     im_ipv4Allocator = Some (ManagedScope ex_managed), im_metadata = (\<lambda>own fam. Inr ''default''),
     im_owner = [], im_expirationTimers = Map.empty, im_excludedIPs = Map.empty, im_stz = ex_stz,
     im_config = ex_config\<rparr>"
proof -
  have "pfx_valid ex_v6" "pfx_valid (prefix_from (V4 0x0a000000) 20)" by (simp_all add: ex_v6_def netip_eval)
  then show ?thesis
    by (simp add: ex_ipam_def configure_kubernetes_clusterpool_def configure_v4_def NewIPAM_def ex_config_def
        ex_managed_get)
qed

lemma ex_ipam_inv: "ipam_inv ex_ipam" and ex_ipam_owned: "ipam_owned ex_ipam"
  using configured_state(2,3) [OF ex_good ex_conf] by (simp_all add: ipam_owned_def)

abbreviation ex_op :: ipam_op where
  "ex_op \<equiv> OpAllocateNextFamily (\<lambda>_. 7) IPv4 ''ns/pod'' ''w1'' True"

lemma ex_next:
  "\<exists>m. ms_AllocateNext ex_managed 7 ''ns/pod'' ''w1'' = Inr (m, alloc_result (V4 0x0a001008) ''w1'')"
  by (simp add: ms_AllocateNext_def ms_resolvePool_def ex_managed_eq range_eval)

lemma ex_alloc:
  "snd (AllocateNextFamily ex_ipam (\<lambda>_. 7) IPv4 ''ns/pod'' ''w1'') = Inr (alloc_result (V4 0x0a001008) ''w1'')"
  using ex_next
  by (auto simp: AllocateNextFamily_def allocateNextFamily_def get_allocator_def ex_ipam_eq with_default_pool_def
      alloc_result_def isIPExcluded_def set_allocator_def Let_def)

lemma ex_op_result: "op_result ex_ipam ex_op = Some (V4 0x0a001008)"
  using ex_alloc by (simp add: AllocateNextFamily_def alloc_result_def)

theorem ipam_reachable_invariant_witness:
  "ipam_inv (exec_ops ex_ipam [ex_op, OpReleaseIP (V4 0x0a001008) ''w1'', ex_op]) \<and>
   ipam_owned (exec_ops ex_ipam [ex_op, OpReleaseIP (V4 0x0a001008) ''w1'', ex_op])"
  using ipam_reachable_invariant [OF ex_good ex_conf, of "[ex_op, OpReleaseIP (V4 0x0a001008) ''w1'', ex_op]"]
  by (simp del: exec_ops.simps exec_op.simps)

theorem ipam_no_double_allocation_witness:
  "op_result ex_ipam ex_op = Some (V4 0x0a001008) \<and>
   op_result (exec_ops ex_ipam [ex_op, OpStartTimer (V4 0x0a001008) ''w1'' ''u1'']) ex_op \<noteq> Some (V4 0x0a001008)"
  using ipam_no_double_allocation [OF ex_ipam_inv ex_ipam_owned ex_op_result,
      of "[OpStartTimer (V4 0x0a001008) ''w1'' ''u1'']" ex_op] ex_op_result
  by (simp del: exec_ops.simps op_result.simps exec_op.simps)

theorem AllocateNextFamily_correct_witness:
  "\<exists>im'. AllocateNextFamily ex_ipam (\<lambda>_. 7) IPv4 ''ns/pod'' ''w1'' =
      (im', Inr (alloc_result (V4 0x0a001008) ''w1'')) \<and>
     in_use im' (V4 0x0a001008) \<and> stz_triggers (im_stz ex_ipam) 0x0a001008 = Some 1 \<and>
     stz_triggers (im_stz im') 0x0a001008 = None"
proof -
  obtain im' where r: "AllocateNextFamily ex_ipam (\<lambda>_. 7) IPv4 ''ns/pod'' ''w1'' =
      (im', Inr (alloc_result (V4 0x0a001008) ''w1''))"
    using ex_alloc by (cases "AllocateNextFamily ex_ipam (\<lambda>_. 7) IPv4 ''ns/pod'' ''w1''") auto
  have d: "stz_deletable (im_stz ex_ipam) (V4 0x0a001008)" "cfg_EnableScaleToZeroDatapath (im_config ex_ipam)"
    by (simp_all add: ex_ipam_eq ex_stz_def ex_config_def stz_deletable_def)
  from AllocateNextFamily_correct [OF ex_ipam_inv r] d
  have "in_use im' (V4 0x0a001008)" "stz_clean (im_stz im') (V4 0x0a001008)" by (simp_all add: alloc_result_def requested_pool_def)
  with r show ?thesis by (simp add: stz_clean_def stz_newKey_def ex_ipam_eq ex_stz_def)
qed


definition ex_one :: prefix where
  "ex_one = prefix_from (V4 0x0a000001) 32"

text \<open>An agent whose IPv4 range is a single address, already taken.\<close>

definition ex_full_host :: host_scope where
  "ex_full_host = (case hs_Allocate (newHostScopeAllocator ex_one) (V4 0x0a000001) ''ns/first'' ''default'' of
     Inl e \<Rightarrow> newHostScopeAllocator ex_one | Inr (h, res) \<Rightarrow> h)"

definition ex_full :: ipam where
  "ex_full = set_allocator ex_ipam True (HostScope ex_full_host)"

lemma ex_full_host_next: "hs_AllocateNext ex_full_host rnd own p = Inl (RangeErr ErrFull)"
  by (simp add: ex_full_host_def hs_Allocate_def newHostScopeAllocator_def ex_one_def range_eval rg_Allocate_def
      range_contains_def addrOffset_def max_int_eq bm_Allocate_def hs_AllocateNext_def)

lemma ex_full_inv: "ipam_inv ex_full"
proof -
  have wf: "pfx_wf ex_one" "addr_is4 (pfx_addr ex_one)" by (simp_all add: ex_one_def netip_eval)
  let ?h = "newHostScopeAllocator ex_one"
  have i: "hs_inv ?h" using newHostScopeAllocator_inv [OF wf(1)] by simp
  have "hs_inv ex_full_host \<and> hs_allocCIDR ex_full_host = ex_one"
    using host.allocate_Inr [OF i, of "V4 0x0a000001" "''ns/first''" "''default''"] i
    by (auto simp: ex_full_host_def newHostScopeAllocator_def hs_Allocate_def split: sum.split)
  with wf ipam_inv_set [OF ex_ipam_inv, of "HostScope ex_full_host" True] show ?thesis by (simp add: ex_full_def)
qed

lemma ex_full_v6:
  "\<exists>im1 res. AllocateNextFamily ex_full (\<lambda>_. 3) IPv6 ''ns/pod'' ''default'' = (im1, Inr res) \<and>
     get_allocator im1 True = Some (HostScope ex_full_host)"
proof -
  obtain h a where "hs_AllocateNext (newHostScopeAllocator ex_v6) 3 ''ns/pod'' ''default'' = Inr (h, alloc_result a [])"
    by (simp add: hs_AllocateNext_def newHostScopeAllocator_def ex_v6_def range_eval)
  then show ?thesis
    by (simp add: AllocateNextFamily_def allocateNextFamily_def ex_full_def)
      (simp add: get_allocator_def isIPExcluded_def ex_ipam_eq Let_def set_allocator_def registerIPOwner_def
        clearScaleToZeroState_def)
qed

theorem AllocateNext_rolls_back_witness:
  "\<exists>im' res. AllocateNext ex_full (\<lambda>_. 3) (\<lambda>_. 3) [] ''ns/pod'' ''default'' =
       (im', None, Some res, Some (AllocFailed (RangeErr ErrFull))) \<and> (\<forall>x. in_use im' x \<longleftrightarrow> in_use ex_full x)"
proof -
  obtain im1 res where v6: "AllocateNextFamily ex_full (\<lambda>_. 3) IPv6 ''ns/pod'' ''default'' = (im1, Inr res)"
    and v4: "get_allocator im1 True = Some (HostScope ex_full_host)" using ex_full_v6 by blast
  have "AllocateNextFamily im1 (\<lambda>_. 3) IPv4 ''ns/pod'' ''default'' = (im1, Inl (AllocFailed (RangeErr ErrFull)))"
    using v4 ex_full_host_next by (simp add: AllocateNextFamily_def allocateNextFamily_def)
  moreover have "im_ipv6Allocator ex_full \<noteq> None" "im_ipv4Allocator im1 \<noteq> None"
    using v4 by (simp_all add: ex_full_def set_allocator_def ex_ipam_eq get_allocator_def)
  ultimately obtain im' where r: "AllocateNext ex_full (\<lambda>_. 3) (\<lambda>_. 3) [] ''ns/pod'' ''default'' =
       (im', None, Some res, Some (AllocFailed (RangeErr ErrFull)))"
    using v6 by (simp add: AllocateNext_def AllocateNext_v6_def AllocateNext_v4_def)
  have p: "PoolDefault (im_config ex_full) \<noteq> []"
    by (simp add: ex_full_def ex_ipam_eq ex_config_def PoolDefault_def)
  have e: "\<not> excluded_for ex_full own q x" for own x q
    by (simp add: excluded_for_def ex_full_def isIPExcluded_def ex_ipam_eq set_allocator_def split: sum.split)
  from AllocateNext_rolls_back [OF ex_full_inv p r] e r show ?thesis by auto
qed

lemma ex_v4_enabled: "get_allocator ex_ipam True \<noteq> None"
  by (simp add: ex_ipam_eq get_allocator_def)

theorem ReleaseIP_correct_witness:
  "\<exists>im'. ReleaseIP ex_ipam (V4 0x0a001008) ''w1'' = (im', None) \<and> \<not> in_use im' (V4 0x0a001008) \<and>
     stz_triggers (im_stz im') 0x0a001008 = None"
proof -
  obtain im' e where r: "ReleaseIP ex_ipam (V4 0x0a001008) ''w1'' = (im', e)" by fastforce
  have d: "stz_deletable (im_stz ex_ipam) (V4 0x0a001008)" "cfg_EnableScaleToZeroDatapath (im_config ex_ipam)"
    "get_allocator ex_ipam True \<noteq> None"
    by (simp_all add: ex_ipam_eq ex_stz_def ex_config_def stz_deletable_def get_allocator_def)
  note c = ReleaseIP_correct [OF ex_ipam_inv r]
  have "e = None" using conjunct1 [OF c] d by simp
  with c d r show ?thesis by (simp add: stz_clean_def stz_newKey_def)
qed

theorem obsolete_timer_harmless_witness:
  "\<exists>im1. StopExpirationTimer (ex_ipam\<lparr>im_expirationTimers := [(V4 0x0a001008, ''w1'') \<mapsto> ''u1'']\<rparr>)
       (V4 0x0a001008) ''w1'' ''u1'' = (im1, None) \<and>
     exec_op (exec_ops im1 [ex_op, OpStartTimer (V4 0x0a001008) ''w1'' ''u2'']) (OpExpire (V4 0x0a001008) ''w1'' ''u1'') =
     exec_ops im1 [ex_op, OpStartTimer (V4 0x0a001008) ''w1'' ''u2'']"
proof -
  let ?im = "ex_ipam\<lparr>im_expirationTimers := [(V4 0x0a001008, ''w1'') \<mapsto> ''u1'']\<rparr>"
  obtain im1 where s: "StopExpirationTimer ?im (V4 0x0a001008) ''w1'' ''u1'' = (im1, None)"
    by (simp add: StopExpirationTimer_def)
  have "OpStartTimer (V4 0x0a001008) ''w1'' ''u1'' \<notin> set [ex_op, OpStartTimer (V4 0x0a001008) ''w1'' ''u2'']" by simp
  from obsolete_timer_harmless [OF disjI1 [OF s] this] s show ?thesis by blast
qed

theorem expire_timer_releases_witness:
  "\<not> in_use (expire_timer (ex_ipam\<lparr>im_expirationTimers := [(V4 0x0a001008, ''w1'') \<mapsto> ''u1'']\<rparr>)
      (V4 0x0a001008) ''w1'' ''u1'') (V4 0x0a001008)"
  using expire_timer_releases [of "ex_ipam\<lparr>im_expirationTimers := [(V4 0x0a001008, ''w1'') \<mapsto> ''u1'']\<rparr>"
      "V4 0x0a001008" "''w1''" "''u1''"] ex_ipam_inv ex_v4_enabled
  by simp

lemma ex_ghost:
  "\<exists>im1. AllocateNextFamily ex_ipam (\<lambda>_. 7) IPv4 ''ns/pod'' ''ghost'' = (im1, Inr (alloc_result (V4 0x0a000008) ''infra''))"
proof -
  obtain m where "ms_AllocateNext ex_managed 7 ''ns/pod'' ''ghost'' = Inr (m, alloc_result (V4 0x0a000008) ''infra'')"
    by (simp add: ms_AllocateNext_def ms_resolvePool_def ex_managed_eq range_eval)
  then show ?thesis
    by (simp add: AllocateNextFamily_def allocateNextFamily_def get_allocator_def ex_ipam_eq with_default_pool_def
        alloc_result_def isIPExcluded_def set_allocator_def Let_def)
qed

theorem release_returned_pool_keeps_owner_witness:
  "\<exists>im1 im2. AllocateNextFamily ex_ipam (\<lambda>_. 7) IPv4 ''ns/pod'' ''ghost'' =
       (im1, Inr (alloc_result (V4 0x0a000008) ''infra'')) \<and>
     ReleaseIP im1 (V4 0x0a000008) ''infra'' = (im2, None) \<and> \<not> in_use im2 (V4 0x0a000008) \<and>
     owner_of im2 ''ghost'' (V4 0x0a000008) = Some ''ns/pod''"
proof -
  obtain im1 where r: "AllocateNextFamily ex_ipam (\<lambda>_. 7) IPv4 ''ns/pod'' ''ghost'' =
      (im1, Inr (alloc_result (V4 0x0a000008) ''infra''))" using ex_ghost by blast
  have "in_use im1 (V4 0x0a000008)"
    using AllocateNextFamily_Inr [OF ex_ipam_inv r] by (simp add: alloc_result_def)
  then obtain im2 where r2: "ReleaseIP im1 (V4 0x0a000008) ''infra'' = (im2, None)"
    using releaseIPLocked_ok_iff [of im1 "V4 0x0a000008" "''infra''"]
    by (cases "releaseIPLocked im1 (V4 0x0a000008) ''infra''") (auto simp: ReleaseIP_def in_use_def split: option.splits)
  from release_returned_pool_keeps_owner [OF ex_ipam_inv _ r, of im2] r r2 show ?thesis
    by (simp add: alloc_result_def)
qed

theorem allocate_release_roundtrip_witness:
  "snd (AllocateIP ex_ipam (V4 0x0a001009) ''ns/pod'' ''w1'') = None \<and>
   in_use (fst (ReleaseIP (fst (AllocateIP ex_ipam (V4 0x0a001009) ''ns/pod'' ''w1'')) (V4 0x0a001009) ''w1'')) = in_use ex_ipam"
proof -
  have "\<exists>m res. ms_Allocate ex_managed (V4 0x0a001009) ''ns/pod'' ''w1'' = Inr (m, res)"
    by (simp add: ms_Allocate_def ms_findSubForIP_def ex_managed_eq range_eval rg_Allocate_def
        range_contains_def addrOffset_def max_int_eq bm_Allocate_def)
  then have "\<exists>im1. AllocateIP ex_ipam (V4 0x0a001009) ''ns/pod'' ''w1'' = (im1, None)"
    by (auto simp: AllocateIP_def allocateIP_def get_allocator_def isIPExcluded_def ex_ipam_eq Let_def)
  then obtain im1 where r: "AllocateIP ex_ipam (V4 0x0a001009) ''ns/pod'' ''w1'' = (im1, None)" by blast
  from allocate_release_roundtrip [OF ex_ipam_inv r] r show ?thesis by simp
qed

end
