(* ===== verification/ID_Pool.thy ===== *)
theory ID_Pool
  imports Prelude
begin

text \<open>
  Numeric identifiers: the pool of \<open>pkg/idpool/idpool.go\<close> with its available and leased IDs, and the
  reference-counted local keys of \<open>pkg/allocator/localkeys.go\<close> that identity allocation keeps on
  top of it. Every operation runs under a mutex and is one step.
\<close>

section \<open>The pool\<close>

type_synonym ID = u64

definition NoID :: ID where
  "NoID = 0"

text \<open>
  The two maps used as sets are duplicate-free lists. Go iterates over a map in an arbitrary order,
  so \<open>allocateID\<close> takes the element at a random position.
\<close>

record id_cache =
  ic_ids :: "ID list"
  ic_leased :: "ID list"

record id_pool =
  ip_minID :: ID
  ip_maxID :: ID
  ip_idCache :: id_cache

text \<open>The loop \<open>for id := minID; id < maxID+1; id++\<close>, in 64-bit arithmetic.\<close>

function id_range :: "ID \<Rightarrow> ID \<Rightarrow> ID list" where
  "id_range i stop = (if i < stop then i # id_range (i + 1) stop else [])"
  by pat_completeness auto

lemma word_less_succ:
  fixes i :: "'a::len word" assumes "i < stop" shows "unat (i + 1) = Suc (unat i)"
proof -
  have "Suc (unat i) \<le> unat stop" using assms by (simp add: word_less_nat_alt)
  then have "Suc (unat i) < 2 ^ LENGTH('a)" using unat_less_pow by (rule le_less_trans)
  then show ?thesis using unat_add_no_wrap [of i 1] by simp
qed

termination id_range
  by (relation "measure (\<lambda>(i, stop). unat stop - unat i)") (auto simp: word_less_succ word_less_nat_alt)

declare id_range.simps [simp del]

definition newIDCache :: "ID \<Rightarrow> ID \<Rightarrow> id_cache" where
  "newIDCache minID maxID = \<lparr>ic_ids = id_range minID (maxID + 1), ic_leased = []\<rparr>"

definition NewIDPool :: "ID \<Rightarrow> ID \<Rightarrow> id_pool" where
  "NewIDPool minID maxID = \<lparr>ip_minID = minID, ip_maxID = maxID, ip_idCache = newIDCache minID maxID\<rparr>"

definition ic_allocateID :: "id_cache \<Rightarrow> nat \<Rightarrow> id_cache \<times> ID" where
  "ic_allocateID c rnd =
     (if ic_ids c = [] then (c, NoID)
      else let i = ic_ids c ! (rnd mod length (ic_ids c))
           in (c\<lparr>ic_ids := removeAll i (ic_ids c)\<rparr>, i))"

definition ic_leaseAvailableID :: "id_cache \<Rightarrow> nat \<Rightarrow> id_cache \<times> ID" where
  "ic_leaseAvailableID c rnd =
     (let (c', i) = ic_allocateID c rnd in
      if i = NoID then (c', NoID) else (c'\<lparr>ic_leased := List.insert i (ic_leased c')\<rparr>, i))"

definition ic_insert :: "id_cache \<Rightarrow> ID \<Rightarrow> id_cache \<times> bool" where
  "ic_insert c i =
     (if i \<in> set (ic_ids c) then (c, False)
      else if i \<in> set (ic_leased c) then (c, False)
      else (c\<lparr>ic_ids := List.insert i (ic_ids c)\<rparr>, True))"

definition ic_release :: "id_cache \<Rightarrow> ID \<Rightarrow> id_cache \<times> bool" where
  "ic_release c i =
     (if i \<notin> set (ic_leased c) then (c, False)
      else (fst (ic_insert (c\<lparr>ic_leased := removeAll i (ic_leased c)\<rparr>) i), True))"

definition ic_use :: "id_cache \<Rightarrow> ID \<Rightarrow> id_cache \<times> bool" where
  "ic_use c i =
     (if i \<notin> set (ic_leased c) then (c, False)
      else (c\<lparr>ic_leased := removeAll i (ic_leased c)\<rparr>, True))"

definition ic_remove :: "id_cache \<Rightarrow> ID \<Rightarrow> id_cache \<times> bool" where
  "ic_remove c i =
     (let c' = c\<lparr>ic_leased := removeAll i (ic_leased c)\<rparr> in
      if i \<in> set (ic_ids c') then (c'\<lparr>ic_ids := removeAll i (ic_ids c')\<rparr>, True) else (c', False))"

definition LeaseAvailableID :: "id_pool \<Rightarrow> nat \<Rightarrow> id_pool \<times> ID" where
  "LeaseAvailableID p rnd = map_prod (\<lambda>c. p\<lparr>ip_idCache := c\<rparr>) id (ic_leaseAvailableID (ip_idCache p) rnd)"

definition AllocateID :: "id_pool \<Rightarrow> nat \<Rightarrow> id_pool \<times> ID" where
  "AllocateID p rnd = map_prod (\<lambda>c. p\<lparr>ip_idCache := c\<rparr>) id (ic_allocateID (ip_idCache p) rnd)"

definition pool_Release :: "id_pool \<Rightarrow> ID \<Rightarrow> id_pool \<times> bool" where
  "pool_Release p i = map_prod (\<lambda>c. p\<lparr>ip_idCache := c\<rparr>) id (ic_release (ip_idCache p) i)"

definition pool_Use :: "id_pool \<Rightarrow> ID \<Rightarrow> id_pool \<times> bool" where
  "pool_Use p i = map_prod (\<lambda>c. p\<lparr>ip_idCache := c\<rparr>) id (ic_use (ip_idCache p) i)"

definition pool_Insert :: "id_pool \<Rightarrow> ID \<Rightarrow> id_pool \<times> bool" where
  "pool_Insert p i = map_prod (\<lambda>c. p\<lparr>ip_idCache := c\<rparr>) id (ic_insert (ip_idCache p) i)"

definition pool_Remove :: "id_pool \<Rightarrow> ID \<Rightarrow> id_pool \<times> bool" where
  "pool_Remove p i = map_prod (\<lambda>c. p\<lparr>ip_idCache := c\<rparr>) id (ic_remove (ip_idCache p) i)"

section \<open>The life cycle of an ID\<close>

text \<open>
  The states and the transition table that the comment on \<open>IDPool\<close> gives, as a specification: what
  an event does to the ID it is about. \<open>None\<close> marks the entries "guaranteed never to occur".
\<close>

datatype id_state = Available | Leased | Unavailable

datatype id_event = EvLease | EvAllocate | EvRelease | EvUse | EvInsert | EvRemove

fun id_table :: "id_state \<Rightarrow> id_event \<Rightarrow> id_state option" where
  "id_table Available EvLease = Some Leased"
| "id_table Available EvAllocate = Some Unavailable"
| "id_table Available EvRelease = Some Available"
| "id_table Available EvUse = Some Available"
| "id_table Available EvInsert = Some Available"
| "id_table Available EvRemove = Some Unavailable"
| "id_table Leased EvRelease = Some Available"
| "id_table Leased EvUse = Some Unavailable"
| "id_table Leased EvInsert = Some Leased"
| "id_table Leased EvRemove = Some Unavailable"
| "id_table Unavailable EvRelease = Some Unavailable"
| "id_table Unavailable EvUse = Some Unavailable"
| "id_table Unavailable EvInsert = Some Available"
| "id_table Unavailable EvRemove = Some Unavailable"
| "id_table _ _ = None"

definition id_state_of :: "id_pool \<Rightarrow> ID \<Rightarrow> id_state" where
  "id_state_of p i = (if i \<in> set (ic_ids (ip_idCache p)) then Available
     else if i \<in> set (ic_leased (ip_idCache p)) then Leased else Unavailable)"

text \<open>An operation of the pool, the event it is and the ID it is about.\<close>

datatype pool_op = OpLease nat | OpAllocate nat | OpRelease ID | OpUse ID | OpInsert ID | OpRemove ID

fun pool_exec :: "id_pool \<Rightarrow> pool_op \<Rightarrow> id_pool" where
  "pool_exec p (OpLease rnd) = fst (LeaseAvailableID p rnd)"
| "pool_exec p (OpAllocate rnd) = fst (AllocateID p rnd)"
| "pool_exec p (OpRelease i) = fst (pool_Release p i)"
| "pool_exec p (OpUse i) = fst (pool_Use p i)"
| "pool_exec p (OpInsert i) = fst (pool_Insert p i)"
| "pool_exec p (OpRemove i) = fst (pool_Remove p i)"

fun pool_subject :: "id_pool \<Rightarrow> pool_op \<Rightarrow> id_event \<times> ID" where
  "pool_subject p (OpLease rnd) = (EvLease, snd (LeaseAvailableID p rnd))"
| "pool_subject p (OpAllocate rnd) = (EvAllocate, snd (AllocateID p rnd))"
| "pool_subject p (OpRelease i) = (EvRelease, i)"
| "pool_subject p (OpUse i) = (EvUse, i)"
| "pool_subject p (OpInsert i) = (EvInsert, i)"
| "pool_subject p (OpRemove i) = (EvRemove, i)"

fun pool_run :: "id_pool \<Rightarrow> pool_op list \<Rightarrow> id_pool" where
  "pool_run p [] = p"
| "pool_run p (op # ops) = pool_run (pool_exec p op) ops"

text \<open>No ID is both available and leased, and \<open>NoID\<close> is neither.\<close>

definition pool_inv :: "id_pool \<Rightarrow> bool" where
  "pool_inv p \<longleftrightarrow> set (ic_ids (ip_idCache p)) \<inter> set (ic_leased (ip_idCache p)) = {} \<and>
     NoID \<notin> set (ic_ids (ip_idCache p)) \<and> NoID \<notin> set (ic_leased (ip_idCache p))"

lemmas pool_defs = LeaseAvailableID_def AllocateID_def pool_Release_def pool_Use_def pool_Insert_def
  pool_Remove_def ic_leaseAvailableID_def ic_allocateID_def ic_release_def ic_use_def ic_insert_def
  ic_remove_def Let_def

lemma pick_mem: "xs \<noteq> [] \<Longrightarrow> xs ! (rnd mod length xs) \<in> set xs"
  by (simp add: nth_mem)

lemma set_id_range: "set (id_range i stop) = {i ..< stop}"
proof (induction i stop rule: id_range.induct)
  case (1 i stop)
  show ?case
  proof (cases "i < stop")
    case True
    have "set (id_range i stop) = insert i {i + 1 ..< stop}"
      using 1 True by (simp add: id_range.simps [of i stop])
    also have "\<dots> = {i ..< stop}"
      using True by (auto simp: word_less_nat_alt word_le_nat_alt word_less_succ [OF True] word_unat_eq_iff)
    finally show ?thesis .
  qed (simp add: id_range.simps [of i stop])
qed

lemma NewIDPool_inv [inv_intros]: "0 < minID \<Longrightarrow> pool_inv (NewIDPool minID maxID)"
  by (auto simp: pool_inv_def NewIDPool_def newIDCache_def NoID_def set_id_range)

lemma pool_exec_inv [inv_intros]:
  assumes "pool_inv p" "op \<noteq> OpInsert NoID"
  shows "pool_inv (pool_exec p op)"
  using assms pick_mem [of "ic_ids (ip_idCache p)"] by (cases op) (auto simp: pool_inv_def pool_defs)

lemma pool_run_inv:
  "pool_inv p \<Longrightarrow> OpInsert NoID \<notin> set ops \<Longrightarrow> pool_inv (pool_run p ops)"
proof (induction ops arbitrary: p)
  case (Cons op ops)
  with pool_exec_inv [of p op] show ?case by auto
qed simp

lemma pool_table_step:
  assumes "pool_inv p" "pool_subject p op = (ev, i)" "i \<noteq> NoID"
  shows "id_table (id_state_of p i) ev = Some (id_state_of (pool_exec p op) i)"
    and "j \<noteq> i \<Longrightarrow> id_state_of (pool_exec p op) j = id_state_of p j"
proof -
  note m = pick_mem [of "ic_ids (ip_idCache p)"]
  show "id_table (id_state_of p i) ev = Some (id_state_of (pool_exec p op) i)"
    using assms m by (cases op) (auto simp: pool_inv_def pool_defs id_state_of_def split: if_splits)
  show "j \<noteq> i \<Longrightarrow> id_state_of (pool_exec p op) j = id_state_of p j"
    using assms m by (cases op) (auto simp: pool_inv_def pool_defs id_state_of_def split: if_splits)
qed

text \<open>Only \<open>Release\<close> and \<open>Insert\<close> of an ID make it available.\<close>

lemma pool_exec_not_available:
  assumes "pool_inv p" "id_state_of p i \<noteq> Available" "op \<noteq> OpRelease i" "op \<noteq> OpInsert i"
  shows "id_state_of (pool_exec p op) i \<noteq> Available"
  using assms by (cases op) (auto simp: pool_defs id_state_of_def split: if_splits)

lemma pool_run_not_available:
  "pool_inv p \<Longrightarrow> OpInsert NoID \<notin> set ops \<Longrightarrow> id_state_of p i \<noteq> Available \<Longrightarrow>
   OpRelease i \<notin> set ops \<Longrightarrow> OpInsert i \<notin> set ops \<Longrightarrow> id_state_of (pool_run p ops) i \<noteq> Available"
proof (induction ops arbitrary: p)
  case (Cons op ops)
  from Cons.prems have "pool_inv (pool_exec p op)" "id_state_of (pool_exec p op) i \<noteq> Available"
    using pool_exec_inv [of p op] pool_exec_not_available [of p i op] by auto
  with Cons show ?case by simp
qed simp

lemma handed_out_available:
  assumes "pool_inv p" "pool_subject p op = (ev, i)" "ev = EvLease \<or> ev = EvAllocate" "i \<noteq> NoID"
  shows "id_state_of p i = Available"
  using assms pick_mem [of "ic_ids (ip_idCache p)"]
  by (cases op) (auto simp: pool_defs id_state_of_def split: if_splits)

lemma NoID_iff:
  assumes "pool_inv p"
  shows "snd (LeaseAvailableID p rnd) = NoID \<longleftrightarrow> (\<forall>j. id_state_of p j \<noteq> Available)"
    and "snd (AllocateID p rnd) = NoID \<longleftrightarrow> (\<forall>j. id_state_of p j \<noteq> Available)"
proof -
  let ?ids = "ic_ids (ip_idCache p)"
  let ?i = "?ids ! (rnd mod length ?ids)"
  have "(snd (LeaseAvailableID p rnd) = NoID \<longleftrightarrow> ?ids = []) \<and> (snd (AllocateID p rnd) = NoID \<longleftrightarrow> ?ids = [])"
  proof (cases "?ids = []")
    case False
    then have "?i \<noteq> NoID" using assms pick_mem [OF False, of rnd] unfolding pool_inv_def by metis
    with False show ?thesis by (simp add: pool_defs)
  qed (simp add: pool_defs)
  moreover have "?ids = [] \<longleftrightarrow> (\<forall>j. id_state_of p j \<noteq> Available)" by (cases ?ids) (auto simp: id_state_of_def)
  ultimately show "snd (LeaseAvailableID p rnd) = NoID \<longleftrightarrow> (\<forall>j. id_state_of p j \<noteq> Available)"
    "snd (AllocateID p rnd) = NoID \<longleftrightarrow> (\<forall>j. id_state_of p j \<noteq> Available)" by simp_all
qed

text \<open>
  (C28) The pool implements the documented life cycle: each operation takes the ID it is about along
  the transition table of \<open>IDPool\<close>, an impossible transition never happens, and no operation affects
  any other ID.
\<close>

theorem id_pool_refines_table:
  assumes "pool_inv p" and "pool_subject p op = (ev, i)" and "i \<noteq> NoID"
  shows "id_table (id_state_of p i) ev = Some (id_state_of (pool_exec p op) i) \<and>
    (\<forall>j. j \<noteq> i \<longrightarrow> id_state_of (pool_exec p op) j = id_state_of p j)"
  using pool_table_step [OF assms] by blast

text \<open>
  (C29) An ID is handed out to one user at a time: in any run of a pool built over positive IDs, in which \<open>NoID\<close> is not
  inserted, an ID returned by \<open>LeaseAvailableID\<close> or \<open>AllocateID\<close> is returned by neither of them again before it
  is released or inserted; and each of them returns \<open>NoID\<close> exactly when no ID is available.
\<close>

theorem id_pool_exclusive:
  assumes "0 < minID" and "OpInsert NoID \<notin> set (ops1 @ op # ops2)"
    and "pool_subject (pool_run (NewIDPool minID maxID) ops1) op = (ev, i)"
    and "ev = EvLease \<or> ev = EvAllocate" and "i \<noteq> NoID"
    and "OpRelease i \<notin> set ops2" and "OpInsert i \<notin> set ops2"
  defines "p \<equiv> pool_run (NewIDPool minID maxID) ops1" and "q \<equiv> pool_run (NewIDPool minID maxID) (ops1 @ op # ops2)"
  shows "snd (LeaseAvailableID q rnd) \<noteq> i \<and> snd (AllocateID q rnd) \<noteq> i \<and>
    (snd (LeaseAvailableID p rnd) = NoID \<longleftrightarrow> (\<forall>j. id_state_of p j \<noteq> Available)) \<and>
    (snd (AllocateID p rnd) = NoID \<longleftrightarrow> (\<forall>j. id_state_of p j \<noteq> Available))"
proof -
  have split: "pool_run p (xs @ ys) = pool_run (pool_run p xs) ys" for p xs ys
    by (induction xs arbitrary: p) simp_all
  have p: "pool_inv p" unfolding p_def using NewIDPool_inv [OF assms(1)] assms(2) by (intro pool_run_inv) auto
  then have e: "pool_inv (pool_exec p op)" using assms(2) by (intro pool_exec_inv) auto
  have q: "q = pool_run (pool_exec p op) ops2" by (simp add: p_def q_def split)
  have "id_state_of (pool_exec p op) i \<noteq> Available"
    using pool_table_step(1) [OF p assms(3) [folded p_def] assms(5)] handed_out_available [OF p assms(3) [folded p_def] assms(4,5)] assms(4)
    by auto
  then have n: "id_state_of q i \<noteq> Available" unfolding q using e assms(2,6,7) by (intro pool_run_not_available) auto
  have iq: "pool_inv q" unfolding q using e assms(2) by (intro pool_run_inv) auto
  have "snd (LeaseAvailableID q rnd) \<noteq> i" "snd (AllocateID q rnd) \<noteq> i"
    using handed_out_available [OF iq, of "OpLease rnd" EvLease i] handed_out_available [OF iq, of "OpAllocate rnd" EvAllocate i] n assms(5)
    by auto
  with NoID_iff [OF p] show ?thesis by blast
qed

theorem id_pool_refines_table_witness:
  "id_table (id_state_of (NewIDPool 1 3) 2) EvLease =
     Some (id_state_of (pool_exec (NewIDPool 1 3) (OpLease 1)) 2)"
proof -
  have "pool_subject (NewIDPool 1 3) (OpLease 1) = (EvLease, 2)"
    by (simp add: NewIDPool_def newIDCache_def id_range.simps pool_defs NoID_def)
  from id_pool_refines_table [OF NewIDPool_inv this] show ?thesis by (simp add: NoID_def)
qed

theorem id_pool_exclusive_witness:
  "snd (LeaseAvailableID (pool_run (NewIDPool 1 3) ([] @ OpLease 1 # [OpUse 2])) 1) \<noteq> 2 \<and>
   snd (AllocateID (pool_run (NewIDPool 1 3) ([] @ OpLease 1 # [OpUse 2])) 1) \<noteq> 2"
proof -
  have "pool_subject (pool_run (NewIDPool 1 3) []) (OpLease 1) = (EvLease, 2)"
    by (simp add: NewIDPool_def newIDCache_def id_range.simps pool_defs NoID_def)
  from id_pool_exclusive [OF _ _ this, where ?ops2.0 = "[OpUse 2]" and rnd = 1] show ?thesis by (simp add: NoID_def)
qed

end
