(* ===== verification/Local_Keys.thy ===== *)
theory Local_Keys
  imports ID_Pool
begin

text \<open>
  Users of the ID pool: the basic allocator of \<open>pkg/identity/basicallocator\<close> and the
  reference-counted local keys of \<open>pkg/allocator/localkeys.go\<close>.
\<close>

section \<open>Basic allocator\<close>

record basic_id_allocator =
  ba_idPool :: id_pool
  ba_minIDValue :: ID
  ba_maxIDValue :: ID

datatype basic_error = AllocateRandomFailed | OutOfPoolRange ID | AllocateFailed ID | ReturnFailed ID

definition NewBasicIDAllocator :: "ID \<Rightarrow> ID \<Rightarrow> basic_id_allocator" where
  "NewBasicIDAllocator minID maxID =
     \<lparr>ba_idPool = NewIDPool minID maxID, ba_minIDValue = minID, ba_maxIDValue = maxID\<rparr>"

definition ba_AllocateRandom :: "basic_id_allocator \<Rightarrow> nat \<Rightarrow> basic_id_allocator \<times> (basic_error, ID) result" where
  "ba_AllocateRandom b rnd =
     (let (p, i) = AllocateID (ba_idPool b) rnd; b' = b\<lparr>ba_idPool := p\<rparr> in
      if i = NoID then (b', Inl AllocateRandomFailed) else (b', Inr i))"

definition ba_IsInPoolRange :: "basic_id_allocator \<Rightarrow> ID \<Rightarrow> bool" where
  "ba_IsInPoolRange b i \<longleftrightarrow> ba_minIDValue b \<le> i \<and> i \<le> ba_maxIDValue b"

definition ba_Allocate :: "basic_id_allocator \<Rightarrow> ID \<Rightarrow> basic_id_allocator \<times> basic_error option" where
  "ba_Allocate b i =
     (if \<not> ba_IsInPoolRange b i then (b, Some (OutOfPoolRange i))
      else let (p, removed) = pool_Remove (ba_idPool b) i; b' = b\<lparr>ba_idPool := p\<rparr> in
           if \<not> removed then (b', Some (AllocateFailed i)) else (b', None))"

definition ba_ReturnToAvailablePool :: "basic_id_allocator \<Rightarrow> ID \<Rightarrow> basic_id_allocator \<times> basic_error option" where
  "ba_ReturnToAvailablePool b i =
     (if \<not> ba_IsInPoolRange b i then (b, Some (OutOfPoolRange i))
      else let (p, returned) = pool_Insert (ba_idPool b) i; b' = b\<lparr>ba_idPool := p\<rparr> in
           if \<not> returned then (b', Some (ReturnFailed i)) else (b', None))"

text \<open>Nothing is leased, and only IDs of the range are available.\<close>

definition ba_inv :: "basic_id_allocator \<Rightarrow> bool" where
  "ba_inv b \<longleftrightarrow> pool_inv (ba_idPool b) \<and> 0 < ba_minIDValue b \<and>
     (\<forall>i. id_state_of (ba_idPool b) i \<noteq> Leased) \<and>
     (\<forall>i. id_state_of (ba_idPool b) i = Available \<longrightarrow> ba_IsInPoolRange b i)"

definition ba_free :: "basic_id_allocator \<Rightarrow> ID set" where
  "ba_free b = {i. id_state_of (ba_idPool b) i = Available}"

lemma word_less_add1:
  fixes m :: "'a::len word" assumes "m \<noteq> -1" shows "i < m + 1 \<longleftrightarrow> i \<le> m"
proof -
  have "m < -1" using assms word_order.not_eq_extremum by blast
  then show ?thesis by (simp add: word_less_nat_alt word_le_nat_alt word_less_succ less_Suc_eq_le)
qed

lemma NewBasic_free: "maxID \<noteq> -1 \<Longrightarrow> ba_free (NewBasicIDAllocator minID maxID) = {minID..maxID}"
  by (auto simp: ba_free_def NewBasicIDAllocator_def NewIDPool_def newIDCache_def id_state_of_def
      set_id_range word_less_add1)

lemma NewBasic_inv [inv_intros]:
  assumes "0 < minID" shows "ba_inv (NewBasicIDAllocator minID maxID)"
proof -
  have "i \<le> maxID" if "i < maxID + 1" for i
    using that word_less_add1 [of maxID i] by (cases "maxID = -1") auto
  then show ?thesis using assms NewIDPool_inv [OF assms, of maxID]
    by (auto simp: ba_inv_def NewBasicIDAllocator_def id_state_of_def ba_IsInPoolRange_def NewIDPool_def
        newIDCache_def set_id_range)
qed

lemma ba_pool_step:
  assumes "ba_inv b" "op = OpAllocate rnd \<or> op = OpRemove i \<or> (op = OpInsert i \<and> ba_IsInPoolRange b i)"
  shows "ba_inv (b\<lparr>ba_idPool := pool_exec (ba_idPool b) op\<rparr>)"
proof -
  have z: "op \<noteq> OpInsert NoID" using assms by (auto simp: ba_inv_def ba_IsInPoolRange_def NoID_def)
  have i: "pool_inv (ba_idPool b)" "ic_leased (ip_idCache (ba_idPool b)) = []"
    using assms(1) by (auto simp: ba_inv_def pool_inv_def id_state_of_def split: if_splits)
      (metis disjoint_iff hd_in_set)
  from pool_exec_inv [OF i(1) z] i(2) assms show ?thesis
    by (auto simp: ba_inv_def ba_IsInPoolRange_def id_state_of_def pool_defs split: if_splits)
qed

lemma ba_free_ids: "ba_free b = set (ic_ids (ip_idCache (ba_idPool b)))"
  by (auto simp: ba_free_def id_state_of_def split: if_splits)

lemma ba_invD:
  assumes "ba_inv b"
  shows "i \<in> ba_free b \<Longrightarrow> ba_IsInPoolRange b i" "i \<notin> set (ic_leased (ip_idCache (ba_idPool b)))"
    "NoID \<notin> ba_free b"
proof -
  show "i \<in> ba_free b \<Longrightarrow> ba_IsInPoolRange b i" using assms by (simp add: ba_free_def ba_inv_def)
  have "id_state_of (ba_idPool b) i \<noteq> Leased" "pool_inv (ba_idPool b)" using assms by (simp_all add: ba_inv_def)
  then show "i \<notin> set (ic_leased (ip_idCache (ba_idPool b)))" by (auto simp: id_state_of_def pool_inv_def split: if_splits)
  show "NoID \<notin> ba_free b" using assms by (simp add: ba_free_ids ba_inv_def pool_inv_def)
qed

lemma ba_Allocate_spec:
  assumes "ba_inv b"
  shows "snd (ba_Allocate b i) =
      (if \<not> ba_IsInPoolRange b i then Some (OutOfPoolRange i) else if i \<notin> ba_free b then Some (AllocateFailed i) else None) \<and>
    ba_free (fst (ba_Allocate b i)) = ba_free b - {i} \<and> ba_inv (fst (ba_Allocate b i))"
  using ba_invD(1) [OF assms, of i] ba_pool_step [OF assms, of "OpRemove i"] assms
  by (auto simp: ba_Allocate_def ba_free_ids pool_Remove_def ic_remove_def Let_def)

lemma ba_AllocateRandom_spec:
  assumes "ba_inv b"
  shows "(case snd (ba_AllocateRandom b rnd) of
       Inl e \<Rightarrow> ba_free b = {} \<and> ba_free (fst (ba_AllocateRandom b rnd)) = {}
     | Inr j \<Rightarrow> j \<in> ba_free b \<and> ba_free (fst (ba_AllocateRandom b rnd)) = ba_free b - {j}) \<and>
    ba_inv (fst (ba_AllocateRandom b rnd))"
proof -
  let ?ids = "ic_ids (ip_idCache (ba_idPool b))"
  have "fst (ba_AllocateRandom b rnd) = b\<lparr>ba_idPool := pool_exec (ba_idPool b) (OpAllocate rnd)\<rparr>"
    by (simp add: ba_AllocateRandom_def case_prod_unfold Let_def)
  with ba_pool_step [OF assms, of "OpAllocate rnd"] have i: "ba_inv (fst (ba_AllocateRandom b rnd))" by simp
  show ?thesis
  proof (cases "?ids = []")
    case True
    with i show ?thesis by (simp add: ba_AllocateRandom_def pool_defs ba_free_ids)
  next
    case False
    note m = pick_mem [OF False, of rnd]
    then have "?ids ! (rnd mod length ?ids) \<noteq> NoID" using ba_invD(3) [OF assms] unfolding ba_free_ids by metis
    with i m False show ?thesis by (auto simp: ba_AllocateRandom_def pool_defs ba_free_ids)
  qed
qed

lemma ba_Return_spec:
  assumes "ba_inv b"
  shows "snd (ba_ReturnToAvailablePool b i) =
      (if \<not> ba_IsInPoolRange b i then Some (OutOfPoolRange i) else if i \<in> ba_free b then Some (ReturnFailed i) else None) \<and>
    ba_free (fst (ba_ReturnToAvailablePool b i)) = (if ba_IsInPoolRange b i then insert i (ba_free b) else ba_free b) \<and>
    ba_inv (fst (ba_ReturnToAvailablePool b i))"
  using ba_invD(2) [OF assms, of i] ba_pool_step [OF assms, of "OpInsert i"] assms
  by (auto simp: ba_ReturnToAvailablePool_def ba_free_ids pool_Insert_def ic_insert_def Let_def)

lemma ba_range_fixed:
  "ba_IsInPoolRange (fst (ba_Allocate b i)) = ba_IsInPoolRange b" "ba_IsInPoolRange (fst (ba_AllocateRandom b rnd)) = ba_IsInPoolRange b"
  "ba_IsInPoolRange (fst (ba_ReturnToAvailablePool b i)) = ba_IsInPoolRange b"
  by (auto simp: fun_eq_iff ba_IsInPoolRange_def ba_Allocate_def ba_AllocateRandom_def ba_ReturnToAvailablePool_def case_prod_unfold Let_def)

text \<open>Any sequence of calls on a new allocator.\<close>

datatype ba_op = BaAllocate ID | BaAllocateRandom nat | BaReturn ID

fun ba_exec :: "basic_id_allocator \<Rightarrow> ba_op \<Rightarrow> basic_id_allocator" where
  "ba_exec b (BaAllocate i) = fst (ba_Allocate b i)"
| "ba_exec b (BaAllocateRandom rnd) = fst (ba_AllocateRandom b rnd)"
| "ba_exec b (BaReturn i) = fst (ba_ReturnToAvailablePool b i)"

lemma ba_run_inv: "ba_inv b \<Longrightarrow> ba_inv (foldl ba_exec b ops) \<and> ba_IsInPoolRange (foldl ba_exec b ops) = ba_IsInPoolRange b"
proof (induction ops arbitrary: b)
  case (Cons op ops)
  have "ba_inv (ba_exec b op)" "ba_IsInPoolRange (ba_exec b op) = ba_IsInPoolRange b"
    using ba_Allocate_spec [OF Cons.prems] ba_AllocateRandom_spec [OF Cons.prems] ba_Return_spec [OF Cons.prems] ba_range_fixed
    by (cases op; simp)+
  with Cons.IH [of "ba_exec b op"] show ?case by simp
qed simp

text \<open>
  (C30) The basic allocator is a set of free IDs, for a range of positive IDs below the largest 64-bit number. It starts as the whole
  configured range. After any calls, \<open>Allocate\<close> succeeds exactly for a free ID, reports an ID out of the range as such and any
  other as not available, and takes that ID out of the set and no other; \<open>AllocateRandom\<close> takes some free ID, and fails exactly
  when there is none; \<open>ReturnToAvailablePool\<close> succeeds exactly for an ID of the range that is not
  free, reports the others, and adds an ID of the range to the set and nothing else. A call that fails changes nothing in the set.
\<close>

theorem basic_allocator_is_set:
  assumes "0 < minID" "maxID \<noteq> -1" "b = foldl ba_exec (NewBasicIDAllocator minID maxID) ops"
  shows "ba_free (NewBasicIDAllocator minID maxID) = {minID..maxID} \<and> ba_free b \<subseteq> {minID..maxID} \<and>
    snd (ba_Allocate b i) =
      (if i \<notin> {minID..maxID} then Some (OutOfPoolRange i) else if i \<notin> ba_free b then Some (AllocateFailed i) else None) \<and>
    ba_free (fst (ba_Allocate b i)) = ba_free b - {i} \<and>
    (case snd (ba_AllocateRandom b rnd) of
       Inl e \<Rightarrow> ba_free b = {} \<and> ba_free (fst (ba_AllocateRandom b rnd)) = {}
     | Inr j \<Rightarrow> j \<in> ba_free b \<and> ba_free (fst (ba_AllocateRandom b rnd)) = ba_free b - {j}) \<and>
    snd (ba_ReturnToAvailablePool b i) =
      (if i \<notin> {minID..maxID} then Some (OutOfPoolRange i) else if i \<in> ba_free b then Some (ReturnFailed i) else None) \<and>
    ba_free (fst (ba_ReturnToAvailablePool b i)) = (if i \<in> {minID..maxID} then insert i (ba_free b) else ba_free b)"
proof -
  have b: "ba_inv b" "ba_IsInPoolRange b = ba_IsInPoolRange (NewBasicIDAllocator minID maxID)"
    unfolding assms(3) using ba_run_inv [OF NewBasic_inv [OF assms(1), of maxID]] by blast+
  have r: "ba_IsInPoolRange b j \<longleftrightarrow> j \<in> {minID..maxID}" for j
    unfolding b(2) by (simp add: ba_IsInPoolRange_def NewBasicIDAllocator_def)
  have "ba_free b \<subseteq> {minID..maxID}" using ba_invD(1) [OF b(1)] r by blast
  then show ?thesis
    using NewBasic_free [OF assms(2)] ba_Allocate_spec [OF b(1), of i] ba_AllocateRandom_spec [OF b(1), of rnd] ba_Return_spec [OF b(1), of i]
    unfolding r by blast
qed

theorem basic_allocator_is_set_witness:
  "ba_free (NewBasicIDAllocator 256 65535) = {256..65535} \<and>
   ba_free (fst (ba_Allocate (NewBasicIDAllocator 256 65535) 300)) = {256..65535} - {300}"
  using basic_allocator_is_set [of 256 65535 "NewBasicIDAllocator 256 65535" "[]" 300 0] by simp

section \<open>Local keys\<close>

text \<open>
  The maps \<open>keys\<close> and \<open>ids\<close> point to the same entries, which live in a store. The type of the
  allocator's keys is a parameter.
\<close>

record 'k local_key =
  lk_val :: ID
  lk_key :: 'k
  lk_refcnt :: u64
  lk_verified :: bool

record 'k local_keys =
  lks_store :: "'k local_key list"
  lks_keys :: "string \<rightharpoonup> nat"
  lks_ids :: "ID \<rightharpoonup> nat"

datatype local_key_error = DifferentValue ID ID | KeyNotFound string | NotInLocalCache

definition newLocalKeys :: "'k local_keys" where
  "newLocalKeys = \<lparr>lks_store = [], lks_keys = Map.empty, lks_ids = Map.empty\<rparr>"

definition lks_upd :: "'k local_keys \<Rightarrow> nat \<Rightarrow> ('k local_key \<Rightarrow> 'k local_key) \<Rightarrow> 'k local_keys" where
  "lks_upd l i f = l\<lparr>lks_store := (lks_store l)[i := f (lks_store l ! i)]\<rparr>"

definition lks_allocate ::
  "'k local_keys \<Rightarrow> string \<Rightarrow> 'k \<Rightarrow> ID \<Rightarrow> 'k local_keys \<times> (local_key_error, ID \<times> bool) result" where
  "lks_allocate l keyString k val =
     (case lks_keys l keyString of
        Some i \<Rightarrow>
          (let e = lks_store l ! i in
           if val \<noteq> lk_val e then (l, Inl (DifferentValue val (lk_val e)))
           else (lks_upd l i (\<lambda>e. e\<lparr>lk_refcnt := lk_refcnt e + 1\<rparr>), Inr (lk_val e, False)))
      | None \<Rightarrow>
          (let i = length (lks_store l);
               e = \<lparr>lk_val = val, lk_key = k, lk_refcnt = 1, lk_verified = False\<rparr>
           in (l\<lparr>lks_store := lks_store l @ [e], lks_keys := (lks_keys l)(keyString \<mapsto> i),
                lks_ids := (lks_ids l)(val \<mapsto> i)\<rparr>, Inr (val, True))))"

definition lks_verify :: "'k local_keys \<Rightarrow> string \<Rightarrow> 'k local_keys \<times> local_key_error option" where
  "lks_verify l key =
     (case lks_keys l key of
        Some i \<Rightarrow> (lks_upd l i (\<lambda>e. e\<lparr>lk_verified := True\<rparr>), None)
      | None \<Rightarrow> (l, Some (KeyNotFound key)))"

definition lks_lookupKey :: "'k local_keys \<Rightarrow> string \<Rightarrow> ID" where
  "lks_lookupKey l key = (case lks_keys l key of Some i \<Rightarrow> lk_val (lks_store l ! i) | None \<Rightarrow> NoID)"

definition lks_lookupID :: "'k local_keys \<Rightarrow> ID \<Rightarrow> 'k option" where
  "lks_lookupID l v = (case lks_ids l v of Some i \<Rightarrow> Some (lk_key (lks_store l ! i)) | None \<Rightarrow> None)"

definition lks_use :: "'k local_keys \<Rightarrow> string \<Rightarrow> 'k local_keys \<times> ID" where
  "lks_use l key =
     (case lks_keys l key of
        Some i \<Rightarrow>
          (if \<not> lk_verified (lks_store l ! i) then (l, NoID)
           else (lks_upd l i (\<lambda>e. e\<lparr>lk_refcnt := lk_refcnt e + 1\<rparr>), lk_val (lks_store l ! i)))
      | None \<Rightarrow> (l, NoID))"

definition lks_release :: "'k local_keys \<Rightarrow> string \<Rightarrow> 'k local_keys \<times> (local_key_error, bool \<times> ID) result" where
  "lks_release l key =
     (case lks_keys l key of
        Some i \<Rightarrow>
          (let l1 = lks_upd l i (\<lambda>e. e\<lparr>lk_refcnt := lk_refcnt e - 1\<rparr>); e = lks_store l1 ! i in
           if lk_refcnt e = 0
           then (l1\<lparr>lks_keys := (lks_keys l1)(key := None), lks_ids := (lks_ids l1)(lk_val e := None)\<rparr>,
                 Inr (True, lk_val e))
           else (l1, Inr (False, lk_val e)))
      | None \<Rightarrow> (l, Inl NotInLocalCache))"

definition lks_getVerifiedIDs :: "'k local_keys \<Rightarrow> ID \<rightharpoonup> 'k" where
  "lks_getVerifiedIDs l v =
     (case lks_ids l v of
        Some i \<Rightarrow> if lk_verified (lks_store l ! i) then Some (lk_key (lks_store l ! i)) else None
      | None \<Rightarrow> None)"

text \<open>The two maps index the same entries, one per key, each with a positive count.\<close>

definition lks_inv :: "'k local_keys \<Rightarrow> bool" where
  "lks_inv l \<longleftrightarrow>
     (\<forall>s i. lks_keys l s = Some i \<longrightarrow> i < length (lks_store l) \<and> 0 < lk_refcnt (lks_store l ! i) \<and>
        lks_ids l (lk_val (lks_store l ! i)) = Some i) \<and>
     (\<forall>v i. lks_ids l v = Some i \<longrightarrow> lk_val (lks_store l ! i) = v \<and> (\<exists>s. lks_keys l s = Some i)) \<and>
     (\<forall>s t i. lks_keys l s = Some i \<longrightarrow> lks_keys l t = Some i \<longrightarrow> s = t)"

lemma lks_invD:
  assumes "lks_inv l" "lks_keys l s = Some i"
  shows "i < length (lks_store l)" "0 < lk_refcnt (lks_store l ! i)"
    "lks_ids l (lk_val (lks_store l ! i)) = Some i" "lks_keys l t = Some i \<Longrightarrow> s = t"
  using assms unfolding lks_inv_def by blast+

lemma lks_inv_idD:
  assumes "lks_inv l" "lks_ids l v = Some i"
  obtains s where "lk_val (lks_store l ! i) = v" "lks_keys l s = Some i"
  using assms unfolding lks_inv_def by blast

text \<open>Abstractly: per key its ID, the allocator's key, how many references there are, verified or not.\<close>

definition lks_abs :: "'k local_keys \<Rightarrow> string \<rightharpoonup> ID \<times> 'k \<times> nat \<times> bool" where
  "lks_abs l s = map_option (\<lambda>i. let e = lks_store l ! i in (lk_val e, lk_key e, unat (lk_refcnt e), lk_verified e))
     (lks_keys l s)"

text \<open>Changing count and flag of one entry, keeping a positive count.\<close>

lemma lks_upd_frame:
  assumes "lks_inv l" "lks_keys l s = Some i" "f (lks_store l ! i) = (lks_store l ! i)\<lparr>lk_refcnt := n, lk_verified := b\<rparr>" "0 < n"
  shows "lks_inv (lks_upd l i f)"
    and "lks_abs (lks_upd l i f) = (lks_abs l)(s \<mapsto> (lk_val (lks_store l ! i), lk_key (lks_store l ! i), unat n, b))"
proof -
  have i: "i < length (lks_store l)" by (rule lks_invD [OF assms(1,2)])
  have st: "lks_store (lks_upd l i f) ! j = (if j = i then (lks_store l ! i)\<lparr>lk_refcnt := n, lk_verified := b\<rparr> else lks_store l ! j)" for j
    using i assms(3) by (simp add: lks_upd_def nth_list_update)
  have fr: "lks_keys (lks_upd l i f) = lks_keys l" "lks_ids (lks_upd l i f) = lks_ids l"
    "length (lks_store (lks_upd l i f)) = length (lks_store l)" by (simp_all add: lks_upd_def)
  show "lks_inv (lks_upd l i f)"
    using assms(1,4) unfolding lks_inv_def fr st by auto
  show "lks_abs (lks_upd l i f) = (lks_abs l)(s \<mapsto> (lk_val (lks_store l ! i), lk_key (lks_store l ! i), unat n, b))"
  proof
    fix t
    show "lks_abs (lks_upd l i f) t = ((lks_abs l)(s \<mapsto> (lk_val (lks_store l ! i), lk_key (lks_store l ! i), unat n, b))) t"
      using assms(2) lks_invD(4) [OF assms(1,2), of t]
      by (cases "lks_keys l t") (auto simp: lks_abs_def fr st Let_def)
  qed
qed

text \<open>The operations on that view, with an unbounded count.\<close>

type_synonym 'k key_view = "string \<rightharpoonup> ID \<times> 'k \<times> nat \<times> bool"

datatype 'k lk_op = LAllocate string 'k ID | LVerify string | LUse string | LRelease string

fun view_exec :: "'k key_view \<Rightarrow> 'k lk_op \<Rightarrow> 'k key_view" where
  "view_exec m (LAllocate s k v) =
     (case m s of
        None \<Rightarrow> m(s \<mapsto> (v, k, 1, False))
      | Some (v', k', n, b) \<Rightarrow> if v = v' then m(s \<mapsto> (v', k', n + 1, b)) else m)"
| "view_exec m (LVerify s) =
     (case m s of None \<Rightarrow> m | Some (v, k, n, b) \<Rightarrow> m(s \<mapsto> (v, k, n, True)))"
| "view_exec m (LUse s) =
     (case m s of None \<Rightarrow> m | Some (v, k, n, b) \<Rightarrow> if b then m(s \<mapsto> (v, k, n + 1, b)) else m)"
| "view_exec m (LRelease s) =
     (case m s of
        None \<Rightarrow> m
      | Some (v, k, n, b) \<Rightarrow> if n = 1 then m(s := None) else m(s \<mapsto> (v, k, n - 1, b)))"

fun lks_exec :: "'k local_keys \<Rightarrow> 'k lk_op \<Rightarrow> 'k local_keys" where
  "lks_exec l (LAllocate s k v) = fst (lks_allocate l s k v)"
| "lks_exec l (LVerify s) = fst (lks_verify l s)"
| "lks_exec l (LUse s) = fst (lks_use l s)"
| "lks_exec l (LRelease s) = fst (lks_release l s)"

text \<open>
  The caller's side: a new key comes with an ID no other local key has (the kvstore hands out an ID
  for one key only), and fewer than \<open>2 ^ 64 - 1\<close> references are taken.
\<close>

fun lk_op_ok :: "'k local_keys \<Rightarrow> 'k lk_op \<Rightarrow> bool" where
  "lk_op_ok l (LAllocate s k v) \<longleftrightarrow>
     (case lks_keys l s of None \<Rightarrow> lks_ids l v = None | Some i \<Rightarrow> lk_refcnt (lks_store l ! i) \<noteq> -1)"
| "lk_op_ok l (LUse s) \<longleftrightarrow>
     (case lks_keys l s of None \<Rightarrow> True | Some i \<Rightarrow> lk_refcnt (lks_store l ! i) \<noteq> -1)"
| "lk_op_ok l _ \<longleftrightarrow> True"

lemma refcnt_succ:
  assumes "n \<noteq> (-1 :: u64)" shows "0 < n + 1" "unat (n + 1) = unat n + 1"
proof -
  have "n < -1" using assms word_order.not_eq_extremum by blast
  from word_less_succ [OF this] show "unat (n + 1) = unat n + 1" by simp
  then show "0 < n + 1" by (simp add: word_less_nat_alt)
qed

lemma refcnt_pred:
  assumes "0 < (n :: u64)" shows "unat (n - 1) = unat n - 1" "n - 1 = 0 \<longleftrightarrow> unat n = 1" "n \<noteq> 1 \<Longrightarrow> 0 < n - 1"
proof -
  show p: "unat (n - 1) = unat n - 1" using assms by (simp add: unat_sub word_less_nat_alt word_le_nat_alt)
  show "n - 1 = 0 \<longleftrightarrow> unat n = 1" using word_unat_eq_iff [of n 1] by simp
  show "n \<noteq> 1 \<Longrightarrow> 0 < n - 1" by (simp add: word_neq_0_conv [symmetric])
qed

lemma lks_new_entry:
  assumes "lks_inv l" "lks_keys l s = None" "lks_ids l v = None"
  shows "lks_inv (lks_exec l (LAllocate s k v)) \<and>
    lks_abs (lks_exec l (LAllocate s k v)) = (lks_abs l)(s \<mapsto> (v, k, 1, False))"
proof -
  let ?l = "lks_exec l (LAllocate s k v)" and ?n = "length (lks_store l)"
  have k: "lks_keys ?l = (lks_keys l)(s \<mapsto> ?n)" "lks_ids ?l = (lks_ids l)(v \<mapsto> ?n)"
    and len: "length (lks_store ?l) = Suc ?n"
    and new: "lks_store ?l ! ?n = \<lparr>lk_val = v, lk_key = k, lk_refcnt = 1, lk_verified = False\<rparr>"
    using assms(2) by (simp_all add: lks_allocate_def Let_def)
  have old: "lks_store ?l ! i = lks_store l ! i \<and> i < ?n \<and> i \<noteq> ?n" if "lks_keys l t = Some i" for t i
    using assms(2) lks_invD(1) [OF assms(1) that] by (auto simp: lks_allocate_def Let_def nth_append)
  have vals: "lk_val (lks_store l ! i) \<noteq> v" if "lks_keys l t = Some i" for t i
    using lks_invD(3) [OF assms(1) that] assms(3) by auto
  have "lks_inv ?l"
    unfolding lks_inv_def k
  proof (intro conjI allI impI)
    fix t i assume "((lks_keys l)(s \<mapsto> ?n)) t = Some i"
    then have c: "i = ?n \<or> lks_keys l t = Some i" by (auto split: if_splits)
    show "i < length (lks_store ?l)" "0 < lk_refcnt (lks_store ?l ! i)"
      "((lks_ids l)(v \<mapsto> ?n)) (lk_val (lks_store ?l ! i)) = Some i"
      using c new old [of t i] len vals [of t i] lks_invD(2,3) [OF assms(1), of t i] by auto
  next
    fix w i assume a: "((lks_ids l)(v \<mapsto> ?n)) w = Some i"
    have "lk_val (lks_store ?l ! i) = w \<and> (\<exists>t. ((lks_keys l)(s \<mapsto> ?n)) t = Some i)"
    proof (cases "w = v")
      case True
      with a new show ?thesis by (auto intro: exI [of _ s])
    next
      case False
      with a obtain t where "lk_val (lks_store l ! i) = w" "lks_keys l t = Some i"
        by (auto elim: lks_inv_idD [OF assms(1)])
      with old [of t i] assms(2) show ?thesis by (auto intro!: exI [of _ t])
    qed
    then show "lk_val (lks_store ?l ! i) = w" "\<exists>t. ((lks_keys l)(s \<mapsto> ?n)) t = Some i" by blast+
  next
    fix t u i assume "((lks_keys l)(s \<mapsto> ?n)) t = Some i" "((lks_keys l)(s \<mapsto> ?n)) u = Some i"
    then show "t = u" using old lks_invD(4) [OF assms(1)] by (fastforce split: if_splits)
  qed
  moreover have "lks_abs ?l t = ((lks_abs l)(s \<mapsto> (v, k, 1, False))) t" for t
    using old [of t "the (lks_keys l t)"] new
    by (cases "lks_keys l t") (auto simp: lks_abs_def k Let_def simp del: lks_exec.simps)
  ultimately show ?thesis by blast
qed

lemma lks_drop_entry:
  assumes "lks_inv l" "lks_keys l s = Some i" "lk_refcnt (lks_store l ! i) = 1"
  shows "lks_inv (lks_exec l (LRelease s)) \<and> lks_abs (lks_exec l (LRelease s)) = (lks_abs l)(s := None)"
proof -
  let ?l = "lks_exec l (LRelease s)" and ?v = "lk_val (lks_store l ! i)"
  have i: "i < length (lks_store l)" by (rule lks_invD [OF assms(1,2)])
  have k: "lks_keys ?l = (lks_keys l)(s := None)" "lks_ids ?l = (lks_ids l)(?v := None)"
    and len: "length (lks_store ?l) = length (lks_store l)"
    and old: "\<And>j. j \<noteq> i \<Longrightarrow> lks_store ?l ! j = lks_store l ! j"
    using assms(2,3) i by (simp_all add: lks_release_def lks_upd_def Let_def)
  have other: "j \<noteq> i" if "lks_keys l t = Some j" "t \<noteq> s" for t j
    using lks_invD(4) [OF assms(1,2), of t] that by auto
  have "lks_inv ?l"
    unfolding lks_inv_def k
  proof (intro conjI allI impI)
    fix t j assume "((lks_keys l)(s := None)) t = Some j"
    then have t: "lks_keys l t = Some j" "j \<noteq> i" using other by (auto split: if_splits)
    note d = lks_invD [OF assms(1) t(1)]
    have "lk_val (lks_store l ! j) \<noteq> ?v" using d(3) lks_invD(3) [OF assms(1,2)] t(2) by auto
    with d t len old show "j < length (lks_store ?l)" "0 < lk_refcnt (lks_store ?l ! j)"
      "((lks_ids l)(?v := None)) (lk_val (lks_store ?l ! j)) = Some j" by auto
  next
    fix w j assume a: "((lks_ids l)(?v := None)) w = Some j"
    then obtain t where t: "lk_val (lks_store l ! j) = w" "lks_keys l t = Some j" "w \<noteq> ?v"
      by (auto elim: lks_inv_idD [OF assms(1)] split: if_splits)
    then have "j \<noteq> i" "t \<noteq> s" using assms(2) by auto
    then show "lk_val (lks_store ?l ! j) = w" "\<exists>u. ((lks_keys l)(s := None)) u = Some j"
      using old [of j] t by (auto intro: exI [of _ t])
  next
    fix t u j assume "((lks_keys l)(s := None)) t = Some j" "((lks_keys l)(s := None)) u = Some j"
    then show "t = u" using lks_invD(4) [OF assms(1), of t j u] by (auto split: if_splits)
  qed
  moreover have "lks_abs ?l t = ((lks_abs l)(s := None)) t" for t
    using old other [of t "the (lks_keys l t)"]
    by (cases "lks_keys l t") (auto simp: lks_abs_def k Let_def simp del: lks_exec.simps)
  ultimately show ?thesis by blast
qed

lemma lks_abs_Some:
  "lks_keys l s = Some i \<Longrightarrow>
   lks_abs l s = Some (lk_val (lks_store l ! i), lk_key (lks_store l ! i), unat (lk_refcnt (lks_store l ! i)), lk_verified (lks_store l ! i))"
  "lks_keys l s = None \<Longrightarrow> lks_abs l s = None"
  by (simp_all add: lks_abs_def Let_def)

lemma lks_upd_refcnt:
  assumes "lks_inv l" "lks_keys l s = Some i" "0 < g (lk_refcnt (lks_store l ! i))"
  shows "lks_inv (lks_upd l i (\<lambda>e. e\<lparr>lk_refcnt := g (lk_refcnt e)\<rparr>))"
    and "lks_abs (lks_upd l i (\<lambda>e. e\<lparr>lk_refcnt := g (lk_refcnt e)\<rparr>)) =
      (lks_abs l)(s \<mapsto> (lk_val (lks_store l ! i), lk_key (lks_store l ! i), unat (g (lk_refcnt (lks_store l ! i))),
        lk_verified (lks_store l ! i)))"
  using lks_upd_frame [OF assms(1,2) _ assms(3), of "\<lambda>e. e\<lparr>lk_refcnt := g (lk_refcnt e)\<rparr>" "lk_verified (lks_store l ! i)"]
  by simp_all

lemma lks_upd_verified:
  assumes "lks_inv l" "lks_keys l s = Some i"
  shows "lks_inv (lks_upd l i (\<lambda>e. e\<lparr>lk_verified := True\<rparr>))"
    and "lks_abs (lks_upd l i (\<lambda>e. e\<lparr>lk_verified := True\<rparr>)) =
      (lks_abs l)(s \<mapsto> (lk_val (lks_store l ! i), lk_key (lks_store l ! i), unat (lk_refcnt (lks_store l ! i)), True))"
  using lks_upd_frame [OF assms _ lks_invD(2) [OF assms], of "\<lambda>e. e\<lparr>lk_verified := True\<rparr>" True] by simp_all

lemma lks_exec_refines:
  assumes "lks_inv l" "lk_op_ok l op"
  shows "lks_inv (lks_exec l op) \<and> lks_abs (lks_exec l op) = view_exec (lks_abs l) op"
proof (cases op)
  case (LAllocate s k v)
  show ?thesis
  proof (cases "lks_keys l s")
    case None
    with lks_new_entry [OF assms(1) None, of v k] assms(2) LAllocate show ?thesis
      by (simp add: lks_abs_Some)
  next
    case (Some i)
    note u = lks_upd_refcnt [OF assms(1) Some, of "\<lambda>n. n + 1"]
    from Some assms LAllocate u refcnt_succ [of "lk_refcnt (lks_store l ! i)"] show ?thesis
      by (simp add: lks_allocate_def Let_def lks_abs_Some)
  qed
next
  case (LVerify s)
  show ?thesis
  proof (cases "lks_keys l s")
    case (Some i)
    note u = lks_upd_verified [OF assms(1) Some]
    from Some assms LVerify u show ?thesis by (simp add: lks_verify_def Let_def lks_abs_Some)
  qed (use LVerify assms in \<open>simp add: lks_verify_def lks_abs_Some\<close>)
next
  case (LUse s)
  show ?thesis
  proof (cases "lks_keys l s")
    case (Some i)
    note u = lks_upd_refcnt [OF assms(1) Some, of "\<lambda>n. n + 1"]
    from Some assms LUse u refcnt_succ [of "lk_refcnt (lks_store l ! i)"] show ?thesis
      by (simp add: lks_use_def Let_def lks_abs_Some)
  qed (use LUse assms in \<open>simp add: lks_use_def lks_abs_Some\<close>)
next
  case (LRelease s)
  show ?thesis
  proof (cases "lks_keys l s")
    case (Some i)
    note p = refcnt_pred [OF lks_invD(2) [OF assms(1) Some]]
    show ?thesis
    proof (cases "lk_refcnt (lks_store l ! i) = 1")
      case True
      with lks_drop_entry [OF assms(1) Some] Some LRelease show ?thesis by (simp add: lks_abs_Some)
    next
      case False
      note u = lks_upd_refcnt [OF assms(1) Some, of "\<lambda>n. n - 1"]
      have "unat (lk_refcnt (lks_store l ! i)) \<noteq> 1" using False p(2) by simp
      with Some assms LRelease u p False lks_invD(1) [OF assms(1) Some] show ?thesis
        by (simp add: lks_release_def Let_def lks_abs_Some) (simp add: lks_upd_def)
    qed
  qed (use LRelease assms in \<open>simp add: lks_release_def lks_abs_Some\<close>)
qed

fun lks_run :: "'k local_keys \<Rightarrow> 'k lk_op list \<Rightarrow> 'k local_keys" where
  "lks_run l [] = l"
| "lks_run l (op # ops) = lks_run (lks_exec l op) ops"

fun lk_ops_ok :: "'k local_keys \<Rightarrow> 'k lk_op list \<Rightarrow> bool" where
  "lk_ops_ok l [] \<longleftrightarrow> True"
| "lk_ops_ok l (op # ops) \<longleftrightarrow> lk_op_ok l op \<and> lk_ops_ok (lks_exec l op) ops"

lemma lks_run_refines:
  "lks_inv l \<Longrightarrow> lk_ops_ok l ops \<Longrightarrow>
   lks_inv (lks_run l ops) \<and> lks_abs (lks_run l ops) = foldl view_exec (lks_abs l) ops"
proof (induction ops arbitrary: l)
  case (Cons op ops)
  with lks_exec_refines [of l op] show ?case by (simp del: lks_exec.simps view_exec.simps)
qed simp

lemma newLocalKeys_inv: "lks_inv newLocalKeys" "lks_abs newLocalKeys = Map.empty"
  by (simp_all add: lks_inv_def lks_abs_def newLocalKeys_def fun_eq_iff)

lemma lks_lookupID_iff:
  assumes "lks_inv l"
  shows "lks_lookupID l v = Some k \<longleftrightarrow> (\<exists>s n b. lks_abs l s = Some (v, k, n, b))"
proof
  assume "lks_lookupID l v = Some k"
  then obtain i where i: "lks_ids l v = Some i" "k = lk_key (lks_store l ! i)"
    by (auto simp: lks_lookupID_def split: option.splits)
  obtain s where "lk_val (lks_store l ! i) = v" "lks_keys l s = Some i" by (rule lks_inv_idD [OF assms i(1)])
  with i(2) show "\<exists>s n b. lks_abs l s = Some (v, k, n, b)"
    by (intro exI [of _ s]) (simp add: lks_abs_Some)
next
  assume "\<exists>s n b. lks_abs l s = Some (v, k, n, b)"
  then obtain s i where "lks_keys l s = Some i" "lk_val (lks_store l ! i) = v" "lk_key (lks_store l ! i) = k"
    by (auto simp: lks_abs_def Let_def)
  with lks_invD(3) [OF assms] show "lks_lookupID l v = Some k" by (auto simp: lks_lookupID_def)
qed

lemma lks_release_result:
  assumes "lks_inv l"
  shows "snd (lks_release l s) =
    (case lks_abs l s of None \<Rightarrow> Inl NotInLocalCache | Some (v, k, n, b) \<Rightarrow> Inr (n = 1, v))"
proof (cases "lks_keys l s")
  case (Some i)
  note d = lks_invD [OF assms Some]
  from Some d(1) refcnt_pred(2) [OF d(2)] show ?thesis
    by (simp add: lks_release_def lks_upd_def Let_def lks_abs_Some)
qed (simp add: lks_release_def lks_abs_Some)

text \<open>
  (C31) Reference counting of local keys. After any sequence of allocations, uses, verifications and
  releases from the empty cache, the cache holds exactly what counting references per key gives: a
  key is present while references remain; both lookups, by key and by ID, agree with that view, and
  \<open>release\<close> reports the last use exactly when one reference was left.
\<close>

theorem local_keys_count_references:
  assumes "lk_ops_ok newLocalKeys ops"
  shows "lks_abs (lks_run newLocalKeys ops) = foldl view_exec Map.empty ops \<and>
    (\<forall>v k. lks_lookupID (lks_run newLocalKeys ops) v = Some k \<longleftrightarrow>
       (\<exists>s n b. foldl view_exec Map.empty ops s = Some (v, k, n, b))) \<and>
    (\<forall>s. lks_lookupKey (lks_run newLocalKeys ops) s =
       (case foldl view_exec Map.empty ops s of None \<Rightarrow> NoID | Some (v, k, n, b) \<Rightarrow> v)) \<and>
    (\<forall>s. snd (lks_release (lks_run newLocalKeys ops) s) =
       (case foldl view_exec Map.empty ops s of
          None \<Rightarrow> Inl NotInLocalCache | Some (v, k, n, b) \<Rightarrow> Inr (n = 1, v)))"
proof -
  let ?l = "lks_run newLocalKeys ops"
  have r: "lks_inv ?l" "lks_abs ?l = foldl view_exec Map.empty ops"
    using lks_run_refines [OF newLocalKeys_inv(1) assms] by (simp_all add: newLocalKeys_inv(2))
  have "lks_lookupKey ?l s = (case lks_abs ?l s of None \<Rightarrow> NoID | Some (v, k, n, b) \<Rightarrow> v)" for s
    by (cases "lks_keys ?l s") (simp_all add: lks_lookupKey_def lks_abs_Some)
  with r lks_lookupID_iff [OF r(1)] lks_release_result [OF r(1)] show ?thesis by simp
qed

theorem local_keys_count_references_witness:
  "lks_lookupKey (lks_run newLocalKeys
     [LAllocate ''a'' ''label'' 300, LVerify ''a'', LUse ''a'', LRelease ''a'']) ''a'' = 300 \<and>
   snd (lks_release (lks_run newLocalKeys
     [LAllocate ''a'' ''label'' 300, LVerify ''a'', LUse ''a'', LRelease ''a'']) ''a'') = Inr (True, 300)"
  using local_keys_count_references [of "[LAllocate ''a'' ''label'' 300, LVerify ''a'', LUse ''a'', LRelease ''a'']"]
  by (simp add: lks_allocate_def lks_verify_def lks_use_def lks_release_def lks_upd_def newLocalKeys_def Let_def)

end
