(* ===== verification/CIDR_Set.thy ===== *)
theory CIDR_Set
  imports IP_Range "HOL-Library.Code_Target_Nat"
begin

text \<open>
  The operator's side of cluster-pool IPAM: \<open>pkg/ipam/cidrset/cidr_set.go\<close>, which cuts a cluster CIDR
  into node CIDRs of one size, and \<open>operator/pkg/ipam/allocator/clusterpool/cidralloc\<close>. The bitmaps
  are big integers, as in \<open>Alloc_Bitmap\<close>.
\<close>

section \<open>Definitions\<close>

datatype cidr_error =
    ErrCIDRRangeNoCIDRsRemaining
  | ErrCIDRSetSubNetTooBig
  | ErrSubNetMaskSizeInvalid
  | OutOfClusterCIDR prefix
  | OutOfCIDRAllocator addr
  | As4Panic
  | CIDRCollision prefix
  | NotV6Family prefix
  | NotV4Family prefix

record cidr_set =
  cs_clusterPrefix :: prefix
  cs_nodeMaskSize :: int
  cs_maxCIDRs :: nat
  cs_unavailableCIDRs :: int
  cs_nextCandidate :: nat
  cs_used :: nat
  cs_reserved :: nat

text \<open>
  \<open>1 << uint32(n)\<close> in a 64-bit int: a negative \<open>n\<close> becomes a shift by more than 63, which gives 0
  (shifts by 63 and more that are not negative cannot occur: mask sizes are at most 128, and at most 16
  above the cluster's for IPv6, 32 for IPv4).
\<close>

definition shift_one :: "int \<Rightarrow> nat" where
  "shift_one n = (if 0 \<le> n \<and> n < 63 then 2 ^ nat n else 0)"

definition NewCIDRSet :: "prefix \<Rightarrow> int \<Rightarrow> (cidr_error, cidr_set) result" where
  "NewCIDRSet p subNetMaskSize =
     (let clusterPrefix = pfx_masked p;
          clusterMaskSize = pfx_bits clusterPrefix;
          s = \<lparr>cs_clusterPrefix = clusterPrefix, cs_nodeMaskSize = subNetMaskSize,
               cs_maxCIDRs = shift_one (subNetMaskSize - clusterMaskSize),
               cs_unavailableCIDRs = 0, cs_nextCandidate = 0, cs_used = 0, cs_reserved = 0\<rparr>
      in if addr_is6 (pfx_addr clusterPrefix) then
           if subNetMaskSize > 128 then Inl ErrSubNetMaskSizeInvalid
           else if subNetMaskSize - clusterMaskSize > 16 then Inl ErrCIDRSetSubNetTooBig
           else Inr s
         else if subNetMaskSize > 32 then Inl ErrSubNetMaskSizeInvalid
         else Inr s)"

definition index_block6 :: "u64 \<times> u64 \<Rightarrow> int \<Rightarrow> int \<Rightarrow> nat \<Rightarrow> u64 \<times> u64" where
  "index_block6 = (\<lambda>(left, right) clusterBits nodeMaskSize index.
     if nodeMaskSize \<le> 64
     then (left OR push_bit (nat (64 - nodeMaskSize)) (word_of_nat index), right)
     else let btl = nat (nodeMaskSize - 64);
              left' = (if clusterBits < 64 \<and> bit_length (unat (word_of_nat index :: u64)) > btl
                       then left OR drop_bit btl (word_of_nat index) else left)
          in (left', right OR push_bit (nat (128 - nodeMaskSize)) (word_of_nat index)))"

definition indexToCIDRBlock :: "cidr_set \<Rightarrow> nat \<Rightarrow> prefix" where
  "indexToCIDRBlock s index =
     (case pfx_addr (cs_clusterPrefix s) of
        V4 a \<Rightarrow> prefix_from (V4 (a OR push_bit (nat (32 - cs_nodeMaskSize s)) (word_of_nat index))) (cs_nodeMaskSize s)
      | c \<Rightarrow>
          (let w = addr_as16 c;
               (l, r) = index_block6 (hi64 w, lo64 w) (pfx_bits (cs_clusterPrefix s)) (cs_nodeMaskSize s) index
           in prefix_from (V6 (from_hi_lo l r) []) (cs_nodeMaskSize s)))"

definition cs_IsFull :: "cidr_set \<Rightarrow> bool" where
  "cs_IsFull s \<longleftrightarrow> cs_unavailableCIDRs s = int (cs_maxCIDRs s)"

text \<open>The loop over at most \<open>maxCIDRs\<close> candidates.\<close>

fun cs_scan :: "nat \<Rightarrow> cidr_set \<Rightarrow> nat \<Rightarrow> nat" where
  "cs_scan 0 s candidate = candidate"
| "cs_scan (Suc n) s candidate =
     (if \<not> bit (cs_used s) candidate \<and> \<not> bit (cs_reserved s) candidate then candidate
      else cs_scan n s ((candidate + 1) mod cs_maxCIDRs s))"

definition cs_AllocateNext :: "cidr_set \<Rightarrow> (cidr_error, cidr_set \<times> prefix) result" where
  "cs_AllocateNext s =
     (if cs_unavailableCIDRs s = int (cs_maxCIDRs s) then Inl ErrCIDRRangeNoCIDRsRemaining
      else let candidate = cs_scan (cs_maxCIDRs s) s (cs_nextCandidate s);
               s' = s\<lparr>cs_nextCandidate := (candidate + 1) mod cs_maxCIDRs s,
                      cs_used := set_bit candidate (cs_used s),
                      cs_unavailableCIDRs := cs_unavailableCIDRs s + 1\<rparr>
           in Inr (s', indexToCIDRBlock s' candidate))"

definition cs_InRange :: "cidr_set \<Rightarrow> prefix \<Rightarrow> bool" where
  "cs_InRange s p \<longleftrightarrow> pfx_contains (cs_clusterPrefix s) (pfx_addr p) \<or> pfx_contains p (pfx_addr (cs_clusterPrefix s))"

definition cs_IsClusterCIDR :: "cidr_set \<Rightarrow> prefix \<Rightarrow> bool" where
  "cs_IsClusterCIDR s p \<longleftrightarrow> p = cs_clusterPrefix s"

text \<open>\<open>As4\<close> panics on an IPv6 address that maps no IPv4 one.\<close>

definition getIndexForAddr :: "cidr_set \<Rightarrow> addr \<Rightarrow> (cidr_error, nat) result" where
  "getIndexForAddr s a =
     (if addr_is4 a then
        (case (addr_as4 (pfx_addr (cs_clusterPrefix s)), addr_as4 a) of
           (Some c, Some x) \<Rightarrow>
             (let cidrIndex = drop_bit (nat (32 - cs_nodeMaskSize s)) (c XOR x) in
              if cidrIndex \<ge> (word_of_nat (cs_maxCIDRs s) :: u32) then Inl (OutOfCIDRAllocator a)
              else Inr (unat cidrIndex))
         | _ \<Rightarrow> Inl As4Panic)
      else
        (let bigIP = unat (addr_as16 (pfx_addr (cs_clusterPrefix s))) XOR unat (addr_as16 a);
             cidrIndex = (word_of_nat (drop_bit (nat (128 - cs_nodeMaskSize s)) bigIP) :: u64)
         in if cidrIndex \<ge> word_of_nat (cs_maxCIDRs s) then Inl (OutOfCIDRAllocator a)
            else Inr (unat cidrIndex)))"

definition PrefixLastIP :: "prefix \<Rightarrow> addr" where
  "PrefixLastIP p =
     (if \<not> pfx_valid p then AddrInvalid
      else case pfx_addr p of
             V4 a \<Rightarrow> V4 (a OR mask (nat (32 - pfx_bits p)))
           | V6 a z \<Rightarrow> V6 (a OR mask (nat (128 - pfx_bits p))) []
           | AddrInvalid \<Rightarrow> AddrInvalid)"

definition getBeginningAndEndIndices :: "cidr_set \<Rightarrow> prefix \<Rightarrow> (cidr_error, int \<times> int) result" where
  "getBeginningAndEndIndices s p =
     (if \<not> cs_InRange s p then Inl (OutOfClusterCIDR p)
      else if pfx_bits (cs_clusterPrefix s) < pfx_bits p then
        (let beginAddr = pfx_addr (pfx_masked (prefix_from (pfx_addr p) (cs_nodeMaskSize s))) in
         case getIndexForAddr s beginAddr of
           Inl e \<Rightarrow> Inl e
         | Inr b \<Rightarrow>
             (let endAddr = pfx_addr (pfx_masked (prefix_from (PrefixLastIP p) (cs_nodeMaskSize s))) in
              case getIndexForAddr s endAddr of
                Inl e \<Rightarrow> Inl e
              | Inr e \<Rightarrow> Inr (int b, int e)))
      else Inr (0, int (cs_maxCIDRs s) - 1))"

definition cs_IsAllocated :: "cidr_set \<Rightarrow> prefix \<Rightarrow> (cidr_error, bool) result" where
  "cs_IsAllocated s p =
     (case getBeginningAndEndIndices s p of
        Inl e \<Rightarrow> Inl e
      | Inr (b, e) \<Rightarrow> Inr (list_all (\<lambda>i. bit (cs_used s) (nat i)) [b..e]))"

definition cs_release_bit :: "int \<Rightarrow> cidr_set \<Rightarrow> cidr_set" where
  "cs_release_bit i s =
     (if bit (cs_used s) (nat i)
      then s\<lparr>cs_used := unset_bit (nat i) (cs_used s),
             cs_unavailableCIDRs := (if bit (cs_reserved s) (nat i) then cs_unavailableCIDRs s
                                     else cs_unavailableCIDRs s - 1)\<rparr>
      else s)"

definition cs_Release :: "cidr_set \<Rightarrow> prefix \<Rightarrow> (cidr_error, cidr_set) result" where
  "cs_Release s p =
     (case getBeginningAndEndIndices s p of
        Inl e \<Rightarrow> Inl e
      | Inr (b, e) \<Rightarrow> Inr (fold cs_release_bit [b..e] s))"

definition cs_occupy_bit :: "int \<Rightarrow> cidr_set \<Rightarrow> cidr_set" where
  "cs_occupy_bit i s =
     (if bit (cs_used s) (nat i) then s
      else s\<lparr>cs_used := set_bit (nat i) (cs_used s),
             cs_unavailableCIDRs := (if bit (cs_reserved s) (nat i) then cs_unavailableCIDRs s
                                     else cs_unavailableCIDRs s + 1)\<rparr>)"

definition cs_Occupy :: "cidr_set \<Rightarrow> prefix \<Rightarrow> (cidr_error, cidr_set) result" where
  "cs_Occupy s p =
     (case getBeginningAndEndIndices s p of
        Inl e \<Rightarrow> Inl e
      | Inr (b, e) \<Rightarrow> Inr (fold cs_occupy_bit [b..e] s))"

text \<open>Counting the set bits of the union word by word.\<close>

fun zip_or :: "u64 list \<Rightarrow> u64 list \<Rightarrow> u64 list" where
  "zip_or [] ys = ys"
| "zip_or xs [] = xs"
| "zip_or (x # xs) (y # ys) = (x OR y) # zip_or xs ys"

definition countUnavailableCIDRs :: "nat \<Rightarrow> nat \<Rightarrow> int" where
  "countUnavailableCIDRs used reserved =
     int (sum_list (map ones_count (zip_or (big_words used) (big_words reserved))))"

fun reserve_ranges :: "cidr_set \<Rightarrow> (addr \<times> addr) list \<Rightarrow> nat \<Rightarrow> (cidr_error, nat) result" where
  "reserve_ranges s [] bm = Inr bm"
| "reserve_ranges s ((from, to) # rs) bm =
     (case getIndexForAddr s from of
        Inl e \<Rightarrow> Inl e
      | Inr b \<Rightarrow>
          (case getIndexForAddr s to of
             Inl e \<Rightarrow> Inl e
           | Inr e \<Rightarrow> reserve_ranges s rs (fold set_bit [b ..< Suc e] bm)))"

definition SetReservedRanges :: "cidr_set \<Rightarrow> (addr \<times> addr) list \<Rightarrow> (cidr_error, cidr_set) result" where
  "SetReservedRanges s ranges =
     (case reserve_ranges s ranges 0 of
        Inl e \<Rightarrow> Inl e
      | Inr bm \<Rightarrow> Inr (s\<lparr>cs_unavailableCIDRs := countUnavailableCIDRs (cs_used s) bm, cs_reserved := bm\<rparr>))"

text \<open>\<open>NewCIDRSets\<close>, over the prefixes that parsing the strings gives.\<close>

fun NewCIDRSets :: "bool \<Rightarrow> int \<Rightarrow> prefix list \<Rightarrow> cidr_set list \<Rightarrow> (cidr_error, cidr_set list) result" where
  "NewCIDRSets isV6 maskSize [] acc = Inr acc"
| "NewCIDRSets isV6 maskSize (p # ps) acc =
     (if list_ex (\<lambda>s. cs_InRange s p) acc then Inl (CIDRCollision p)
      else if isV6 \<and> addr_is4 (pfx_addr p) then Inl (NotV6Family p)
      else if \<not> isV6 \<and> \<not> addr_is4 (pfx_addr p) then Inl (NotV4Family p)
      else case NewCIDRSet p maskSize of
             Inl e \<Rightarrow> Inl e
           | Inr s \<Rightarrow> NewCIDRSets isV6 maskSize ps (acc @ [s]))"

section \<open>Counting\<close>

lemma big_words_or: "zip_or (big_words m) (big_words n) = big_words (m OR n)"
proof (induction m arbitrary: n rule: big_words.induct)
  case (1 m)
  show ?case
  proof (cases "m = 0 \<or> n = 0")
    case True
    then show ?thesis by (cases "m = 0"; cases "big_words m") (auto simp: big_words.simps [of 0])
  next
    case False
    then have mn: "m OR n \<noteq> 0" by (simp add: or_eq_0_iff)
    have d: "(m OR n) div 2 ^ 64 = (m div 2 ^ 64) OR (n div 2 ^ 64)"
      using drop_bit_or [of 64 m n] unfolding drop_bit_eq_div .
    have w: "(word_of_nat (m OR n) :: u64) = word_of_nat m OR word_of_nat n" by (simp add: of_nat_or_eq)
    have ih: "zip_or (big_words (m div 2 ^ 64)) (big_words (n div 2 ^ 64)) = big_words ((m OR n) div 2 ^ 64)"
      unfolding d using 1 False by blast
    show ?thesis using False mn
      by (simp only: big_words.simps [of m] big_words.simps [of n] big_words.simps [of "m OR n"] if_False
          zip_or.simps w ih de_Morgan_disj)
  qed
qed

lemma bits_of_or: "bits_of (m OR n) = bits_of m \<union> bits_of n"
  by (auto simp: bits_of_def bit_or_iff)

lemma countUnavailableCIDRs_eq: "countUnavailableCIDRs m n = int (card (bits_of m \<union> bits_of n))"
  by (simp add: countUnavailableCIDRs_def big_words_or flip: bits_of_or countBits_eq countBits_def)

section \<open>Invariant and geometry\<close>

definition cs_width :: "cidr_set \<Rightarrow> nat" where
  "cs_width s = addr_bitlen (pfx_addr (cs_clusterPrefix s))"

text \<open>Bits that number the blocks, and bits inside a block.\<close>

definition cs_index_bits :: "cidr_set \<Rightarrow> nat" where
  "cs_index_bits s = nat (cs_nodeMaskSize s - pfx_bits (cs_clusterPrefix s))"

definition cs_block_bits :: "cidr_set \<Rightarrow> nat" where
  "cs_block_bits s = nat (int (cs_width s) - cs_nodeMaskSize s)"

definition cs_geometry :: "cidr_set \<Rightarrow> bool" where
  "cs_geometry s \<longleftrightarrow> pfx_wf (cs_clusterPrefix s) \<and> pfx_is_masked (cs_clusterPrefix s) \<and>
     pfx_bits (cs_clusterPrefix s) \<le> cs_nodeMaskSize s \<and> cs_nodeMaskSize s \<le> int (cs_width s) \<and>
     cs_index_bits s < 32 \<and> (addr_is6 (pfx_addr (cs_clusterPrefix s)) \<longrightarrow> cs_index_bits s \<le> 16) \<and>
     cs_maxCIDRs s = 2 ^ cs_index_bits s"

definition cs_taken :: "cidr_set \<Rightarrow> nat set" where
  "cs_taken s = bits_of (cs_used s) \<union> bits_of (cs_reserved s)"

definition cs_inv :: "cidr_set \<Rightarrow> bool" where
  "cs_inv s \<longleftrightarrow> cs_geometry s \<and> cs_taken s \<subseteq> {..<cs_maxCIDRs s} \<and>
     cs_unavailableCIDRs s = int (card (cs_taken s)) \<and> cs_nextCandidate s < cs_maxCIDRs s"

lemma cs_geometry_cong:
  "cs_clusterPrefix t = cs_clusterPrefix s \<Longrightarrow> cs_nodeMaskSize t = cs_nodeMaskSize s \<Longrightarrow>
   cs_maxCIDRs t = cs_maxCIDRs s \<Longrightarrow> cs_geometry t = cs_geometry s"
  by (simp add: cs_geometry_def cs_width_def cs_index_bits_def)

lemma cs_taken_finite [simp]: "finite (cs_taken s)"
  by (simp add: cs_taken_def finite_bits_of)

lemma in_cs_taken: "i \<in> cs_taken s \<longleftrightarrow> bit (cs_used s) i \<or> bit (cs_reserved s) i"
  by (simp add: cs_taken_def in_bits_of)

text \<open>The scan finds a free index when there is one.\<close>

lemma cs_scan_free:
  assumes "j < n" "(c + j) mod cs_maxCIDRs s \<notin> cs_taken s" "0 < cs_maxCIDRs s" "c < cs_maxCIDRs s"
  shows "cs_scan n s c \<notin> cs_taken s \<and> cs_scan n s c < cs_maxCIDRs s"
  using assms
proof (induction n arbitrary: c j)
  case (Suc n)
  show ?case
  proof (cases "c \<in> cs_taken s")
    case False
    with Suc.prems show ?thesis by (simp add: in_cs_taken)
  next
    case True
    with Suc.prems have "j \<noteq> 0" by (cases j) auto
    then obtain k where k: "j = Suc k" by (cases j) auto
    have "((c + 1) mod cs_maxCIDRs s + k) mod cs_maxCIDRs s = (c + j) mod cs_maxCIDRs s"
      by (simp add: k mod_add_left_eq)
    then have "cs_scan n s ((c + 1) mod cs_maxCIDRs s) \<notin> cs_taken s \<and>
        cs_scan n s ((c + 1) mod cs_maxCIDRs s) < cs_maxCIDRs s"
      using Suc.prems k by (intro Suc.IH [of k]) auto
    with True show ?thesis by (auto simp: in_cs_taken)
  qed
qed simp

lemma reach_mod: assumes "c < m" "i < (m :: nat)" obtains j where "j < m" "(c + j) mod m = i"
proof (cases "c \<le> i")
  case True
  with assms that [of "i - c"] show ?thesis by auto
next
  case False
  with assms that [of "m + i - c"] show ?thesis by simp
qed

lemma cs_full_iff:
  assumes "cs_inv s"
  shows "cs_unavailableCIDRs s = int (cs_maxCIDRs s) \<longleftrightarrow> cs_taken s = {..<cs_maxCIDRs s}"
proof -
  have c: "cs_unavailableCIDRs s = int (card (cs_taken s))" "cs_taken s \<subseteq> {..<cs_maxCIDRs s}"
    using assms by (simp_all add: cs_inv_def)
  show ?thesis
  proof
    assume "cs_unavailableCIDRs s = int (cs_maxCIDRs s)"
    with c show "cs_taken s = {..<cs_maxCIDRs s}" by (intro card_subset_eq) auto
  qed (use c in simp)
qed

lemma cs_AllocateNext_cases:
  assumes "cs_inv s"
  shows "if cs_taken s = {..<cs_maxCIDRs s} then cs_AllocateNext s = Inl ErrCIDRRangeNoCIDRsRemaining
    else \<exists>i t. i < cs_maxCIDRs s \<and> i \<notin> cs_taken s \<and> cs_AllocateNext s = Inr (t, indexToCIDRBlock t i) \<and>
      cs_inv t \<and> cs_clusterPrefix t = cs_clusterPrefix s \<and> cs_nodeMaskSize t = cs_nodeMaskSize s \<and>
      cs_maxCIDRs t = cs_maxCIDRs s \<and> bits_of (cs_used t) = insert i (bits_of (cs_used s)) \<and>
      cs_reserved t = cs_reserved s"
proof (cases "cs_taken s = {..<cs_maxCIDRs s}")
  case True
  with assms show ?thesis by (simp add: cs_AllocateNext_def cs_full_iff)
next
  case False
  have i: "cs_taken s \<subseteq> {..<cs_maxCIDRs s}" "cs_nextCandidate s < cs_maxCIDRs s"
    using assms by (simp_all add: cs_inv_def)
  with False obtain k where k: "k < cs_maxCIDRs s" "k \<notin> cs_taken s" by blast
  obtain j where j: "j < cs_maxCIDRs s" "(cs_nextCandidate s + j) mod cs_maxCIDRs s = k"
    by (rule reach_mod [OF i(2) k(1)])
  let ?i = "cs_scan (cs_maxCIDRs s) s (cs_nextCandidate s)"
  let ?t = "s\<lparr>cs_nextCandidate := (?i + 1) mod cs_maxCIDRs s, cs_used := set_bit ?i (cs_used s),
    cs_unavailableCIDRs := cs_unavailableCIDRs s + 1\<rparr>"
  have sc: "?i \<notin> cs_taken s" "?i < cs_maxCIDRs s"
    using cs_scan_free [OF j(1), of "cs_nextCandidate s" s] k j i(2) by auto
  have u: "bits_of (cs_used ?t) = insert ?i (bits_of (cs_used s))" by (simp add: bits_of_set_bit)
  then have tk: "cs_taken ?t = insert ?i (cs_taken s)" by (simp add: cs_taken_def)
  have "cs_geometry ?t" using assms cs_geometry_cong [of ?t s] by (simp add: cs_inv_def)
  then have "cs_inv ?t" using assms sc unfolding cs_inv_def tk by simp
  moreover have "cs_AllocateNext s = Inr (?t, indexToCIDRBlock ?t ?i)"
    using False assms by (simp add: cs_AllocateNext_def cs_full_iff Let_def)
  ultimately have "?i < cs_maxCIDRs s \<and> ?i \<notin> cs_taken s \<and> cs_AllocateNext s = Inr (?t, indexToCIDRBlock ?t ?i) \<and>
      cs_inv ?t \<and> cs_clusterPrefix ?t = cs_clusterPrefix s \<and> cs_nodeMaskSize ?t = cs_nodeMaskSize s \<and>
      cs_maxCIDRs ?t = cs_maxCIDRs s \<and> bits_of (cs_used ?t) = insert ?i (bits_of (cs_used s)) \<and>
      cs_reserved ?t = cs_reserved s" using sc u by simp
  with False show ?thesis by (simp only: if_False) blast
qed

lemma unat_push_bit_small:
  assumes "i * 2 ^ b < 2 ^ LENGTH('a::len)" shows "unat (push_bit b (word_of_nat i :: 'a word)) = i * 2 ^ b"
proof -
  have "push_bit b (word_of_nat i :: 'a word) = word_of_nat (i * 2 ^ b)" by (simp add: push_bit_eq_mult)
  also have "unat \<dots> = take_bit LENGTH('a) (i * 2 ^ b)" unfolding unsigned_of_nat by simp
  also have "\<dots> = i * 2 ^ b" using assms by (simp add: take_bit_nat_eq_self)
  finally show ?thesis .
qed

text \<open>The two-halves computation is the shift of a 128-bit word.\<close>

lemma bit_from_hi_lo: "bit (from_hi_lo h l) n \<longleftrightarrow> (if n < 64 then bit l n else bit h (n - 64))"
  by (auto simp: from_hi_lo_def bit_simps dest: bit_imp_le_length)

lemma bit_hi_lo: "bit (hi64 w) n \<longleftrightarrow> bit w (n + 64)" "bit (lo64 w) n \<longleftrightarrow> n < 64 \<and> bit w n"
  by (auto simp: hi64_def lo64_def bit_simps add.commute dest: bit_imp_le_length)

lemma bit_above: "(i :: nat) < 2 ^ k \<Longrightarrow> k \<le> n \<Longrightarrow> \<not> bit i n"
  by (metis bit_take_bit_iff linorder_not_le take_bit_nat_eq_self)

lemma bit_of_nat_word: "bit (word_of_nat i :: 'a::len word) n \<longleftrightarrow> n < LENGTH('a) \<and> bit i n"
  by transfer (simp add: bit_take_bit_iff bit_of_nat_iff_bit)

lemma index_block6_left:
  assumes "nm \<le> 64" "0 \<le> nm"
  shows "(case index_block6 (hi64 w, lo64 w) cb nm i of (l, r) \<Rightarrow> from_hi_lo l r) =
    w OR push_bit (nat (128 - nm)) (word_of_nat i)"
proof (rule bit_word_eqI)
  fix n assume "n < LENGTH(128)"
  then have n: "n < 128" by simp
  have e: "nat (128 - nm) = 64 + nat (64 - nm)" using assms by (simp add: nat_diff_distrib)
  show "bit (case index_block6 (hi64 w, lo64 w) cb nm i of (l, r) \<Rightarrow> from_hi_lo l r) n =
      bit (w OR push_bit (nat (128 - nm)) (word_of_nat i)) n"
    using assms(1) n unfolding e
    by (auto simp: index_block6_def bit_from_hi_lo bit_or_iff bit_hi_lo bit_push_bit_iff bit_of_nat_word diff_diff_left)
qed

lemma index_block6_right:
  assumes "64 < nm" "nm \<le> 128" "clusterBits < 64 \<or> i < 2 ^ nat (nm - 64)" "i < 2 ^ 64"
  shows "(case index_block6 (hi64 w, lo64 w) clusterBits nm i of (l, r) \<Rightarrow> from_hi_lo l r) =
    w OR push_bit (nat (128 - nm)) (word_of_nat i)"
proof (rule bit_word_eqI)
  fix n assume "n < LENGTH(128)"
  then have n: "n < 128" by simp
  define btl k where "btl = nat (nm - 64)" and "k = nat (128 - nm)"
  have k: "k \<le> 64" "btl + k = 64" using assms(1,2) by (auto simp: btl_def k_def)
  let ?c = "clusterBits < 64 \<and> bit_length (unat (word_of_nat i :: u64)) > btl"
  have u: "unat (word_of_nat i :: u64) = i" using assms(4) by (simp add: unsigned_of_nat take_bit_nat_eq_self)
  have low: "i < 2 ^ btl" if "\<not> ?c"
    using that assms(3) bit_length_le [of i btl] by (auto simp: u btl_def)
  have w64: "bit (word_of_nat i :: u64) m = bit i m" for m
    using bit_above [OF assms(4), of m] bit_of_nat_word [where 'a = 64, of i m] by auto
  have idx: "n - 64 + btl = n - k" if "64 \<le> n" using that k by simp
  have l: "bit (if ?c then hi64 w OR drop_bit btl (word_of_nat i) else hi64 w) (n - 64) \<longleftrightarrow>
      bit w n \<or> bit i (n - k)" if "64 \<le> n"
    using that low bit_above [of i btl "n - k"] idx [OF that] k
    by (auto simp: bit_or_iff bit_hi_lo bit_drop_bit_eq w64 add.commute)
  show "bit (case index_block6 (hi64 w, lo64 w) clusterBits nm i of (l, r) \<Rightarrow> from_hi_lo l r) n =
      bit (w OR push_bit (nat (128 - nm)) (word_of_nat i)) n"
    using assms(1) n k l
    by (simp add: index_block6_def Let_def bit_from_hi_lo bit_or_iff bit_hi_lo bit_push_bit_iff bit_of_nat_word
        flip: btl_def k_def) (auto simp: bit_or_iff bit_hi_lo)
qed

lemma nat_xor_low:
  fixes c off :: nat assumes "2 ^ h dvd c" "off < 2 ^ h" shows "c XOR (c + off) = off"
proof -
  have "c AND off = 0"
  proof (rule bit_eqI)
    fix n
    show "bit (c AND off) n = bit (0 :: nat) n"
    proof (cases "n < h")
      case True
      obtain k where "c = 2 ^ h * k" using assms(1) by (auto elim: dvdE)
      then have "c = push_bit h k" by (simp add: push_bit_eq_mult mult.commute)
      with True show ?thesis by (simp add: bit_and_iff bit_push_bit_iff)
    next
      case False
      with bit_above [OF assms(2), of n] show ?thesis by (simp add: bit_and_iff)
    qed
  qed
  then have "c + off = c XOR off" by (rule disjunctive_add_eq_xor)
  then show ?thesis by (simp add: xor.assoc [symmetric])
qed

text \<open>The bits of a cluster CIDR: those of the prefix, of the block number, of the address in the block.\<close>

lemma cs_geometry_bits:
  assumes "cs_geometry s"
  shows "cs_index_bits s + cs_block_bits s = pfx_host_bits (cs_clusterPrefix s)"
    "pfx_host_bits (cs_clusterPrefix s) \<le> cs_width s"
    "nat (int (cs_width s) - cs_nodeMaskSize s) = cs_block_bits s" "0 \<le> cs_nodeMaskSize s"
    "2 ^ pfx_host_bits (cs_clusterPrefix s) dvd addr_val (pfx_addr (cs_clusterPrefix s))"
proof -
  have g: "pfx_wf (cs_clusterPrefix s)" "pfx_is_masked (cs_clusterPrefix s)"
    "pfx_bits (cs_clusterPrefix s) \<le> cs_nodeMaskSize s" "cs_nodeMaskSize s \<le> int (cs_width s)"
    using assms by (simp_all add: cs_geometry_def)
  note b = pfx_bits_nonneg [OF g(1)]
  show "cs_index_bits s + cs_block_bits s = pfx_host_bits (cs_clusterPrefix s)"
    using b g(3,4) by (simp add: cs_index_bits_def cs_block_bits_def pfx_host_bits_def cs_width_def)
  show "pfx_host_bits (cs_clusterPrefix s) \<le> cs_width s" by (simp add: pfx_host_bits_def cs_width_def)
  show "nat (int (cs_width s) - cs_nodeMaskSize s) = cs_block_bits s" by (simp add: cs_block_bits_def)
  show "0 \<le> cs_nodeMaskSize s" using b g(3) by simp
  show "2 ^ pfx_host_bits (cs_clusterPrefix s) dvd addr_val (pfx_addr (cs_clusterPrefix s))"
    using g(2) by (simp add: pfx_is_masked_def mod_0_imp_dvd)
qed

lemma index_shift_bound:
  assumes "cs_geometry s" "i < cs_maxCIDRs s"
  shows "i * 2 ^ cs_block_bits s < 2 ^ pfx_host_bits (cs_clusterPrefix s)"
    "i * 2 ^ cs_block_bits s < 2 ^ cs_width s"
proof -
  have "i < 2 ^ cs_index_bits s" using assms by (simp add: cs_geometry_def)
  then have "i * 2 ^ cs_block_bits s < 2 ^ cs_index_bits s * 2 ^ cs_block_bits s" by simp
  then show h: "i * 2 ^ cs_block_bits s < 2 ^ pfx_host_bits (cs_clusterPrefix s)"
    using cs_geometry_bits(1) [OF assms(1)] by (simp add: power_add [symmetric])
  have "(2 :: nat) ^ pfx_host_bits (cs_clusterPrefix s) \<le> 2 ^ cs_width s"
    using cs_geometry_bits(2) [OF assms(1)] by simp
  with h show "i * 2 ^ cs_block_bits s < 2 ^ cs_width s" by linarith
qed

lemma cs_index_block6:
  assumes "cs_geometry s" "i < cs_maxCIDRs s" "pfx_addr (cs_clusterPrefix s) = V6 c z"
  shows "(case index_block6 (hi64 c, lo64 c) (pfx_bits (cs_clusterPrefix s)) (cs_nodeMaskSize s) i of
      (l, r) \<Rightarrow> from_hi_lo l r) = c OR push_bit (cs_block_bits s) (word_of_nat i)"
proof -
  have w: "cs_width s = 128" using assms(3) by (simp add: cs_width_def)
  have g: "cs_nodeMaskSize s \<le> 128" "cs_index_bits s \<le> 16" "i < 2 ^ cs_index_bits s"
    "pfx_bits (cs_clusterPrefix s) \<le> cs_nodeMaskSize s"
    using assms w by (simp_all add: cs_geometry_def)
  have b: "nat (128 - cs_nodeMaskSize s) = cs_block_bits s" using cs_geometry_bits(3) [OF assms(1)] w by simp
  show ?thesis
  proof (cases "cs_nodeMaskSize s \<le> 64")
    case True
    from index_block6_left [OF True cs_geometry_bits(4) [OF assms(1)]] show ?thesis unfolding b .
  next
    case False
    have "i < 2 ^ nat (cs_nodeMaskSize s - 64)" if "\<not> pfx_bits (cs_clusterPrefix s) < 64"
    proof -
      have "cs_index_bits s \<le> nat (cs_nodeMaskSize s - 64)" using that g(4) by (simp add: cs_index_bits_def)
      then have "(2 :: nat) ^ cs_index_bits s \<le> 2 ^ nat (cs_nodeMaskSize s - 64)" by simp
      with g(3) show ?thesis by linarith
    qed
    moreover have "(2 :: nat) ^ cs_index_bits s \<le> 2 ^ 64" using g(2) by (intro power_increasing) auto
    then have "i < 2 ^ 64" using g(3) by linarith
    ultimately show ?thesis
      using index_block6_right [of "cs_nodeMaskSize s" "pfx_bits (cs_clusterPrefix s)" i c] False g(1) unfolding b by (simp add: not_le) blast
  qed
qed

text \<open>The address of a block, uniformly for both families.\<close>

lemma indexToCIDRBlock_eq:
  assumes "cs_geometry s" "i < cs_maxCIDRs s"
  shows "\<exists>a. indexToCIDRBlock s i = prefix_from a (cs_nodeMaskSize s) \<and>
    same_family (pfx_addr (cs_clusterPrefix s)) a \<and> \<not> addr_has_zone a \<and>
    addr_val a = addr_val (pfx_addr (cs_clusterPrefix s)) + i * 2 ^ cs_block_bits s"
proof -
  note b = cs_geometry_bits [OF assms(1)] and y = index_shift_bound [OF assms]
  show ?thesis
  proof (cases "pfx_addr (cs_clusterPrefix s)")
    case AddrInvalid
    with assms show ?thesis by (simp add: cs_geometry_def pfx_wf_def)
  next
    case (V4 c)
    have w: "cs_width s = 32" using V4 by (simp add: cs_width_def)
    have p: "unat (push_bit (cs_block_bits s) (word_of_nat i :: u32)) = i * 2 ^ cs_block_bits s"
      using y(2) w by (intro unat_push_bit_small) simp
    have "unat (c OR push_bit (cs_block_bits s) (word_of_nat i)) = unat c + i * 2 ^ cs_block_bits s"
      using unat_or_low [of "pfx_host_bits (cs_clusterPrefix s)" c "push_bit (cs_block_bits s) (word_of_nat i)"] b(5) y(1) p V4
      by simp
    with V4 b(3) w show ?thesis
      by (intro exI [of _ "V4 (c OR push_bit (cs_block_bits s) (word_of_nat i))"]) (simp add: indexToCIDRBlock_def)
  next
    case (V6 c z)
    have w: "cs_width s = 128" using V6 by (simp add: cs_width_def)
    have p: "unat (push_bit (cs_block_bits s) (word_of_nat i :: u128)) = i * 2 ^ cs_block_bits s"
      using y(2) w by (intro unat_push_bit_small) simp
    have u: "unat (c OR push_bit (cs_block_bits s) (word_of_nat i)) = unat c + i * 2 ^ cs_block_bits s"
      using unat_or_low [of "pfx_host_bits (cs_clusterPrefix s)" c "push_bit (cs_block_bits s) (word_of_nat i)"] b(5) y(1) p V6
      by simp
    have six: "(case index_block6 (hi64 c, lo64 c) (pfx_bits (cs_clusterPrefix s)) (cs_nodeMaskSize s) i of
        (l, r) \<Rightarrow> from_hi_lo l r) = c OR push_bit (cs_block_bits s) (word_of_nat i)"
      by (rule cs_index_block6 [OF assms V6])
    show ?thesis using V6 u six
      by (intro exI [of _ "V6 (c OR push_bit (cs_block_bits s) (word_of_nat i)) []"])
        (auto simp: indexToCIDRBlock_def case_prod_unfold Let_def)
  qed
qed


lemma cs_block:
  assumes "cs_geometry s" "i < cs_maxCIDRs s"
  defines "p \<equiv> indexToCIDRBlock s i"
  shows "pfx_wf p" "pfx_is_masked p" "pfx_bits p = cs_nodeMaskSize s" "pfx_host_bits p = cs_block_bits s"
    "same_family (pfx_addr (cs_clusterPrefix s)) (pfx_addr p)" "\<not> addr_has_zone (pfx_addr p)"
    "addr_val (pfx_addr p) = addr_val (pfx_addr (cs_clusterPrefix s)) + i * 2 ^ cs_block_bits s"
proof -
  from indexToCIDRBlock_eq [OF assms(1,2)] obtain a where a: "p = prefix_from a (cs_nodeMaskSize s)"
    "same_family (pfx_addr (cs_clusterPrefix s)) a" "\<not> addr_has_zone a"
    "addr_val a = addr_val (pfx_addr (cs_clusterPrefix s)) + i * 2 ^ cs_block_bits s" unfolding p_def by blast
  note g = cs_geometry_bits [OF assms(1)]
  have w: "addr_bitlen a = cs_width s" "addr_is_valid a" "addr_without_zone a = a"
    using a(2,3) by (cases a; cases "pfx_addr (cs_clusterPrefix s)"; simp add: cs_width_def)+
  have nm: "cs_nodeMaskSize s \<le> int (cs_width s)" using assms(1) by (simp add: cs_geometry_def)
  have addr: "pfx_addr p = a" using a(1) w by (simp add: prefix_from_def)
  show bits: "pfx_bits p = cs_nodeMaskSize s" using a(1) w nm g(4) by (simp add: prefix_from_def pfx_bits_def)
  show "pfx_wf p" using a w nm g(4) bits addr by (simp add: pfx_wf_def pfx_valid_def prefix_from_def)
  show "same_family (pfx_addr (cs_clusterPrefix s)) (pfx_addr p)" "\<not> addr_has_zone (pfx_addr p)"
    and v: "addr_val (pfx_addr p) = addr_val (pfx_addr (cs_clusterPrefix s)) + i * 2 ^ cs_block_bits s"
    using a addr by simp_all
  show hb: "pfx_host_bits p = cs_block_bits s"
    using bits addr w nm g(4) by (simp add: pfx_host_bits_def cs_block_bits_def nat_diff_distrib)
  have "(2 :: nat) ^ cs_block_bits s dvd 2 ^ pfx_host_bits (cs_clusterPrefix s)"
    using g(1) by (intro le_imp_power_dvd) simp
  with g(5) have "2 ^ cs_block_bits s dvd addr_val (pfx_addr p)" unfolding v by (auto intro: dvd_trans)
  then show "pfx_is_masked p" by (simp add: pfx_is_masked_def hb)
qed

text \<open>Which addresses a block holds.\<close>

definition cs_index :: "cidr_set \<Rightarrow> addr \<Rightarrow> nat" where
  "cs_index s a = (addr_val a - addr_val (pfx_addr (cs_clusterPrefix s))) div 2 ^ cs_block_bits s"

lemma cs_cluster_contains:
  assumes "cs_geometry s"
  shows "pfx_contains (cs_clusterPrefix s) a \<longleftrightarrow> same_family (pfx_addr (cs_clusterPrefix s)) a \<and> \<not> addr_has_zone a \<and>
    addr_val (pfx_addr (cs_clusterPrefix s)) \<le> addr_val a \<and>
    addr_val a < addr_val (pfx_addr (cs_clusterPrefix s)) + 2 ^ pfx_host_bits (cs_clusterPrefix s)"
  using assms by (intro pfx_contains_iff) (simp_all add: cs_geometry_def)

lemma cs_index_less:
  assumes "cs_geometry s" "pfx_contains (cs_clusterPrefix s) a" shows "cs_index s a < cs_maxCIDRs s"
proof -
  have "addr_val a - addr_val (pfx_addr (cs_clusterPrefix s)) < 2 ^ (cs_index_bits s + cs_block_bits s)"
    using assms(2) cs_cluster_contains [OF assms(1)] cs_geometry_bits(1) [OF assms(1)] by auto
  then have "cs_index s a < 2 ^ cs_index_bits s"
    by (simp add: cs_index_def power_add less_mult_imp_div_less)
  then show ?thesis using assms(1) by (simp add: cs_geometry_def)
qed

lemma cs_block_contains:
  assumes "cs_geometry s" "i < cs_maxCIDRs s"
  shows "pfx_contains (indexToCIDRBlock s i) a \<longleftrightarrow> pfx_contains (cs_clusterPrefix s) a \<and> cs_index s a = i"
proof -
  let ?c = "addr_val (pfx_addr (cs_clusterPrefix s))" and ?b = "2 ^ cs_block_bits s :: nat"
  note b = cs_block [OF assms]
  have fam: "same_family (pfx_addr (indexToCIDRBlock s i)) a \<longleftrightarrow> same_family (pfx_addr (cs_clusterPrefix s)) a"
    using b(5) by (cases a; cases "pfx_addr (cs_clusterPrefix s)"; cases "pfx_addr (indexToCIDRBlock s i)") auto
  have up: "?c + i * ?b + ?b \<le> ?c + 2 ^ pfx_host_bits (cs_clusterPrefix s)"
  proof -
    have "(i + 1) * ?b \<le> 2 ^ cs_index_bits s * ?b" using assms by (intro mult_right_mono) (auto simp: cs_geometry_def)
    then show ?thesis using cs_geometry_bits(1) [OF assms(1)] by (simp add: power_add [symmetric] add.commute)
  qed
  have "?c + i * ?b \<le> addr_val a \<and> addr_val a < ?c + i * ?b + ?b \<longleftrightarrow>
      ?c \<le> addr_val a \<and> addr_val a < ?c + 2 ^ pfx_host_bits (cs_clusterPrefix s) \<and> cs_index s a = i"
  proof (cases "?c \<le> addr_val a")
    case True
    then obtain off where off: "addr_val a = ?c + off" using le_Suc_ex by blast
    have "i * ?b \<le> off \<and> off < i * ?b + ?b \<longleftrightarrow> off div ?b = i"
      by (metis add.commute dividend_less_times_div div_nat_eqI div_times_less_eq_dividend mult.commute mult_Suc_right zero_less_numeral zero_less_power)
    with up off show ?thesis by (auto simp: cs_index_def)
  qed auto
  then show ?thesis
    using pfx_contains_iff [OF b(1,2), of a] cs_cluster_contains [OF assms(1), of a] fam b(4,7) by auto
qed

section \<open>Indices of addresses and prefixes\<close>

lemma unat_of_nat_small: "i < 2 ^ LENGTH('a::len) \<Longrightarrow> unat (word_of_nat i :: 'a word) = i"
  by (simp add: unsigned_of_nat take_bit_nat_eq_self)

lemma getIndexForAddr_eq:
  assumes "cs_geometry s" "pfx_contains (cs_clusterPrefix s) a"
  shows "getIndexForAddr s a = Inr (cs_index s a)"
proof -
  let ?C = "pfx_addr (cs_clusterPrefix s)" and ?b = "cs_block_bits s"
  note b = cs_geometry_bits [OF assms(1)] and lt = cs_index_less [OF assms]
  have c: "same_family ?C a" "addr_val ?C \<le> addr_val a"
    "addr_val a - addr_val ?C < 2 ^ pfx_host_bits (cs_clusterPrefix s)"
    using assms(2) cs_cluster_contains [OF assms(1), of a] by auto
  have x: "addr_val ?C XOR addr_val a = addr_val a - addr_val ?C"
    using nat_xor_low [OF b(5) c(3)] c(2) by simp
  have m: "cs_maxCIDRs s = 2 ^ cs_index_bits s" "cs_index_bits s < 32" using assms(1) by (simp_all add: cs_geometry_def)
  have pw: "(2 :: nat) ^ cs_index_bits s < 2 ^ 32" "(2 :: nat) ^ cs_index_bits s < 2 ^ 64"
    using m(2) power_strict_increasing [of "cs_index_bits s" 32 "2 :: nat"]
      power_strict_increasing [of "cs_index_bits s" 64 "2 :: nat"] by simp_all
  show ?thesis
  proof (cases a)
    case (V4 y)
    then obtain x4 where C: "?C = V4 x4" using c(1) by (cases ?C) auto
    have nb: "nat (32 - cs_nodeMaskSize s) = ?b" using b(3) C by (simp add: cs_width_def)
    have "unat (drop_bit ?b (x4 XOR y)) = cs_index s a"
      unfolding unat_drop_bit_eq unsigned_xor_eq using x C V4 by (simp add: cs_index_def drop_bit_eq_div del: drop_bit_xor)
    moreover have "unat (word_of_nat (cs_maxCIDRs s) :: u32) = cs_maxCIDRs s"
      by (rule unat_of_nat_small) (use pw(1) m(1) in simp)
    ultimately show ?thesis using lt V4 C nb by (simp add: getIndexForAddr_def Let_def word_le_nat_alt del: drop_bit_xor)
  next
    case (V6 y z)
    then obtain x6 z6 where C: "?C = V6 x6 z6" using c(1) by (cases ?C) auto
    have nb: "nat (128 - cs_nodeMaskSize s) = ?b" using b(3) C by (simp add: cs_width_def)
    have d: "drop_bit ?b (unat x6 XOR unat y) = cs_index s a"
      using x C V6 by (simp add: cs_index_def drop_bit_eq_div del: drop_bit_xor)
    have "unat (word_of_nat (cs_index s a) :: u64) = cs_index s a" "unat (word_of_nat (cs_maxCIDRs s) :: u64) = cs_maxCIDRs s"
      by (rule unat_of_nat_small, use pw(2) m(1) lt in simp)+
    then show ?thesis using lt V6 C nb d by (simp add: getIndexForAddr_def Let_def word_le_nat_alt del: drop_bit_xor)
  qed (use c(1) in simp)
qed

lemma masked_addr:
  assumes "addr_is_valid a" "\<not> addr_has_zone a" "0 \<le> nm" "nm \<le> int (addr_bitlen a)"
  defines "m \<equiv> pfx_addr (pfx_masked (prefix_from a nm))"
  shows "same_family a m" "\<not> addr_has_zone m"
    "addr_val m = addr_val a - addr_val a mod 2 ^ nat (int (addr_bitlen a) - nm)"
proof -
  have v: "pfx_valid (prefix_from a nm)" "pfx_bits (prefix_from a nm) = nm" "pfx_addr (prefix_from a nm) = addr_without_zone a"
    using assms(1-4) by (simp_all add: pfx_valid_def prefix_from_def pfx_bits_def)
  show "same_family a m" "\<not> addr_has_zone m"
    using assms(1,2) v by (cases a; simp add: m_def pfx_masked_def prefix_from_def)+
  have e: "32 - nat nm = nat (32 - nm)" "128 - nat nm = nat (128 - nm)" using assms(3) by auto
  show "addr_val m = addr_val a - addr_val a mod 2 ^ nat (int (addr_bitlen a) - nm)"
    using assms(1,2) v by (cases a) (simp_all add: m_def pfx_masked_def prefix_from_def unat_and_not_mask e minus_mod_eq_div_mult)
qed

text \<open>Aligning an address to its block does not leave the block.\<close>

lemma cs_index_masked:
  assumes "cs_geometry s" "pfx_contains (cs_clusterPrefix s) a"
  defines "m \<equiv> pfx_addr (pfx_masked (prefix_from a (cs_nodeMaskSize s)))"
  shows "pfx_contains (cs_clusterPrefix s) m \<and> cs_index s m = cs_index s a"
proof -
  let ?C = "pfx_addr (cs_clusterPrefix s)" and ?b = "2 ^ cs_block_bits s :: nat"
  note c = assms(2) [unfolded cs_cluster_contains [OF assms(1)]] and b = cs_geometry_bits [OF assms(1)]
  have w: "addr_bitlen a = cs_width s" "addr_is_valid a"
    using c by (cases a; cases ?C; simp add: cs_width_def)+
  have nm: "cs_nodeMaskSize s \<le> int (addr_bitlen a)" using assms(1) w by (simp add: cs_geometry_def)
  note m = masked_addr [OF w(2) _ b(4) nm, folded m_def]
  have d: "?b dvd addr_val ?C"
    using b(5) dvd_trans [OF le_imp_power_dvd [of "cs_block_bits s" "pfx_host_bits (cs_clusterPrefix s)" 2]] b(1) by simp
  obtain off where off: "addr_val a = addr_val ?C + off" using c le_Suc_ex by blast
  have md: "addr_val a mod ?b = off mod ?b" using d off by (auto elim: dvdE simp: mod_add_left_eq)
  have v: "addr_val m = addr_val ?C + (off - off mod ?b)"
    using m(3) c md off w b(3) by simp
  have f: "same_family ?C m" using m(1) c by (cases a; cases ?C; cases m) auto
  have "(off - off mod ?b) div ?b = off div ?b" by (simp add: minus_mod_eq_div_mult)
  then have "cs_index s m = cs_index s a" using v off by (simp add: cs_index_def)
  moreover have "pfx_contains (cs_clusterPrefix s) m"
    unfolding cs_cluster_contains [OF assms(1)]
    using f m(2) c v off mod_less_eq_dividend [of off ?b] by linarith
  ultimately show ?thesis by blast
qed

lemma unat_mask:
  assumes "h \<le> LENGTH('a::len)" shows "unat (mask h :: 'a word) = 2 ^ h - 1"
proof -
  have "unat (mask h :: 'a word) = unat (take_bit h (-1 :: 'a word))" by (simp add: take_bit_minus_one_eq_mask)
  also have "\<dots> = take_bit h (mask LENGTH('a))" by (simp only: unsigned_take_bit_eq unsigned_minus_1_eq_mask)
  also have "\<dots> = mask h" using assms by (simp add: bit_eq_iff bit_take_bit_iff bit_mask_iff)
  also have "\<dots> = 2 ^ h - 1" by (simp add: mask_eq_exp_minus_1)
  finally show ?thesis .
qed

lemma PrefixLastIP_eq:
  assumes "pfx_wf p" "pfx_is_masked p"
  shows "pfx_contains p (PrefixLastIP p)" "addr_val (PrefixLastIP p) = addr_val (pfx_addr p) + (2 ^ pfx_host_bits p - 1)"
proof -
  have v: "pfx_valid p" "addr_is_valid (pfx_addr p)" using assms(1) by (simp_all add: pfx_wf_def)
  have d: "2 ^ pfx_host_bits p dvd addr_val (pfx_addr p)" using assms(2) by (simp add: pfx_is_masked_def mod_0_imp_dvd)
  have e: "nat (32 - pfx_bits p) = 32 - nat (pfx_bits p)" "nat (128 - pfx_bits p) = 128 - nat (pfx_bits p)"
    using pfx_bits_nonneg [OF assms(1)] by auto
  have "addr_val (PrefixLastIP p) = addr_val (pfx_addr p) + (2 ^ pfx_host_bits p - 1) \<and>
      same_family (pfx_addr p) (PrefixLastIP p) \<and> \<not> addr_has_zone (PrefixLastIP p)"
  proof (cases "pfx_addr p")
    case (V4 a)
    have h: "pfx_host_bits p = 32 - nat (pfx_bits p)" "pfx_host_bits p \<le> 32" using V4 by (simp_all add: pfx_host_bits_def)
    have "unat (a OR mask (pfx_host_bits p)) = unat a + (2 ^ pfx_host_bits p - 1)"
      using unat_or_low [of "pfx_host_bits p" a "mask (pfx_host_bits p)"] d V4 unat_mask [where 'a = 32, of "pfx_host_bits p"] h(2) by simp
    with V4 v h show ?thesis by (simp add: PrefixLastIP_def e)
  next
    case (V6 a z)
    have h: "pfx_host_bits p = 128 - nat (pfx_bits p)" "pfx_host_bits p \<le> 128" using V6 by (simp_all add: pfx_host_bits_def)
    have "unat (a OR mask (pfx_host_bits p)) = unat a + (2 ^ pfx_host_bits p - 1)"
      using unat_or_low [of "pfx_host_bits p" a "mask (pfx_host_bits p)"] d V6 unat_mask [where 'a = 128, of "pfx_host_bits p"] h(2) by simp
    with V6 v h show ?thesis by (simp add: PrefixLastIP_def e)
  qed (use v in simp)
  then show "pfx_contains p (PrefixLastIP p)" "addr_val (PrefixLastIP p) = addr_val (pfx_addr p) + (2 ^ pfx_host_bits p - 1)"
    unfolding pfx_contains_iff [OF assms] using zero_less_power [of "2 :: nat" "pfx_host_bits p"] by linarith+
qed

text \<open>Masked prefixes nest.\<close>

lemma dvd_gap:
  fixes x y :: nat assumes "m dvd x" "m dvd y" "x < y" shows "x + m \<le> y"
proof -
  have "m dvd y - x" using assms by (simp add: dvd_diff_nat)
  then have "m \<le> y - x" using assms(3) by (intro dvd_imp_le) auto
  then show ?thesis using assms(3) by linarith
qed

lemma masked_dvd:
  assumes "pfx_is_masked p" "h \<le> pfx_host_bits p" shows "2 ^ h dvd addr_val (pfx_addr p)"
proof -
  have "2 ^ pfx_host_bits p dvd addr_val (pfx_addr p)" using assms(1) by (simp add: pfx_is_masked_def mod_0_imp_dvd)
  then show ?thesis by (rule dvd_trans [OF le_imp_power_dvd [OF assms(2)]])
qed

lemma pfx_nested:
  assumes "pfx_wf p" "pfx_is_masked p" "pfx_wf q" "pfx_is_masked q" "pfx_host_bits p \<le> pfx_host_bits q"
    and "pfx_contains q (pfx_addr p) \<or> pfx_contains p (pfx_addr q)"
  shows "pfx_contains q (pfx_addr p)" "pfx_contains p a \<Longrightarrow> pfx_contains q a"
proof -
  note ip = pfx_contains_iff [OF assms(1,2)] and iq = pfx_contains_iff [OF assms(3,4)]
  let ?m = "2 ^ pfx_host_bits p :: nat"
  have d: "?m dvd addr_val (pfx_addr p)" "?m dvd addr_val (pfx_addr q)" "?m dvd 2 ^ pfx_host_bits q"
    using masked_dvd [OF assms(2) order_refl] masked_dvd [OF assms(4,5)] assms(5) by (simp_all add: le_imp_power_dvd)
  have z: "\<not> addr_has_zone (pfx_addr p)" "\<not> addr_has_zone (pfx_addr q)" using assms(1,3) by (simp_all add: pfx_wf_def)
  have fam: "same_family (pfx_addr q) (pfx_addr p)"
    using assms(6) by (auto simp: ip iq intro: same_family_sym)
  have "addr_val (pfx_addr q) \<le> addr_val (pfx_addr p) \<and> addr_val (pfx_addr p) < addr_val (pfx_addr q) + 2 ^ pfx_host_bits q"
    using assms(6)
  proof
    assume "pfx_contains p (pfx_addr q)"
    then have le: "addr_val (pfx_addr p) \<le> addr_val (pfx_addr q)" "addr_val (pfx_addr q) < addr_val (pfx_addr p) + ?m"
      by (simp_all add: ip)
    have "addr_val (pfx_addr p) = addr_val (pfx_addr q)"
      using dvd_gap [OF d(1,2)] le by linarith
    then show ?thesis by simp
  qed (simp add: iq)
  then have v: "addr_val (pfx_addr q) \<le> addr_val (pfx_addr p)" "addr_val (pfx_addr p) + ?m \<le> addr_val (pfx_addr q) + 2 ^ pfx_host_bits q"
    using dvd_gap [OF d(1) dvd_add [OF d(2,3)]] by auto
  have "addr_val (pfx_addr p) < addr_val (pfx_addr q) + 2 ^ pfx_host_bits q" using v(2) zero_less_power [of "2 :: nat" "pfx_host_bits p"] by linarith
  then show "pfx_contains q (pfx_addr p)" using fam z v(1) by (simp add: iq)
  assume "pfx_contains p a"
  then have a: "same_family (pfx_addr p) a" "\<not> addr_has_zone a" "addr_val (pfx_addr p) \<le> addr_val a" "addr_val a < addr_val (pfx_addr p) + ?m"
    by (simp_all add: ip)
  from a(3,4) v have "addr_val (pfx_addr q) \<le> addr_val a \<and> addr_val a < addr_val (pfx_addr q) + 2 ^ pfx_host_bits q" by linarith
  then show "pfx_contains q a" using same_family_trans [OF fam a(1)] a(2) by (simp add: iq)
qed

text \<open>The blocks that a prefix touches.\<close>

definition cs_blocks :: "cidr_set \<Rightarrow> prefix \<Rightarrow> nat set" where
  "cs_blocks s p = {i. i < cs_maxCIDRs s \<and> (\<exists>a. pfx_contains p a \<and> pfx_contains (indexToCIDRBlock s i) a)}"

lemma cs_blocks_eq: "cs_geometry s \<Longrightarrow> cs_blocks s p = cs_index s ` {a. pfx_contains p a \<and> pfx_contains (cs_clusterPrefix s) a}"
  using cs_index_less [of s] by (auto simp: cs_blocks_def cs_block_contains)

lemma pfx_contains_self: "pfx_wf p \<Longrightarrow> pfx_is_masked p \<Longrightarrow> pfx_contains p (pfx_addr p)"
  using pfx_contains_iff [of p "pfx_addr p"] by (cases "pfx_addr p") (auto simp: pfx_wf_def)

text \<open>A prefix inside the cluster CIDR touches the blocks from that of its first to that of its last address.\<close>

lemma cs_blocks_interval:
  assumes "cs_geometry s" "pfx_wf p" "pfx_is_masked p" "\<And>a. pfx_contains p a \<Longrightarrow> pfx_contains (cs_clusterPrefix s) a"
  shows "cs_blocks s p = {cs_index s (pfx_addr p) .. cs_index s (PrefixLastIP p)}"
proof -
  let ?c = "addr_val (pfx_addr (cs_clusterPrefix s))" and ?b = "2 ^ cs_block_bits s :: nat"
  let ?f = "addr_val (pfx_addr p)" and ?l = "addr_val (PrefixLastIP p)"
  note ip = pfx_contains_iff [OF assms(2,3)] and last = PrefixLastIP_eq [OF assms(2,3)]
  have c: "?c \<le> addr_val a" if "pfx_contains p a" for a
    using assms(4) [OF that] cs_cluster_contains [OF assms(1)] by simp
  have "?f \<le> addr_val a \<and> addr_val a \<le> ?l" if "pfx_contains p a" for a
    using that last(2) unfolding ip by linarith
  then have up: "cs_index s (pfx_addr p) \<le> cs_index s a \<and> cs_index s a \<le> cs_index s (PrefixLastIP p)"
    if "pfx_contains p a" for a
    using that by (simp add: cs_index_def div_le_mono diff_le_mono)
  have down: "\<exists>a. pfx_contains p a \<and> cs_index s a = i"
    if i: "cs_index s (pfx_addr p) < i" "i \<le> cs_index s (PrefixLastIP p)" for i
  proof -
    have m: "i < cs_maxCIDRs s" using i(2) cs_index_less [OF assms(1) assms(4) [OF last(1)]] by linarith
    let ?a = "pfx_addr (indexToCIDRBlock s i)"
    note b = cs_block [OF assms(1) m]
    have "?f - ?c < i * ?b" using i(1) by (simp add: cs_index_def div_less_iff_less_mult)
    moreover have "i * ?b \<le> ?l - ?c" using i(2) by (simp add: cs_index_def less_eq_div_iff_mult_less_eq)
    ultimately have "?f \<le> addr_val ?a" "addr_val ?a \<le> ?l" using b(7) c [OF last(1)] c [OF pfx_contains_self [OF assms(2,3)]] by linarith+
    moreover have "same_family (pfx_addr p) ?a"
      using b(5) assms(4) [OF pfx_contains_self [OF assms(2,3)]] cs_cluster_contains [OF assms(1)]
      by (meson same_family_sym same_family_trans)
    ultimately have "pfx_contains p ?a"
      unfolding ip using b(6) last(2) zero_less_power [of "2 :: nat" "pfx_host_bits p"] by linarith
    moreover have "cs_index s ?a = i" using b(7) by (simp add: cs_index_def)
    ultimately show ?thesis by blast
  qed
  have eq: "cs_blocks s p = cs_index s ` {a. pfx_contains p a}"
    unfolding cs_blocks_eq [OF assms(1)] using assms(4) by blast
  show ?thesis
  proof
    show "cs_blocks s p \<subseteq> {cs_index s (pfx_addr p) .. cs_index s (PrefixLastIP p)}" unfolding eq using up by auto
    show "{cs_index s (pfx_addr p) .. cs_index s (PrefixLastIP p)} \<subseteq> cs_blocks s p"
    proof
      fix i assume i: "i \<in> {cs_index s (pfx_addr p) .. cs_index s (PrefixLastIP p)}"
      then have "\<exists>a. pfx_contains p a \<and> cs_index s a = i"
        using down [of i] pfx_contains_self [OF assms(2,3)] by (cases "i = cs_index s (pfx_addr p)") auto
      then show "i \<in> cs_blocks s p" unfolding eq by blast
    qed
  qed
qed

lemma host_bits_le:
  assumes "same_family (pfx_addr p) (pfx_addr q)" "pfx_wf p" "pfx_wf q"
  shows "pfx_host_bits p \<le> pfx_host_bits q \<longleftrightarrow> pfx_bits q \<le> pfx_bits p"
proof -
  have "addr_bitlen (pfx_addr p) = addr_bitlen (pfx_addr q)" by (rule same_family_bitlen [OF assms(1)])
  then show ?thesis using assms(2,3) pfx_bits_nonneg [OF assms(2)] pfx_bits_nonneg [OF assms(3)]
    by (auto simp: pfx_host_bits_def pfx_wf_def)
qed

lemma getIndices_eq:
  assumes "cs_geometry s" "pfx_wf p" "pfx_is_masked p"
  shows "case getBeginningAndEndIndices s p of
      Inl e \<Rightarrow> \<not> cs_InRange s p \<and> e = OutOfClusterCIDR p
    | Inr (b, e) \<Rightarrow> cs_InRange s p \<and> set [b..e] = int ` cs_blocks s p"
proof (cases "cs_InRange s p")
  case True
  let ?C = "cs_clusterPrefix s"
  have g: "pfx_wf ?C" "pfx_is_masked ?C" using assms(1) by (simp_all add: cs_geometry_def)
  have fam: "same_family (pfx_addr p) (pfx_addr ?C)"
    using True by (auto simp: cs_InRange_def dest: pfx_contains_same_family intro: same_family_sym)
  have ov: "pfx_contains ?C (pfx_addr p) \<or> pfx_contains p (pfx_addr ?C)" using True by (simp add: cs_InRange_def)
  show ?thesis
  proof (cases "pfx_bits ?C < pfx_bits p")
    case small: True
    then have "pfx_host_bits p \<le> pfx_host_bits ?C" using host_bits_le [OF fam assms(2) g(1)] by simp
    note n = pfx_nested [OF assms(2,3) g this ov]
    have f: "getIndexForAddr s (pfx_addr (pfx_masked (prefix_from a (cs_nodeMaskSize s)))) = Inr (cs_index s a)"
      if "pfx_contains p a" for a
      using cs_index_masked [OF assms(1) n(2) [OF that]] getIndexForAddr_eq [OF assms(1)] by simp
    have "getBeginningAndEndIndices s p = Inr (int (cs_index s (pfx_addr p)), int (cs_index s (PrefixLastIP p)))"
      using True small f [OF pfx_contains_self [OF assms(2,3)]] f [OF PrefixLastIP_eq(1) [OF assms(2,3)]]
      by (simp add: getBeginningAndEndIndices_def)
    with True show ?thesis
      using cs_blocks_interval [OF assms n(2)] by (simp add: image_int_atLeastAtMost)
  next
    case False
    then have "pfx_host_bits ?C \<le> pfx_host_bits p" using host_bits_le [OF same_family_sym [OF fam] g(1) assms(2)] by simp
    note n = pfx_nested(2) [OF g assms(2,3) this]
    have "i \<in> cs_blocks s p" if "i < cs_maxCIDRs s" for i
    proof -
      note c = pfx_contains_self [OF cs_block(1,2) [OF assms(1) that]]
      then have "pfx_contains p (pfx_addr (indexToCIDRBlock s i))"
        using n ov cs_block_contains [OF assms(1) that] by blast
      with c that show ?thesis by (auto simp: cs_blocks_def)
    qed
    then have "cs_blocks s p = {..<cs_maxCIDRs s}" by (auto simp: cs_blocks_def)
    moreover have "set [0..int (cs_maxCIDRs s) - 1] = int ` {..<cs_maxCIDRs s}"
      by (auto simp: lessThan_atLeast0 image_int_atLeastLessThan)
    ultimately show ?thesis using True False by (simp add: getBeginningAndEndIndices_def)
  qed
qed (simp add: getBeginningAndEndIndices_def)

section \<open>Marking ranges of blocks\<close>

definition cs_same :: "cidr_set \<Rightarrow> cidr_set \<Rightarrow> bool" where
  "cs_same s t \<longleftrightarrow> cs_clusterPrefix t = cs_clusterPrefix s \<and> cs_nodeMaskSize t = cs_nodeMaskSize s \<and>
     cs_maxCIDRs t = cs_maxCIDRs s \<and> cs_reserved t = cs_reserved s"

lemma cs_same_refl [simp]: "cs_same s s"
  by (simp add: cs_same_def)

lemma cs_same_trans: "cs_same s t \<Longrightarrow> cs_same t u \<Longrightarrow> cs_same s u"
  by (simp add: cs_same_def)

lemma indexToCIDRBlock_cong:
  "cs_clusterPrefix t = cs_clusterPrefix s \<Longrightarrow> cs_nodeMaskSize t = cs_nodeMaskSize s \<Longrightarrow>
   indexToCIDRBlock t i = indexToCIDRBlock s i"
  by (simp only: indexToCIDRBlock_def)

lemma cs_blocks_cong: "cs_same s t \<Longrightarrow> cs_blocks t p = cs_blocks s p"
  by (simp add: cs_same_def cs_blocks_def indexToCIDRBlock_cong [of t s])

lemma cs_invD:
  assumes "cs_inv s"
  shows "cs_geometry s" "cs_taken s \<subseteq> {..<cs_maxCIDRs s}" "cs_unavailableCIDRs s = int (card (cs_taken s))"
    "cs_nextCandidate s < cs_maxCIDRs s"
  using assms by (simp_all add: cs_inv_def)

lemma cs_inv_intro:
  assumes "cs_inv s" "cs_same s t" "cs_nextCandidate t = cs_nextCandidate s"
    "bits_of (cs_used t) \<subseteq> {..<cs_maxCIDRs s}" "cs_unavailableCIDRs t = int (card (cs_taken t))"
  shows "cs_inv t"
proof -
  have g: "cs_geometry t" using cs_invD(1) [OF assms(1)] assms(2) cs_geometry_cong [of t s] by (simp add: cs_same_def)
  have "bits_of (cs_reserved s) \<subseteq> {..<cs_maxCIDRs s}" using cs_invD(2) [OF assms(1)] by (simp add: cs_taken_def)
  with g assms cs_invD(4) [OF assms(1)] show ?thesis by (simp add: cs_inv_def cs_same_def cs_taken_def)
qed

lemma remove_union: "(A - {x}) \<union> B = (if x \<in> B then A \<union> B else (A \<union> B) - {x})"
  by auto

lemma cs_release_bit_spec:
  assumes "cs_inv s"
  shows "cs_inv (cs_release_bit i s) \<and> cs_same s (cs_release_bit i s) \<and>
    bits_of (cs_used (cs_release_bit i s)) = bits_of (cs_used s) - {nat i}"
proof (cases "bit (cs_used s) (nat i)")
  case True
  let ?t = "cs_release_bit i s"
  have u: "bits_of (cs_used ?t) = bits_of (cs_used s) - {nat i}" using True by (simp add: cs_release_bit_def)
  have same: "cs_same s ?t" "cs_nextCandidate ?t = cs_nextCandidate s"
    using True by (simp_all add: cs_release_bit_def cs_same_def)
  have tk: "cs_taken ?t = (if bit (cs_reserved s) (nat i) then cs_taken s else cs_taken s - {nat i})"
  proof -
    have "cs_taken ?t = (bits_of (cs_used s) - {nat i}) \<union> bits_of (cs_reserved s)"
      using u same(1) by (simp add: cs_taken_def cs_same_def)
    then show ?thesis
      using remove_union [of "bits_of (cs_used s)" "nat i" "bits_of (cs_reserved s)"]
      by (simp only: in_bits_of cs_taken_def [of s])
  qed
  have "nat i \<in> cs_taken s" using True by (simp add: in_cs_taken)
  then have "cs_unavailableCIDRs ?t = int (card (cs_taken ?t))"
    unfolding tk using True cs_invD(3) [OF assms] card_gt_0_iff [of "cs_taken s"]
    by (auto simp: cs_release_bit_def of_nat_diff Suc_leI)
  moreover have "bits_of (cs_used ?t) \<subseteq> {..<cs_maxCIDRs s}" using u cs_invD(2) [OF assms] by (auto simp: cs_taken_def)
  ultimately show ?thesis using cs_inv_intro [OF assms same] u same(1) by blast
next
  case False
  with assms show ?thesis by (auto simp: cs_release_bit_def)
qed

lemma cs_occupy_bit_spec:
  assumes "cs_inv s" "nat i < cs_maxCIDRs s"
  shows "cs_inv (cs_occupy_bit i s) \<and> cs_same s (cs_occupy_bit i s) \<and>
    bits_of (cs_used (cs_occupy_bit i s)) = insert (nat i) (bits_of (cs_used s))"
proof (cases "bit (cs_used s) (nat i)")
  case False
  let ?t = "cs_occupy_bit i s"
  have u: "bits_of (cs_used ?t) = insert (nat i) (bits_of (cs_used s))" using False by (simp add: cs_occupy_bit_def)
  have same: "cs_same s ?t" "cs_nextCandidate ?t = cs_nextCandidate s"
    using False by (simp_all add: cs_occupy_bit_def cs_same_def)
  have tk: "cs_taken ?t = insert (nat i) (cs_taken s)"
    using u same(1) by (simp add: cs_taken_def cs_same_def)
  have "cs_unavailableCIDRs ?t = int (card (cs_taken ?t))"
    unfolding tk using False cs_invD(3) [OF assms(1)] by (simp add: cs_occupy_bit_def card_insert_if in_cs_taken)
  moreover have "bits_of (cs_used ?t) \<subseteq> {..<cs_maxCIDRs s}"
    using u assms(2) cs_invD(2) [OF assms(1)] by (auto simp: cs_taken_def)
  ultimately show ?thesis using cs_inv_intro [OF assms(1) same] u same(1) by blast
next
  case True
  with assms show ?thesis by (auto simp: cs_occupy_bit_def)
qed

lemma fold_release_spec:
  "cs_inv s \<Longrightarrow> cs_inv (fold cs_release_bit js s) \<and> cs_same s (fold cs_release_bit js s) \<and>
   bits_of (cs_used (fold cs_release_bit js s)) = bits_of (cs_used s) - nat ` set js"
proof (induction js arbitrary: s)
  case (Cons j js)
  from cs_release_bit_spec [OF Cons.prems, of j] Cons.IH [of "cs_release_bit j s"]
  show ?case by (auto intro: cs_same_trans)
qed simp

lemma fold_occupy_spec:
  "cs_inv s \<Longrightarrow> nat ` set js \<subseteq> {..<cs_maxCIDRs s} \<Longrightarrow>
   cs_inv (fold cs_occupy_bit js s) \<and> cs_same s (fold cs_occupy_bit js s) \<and>
   bits_of (cs_used (fold cs_occupy_bit js s)) = bits_of (cs_used s) \<union> nat ` set js"
proof (induction js arbitrary: s)
  case (Cons j js)
  have "nat j < cs_maxCIDRs s" using Cons.prems(2) by simp
  note o = cs_occupy_bit_spec [OF Cons.prems(1) this]
  have "nat ` set js \<subseteq> {..<cs_maxCIDRs (cs_occupy_bit j s)}" using Cons.prems(2) o by (simp add: cs_same_def)
  from Cons.IH [OF _ this] o show ?case by (auto intro: cs_same_trans)
qed simp

lemma cs_range_ops:
  assumes "cs_inv s" "pfx_wf p" "pfx_is_masked p" "cs_InRange s p"
  obtains b e where "getBeginningAndEndIndices s p = Inr (b, e)" "nat ` set [b..e] = cs_blocks s p"
proof -
  obtain b e where r: "getBeginningAndEndIndices s p = Inr (b, e)" "set [b..e] = int ` cs_blocks s p"
    using getIndices_eq [OF cs_invD(1) [OF assms(1)] assms(2,3)] assms(4) by (auto split: sum.splits)
  have "nat ` set [b..e] = cs_blocks s p" unfolding r(2) by (simp add: image_image)
  with r(1) show ?thesis by (rule that)
qed

lemma cs_blocks_less: "cs_blocks s p \<subseteq> {..<cs_maxCIDRs s}"
  by (auto simp: cs_blocks_def)

lemma cs_Release_spec:
  assumes "cs_inv s" "pfx_wf p" "pfx_is_masked p" "cs_InRange s p"
  obtains t where "cs_Release s p = Inr t" "cs_inv t" "cs_same s t"
    "bits_of (cs_used t) = bits_of (cs_used s) - cs_blocks s p"
proof -
  obtain b e where r: "getBeginningAndEndIndices s p = Inr (b, e)" "nat ` set [b..e] = cs_blocks s p"
    by (rule cs_range_ops [OF assms])
  from fold_release_spec [OF assms(1), of "[b..e]"] r show ?thesis by (intro that) (auto simp: cs_Release_def)
qed

lemma cs_Occupy_spec:
  assumes "cs_inv s" "pfx_wf p" "pfx_is_masked p" "cs_InRange s p"
  obtains t where "cs_Occupy s p = Inr t" "cs_inv t" "cs_same s t"
    "bits_of (cs_used t) = bits_of (cs_used s) \<union> cs_blocks s p"
proof -
  obtain b e where r: "getBeginningAndEndIndices s p = Inr (b, e)" "nat ` set [b..e] = cs_blocks s p"
    by (rule cs_range_ops [OF assms])
  have "nat ` set [b..e] \<subseteq> {..<cs_maxCIDRs s}" unfolding r(2) by (rule cs_blocks_less)
  from fold_occupy_spec [OF assms(1) this] r show ?thesis by (intro that) (auto simp: cs_Occupy_def)
qed

lemma cs_IsAllocated_spec:
  assumes "cs_inv s" "pfx_wf p" "pfx_is_masked p" "cs_InRange s p"
  shows "cs_IsAllocated s p = Inr (cs_blocks s p \<subseteq> bits_of (cs_used s))"
proof -
  obtain b e where r: "getBeginningAndEndIndices s p = Inr (b, e)" "nat ` set [b..e] = cs_blocks s p"
    by (rule cs_range_ops [OF assms])
  have "list_all (\<lambda>i. bit (cs_used s) (nat i)) [b..e] \<longleftrightarrow> cs_blocks s p \<subseteq> bits_of (cs_used s)"
    unfolding r(2) [symmetric] by (auto simp: list_all_iff)
  with r(1) show ?thesis by (simp add: cs_IsAllocated_def)
qed

lemma cs_blocks_block:
  assumes "cs_geometry s" "i < cs_maxCIDRs s" shows "cs_blocks s (indexToCIDRBlock s i) = {i}"
proof -
  have "pfx_contains (indexToCIDRBlock s i) (pfx_addr (indexToCIDRBlock s i))"
    by (rule pfx_contains_self [OF cs_block(1,2) [OF assms]])
  with assms(2) show ?thesis using cs_block_contains [OF assms(1)] by (auto simp: cs_blocks_def)
qed

lemma cs_block_InRange:
  assumes "cs_geometry s" "i < cs_maxCIDRs s" shows "cs_InRange s (indexToCIDRBlock s i)"
  using cs_block_contains [OF assms] pfx_contains_self [OF cs_block(1,2) [OF assms]] by (simp add: cs_InRange_def)

section \<open>Histories of one CIDR set\<close>

lemma NewCIDRSet_inv:
  assumes "NewCIDRSet p m = Inr s" "pfx_wf p" "pfx_bits p \<le> m" "m - pfx_bits p < 32"
  shows "cs_inv s" "bits_of (cs_used s) = {}" "cs_reserved s = 0" "cs_clusterPrefix s = pfx_masked p" "cs_nodeMaskSize s = m"
proof -
  have b: "pfx_bits (pfx_masked p) = pfx_bits p" "addr_bitlen (pfx_addr (pfx_masked p)) = addr_bitlen (pfx_addr p)"
    "addr_is6 (pfx_addr (pfx_masked p)) = addr_is6 (pfx_addr p)"
    using assms(2) pfx_bits_nonneg [OF assms(2)]
    by (cases "pfx_addr p"; simp add: pfx_masked_def pfx_wf_def prefix_from_def pfx_bits_def)+
  have m: "m \<le> int (addr_bitlen (pfx_addr p))" "addr_is6 (pfx_addr p) \<Longrightarrow> m - pfx_bits p \<le> 16"
    using assms(1,2) unfolding NewCIDRSet_def Let_def b
    by (cases "pfx_addr p"; simp add: pfx_wf_def split: if_splits)+
  have s: "s = \<lparr>cs_clusterPrefix = pfx_masked p, cs_nodeMaskSize = m, cs_maxCIDRs = shift_one (m - pfx_bits p),
      cs_unavailableCIDRs = 0, cs_nextCandidate = 0, cs_used = 0, cs_reserved = 0\<rparr>"
    using assms(1) unfolding NewCIDRSet_def Let_def b by (simp split: if_splits)
  have i: "cs_index_bits s = nat (m - pfx_bits p)" "cs_width s = addr_bitlen (pfx_addr p)"
    using b by (simp_all add: s cs_index_bits_def cs_width_def)
  have "cs_geometry s"
    using m assms(2,3,4) b i pfx_masked_is_masked [OF assms(2)] pfx_masked_wf [OF assms(2)]
    by (simp add: cs_geometry_def s shift_one_def nat_less_iff nat_le_iff)
  then show "cs_inv s" using assms(3,4) by (simp add: cs_inv_def cs_taken_def s shift_one_def bits_of_def)
  show "bits_of (cs_used s) = {}" "cs_reserved s = 0" "cs_clusterPrefix s = pfx_masked p" "cs_nodeMaskSize s = m"
    by (simp_all add: s bits_of_def)
qed

lemma bits_of_fold_set_bit: "bits_of (fold set_bit js bm) = bits_of bm \<union> set js"
  by (induction js arbitrary: bm) auto

definition reserved_blocks :: "cidr_set \<Rightarrow> (addr \<times> addr) list \<Rightarrow> nat set" where
  "reserved_blocks s ranges = (\<Union>(a, b) \<in> set ranges. {cs_index s a .. cs_index s b})"

lemma reserve_ranges_eq:
  assumes "cs_geometry s" "list_all (\<lambda>(a, b). pfx_contains (cs_clusterPrefix s) a \<and> pfx_contains (cs_clusterPrefix s) b) ranges"
  shows "\<exists>bm'. reserve_ranges s ranges bm = Inr bm' \<and> bits_of bm' = bits_of bm \<union> reserved_blocks s ranges"
  using assms(2)
proof (induction ranges arbitrary: bm)
  case (Cons r rs)
  obtain a b where r: "r = (a, b)" by (cases r)
  have i: "getIndexForAddr s a = Inr (cs_index s a)" "getIndexForAddr s b = Inr (cs_index s b)"
    using Cons.prems r by (auto intro: getIndexForAddr_eq [OF assms(1)])
  obtain bm' where "reserve_ranges s rs (fold set_bit [cs_index s a ..< Suc (cs_index s b)] bm) = Inr bm'"
    "bits_of bm' = bits_of (fold set_bit [cs_index s a ..< Suc (cs_index s b)] bm) \<union> reserved_blocks s rs"
    using Cons.IH Cons.prems by fastforce
  then show ?case using i unfolding bits_of_fold_set_bit
    by (auto simp: r reserved_blocks_def simp del: upt_Suc)
qed (simp add: reserved_blocks_def)

lemma SetReservedRanges_spec:
  assumes "cs_inv s" "list_all (\<lambda>(a, b). pfx_contains (cs_clusterPrefix s) a \<and> pfx_contains (cs_clusterPrefix s) b) ranges"
  obtains t where "SetReservedRanges s ranges = Inr t" "cs_inv t" "cs_used t = cs_used s"
    "bits_of (cs_reserved t) = reserved_blocks s ranges" "cs_clusterPrefix t = cs_clusterPrefix s"
    "cs_nodeMaskSize t = cs_nodeMaskSize s" "cs_maxCIDRs t = cs_maxCIDRs s"
proof -
  note g = cs_invD [OF assms(1)]
  obtain bm where bm: "reserve_ranges s ranges 0 = Inr bm" "bits_of bm = bits_of 0 \<union> reserved_blocks s ranges"
    using reserve_ranges_eq [OF g(1) assms(2), of 0] by blast
  let ?t = "s\<lparr>cs_unavailableCIDRs := countUnavailableCIDRs (cs_used s) bm, cs_reserved := bm\<rparr>"
  have rb: "reserved_blocks s ranges \<subseteq> {..<cs_maxCIDRs s}"
    using cs_index_less [OF g(1)] assms(2) by (fastforce simp: reserved_blocks_def list_all_iff)
  have b: "bits_of bm = reserved_blocks s ranges" using bm(2) by (simp add: bits_of_def)
  have "cs_geometry ?t" using g(1) cs_geometry_cong [of ?t s] by simp
  then have "cs_inv ?t" using g(2,4) rb b by (simp add: cs_inv_def cs_taken_def countUnavailableCIDRs_eq)
  with bm(1) b show ?thesis by (intro that [of ?t]) (simp_all add: SetReservedRanges_def)
qed

datatype cs_op = CsAllocateNext | CsOccupy prefix | CsRelease prefix | CsSetReserved "(addr \<times> addr) list"

text \<open>An operation that fails leaves the set as it was.\<close>

fun cs_exec :: "cidr_set \<Rightarrow> cs_op \<Rightarrow> cidr_set" where
  "cs_exec s CsAllocateNext = (case cs_AllocateNext s of Inl _ \<Rightarrow> s | Inr (t, _) \<Rightarrow> t)"
| "cs_exec s (CsOccupy p) = (case cs_Occupy s p of Inl _ \<Rightarrow> s | Inr t \<Rightarrow> t)"
| "cs_exec s (CsRelease p) = (case cs_Release s p of Inl _ \<Rightarrow> s | Inr t \<Rightarrow> t)"
| "cs_exec s (CsSetReserved r) = (case SetReservedRanges s r of Inl _ \<Rightarrow> s | Inr t \<Rightarrow> t)"

text \<open>Arguments are masked prefixes, and reserved ranges lie inside the cluster CIDR.\<close>

fun cs_op_ok :: "prefix \<Rightarrow> cs_op \<Rightarrow> bool" where
  "cs_op_ok c CsAllocateNext = True"
| "cs_op_ok c (CsOccupy p) = (pfx_wf p \<and> pfx_is_masked p)"
| "cs_op_ok c (CsRelease p) = (pfx_wf p \<and> pfx_is_masked p)"
| "cs_op_ok c (CsSetReserved r) = list_all (\<lambda>(a, b). pfx_contains c a \<and> pfx_contains c b) r"

lemma out_of_range_ops:
  assumes "\<not> cs_InRange s p"
  shows "cs_Occupy s p = Inl (OutOfClusterCIDR p)" "cs_Release s p = Inl (OutOfClusterCIDR p)"
    "cs_IsAllocated s p = Inl (OutOfClusterCIDR p)"
  using assms by (simp_all add: cs_Occupy_def cs_Release_def cs_IsAllocated_def getBeginningAndEndIndices_def)

lemma cs_exec_inv:
  assumes "cs_inv s" "cs_op_ok (cs_clusterPrefix s) q"
  shows "cs_inv (cs_exec s q) \<and> cs_clusterPrefix (cs_exec s q) = cs_clusterPrefix s \<and>
    cs_nodeMaskSize (cs_exec s q) = cs_nodeMaskSize s"
proof (cases q)
  case CsAllocateNext
  then show ?thesis using cs_AllocateNext_cases [OF assms(1)] assms(1) by (auto split: if_splits)
next
  case (CsOccupy p)
  then have p: "pfx_wf p" "pfx_is_masked p" using assms(2) by simp_all
  show ?thesis
  proof (cases "cs_InRange s p")
    case True
    obtain t where "cs_Occupy s p = Inr t" "cs_inv t" "cs_same s t" by (rule cs_Occupy_spec [OF assms(1) p True])
    with CsOccupy show ?thesis by (simp add: cs_same_def)
  qed (use CsOccupy assms(1) in \<open>simp add: out_of_range_ops\<close>)
next
  case (CsRelease p)
  then have p: "pfx_wf p" "pfx_is_masked p" using assms(2) by simp_all
  show ?thesis
  proof (cases "cs_InRange s p")
    case True
    obtain t where "cs_Release s p = Inr t" "cs_inv t" "cs_same s t" by (rule cs_Release_spec [OF assms(1) p True])
    with CsRelease show ?thesis by (simp add: cs_same_def)
  qed (use CsRelease assms(1) in \<open>simp add: out_of_range_ops\<close>)
next
  case (CsSetReserved r)
  with assms(2) have "list_all (\<lambda>(a, b). pfx_contains (cs_clusterPrefix s) a \<and> pfx_contains (cs_clusterPrefix s) b) r" by simp
  with CsSetReserved show ?thesis by (elim SetReservedRanges_spec [OF assms(1)]) simp
qed

lemma cs_run_inv:
  assumes "cs_inv s" "list_all (cs_op_ok (cs_clusterPrefix s)) ops"
  shows "cs_inv (foldl cs_exec s ops) \<and> cs_clusterPrefix (foldl cs_exec s ops) = cs_clusterPrefix s \<and>
    cs_nodeMaskSize (foldl cs_exec s ops) = cs_nodeMaskSize s"
  using assms
proof (induction ops arbitrary: s)
  case (Cons q ops)
  have e: "cs_inv (cs_exec s q)" "cs_clusterPrefix (cs_exec s q) = cs_clusterPrefix s"
    "cs_nodeMaskSize (cs_exec s q) = cs_nodeMaskSize s"
    using cs_exec_inv [OF Cons.prems(1), of q] Cons.prems(2) by simp_all
  with Cons.IH [OF e(1)] Cons.prems(2) show ?case by simp
qed simp

section \<open>Properties\<close>

definition pfx_disjoint :: "prefix \<Rightarrow> prefix \<Rightarrow> bool" where
  "pfx_disjoint p q \<longleftrightarrow> (\<forall>a. \<not> (pfx_contains p a \<and> pfx_contains q a))"

text \<open>The argument checks of the operator's configuration: a usable cluster CIDR and node mask size.\<close>

definition good_cidr_config :: "prefix \<Rightarrow> int \<Rightarrow> bool" where
  "good_cidr_config p m \<longleftrightarrow> pfx_wf p \<and> pfx_bits p \<le> m \<and> m - pfx_bits p < 32"

definition cidr_reachable :: "prefix \<Rightarrow> int \<Rightarrow> cs_op list \<Rightarrow> cidr_set \<Rightarrow> bool" where
  "cidr_reachable p m ops s \<longleftrightarrow> good_cidr_config p m \<and> list_all (cs_op_ok (pfx_masked p)) ops \<and>
     (case NewCIDRSet p m of Inl _ \<Rightarrow> False | Inr s0 \<Rightarrow> s = foldl cs_exec s0 ops)"

lemma cidr_reachable_inv:
  assumes "cidr_reachable p m ops s"
  shows "cs_inv s" "cs_clusterPrefix s = pfx_masked p" "cs_nodeMaskSize s = m"
proof -
  obtain s0 where s0: "NewCIDRSet p m = Inr s0" "s = foldl cs_exec s0 ops"
    using assms by (auto simp: cidr_reachable_def split: sum.splits)
  have g: "pfx_wf p" "pfx_bits p \<le> m" "m - pfx_bits p < 32" "list_all (cs_op_ok (pfx_masked p)) ops"
    using assms by (simp_all add: cidr_reachable_def good_cidr_config_def)
  note n = NewCIDRSet_inv [OF s0(1) g(1-3)]
  show "cs_inv s" "cs_clusterPrefix s = pfx_masked p" "cs_nodeMaskSize s = m"
    using cs_run_inv [OF n(1), of ops] g(4) n(4,5) s0(2) by simp_all
qed

lemma blocks_disjoint:
  assumes "cs_geometry s" "i < cs_maxCIDRs s" "j < cs_maxCIDRs s" "i \<noteq> j"
  shows "pfx_disjoint (indexToCIDRBlock s i) (indexToCIDRBlock s j)"
  using cs_block_contains [OF assms(1,2)] cs_block_contains [OF assms(1,3)] assms(4) by (auto simp: pfx_disjoint_def)

text \<open>What an allocation that succeeds returns.\<close>

lemma cs_AllocateNext_Inr:
  assumes "cs_inv s" "cs_AllocateNext s = Inr (t, q)"
  obtains i where "i < cs_maxCIDRs s" "i \<notin> cs_taken s" "q = indexToCIDRBlock s i" "cs_inv t" "cs_same s t"
    "bits_of (cs_used t) = insert i (bits_of (cs_used s))"
proof -
  obtain i t' where i: "i < cs_maxCIDRs s" "i \<notin> cs_taken s" "cs_AllocateNext s = Inr (t', indexToCIDRBlock t' i)"
    "cs_inv t'" "cs_clusterPrefix t' = cs_clusterPrefix s" "cs_nodeMaskSize t' = cs_nodeMaskSize s"
    "cs_maxCIDRs t' = cs_maxCIDRs s" "bits_of (cs_used t') = insert i (bits_of (cs_used s))" "cs_reserved t' = cs_reserved s"
    using cs_AllocateNext_cases [OF assms(1)] assms(2) by (auto split: if_splits)
  show ?thesis
    using i assms(2) indexToCIDRBlock_cong [OF i(5,6), of i] by (intro that [of i]) (simp_all add: cs_same_def)
qed

text \<open>
  (C26) In every state an operator's CIDR set reaches, \<open>AllocateNext\<close> fails only when every node CIDR is
  used or reserved. Otherwise it returns a node CIDR of the configured size, aligned, inside the cluster
  CIDR, that was not allocated and now is, and that shares no address with a used or reserved one.
\<close>

theorem cidr_set_AllocateNext_correct:
  assumes "cidr_reachable p m ops s"
  shows "case cs_AllocateNext s of
      Inl e \<Rightarrow> e = ErrCIDRRangeNoCIDRsRemaining \<and> (\<forall>i < cs_maxCIDRs s. bit (cs_used s) i \<or> bit (cs_reserved s) i)
    | Inr (t, q) \<Rightarrow> pfx_bits q = m \<and> pfx_is_masked q \<and> (\<forall>a. pfx_contains q a \<longrightarrow> pfx_contains p a) \<and>
        cs_IsAllocated s q = Inr False \<and> cs_IsAllocated t q = Inr True \<and>
        (\<forall>i < cs_maxCIDRs s. bit (cs_used s) i \<or> bit (cs_reserved s) i \<longrightarrow> pfx_disjoint (indexToCIDRBlock s i) q)"
proof -
  note r = cidr_reachable_inv [OF assms]
  note g = cs_invD(1) [OF r(1)]
  have pc: "pfx_contains (pfx_masked p) a = pfx_contains p a" for a
    using assms pfx_contains_masked [of p a] by (simp add: cidr_reachable_def good_cidr_config_def)
  show ?thesis
  proof (cases "cs_AllocateNext s")
    case (Inl e)
    with cs_AllocateNext_cases [OF r(1)] have "cs_taken s = {..<cs_maxCIDRs s}" "e = ErrCIDRRangeNoCIDRsRemaining"
      by (auto split: if_splits)
    moreover have "bit (cs_used s) i \<or> bit (cs_reserved s) i" if "i < cs_maxCIDRs s" for i
      using that calculation(1) by (simp flip: in_cs_taken)
    ultimately show ?thesis using Inl by simp
  next
    case (Inr x)
    obtain t q where x: "x = (t, q)" by (cases x)
    obtain i where i: "i < cs_maxCIDRs s" "i \<notin> cs_taken s" "q = indexToCIDRBlock s i" "cs_inv t" "cs_same s t"
      "bits_of (cs_used t) = insert i (bits_of (cs_used s))"
      by (rule cs_AllocateNext_Inr [OF r(1) Inr [unfolded x]])
    note b = cs_block [OF g i(1), folded i(3)]
    have ir: "cs_InRange s q" "cs_InRange t q"
      using cs_block_InRange [OF g i(1)] i(3,5) by (simp_all add: cs_InRange_def cs_same_def)
    have bl: "cs_blocks s q = {i}" "cs_blocks t q = {i}"
      using cs_blocks_block [OF g i(1)] i(3) cs_blocks_cong [OF i(5)] by simp_all
    have al: "cs_IsAllocated s q = Inr False" "cs_IsAllocated t q = Inr True"
      using cs_IsAllocated_spec [OF r(1) b(1,2) ir(1)] cs_IsAllocated_spec [OF i(4) b(1,2) ir(2)] i(2,6)
      unfolding bl by (simp_all add: in_cs_taken)
    have "pfx_disjoint (indexToCIDRBlock s j) q" if "j < cs_maxCIDRs s" "bit (cs_used s) j \<or> bit (cs_reserved s) j" for j
      unfolding i(3) using that i(1,2) by (intro blocks_disjoint [OF g]) (auto simp: in_cs_taken)
    then show ?thesis using Inr x al b(2,3) r(2,3) i(3) cs_block_contains [OF g i(1)] pc by simp
  qed
qed


definition example_cluster :: prefix where
  "example_cluster = prefix_from (V4 0x0A000000) 8"

definition example_set :: cidr_set where
  "example_set = foldl cs_exec (case NewCIDRSet example_cluster 10 of Inr s \<Rightarrow> s)
     [CsAllocateNext, CsOccupy (prefix_from (V4 0x0A400000) 16)]"

lemma example_reachable:
  "cidr_reachable example_cluster 10 [CsAllocateNext, CsOccupy (prefix_from (V4 0x0A400000) 16)] example_set"
  by code_simp

theorem cidr_set_AllocateNext_correct_witness:
  "cidr_reachable example_cluster 10 [CsAllocateNext, CsOccupy (prefix_from (V4 0x0A400000) 16)] example_set \<and>
   (case cs_AllocateNext example_set of Inl _ \<Rightarrow> False
    | Inr (t, q) \<Rightarrow> q = prefix_from (V4 0x0A800000) 10 \<and> cs_IsAllocated t q = Inr True)"
proof -
  have e: "(case cs_AllocateNext example_set of Inl _ \<Rightarrow> False | Inr (t, q) \<Rightarrow> q = prefix_from (V4 0x0A800000) 10)"
    by code_simp
  from cidr_set_AllocateNext_correct [OF example_reachable] e example_reachable
  show ?thesis by (auto split: sum.splits)
qed

lemma cs_blocks_disjoint_iff: "i \<in> cs_blocks s q \<longleftrightarrow> i < cs_maxCIDRs s \<and> \<not> pfx_disjoint (indexToCIDRBlock s i) q"
  by (auto simp: cs_blocks_def pfx_disjoint_def)

lemma bits_of_bit: "bits_of m = A \<Longrightarrow> bit m i \<longleftrightarrow> i \<in> A"
  by (simp flip: in_bits_of)

lemma fold_release_next: "cs_nextCandidate (fold cs_release_bit js s) = cs_nextCandidate s"
  by (induction js arbitrary: s) (simp_all add: cs_release_bit_def)

text \<open>
  \<open>Occupy\<close>, \<open>Release\<close> and \<open>IsAllocated\<close> act on exactly the node CIDRs that overlap the given prefix,
  be it smaller, equal to or larger than one of them, and fail exactly when the prefix is outside the
  cluster CIDR.
\<close>

theorem cidr_set_range_operations:
  assumes "cidr_reachable p m ops s" "pfx_wf q" "pfx_is_masked q"
  shows "if cs_InRange s q then
      (\<exists>t u. cs_Occupy s q = Inr t \<and> cs_Release s q = Inr u \<and>
        (\<forall>i < cs_maxCIDRs s. bit (cs_used t) i \<longleftrightarrow> bit (cs_used s) i \<or> \<not> pfx_disjoint (indexToCIDRBlock s i) q) \<and>
        (\<forall>i < cs_maxCIDRs s. bit (cs_used u) i \<longleftrightarrow> bit (cs_used s) i \<and> pfx_disjoint (indexToCIDRBlock s i) q) \<and>
        cs_IsAllocated s q =
          Inr (\<forall>i < cs_maxCIDRs s. \<not> pfx_disjoint (indexToCIDRBlock s i) q \<longrightarrow> bit (cs_used s) i))
    else cs_Occupy s q = Inl (OutOfClusterCIDR q) \<and> cs_Release s q = Inl (OutOfClusterCIDR q) \<and>
      cs_IsAllocated s q = Inl (OutOfClusterCIDR q)"
proof (cases "cs_InRange s q")
  case True
  note inv = cidr_reachable_inv(1) [OF assms(1)]
  note a = inv assms(2,3) True
  obtain t where t: "cs_Occupy s q = Inr t" "bits_of (cs_used t) = bits_of (cs_used s) \<union> cs_blocks s q"
    by (rule cs_Occupy_spec [OF a])
  obtain u where u: "cs_Release s q = Inr u" "bits_of (cs_used u) = bits_of (cs_used s) - cs_blocks s q"
    by (rule cs_Release_spec [OF a])
  have "cs_blocks s q \<subseteq> bits_of (cs_used s) \<longleftrightarrow>
      (\<forall>i < cs_maxCIDRs s. \<not> pfx_disjoint (indexToCIDRBlock s i) q \<longrightarrow> bit (cs_used s) i)"
    by (auto simp: subset_iff cs_blocks_disjoint_iff)
  then show ?thesis
    using True t(1) u(1) cs_IsAllocated_spec [OF a] bits_of_bit [OF t(2)] bits_of_bit [OF u(2)]
    by (simp add: cs_blocks_disjoint_iff)
next
  case False
  then show ?thesis by (simp add: out_of_range_ops)
qed

text \<open>Releasing a /9 frees two of the four blocks, the second of which was occupied through a /16 inside it.\<close>

theorem cidr_set_range_operations_witness:
  "cs_IsAllocated example_set (prefix_from (V4 0x0A000000) 9) = Inr True \<and>
   (\<exists>u. cs_Release example_set (prefix_from (V4 0x0A000000) 9) = Inr u \<and> \<not> bit (cs_used u) 1)"
proof -
  have q: "pfx_wf (prefix_from (V4 0x0A000000) 9)" "pfx_is_masked (prefix_from (V4 0x0A000000) 9)"
    "cs_InRange example_set (prefix_from (V4 0x0A000000) 9)" "1 < cs_maxCIDRs example_set"
    "pfx_contains (indexToCIDRBlock example_set 1) (V4 0x0A400000)" "pfx_contains (prefix_from (V4 0x0A000000) 9) (V4 0x0A400000)"
    by code_simp+
  have "\<not> pfx_disjoint (indexToCIDRBlock example_set 1) (prefix_from (V4 0x0A000000) 9)"
    using q(5,6) unfolding pfx_disjoint_def by blast
  moreover have "cs_IsAllocated example_set (prefix_from (V4 0x0A000000) 9) = Inr True" by code_simp
  ultimately show ?thesis using cidr_set_range_operations [OF example_reachable q(1,2)] q(3,4) by (simp only: if_True) blast
qed

text \<open>
  Releasing the node CIDR that \<open>AllocateNext\<close> just returned undoes the allocation: the bitmaps and
  the counter are as before, and only the next candidate has moved on.
\<close>

theorem cidr_set_allocate_release_roundtrip:
  assumes "cidr_reachable p m ops s" "cs_AllocateNext s = Inr (t, q)"
  shows "cs_Release t q = Inr (s\<lparr>cs_nextCandidate := cs_nextCandidate t\<rparr>)"
proof -
  note inv = cidr_reachable_inv(1) [OF assms(1)]
  obtain i where i: "i < cs_maxCIDRs s" "i \<notin> cs_taken s" "q = indexToCIDRBlock s i" "cs_inv t" "cs_same s t"
    "bits_of (cs_used t) = insert i (bits_of (cs_used s))"
    by (rule cs_AllocateNext_Inr [OF inv assms(2)])
  note g = cs_invD(1) [OF inv]
  note b = cs_block [OF g i(1), folded i(3)]
  have ir: "cs_InRange t q" using cs_block_InRange [OF g i(1)] i(3,5) by (simp add: cs_InRange_def cs_same_def)
  obtain b0 e0 where r: "getBeginningAndEndIndices t q = Inr (b0, e0)" "nat ` set [b0..e0] = cs_blocks t q"
    by (rule cs_range_ops [OF i(4) b(1,2) ir])
  have "cs_blocks t q = {i}" using cs_blocks_block [OF g i(1)] i(3) cs_blocks_cong [OF i(5)] by simp
  obtain u where u: "cs_Release t q = Inr u" "cs_inv u" "cs_same t u" "bits_of (cs_used u) = bits_of (cs_used t) - cs_blocks t q"
    by (rule cs_Release_spec [OF i(4) b(1,2) ir])
  have bu: "bits_of (cs_used u) = bits_of (cs_used s)"
    using u(4) i(2,6) \<open>cs_blocks t q = {i}\<close> by (auto simp: cs_taken_def)
  then have eu: "cs_used u = cs_used s" by (simp add: bits_of_def bit_eq_iff set_eq_iff)
  have "cs_unavailableCIDRs u = cs_unavailableCIDRs s"
    using cs_invD(3) [OF u(2)] cs_invD(3) [OF inv] bu u(3) i(5) by (simp add: cs_taken_def cs_same_def)
  moreover have "cs_nextCandidate u = cs_nextCandidate t"
    using u(1) r(1) fold_release_next [of "[b0..e0]" t] by (simp add: cs_Release_def)
  ultimately show ?thesis using u(1,3) i(5) eu by (simp add: cs_same_def)
qed


theorem cidr_set_allocate_release_roundtrip_witness:
  "\<exists>t. cs_AllocateNext example_set = Inr (t, prefix_from (V4 0x0A800000) 10) \<and>
     cs_Release t (prefix_from (V4 0x0A800000) 10) = Inr (example_set\<lparr>cs_nextCandidate := cs_nextCandidate t\<rparr>)"
proof -
  have "(case cs_AllocateNext example_set of Inl _ \<Rightarrow> False | Inr (t, q) \<Rightarrow> q = prefix_from (V4 0x0A800000) 10)"
    by code_simp
  then obtain t where "cs_AllocateNext example_set = Inr (t, prefix_from (V4 0x0A800000) 10)"
    by (auto split: sum.splits)
  with cidr_set_allocate_release_roundtrip [OF example_reachable this] show ?thesis by blast
qed

text \<open>Blocks stay reserved until the reserved ranges are set again.\<close>

fun sets_reserved :: "cs_op \<Rightarrow> bool" where
  "sets_reserved (CsSetReserved _) = True"
| "sets_reserved _ = False"

lemma cs_exec_reserved:
  assumes "cs_inv s" "cs_op_ok (cs_clusterPrefix s) q" "\<not> sets_reserved q"
  shows "cs_reserved (cs_exec s q) = cs_reserved s \<and> cs_maxCIDRs (cs_exec s q) = cs_maxCIDRs s"
proof (cases q)
  case CsAllocateNext
  then show ?thesis using cs_AllocateNext_cases [OF assms(1)] by (auto split: if_splits)
next
  case (CsOccupy p)
  then have p: "pfx_wf p" "pfx_is_masked p" using assms(2) by simp_all
  show ?thesis
  proof (cases "cs_InRange s p")
    case True
    obtain t where "cs_Occupy s p = Inr t" "cs_same s t" by (rule cs_Occupy_spec [OF assms(1) p True])
    with CsOccupy show ?thesis by (simp add: cs_same_def)
  qed (use CsOccupy in \<open>simp add: out_of_range_ops\<close>)
next
  case (CsRelease p)
  then have p: "pfx_wf p" "pfx_is_masked p" using assms(2) by simp_all
  show ?thesis
  proof (cases "cs_InRange s p")
    case True
    obtain t where "cs_Release s p = Inr t" "cs_same s t" by (rule cs_Release_spec [OF assms(1) p True])
    with CsRelease show ?thesis by (simp add: cs_same_def)
  qed (use CsRelease in \<open>simp add: out_of_range_ops\<close>)
qed (use assms(3) in simp)

lemma cs_run_reserved:
  assumes "cs_inv s" "list_all (cs_op_ok (cs_clusterPrefix s)) ops" "list_all (\<lambda>q. \<not> sets_reserved q) ops"
  shows "cs_reserved (foldl cs_exec s ops) = cs_reserved s \<and> cs_maxCIDRs (foldl cs_exec s ops) = cs_maxCIDRs s"
  using assms
proof (induction ops arbitrary: s)
  case (Cons q ops)
  have q: "cs_op_ok (cs_clusterPrefix s) q" "\<not> sets_reserved q" using Cons.prems(2,3) by simp_all
  from Cons.IH [of "cs_exec s q"] cs_exec_inv [OF Cons.prems(1) q(1)] cs_exec_reserved [OF Cons.prems(1) q]
    Cons.prems(2,3) show ?case by simp
qed simp

lemma cs_index_mono: "addr_val a \<le> addr_val b \<Longrightarrow> cs_index s a \<le> cs_index s b"
  by (simp add: cs_index_def div_le_mono)

text \<open>
  (C27) Once ranges of the cluster CIDR have been reserved, no operation other than a new
  \<open>SetReservedRanges\<close> makes \<open>AllocateNext\<close> return a node CIDR that has an address of such a range.
\<close>

theorem cidr_set_reserved_never_allocated:
  assumes "cidr_reachable p m ops s" "SetReservedRanges s ranges = Inr t"
    and "list_all (\<lambda>(a, b). pfx_contains (pfx_masked p) a \<and> pfx_contains (pfx_masked p) b) ranges"
    and "list_all (cs_op_ok (pfx_masked p)) ops'" "list_all (\<lambda>q. \<not> sets_reserved q) ops'"
    and "cs_AllocateNext (foldl cs_exec t ops') = Inr (u, q)"
    and "(a, b) \<in> set ranges" "pfx_contains (pfx_masked p) x" "addr_val a \<le> addr_val x" "addr_val x \<le> addr_val b"
  shows "\<not> pfx_contains q x"
proof
  assume qx: "pfx_contains q x"
  note r = cidr_reachable_inv [OF assms(1)]
  let ?v = "foldl cs_exec t ops'"
  obtain t' where "SetReservedRanges s ranges = Inr t'" "cs_inv t'" "bits_of (cs_reserved t') = reserved_blocks s ranges"
    "cs_clusterPrefix t' = cs_clusterPrefix s" "cs_nodeMaskSize t' = cs_nodeMaskSize s" "cs_maxCIDRs t' = cs_maxCIDRs s"
    by (rule SetReservedRanges_spec [OF r(1) assms(3) [folded r(2)]])
  with assms(2) r(2) have t: "cs_inv t" "bits_of (cs_reserved t) = reserved_blocks s ranges"
    "cs_clusterPrefix t = cs_clusterPrefix s" "cs_nodeMaskSize t = cs_nodeMaskSize s" "cs_maxCIDRs t = cs_maxCIDRs s"
    "list_all (cs_op_ok (cs_clusterPrefix t)) ops'"
    using assms(4) by simp_all
  note v = cs_run_inv [OF t(1,6)] cs_run_reserved [OF t(1,6) assms(5)]
  then have vi: "cs_inv ?v" by blast
  obtain i where i: "i < cs_maxCIDRs ?v" "i \<notin> cs_taken ?v" "q = indexToCIDRBlock ?v i"
    by (rule cs_AllocateNext_Inr [OF vi assms(6)])
  have "cs_index ?v x = i" using qx cs_block_contains [OF cs_invD(1) [OF vi] i(1)] i(3) by simp
  then have "cs_index s x = i" using v t by (simp add: cs_index_def cs_block_bits_def cs_width_def)
  moreover have "cs_index s x \<in> reserved_blocks s ranges"
    using assms(7,9,10) cs_index_mono [of a x s] cs_index_mono [of x b s]
    by (auto simp: reserved_blocks_def intro!: bexI [of _ "(a, b)"])
  ultimately have "i \<in> bits_of (cs_reserved ?v)" using v t(2) by simp
  with i(2) show False by (simp add: cs_taken_def)
qed


text \<open>Reserving the last quarter of the example's cluster CIDR leaves one block to allocate.\<close>

theorem cidr_set_reserved_never_allocated_witness:
  "\<exists>t u q. SetReservedRanges example_set [(V4 0x0AC00000, V4 0x0AC000FF)] = Inr t \<and>
     cs_AllocateNext t = Inr (u, q) \<and> \<not> pfx_contains q (V4 0x0AC00001)"
proof -
  let ?r = "[(V4 0x0AC00000, V4 0x0AC000FF)]"
  have "(case SetReservedRanges example_set ?r of Inl _ \<Rightarrow> False
      | Inr t \<Rightarrow> (case cs_AllocateNext t of Inl _ \<Rightarrow> False | Inr _ \<Rightarrow> True))"
    by code_simp
  then obtain t u q where t: "SetReservedRanges example_set ?r = Inr t" "cs_AllocateNext (foldl cs_exec t []) = Inr (u, q)"
    by (auto split: sum.splits)
  have h: "list_all (\<lambda>(a, b). pfx_contains (pfx_masked example_cluster) a \<and> pfx_contains (pfx_masked example_cluster) b) ?r"
    "pfx_contains (pfx_masked example_cluster) (V4 0x0AC00001)"
    by code_simp+
  have "\<not> pfx_contains q (V4 0x0AC00001)"
    using cidr_set_reserved_never_allocated [OF example_reachable t(1) h(1) _ _ t(2) _ h(2),
        of "V4 0x0AC00000" "V4 0x0AC000FF"] by simp
  with t show ?thesis by auto
qed

section \<open>Several CIDR sets\<close>

text \<open>Two prefixes that share an address are nested, so each contains the other's base address or conversely.\<close>

lemma nested_or_disjoint:
  assumes "pfx_wf p" "pfx_is_masked p" "pfx_wf q" "pfx_is_masked q" "pfx_contains p a" "pfx_contains q a"
    and "pfx_host_bits p \<le> pfx_host_bits q"
  shows "pfx_contains q (pfx_addr p)"
proof -
  note ip = pfx_contains_iff [OF assms(1,2)] and iq = pfx_contains_iff [OF assms(3,4)]
  let ?m = "2 ^ pfx_host_bits p :: nat"
  have d: "?m dvd addr_val (pfx_addr p)" "?m dvd addr_val (pfx_addr q)" "?m dvd addr_val (pfx_addr q) + 2 ^ pfx_host_bits q"
    using masked_dvd [OF assms(2) order_refl] masked_dvd [OF assms(4,7)] assms(7) by (simp_all add: le_imp_power_dvd)
  have a: "addr_val (pfx_addr p) \<le> addr_val a" "addr_val a < addr_val (pfx_addr p) + ?m"
    "addr_val (pfx_addr q) \<le> addr_val a" "addr_val a < addr_val (pfx_addr q) + 2 ^ pfx_host_bits q"
    using assms(5,6) by (simp_all add: ip iq)
  have "addr_val (pfx_addr q) \<le> addr_val (pfx_addr p)"
    using dvd_gap [OF d(1,2)] a(2,3) by linarith
  moreover have "addr_val (pfx_addr p) < addr_val (pfx_addr q) + 2 ^ pfx_host_bits q" using a(1,4) by linarith
  moreover have "same_family (pfx_addr q) (pfx_addr p)"
    using assms(5,6) by (cases "pfx_addr q"; cases "pfx_addr p"; cases a) (auto simp: ip iq)
  ultimately show ?thesis using assms(1) by (simp add: iq pfx_wf_def)
qed

lemma pfx_disjoint_sym: "pfx_disjoint p q = pfx_disjoint q p"
  by (auto simp: pfx_disjoint_def)

lemma not_InRange_disjoint:
  assumes "\<not> cs_InRange s p" "pfx_wf (cs_clusterPrefix s)" "pfx_is_masked (cs_clusterPrefix s)" "pfx_wf p"
  shows "pfx_disjoint (cs_clusterPrefix s) (pfx_masked p)"
proof (unfold pfx_disjoint_def, intro allI notI)
  fix a assume a: "pfx_contains (cs_clusterPrefix s) a \<and> pfx_contains (pfx_masked p) a"
  let ?c = "cs_clusterPrefix s" and ?q = "pfx_masked p"
  have q: "pfx_wf ?q" "pfx_is_masked ?q" using assms(4) by (auto intro: pfx_masked_is_masked)
  have pq: "pfx_contains ?q (pfx_addr p)" using assms(4)
    by (simp add: pfx_contains_masked) (cases "pfx_addr p"; simp add: pfx_contains_def pfx_wf_def)
  show False
  proof (cases "pfx_host_bits ?c \<le> pfx_host_bits ?q")
    case True
    then have "pfx_contains ?q (pfx_addr ?c)" using nested_or_disjoint [OF assms(2,3) q] a by blast
    then show False using assms(1,4) by (simp add: cs_InRange_def pfx_contains_masked)
  next
    case False
    then have h: "pfx_host_bits ?q \<le> pfx_host_bits ?c" by simp
    then have "pfx_contains ?c (pfx_addr ?q)" using nested_or_disjoint [OF q assms(2,3)] a by blast
    then have "pfx_contains ?c (pfx_addr p)" using pfx_nested(2) [OF q assms(2,3) h] pq by blast
    then show False using assms(1) by (simp add: cs_InRange_def)
  qed
qed

definition sets_ok :: "bool \<Rightarrow> int \<Rightarrow> cidr_set list \<Rightarrow> bool" where
  "sets_ok isV6 m ss \<longleftrightarrow> list_all (\<lambda>s. cs_inv s \<and> cs_nodeMaskSize s = m \<and>
      addr_is4 (pfx_addr (cs_clusterPrefix s)) = (\<not> isV6)) ss \<and>
     sorted_wrt (\<lambda>s t. pfx_disjoint (cs_clusterPrefix s) (cs_clusterPrefix t)) ss"

lemma NewCIDRSets_ok:
  assumes "NewCIDRSets isV6 m ps acc = Inr ss" "list_all (\<lambda>p. good_cidr_config p m) ps" "sets_ok isV6 m acc"
  shows "sets_ok isV6 m ss \<and> map cs_clusterPrefix ss = map cs_clusterPrefix acc @ map pfx_masked ps"
  using assms
proof (induction ps arbitrary: acc)
  case (Cons p ps)
  have p: "pfx_wf p" "pfx_bits p \<le> m" "m - pfx_bits p < 32" using Cons.prems(2) by (simp_all add: good_cidr_config_def)
  obtain s where s: "NewCIDRSet p m = Inr s" "NewCIDRSets isV6 m ps (acc @ [s]) = Inr ss"
    "addr_is4 (pfx_addr p) = (\<not> isV6)" "list_all (\<lambda>s. \<not> cs_InRange s p) acc"
    using Cons.prems(1) by (auto split: if_splits sum.splits simp: list_ex_iff list_all_iff)
  note n = NewCIDRSet_inv [OF s(1) p]
  have f: "addr_is4 (pfx_addr (pfx_masked p)) = addr_is4 (pfx_addr p)"
    using p(1) by (cases "pfx_addr p") (auto simp: pfx_masked_def pfx_wf_def prefix_from_def)
  have "pfx_disjoint (cs_clusterPrefix t) (pfx_masked p)" if "t \<in> set acc" for t
    using that s(4) Cons.prems(3) p(1)
    by (intro not_InRange_disjoint) (auto simp: list_all_iff sets_ok_def cs_inv_def cs_geometry_def)
  then have "sets_ok isV6 m (acc @ [s])"
    using Cons.prems(3) n(1,4,5) s(3) f by (simp add: sets_ok_def sorted_wrt_append)
  with Cons.IH [OF s(2)] Cons.prems(2) n(4) show ?case by simp
qed simp

text \<open>
  The CIDR sets that \<open>NewCIDRSets\<close> builds from a list of cluster CIDRs are one per CIDR, in order, of
  the requested family and mask size, usable, and their cluster CIDRs are pairwise disjoint.
\<close>

theorem NewCIDRSets_disjoint:
  assumes "NewCIDRSets isV6 m ps [] = Inr ss" "list_all (\<lambda>p. good_cidr_config p m) ps"
  shows "map cs_clusterPrefix ss = map pfx_masked ps \<and>
    list_all (\<lambda>s. cs_inv s \<and> cs_nodeMaskSize s = m \<and> addr_is4 (pfx_addr (cs_clusterPrefix s)) = (\<not> isV6)) ss \<and>
    (\<forall>i j. i < j \<longrightarrow> j < length ss \<longrightarrow> pfx_disjoint (cs_clusterPrefix (ss ! i)) (cs_clusterPrefix (ss ! j)))"
  using NewCIDRSets_ok [OF assms] by (simp add: sets_ok_def sorted_wrt_iff_nth_less)

theorem NewCIDRSets_disjoint_witness:
  "\<exists>s t. NewCIDRSets False 10 [example_cluster, prefix_from (V4 0x0B000001) 8] [] = Inr [s, t] \<and>
     pfx_disjoint (cs_clusterPrefix s) (cs_clusterPrefix t) \<and>
     NewCIDRSets False 10 [example_cluster, prefix_from (V4 0x0A800000) 9] [] =
       Inl (CIDRCollision (prefix_from (V4 0x0A800000) 9))"
proof -
  let ?ps = "[example_cluster, prefix_from (V4 0x0B000001) 8]"
  have n: "(case NewCIDRSets False 10 ?ps [] of Inl _ \<Rightarrow> False | Inr ss \<Rightarrow> length ss = 2)"
    and c: "list_all (\<lambda>p. good_cidr_config p 10) ?ps"
    and d: "NewCIDRSets False 10 [example_cluster, prefix_from (V4 0x0A800000) 9] [] =
       Inl (CIDRCollision (prefix_from (V4 0x0A800000) 9))"
    by code_simp+
  from n obtain ss where ss: "NewCIDRSets False 10 ?ps [] = Inr ss" "length ss = 2" by (auto split: sum.splits)
  then obtain s t where st: "ss = [s, t]" by (auto simp: length_Suc_conv numeral_2_eq_2)
  from NewCIDRSets_disjoint [OF ss(1) c] have "pfx_disjoint (cs_clusterPrefix s) (cs_clusterPrefix t)"
    unfolding st by (elim conjE allE [of _ 0] allE [of _ 1]) simp
  with ss(1) st d show ?thesis by blast
qed

end
