(* ===== verification/Netip_Parse.thy ===== *)
theory Netip_Parse
  imports Netip "HOL-Library.Code_Target_Nat"
begin

text \<open>
  Go's \<open>netip.ParseAddr\<close>: the textual forms of IPv4 and IPv6 addresses. Like \<open>Netip\<close> this theory models
  the standard library. An address that does not parse gives \<open>None\<close>; the messages of the errors are
  left out.
\<close>

section \<open>IPv4\<close>

definition is_digit :: "char \<Rightarrow> bool" where
  "is_digit c \<longleftrightarrow> 48 \<le> (of_char c :: nat) \<and> (of_char c :: nat) \<le> 57"

definition digit_value :: "char \<Rightarrow> nat" where
  "digit_value c = of_char c - 48"

text \<open>
  The loop of \<open>parseIPv4Fields\<close>: the fields read so far in reverse, the value and the number of digits of
  the current field. A dot needs a digit before it and a character behind it.
\<close>

fun parse_v4_fields :: "string \<Rightarrow> nat list \<Rightarrow> nat \<Rightarrow> nat \<Rightarrow> nat list option" where
  "parse_v4_fields [] flds val digLen =
     (if length flds < 3 then None else Some (rev (val # flds)))"
| "parse_v4_fields (c # cs) flds val digLen =
     (if is_digit c then
        if digLen = 1 \<and> val = 0 then None
        else if val * 10 + digit_value c > 255 then None
        else parse_v4_fields cs flds (val * 10 + digit_value c) (digLen + 1)
      else if c = CHR ''.'' then
        if digLen = 0 \<or> cs = [] then None
        else if length flds = 3 then None
        else parse_v4_fields cs (val # flds) 0 0
      else None)"

definition v4_of_fields :: "nat list \<Rightarrow> u32" where
  "v4_of_fields fs = word_of_nat (foldl (\<lambda>acc f. acc * 256 + f) 0 fs)"

definition parse_v4 :: "string \<Rightarrow> addr option" where
  "parse_v4 s = map_option (\<lambda>fs. V4 (v4_of_fields fs)) (parse_v4_fields s [] 0 0)"

section \<open>IPv6\<close>

definition hex_value :: "char \<Rightarrow> nat option" where
  "hex_value c =
     (let n = (of_char c :: nat) in
      if 48 \<le> n \<and> n \<le> 57 then Some (n - 48)
      else if 97 \<le> n \<and> n \<le> 102 then Some (n - 97 + 10)
      else if 65 \<le> n \<and> n \<le> 70 then Some (n - 65 + 10)
      else None)"

text \<open>
  One hexadecimal group: its value, its number of digits and the rest of the text; more than four digits
  fail.
\<close>

fun parse_hex :: "string \<Rightarrow> nat \<Rightarrow> nat \<Rightarrow> (nat \<times> nat \<times> string) option" where
  "parse_hex [] acc off = Some (acc, off, [])"
| "parse_hex (c # cs) acc off =
     (case hex_value c of
        None \<Rightarrow> Some (acc, off, c # cs)
      | Some d \<Rightarrow> if off > 3 then None else parse_hex cs (acc * 16 + d) (off + 1))"

text \<open>
  The loop over the groups: the 16-bit groups read so far and the position of the ellipsis among them.
  The result is the groups, the ellipsis and what was not read. At most eight rounds.
\<close>

fun parse_groups :: "nat \<Rightarrow> string \<Rightarrow> nat list \<Rightarrow> nat option \<Rightarrow> (nat list \<times> nat option \<times> string) option" where
  "parse_groups 0 s gs ell = Some (gs, ell, s)"
| "parse_groups (Suc n) s gs ell =
     (if length gs \<ge> 8 then Some (gs, ell, s)
      else case parse_hex s 0 0 of
        None \<Rightarrow> None
      | Some (acc, off, rest) \<Rightarrow>
          if off = 0 then None
          else if rest \<noteq> [] \<and> hd rest = CHR ''.'' then
            if ell = None \<and> length gs \<noteq> 6 then None
            else if length gs + 2 > 8 then None
            else (case parse_v4_fields s [] 0 0 of
                    Some [a, b, c, d] \<Rightarrow> Some (gs @ [a * 256 + b, c * 256 + d], ell, [])
                  | _ \<Rightarrow> None)
          else if rest = [] then Some (gs @ [acc], ell, [])
          else if hd rest \<noteq> CHR '':'' \<or> length rest = 1 then None
          else let s' = tl rest; gs' = gs @ [acc] in
               if hd s' = CHR '':'' then
                 if ell \<noteq> None then None
                 else if tl s' = [] then Some (gs', Some (length gs'), [])
                 else parse_groups n (tl s') gs' (Some (length gs'))
               else parse_groups n s' gs' ell)"

definition v6_of_groups :: "nat list \<Rightarrow> u128" where
  "v6_of_groups gs = word_of_nat (foldl (\<lambda>acc g. acc * 65536 + g) 0 gs)"

definition expand_groups :: "nat list \<times> nat option \<times> string \<Rightarrow> u128 option" where
  "expand_groups = (\<lambda>(gs, ell, rest).
     if rest \<noteq> [] then None
     else if length gs < 8 then
       (case ell of
          None \<Rightarrow> None
        | Some e \<Rightarrow> Some (v6_of_groups (take e gs @ replicate (8 - length gs) 0 @ drop e gs)))
     else if ell \<noteq> None then None
     else Some (v6_of_groups gs))"

definition parse_v6 :: "string \<Rightarrow> addr option" where
  "parse_v6 s =
     (let body = takeWhile (\<lambda>c. c \<noteq> CHR ''%'') s; tail = dropWhile (\<lambda>c. c \<noteq> CHR ''%'') s; zone = tl tail in
      if tail \<noteq> [] \<and> zone = [] then None
      else if take 2 body = ''::'' then
        if drop 2 body = [] then Some (V6 0 zone)
        else map_option (\<lambda>w. V6 w zone) (Option.bind (parse_groups 8 (drop 2 body) [] (Some 0)) expand_groups)
      else map_option (\<lambda>w. V6 w zone) (Option.bind (parse_groups 8 body [] None) expand_groups))"

section \<open>Choosing the family\<close>

fun ParseAddr_scan :: "string \<Rightarrow> string \<Rightarrow> addr option" where
  "ParseAddr_scan s [] = None"
| "ParseAddr_scan s (c # cs) =
     (if c = CHR ''.'' then parse_v4 s
      else if c = CHR '':'' then parse_v6 s
      else if c = CHR ''%'' then None
      else ParseAddr_scan s cs)"

definition ParseAddr :: "string \<Rightarrow> addr option" where
  "ParseAddr s = ParseAddr_scan s s"

text \<open>Sample texts.\<close>

lemma ParseAddr_v4: "ParseAddr ''10.0.1.8'' = Some (V4 0x0a000108)" "ParseAddr ''10.0.01.8'' = None"
  by code_simp+

lemma ParseAddr_v6: "ParseAddr ''fd00::1:a'' = Some (V6 0xfd00000000000000000000000001000a [])"
  "ParseAddr ''::ffff:1.2.3.4%eth0'' = Some (V6 0xffff01020304 ''eth0'')"
  by code_simp+

end
