(* ===== verification/Watchdog.thy ===== *)
theory Watchdog
  imports Netip_Parse "HOL-Library.List_Lexorder" "HOL-Library.Char_ord"
begin

text \<open>
  \<open>pkg/podendpointwatchdog\<close>: the job that periodically looks for running pods that have an address but no
  local endpoint and deletes them. \<open>cniowner.go\<close> decides whether the node's pods are this agent's at all,
  \<open>watchdog.go\<close> holds the scan. What the scan reads of other components is its argument: the pods of
  the table in iteration order, the endpoints by address, the clock. Its effect on the cluster is the list
  of deletion requests it sends; a failing request is only logged.
\<close>

section \<open>Ownership of the node's pods\<close>

definition ciliumCNIPluginName :: string where "ciliumCNIPluginName = ''cilium-cni''"

text \<open>Reasons are kept as values instead of the formatted text.\<close>

datatype own_reason =
    DirMissing string
  | DirUnreadable string
  | NoConfig string
  | Declares string
  | NoReadableConfig string
  | NoneDeclares string "(string \<times> string list) list"
  | LabelAbsent
  | LabelIs string
  | LabelIsOther string
  | LabelUnknown string
  | LabelBut own_reason own_reason
  | NoLocalNode

datatype dir_error = NotExist | OtherDirError

record dir_entry =
  de_Name :: string
  de_IsDir :: bool

text \<open>The document a configuration file decodes to: the top-level type and the types of its plugins.\<close>

record cni_doc =
  doc_Type :: string
  doc_Plugins :: "string list"

definition cniPluginTypes :: "('b \<Rightarrow> cni_doc option) \<Rightarrow> 'b \<Rightarrow> string list option" where
  "cniPluginTypes unmarshal raw =
     (case unmarshal raw of
        None \<Rightarrow> None
      | Some doc \<Rightarrow>
          (let types = (if doc_Type doc \<noteq> [] then [doc_Type doc] else []) @ filter (\<lambda>t. t \<noteq> []) (doc_Plugins doc)
           in if types = [] then None else Some types))"

text \<open>\<open>filepath.Ext\<close>: from the last dot of the last path element on.\<close>

fun ext_rev :: "string \<Rightarrow> string \<Rightarrow> string" where
  "ext_rev [] acc = []"
| "ext_rev (c # cs) acc =
     (if c = CHR ''/'' then [] else if c = CHR ''.'' then c # acc else ext_rev cs (c # acc))"

definition Ext :: "string \<Rightarrow> string" where
  "Ext s = ext_rev (rev s) []"

definition config_names :: "dir_entry list \<Rightarrow> string list" where
  "config_names entries =
     sort (map de_Name (filter (\<lambda>e. \<not> de_IsDir e \<and>
       (let ext = Ext (de_Name e) in ext = ''.conf'' \<or> ext = ''.conflist'' \<or> ext = ''.json'')) entries))"

fun config_scan ::
  "('b \<Rightarrow> cni_doc option) \<Rightarrow> (string \<Rightarrow> 'b option) \<Rightarrow> string list \<Rightarrow> (string \<times> string list) list \<Rightarrow>
   string + (string \<times> string list) list" where
  "config_scan unmarshal readFile [] seen = Inr seen"
| "config_scan unmarshal readFile (n # ns) seen =
     (case Option.bind (readFile n) (cniPluginTypes unmarshal) of
        None \<Rightarrow> config_scan unmarshal readFile ns seen
      | Some types \<Rightarrow>
          if ciliumCNIPluginName \<in> set types then Inl n
          else config_scan unmarshal readFile ns (seen @ [(n, types)]))"

definition nodeUsesCiliumCNI ::
  "('b \<Rightarrow> cni_doc option) \<Rightarrow> string \<Rightarrow> (dir_error, dir_entry list) result \<Rightarrow> (string \<Rightarrow> 'b option) \<Rightarrow> bool \<times> own_reason" where
  "nodeUsesCiliumCNI unmarshal confDir readDir readFile =
     (case readDir of
        Inl NotExist \<Rightarrow> (False, DirMissing confDir)
      | Inl OtherDirError \<Rightarrow> (False, DirUnreadable confDir)
      | Inr entries \<Rightarrow>
          (let names = config_names entries in
           if names = [] then (False, NoConfig confDir)
           else case config_scan unmarshal readFile names [] of
                  Inl n \<Rightarrow> (True, Declares n)
                | Inr seen \<Rightarrow> if seen = [] then (False, NoReadableConfig confDir) else (False, NoneDeclares confDir seen)))"

definition CNIProviderLabel :: string where "CNIProviderLabel = ''peri.apsis/cni-provider''"
definition CNIProviderConstellation :: string where "CNIProviderConstellation = ''constellation''"

definition knownCNIProviders :: "string list" where
  "knownCNIProviders = [CNIProviderConstellation, ''standard'', ''builtin'', ''pending'']"

definition nodeLabelSaysCilium :: "(string \<rightharpoonup> string) \<Rightarrow> bool \<times> own_reason" where
  "nodeLabelSaysCilium labels =
     (case labels CNIProviderLabel of
        None \<Rightarrow> (False, LabelAbsent)
      | Some v \<Rightarrow>
          if v = CNIProviderConstellation then (True, LabelIs v)
          else if v \<in> set knownCNIProviders then (False, LabelIsOther v)
          else (False, LabelUnknown v))"

text \<open>The closure \<open>registerWatchdog\<close> installs: the label of the local node, then the configuration.\<close>

definition cniOwned :: "(string \<rightharpoonup> string) option \<Rightarrow> bool \<times> own_reason \<Rightarrow> bool \<times> own_reason" where
  "cniOwned localNode conf =
     (case localNode of
        None \<Rightarrow> (False, NoLocalNode)
      | Some labels \<Rightarrow>
          (let (owned, reason) = nodeLabelSaysCilium labels in
           if \<not> owned then (False, reason)
           else if \<not> fst conf then (False, LabelBut reason (snd conf))
           else (True, reason)))"

section \<open>The blast radius\<close>

text \<open>
  \<open>int(float64(eligible) * 0.2)\<close>: the constant is the double nearest to 0.2, that is
  \<open>3602879701896397 / 2 ^ 54\<close>; the exact product is rounded to 53 significant bits, ties to even, and
  the result is truncated. Counts are below \<open>2 ^ 53\<close>, so that the conversion of the count is exact.
\<close>

definition round_half_even :: "nat \<Rightarrow> nat \<Rightarrow> nat" where
  "round_half_even m k =
     (let q = m div 2 ^ k; r = m mod 2 ^ k in
      if k = 0 then q
      else if r < 2 ^ (k - 1) \<or> (r = 2 ^ (k - 1) \<and> even q) then q else q + 1)"

definition float_fifth :: "nat \<Rightarrow> nat" where
  "float_fifth n =
     (let m = n * 3602879701896397; k = bit_length m - 53 in round_half_even m k * 2 ^ k div 2 ^ 54)"

definition blastRadiusFloor :: nat where "blastRadiusFloor = 3"

definition blastRadiusLimit :: "nat \<Rightarrow> nat" where
  "blastRadiusLimit eligible = max blastRadiusFloor (float_fifth eligible)"

section \<open>The scan\<close>

type_synonym time = int
type_synonym uid = string

record pod =
  pod_UID :: uid
  pod_Namespace :: string
  pod_Name :: string
  pod_HostNetwork :: bool
  pod_DeletionTimestamp :: "time option"
  pod_Phase :: string
  pod_PodIP :: string

record watchdog =
  wd_gracePeriod :: time
  wd_pending :: "uid \<rightharpoonup> time"
  wd_standDownLogged :: bool

text \<open>\<open>Time.Sub\<close> saturates at the bounds of a 64-bit duration.\<close>

definition time_Sub :: "time \<Rightarrow> time \<Rightarrow> time" where
  "time_Sub t u = max (- (2 ^ 63)) (min (2 ^ 63 - 1) (t - u))"

definition pod_eligible :: "pod \<Rightarrow> addr option" where
  "pod_eligible p =
     (if pod_HostNetwork p then None
      else if pod_DeletionTimestamp p \<noteq> None then None
      else if pod_Phase p \<noteq> ''Running'' \<or> pod_PodIP p = [] then None
      else ParseAddr (pod_PodIP p))"

record scan =
  sc_eligible :: nat
  sc_healthy :: nat
  sc_seen :: "uid set"
  sc_pending :: "uid \<rightharpoonup> time"
  sc_due :: "pod list"

definition scan_pod :: "time \<Rightarrow> time \<Rightarrow> (addr \<Rightarrow> bool) \<Rightarrow> pod \<Rightarrow> scan \<Rightarrow> scan" where
  "scan_pod grace now lookupIP p sc =
     (case pod_eligible p of
        None \<Rightarrow> sc
      | Some a \<Rightarrow>
          (let sc = sc\<lparr>sc_eligible := sc_eligible sc + 1\<rparr> in
           if lookupIP a then sc\<lparr>sc_healthy := sc_healthy sc + 1\<rparr>
           else
             (let sc = sc\<lparr>sc_seen := insert (pod_UID p) (sc_seen sc)\<rparr> in
              case sc_pending sc (pod_UID p) of
                None \<Rightarrow> sc\<lparr>sc_pending := (sc_pending sc)(pod_UID p \<mapsto> now)\<rparr>
              | Some firstSeen \<Rightarrow>
                  if time_Sub now firstSeen \<ge> grace then sc\<lparr>sc_due := sc_due sc @ [p]\<rparr> else sc)))"

definition scan_pods :: "time \<Rightarrow> time \<Rightarrow> (addr \<Rightarrow> bool) \<Rightarrow> pod list \<Rightarrow> (uid \<rightharpoonup> time) \<Rightarrow> scan" where
  "scan_pods grace now lookupIP pods pending =
     fold (scan_pod grace now lookupIP) pods
       \<lparr>sc_eligible = 0, sc_healthy = 0, sc_seen = {}, sc_pending = pending, sc_due = []\<rparr>"

text \<open>A deletion request carries the namespace, the name and the UID as its precondition.\<close>

definition heal :: "pod \<Rightarrow> string \<times> string \<times> uid" where
  "heal p = (pod_Namespace p, pod_Name p, pod_UID p)"

definition check ::
  "watchdog \<Rightarrow> bool \<times> own_reason \<Rightarrow> time \<Rightarrow> pod list \<Rightarrow> (addr \<Rightarrow> bool) \<Rightarrow> watchdog \<times> (string \<times> string \<times> uid) list" where
  "check w owned now pods lookupIP =
     (if \<not> fst owned then (w\<lparr>wd_standDownLogged := True\<rparr>, [])
      else
        (let sc = scan_pods (wd_gracePeriod w) now lookupIP pods (wd_pending w);
             w' = w\<lparr>wd_pending := sc_pending sc\<rparr> in
         if length (sc_due sc) > blastRadiusLimit (sc_eligible sc) then (w', [])
         else (w'\<lparr>wd_pending := wd_pending w' |` sc_seen sc\<rparr>, map heal (sc_due sc))))"

section \<open>The floating-point limit\<close>

lemma round_half_even_bounds: "m div 2 ^ k \<le> round_half_even m k" "round_half_even m k \<le> m div 2 ^ k + 1"
  by (auto simp: round_half_even_def Let_def)

lemma float_fifth_eq:
  assumes "n < 2 ^ 50" shows "float_fifth n = n div 5"
proof -
  define c :: nat where "c = 3602879701896397"
  define m k where "m = n * c" and "k = bit_length m - 53"
  define q r where "q = n div 5" and "r = n mod 5"
  have n: "n = 5 * q + r" "r \<le> 4" by (simp_all add: q_def r_def)
  have m: "m = q * 2 ^ 54 + (q + r * c)" unfolding m_def by (subst n(1)) (simp add: c_def algebra_simps)
  have "m < 2 ^ 102" using assms by (simp add: m_def c_def)
  then have "k \<le> 49" using bit_length_le [of m 102] by (simp add: k_def)
  then have pk: "(2 :: nat) ^ k \<le> 2 ^ 49" "(2 :: nat) ^ k dvd 2 ^ 54"
    by (intro power_increasing le_imp_power_dvd; linarith)+
  define R where "R = round_half_even m k * 2 ^ k"
  have "q * 2 ^ 54 = q * 2 ^ 54 div 2 ^ k * 2 ^ k" using pk(2) by simp
  also have "\<dots> \<le> m div 2 ^ k * 2 ^ k" unfolding m by (intro mult_right_mono div_le_mono) simp_all
  also have "\<dots> \<le> R" unfolding R_def by (intro mult_right_mono round_half_even_bounds(1)) simp
  finally have lo: "q * 2 ^ 54 \<le> R" .
  have "R \<le> (m div 2 ^ k + 1) * 2 ^ k" unfolding R_def by (intro mult_right_mono round_half_even_bounds(2)) simp
  also have "\<dots> \<le> m + 2 ^ k" by (simp add: algebra_simps)
  also have "\<dots> < q * 2 ^ 54 + 2 ^ 54"
  proof -
    have "r * c \<le> 4 * c" using n(2) by simp
    moreover have "q < 2 ^ 50" using assms by (simp add: q_def)
    ultimately show ?thesis using pk(1) unfolding m by (simp add: c_def)
  qed
  finally have hi: "R < (q + 1) * 2 ^ 54" by simp
  have "R div 2 ^ 54 = q" using lo hi by (intro div_nat_eqI) (simp_all add: mult.commute)
  then show ?thesis by (simp add: float_fifth_def Let_def R_def m_def k_def q_def c_def)
qed

text \<open>
  (C36) The limit on the deletions of one scan, computed in floating point, is three or a fifth of the
  eligible pods rounded down, whichever is larger.
\<close>

theorem blastRadiusLimit_exact: "n < 2 ^ 50 \<Longrightarrow> blastRadiusLimit n = max 3 (n div 5)"
  by (simp add: blastRadiusLimit_def blastRadiusFloor_def float_fifth_eq del: power_numeral)

theorem blastRadiusLimit_exact_witness: "(30 :: nat) < 2 ^ 50 \<and> blastRadiusLimit 30 = 6"
  using blastRadiusLimit_exact [of 30] by simp

section \<open>What a scan computes\<close>

definition pod_missing :: "(addr \<Rightarrow> bool) \<Rightarrow> pod \<Rightarrow> bool" where
  "pod_missing lookupIP p \<longleftrightarrow> (case pod_eligible p of None \<Rightarrow> False | Some a \<Rightarrow> \<not> lookupIP a)"

definition missing_uids :: "(addr \<Rightarrow> bool) \<Rightarrow> pod list \<Rightarrow> uid set" where
  "missing_uids lookupIP pods = pod_UID ` {p \<in> set pods. pod_missing lookupIP p}"

definition eligible_count :: "pod list \<Rightarrow> nat" where
  "eligible_count pods = length (filter (\<lambda>p. pod_eligible p \<noteq> None) pods)"

definition due_pods :: "time \<Rightarrow> time \<Rightarrow> (addr \<Rightarrow> bool) \<Rightarrow> (uid \<rightharpoonup> time) \<Rightarrow> pod list \<Rightarrow> pod list" where
  "due_pods grace now lookupIP pending pods =
     filter (\<lambda>p. pod_missing lookupIP p \<and>
       (case pending (pod_UID p) of None \<Rightarrow> False | Some t \<Rightarrow> grace \<le> time_Sub now t)) pods"

lemma missing_uids_simps [simp]:
  "missing_uids l [] = {}"
  "missing_uids l (p # ps) = (if pod_missing l p then insert (pod_UID p) (missing_uids l ps) else missing_uids l ps)"
  by (auto simp: missing_uids_def)

lemma eligible_count_simps [simp]:
  "eligible_count [] = 0"
  "eligible_count (p # ps) = (if pod_eligible p = None then 0 else 1) + eligible_count ps"
  by (auto simp: eligible_count_def)

text \<open>A pending entry made by the scan itself is never due: the grace period is positive.\<close>

lemma scan_fold:
  assumes "0 < grace"
  shows "fold (scan_pod grace now l) pods sc =
    \<lparr>sc_eligible = sc_eligible sc + eligible_count pods,
     sc_healthy = sc_healthy (fold (scan_pod grace now l) pods sc),
     sc_seen = sc_seen sc \<union> missing_uids l pods,
     sc_pending = (\<lambda>u. if sc_pending sc u = None \<and> u \<in> missing_uids l pods then Some now else sc_pending sc u),
     sc_due = sc_due sc @ due_pods grace now l (sc_pending sc) pods\<rparr>"
proof (induction pods arbitrary: sc)
  case Nil
  then show ?case by (simp add: due_pods_def)
next
  case (Cons p ps)
  let ?t = "scan_pod grace now l p sc"
  have z: "time_Sub now now < grace" using assms by (simp add: time_Sub_def)
  have due: "due_pods grace now l ((sc_pending sc)(u \<mapsto> now)) ps = due_pods grace now l (sc_pending sc) ps"
    if "sc_pending sc u = None" for u
    using that z by (auto simp: due_pods_def intro!: filter_cong)
  have d1: "sc_eligible ?t = sc_eligible sc + (if pod_eligible p = None then 0 else 1)"
    "sc_seen ?t = (if pod_missing l p then insert (pod_UID p) (sc_seen sc) else sc_seen sc)"
    "sc_pending ?t = (if pod_missing l p \<and> sc_pending sc (pod_UID p) = None then (sc_pending sc)(pod_UID p \<mapsto> now) else sc_pending sc)"
    "sc_due ?t = sc_due sc @ due_pods grace now l (sc_pending sc) [p]"
    by (auto simp: scan_pod_def pod_missing_def due_pods_def Let_def split: option.splits)
  have d2: "due_pods grace now l (sc_pending sc) (p # ps) =
      due_pods grace now l (sc_pending sc) [p] @ due_pods grace now l (sc_pending sc) ps"
    by (simp add: due_pods_def)
  show ?case
    by (subst fold_simps(2), subst Cons.IH [of ?t]) (auto simp: d1 d2 due fun_eq_iff)
qed

lemma scan_ext_eq:
  "sc = \<lparr>sc_eligible = a, sc_healthy = b, sc_seen = c, sc_pending = d, sc_due = e\<rparr> \<longleftrightarrow>
   sc_eligible sc = a \<and> sc_healthy sc = b \<and> sc_seen sc = c \<and> sc_pending sc = d \<and> sc_due sc = e"
  by (cases sc) auto

lemma scan_pods_eq:
  assumes "0 < grace"
  shows "sc_eligible (scan_pods grace now l pods pending) = eligible_count pods"
    "sc_seen (scan_pods grace now l pods pending) = missing_uids l pods"
    "sc_pending (scan_pods grace now l pods pending) =
       (\<lambda>u. if pending u = None \<and> u \<in> missing_uids l pods then Some now else pending u)"
    "sc_due (scan_pods grace now l pods pending) = due_pods grace now l pending pods"
  unfolding scan_pods_def
  using scan_fold [OF assms, of now l pods
      "\<lparr>sc_eligible = 0, sc_healthy = 0, sc_seen = {}, sc_pending = pending, sc_due = []\<rparr>"]
  by (simp_all add: scan_ext_eq fun_eq_iff)

section \<open>Histories of scans\<close>

text \<open>What one scan reads, and a run of scans from a fresh watchdog.\<close>

record scan_input =
  in_owned :: "bool \<times> own_reason"
  in_now :: time
  in_pods :: "pod list"
  in_lookupIP :: "addr \<Rightarrow> bool"

definition new_watchdog :: "time \<Rightarrow> watchdog" where
  "new_watchdog grace = \<lparr>wd_gracePeriod = grace, wd_pending = Map.empty, wd_standDownLogged = False\<rparr>"

definition wd_step :: "watchdog \<Rightarrow> scan_input \<Rightarrow> watchdog \<times> (string \<times> string \<times> uid) list" where
  "wd_step w i = check w (in_owned i) (in_now i) (in_pods i) (in_lookupIP i)"

definition wd_run :: "time \<Rightarrow> scan_input list \<Rightarrow> watchdog" where
  "wd_run grace ins = foldl (\<lambda>w i. fst (wd_step w i)) (new_watchdog grace) ins"

text \<open>The deletions of the last of a run's scans.\<close>

definition wd_deletes :: "time \<Rightarrow> scan_input list \<Rightarrow> scan_input \<Rightarrow> (string \<times> string \<times> uid) list" where
  "wd_deletes grace ins i = snd (wd_step (wd_run grace ins) i)"

definition in_missing :: "scan_input \<Rightarrow> uid set" where
  "in_missing i = missing_uids (in_lookupIP i) (in_pods i)"

definition wd_due :: "watchdog \<Rightarrow> scan_input \<Rightarrow> pod list" where
  "wd_due w i = due_pods (wd_gracePeriod w) (in_now i) (in_lookupIP i) (wd_pending w) (in_pods i)"

text \<open>A scan completes when the node is owned and the blast radius is kept.\<close>

definition scan_completes :: "watchdog \<Rightarrow> scan_input \<Rightarrow> bool" where
  "scan_completes w i \<longleftrightarrow> fst (in_owned i) \<and> length (wd_due w i) \<le> blastRadiusLimit (eligible_count (in_pods i))"

lemma wd_step_eq:
  assumes "0 < wd_gracePeriod w"
  shows "wd_gracePeriod (fst (wd_step w i)) = wd_gracePeriod w"
    "wd_pending (fst (wd_step w i)) =
      (let p' = (\<lambda>u. if wd_pending w u = None \<and> u \<in> in_missing i then Some (in_now i) else wd_pending w u) in
       if \<not> fst (in_owned i) then wd_pending w else if scan_completes w i then p' |` in_missing i else p')"
    "snd (wd_step w i) = (if scan_completes w i then map heal (wd_due w i) else [])"
  by (auto simp: wd_step_def check_def scan_pods_eq [OF assms] Let_def scan_completes_def wd_due_def in_missing_def)

lemma wd_run_snoc: "wd_run grace (ins @ [i]) = fst (wd_step (wd_run grace ins) i)"
  by (simp add: wd_run_def)

lemma wd_run_grace: "0 < grace \<Longrightarrow> wd_gracePeriod (wd_run grace ins) = grace"
proof (induction ins rule: rev_induct)
  case Nil
  then show ?case by (simp add: wd_run_def new_watchdog_def)
next
  case (snoc i ins)
  then show ?case by (simp add: wd_run_snoc wd_step_eq(1))
qed

text \<open>
  A pending entry stems from a scan of an owned node that found the pod missing, and every completed scan
  since found it missing.
\<close>

definition missing_since :: "time \<Rightarrow> scan_input list \<Rightarrow> uid \<Rightarrow> nat \<Rightarrow> bool" where
  "missing_since grace ins u j \<longleftrightarrow> j < length ins \<and> fst (in_owned (ins ! j)) \<and> u \<in> in_missing (ins ! j) \<and>
     (\<forall>k. j \<le> k \<longrightarrow> k < length ins \<longrightarrow> scan_completes (wd_run grace (take k ins)) (ins ! k) \<longrightarrow> u \<in> in_missing (ins ! k))"

lemma missing_since_snoc:
  assumes "missing_since grace ins u j" "scan_completes (wd_run grace ins) i \<Longrightarrow> u \<in> in_missing i"
  shows "missing_since grace (ins @ [i]) u j"
  using assms by (auto simp: missing_since_def nth_append less_Suc_eq)

lemma wd_pending_sound:
  assumes "0 < grace"
  shows "wd_pending (wd_run grace ins) u = Some t \<Longrightarrow> \<exists>j. missing_since grace ins u j \<and> in_now (ins ! j) = t"
proof (induction ins arbitrary: t rule: rev_induct)
  case Nil
  then show ?case by (simp add: wd_run_def new_watchdog_def)
next
  case (snoc i ins)
  let ?w = "wd_run grace ins"
  have g: "0 < wd_gracePeriod ?w" using assms by (simp add: wd_run_grace)
  have st: "wd_pending (fst (wd_step ?w i)) u = Some t" using snoc.prems by (simp add: wd_run_snoc)
  have c: "u \<in> in_missing i" if "scan_completes ?w i"
  proof -
    have "fst (in_owned i)" using that by (simp add: scan_completes_def)
    then show ?thesis using st that unfolding wd_step_eq(2) [OF g] by (auto simp: Let_def restrict_map_def split: if_splits)
  qed
  show ?case
  proof (cases "wd_pending ?w u")
    case (Some t')
    then have "t' = t" using st unfolding wd_step_eq(2) [OF g] by (auto simp: Let_def restrict_map_def split: if_splits)
    with Some snoc.IH obtain j where j: "missing_since grace ins u j" "in_now (ins ! j) = t" by blast
    then have "in_now ((ins @ [i]) ! j) = t" by (simp add: missing_since_def nth_append)
    with missing_since_snoc [OF j(1) c] show ?thesis by blast
  next
    case None
    then have "fst (in_owned i)" "u \<in> in_missing i" "in_now i = t"
      using st unfolding wd_step_eq(2) [OF g] by (auto simp: Let_def restrict_map_def split: if_splits)
    then show ?thesis by (intro exI [of _ "length ins"]) (simp add: missing_since_def less_Suc_eq_le nth_append)
  qed
qed

text \<open>
  (C34) A pod is deleted only on a node whose pods are this agent's, only while it is running without an
  endpoint, only if a scan at least a grace period ago found it so and no completed scan since found
  otherwise; and one scan deletes at most three pods or a fifth of the eligible ones.
\<close>

theorem watchdog_deletes_safely:
  assumes "0 < grace" "length (in_pods i) < 2 ^ 50"
  shows "length (wd_deletes grace ins i) \<le> max 3 (eligible_count (in_pods i) div 5) \<and>
    (\<forall>(ns, n, u) \<in> set (wd_deletes grace ins i). fst (in_owned i) \<and>
      (\<exists>p \<in> set (in_pods i). heal p = (ns, n, u) \<and> pod_missing (in_lookupIP i) p) \<and>
      (\<exists>j. missing_since grace ins u j \<and> grace \<le> time_Sub (in_now i) (in_now (ins ! j))))"
proof -
  let ?w = "wd_run grace ins"
  have g: "0 < wd_gracePeriod ?w" "wd_gracePeriod ?w = grace" using assms(1) by (simp_all add: wd_run_grace)
  have "eligible_count (in_pods i) \<le> length (in_pods i)" by (simp add: eligible_count_def)
  then have lim: "blastRadiusLimit (eligible_count (in_pods i)) = max 3 (eligible_count (in_pods i) div 5)"
    using assms(2) by (simp add: blastRadiusLimit_def blastRadiusFloor_def float_fifth_eq del: power_numeral)
  have len: "length (wd_deletes grace ins i) \<le> max 3 (eligible_count (in_pods i) div 5)"
    unfolding wd_deletes_def wd_step_eq(3) [OF g(1)] using lim by (simp add: scan_completes_def)
  have "fst (in_owned i) \<and> (\<exists>p \<in> set (in_pods i). heal p = (ns, n, u) \<and> pod_missing (in_lookupIP i) p) \<and>
      (\<exists>j. missing_since grace ins u j \<and> grace \<le> time_Sub (in_now i) (in_now (ins ! j)))"
    if d: "(ns, n, u) \<in> set (wd_deletes grace ins i)" for ns n u
  proof -
    obtain p where p: "scan_completes ?w i" "p \<in> set (wd_due ?w i)" "heal p = (ns, n, u)"
      using d unfolding wd_deletes_def wd_step_eq(3) [OF g(1)] by (auto split: if_splits)
    then obtain t where t: "wd_pending ?w u = Some t" "grace \<le> time_Sub (in_now i) t" "p \<in> set (in_pods i)"
      "pod_missing (in_lookupIP i) p"
      unfolding wd_due_def due_pods_def g(2) by (auto simp: heal_def split: option.splits)
    from wd_pending_sound [OF assms(1) t(1)] t p show ?thesis by (auto simp: scan_completes_def)
  qed
  with len show ?thesis by blast
qed

text \<open>
  Example scans: pods by UID, the pod \<open>a\<close> at 10.0.1.9 and the others at 10.0.1.8, and the addresses that have
  an endpoint.
\<close>

definition ex_pod :: "string \<Rightarrow> pod" where
  "ex_pod u = \<lparr>pod_UID = u, pod_Namespace = ''default'', pod_Name = u, pod_HostNetwork = False,
     pod_DeletionTimestamp = None, pod_Phase = ''Running'',
     pod_PodIP = (if u = ''a'' then ''10.0.1.9'' else ''10.0.1.8'')\<rparr>"

definition ex_scan :: "time \<Rightarrow> string list \<Rightarrow> addr list \<Rightarrow> scan_input" where
  "ex_scan t us healthy = \<lparr>in_owned = (True, LabelIs CNIProviderConstellation), in_now = t,
     in_pods = map ex_pod us, in_lookupIP = (\<lambda>a. a \<in> set healthy)\<rparr>"

lemma ex_scan_sel [simp]:
  "in_now (ex_scan t us h) = t" "fst (in_owned (ex_scan t us h))" "length (in_pods (ex_scan t us h)) = length us"
  by (simp_all add: ex_scan_def)

lemma ParseAddr_ex: "ParseAddr ''10.0.1.9'' = Some (V4 0x0a000109)"
  by code_simp

lemma ex_pod_eligible: "pod_eligible (ex_pod u) = Some (V4 (if u = ''a'' then 0x0a000109 else 0x0a000108))"
  by (simp add: pod_eligible_def ex_pod_def ParseAddr_v4(1) ParseAddr_ex)

lemma ex_pod_sel: "pod_UID (ex_pod u) = u" "pod_Namespace (ex_pod u) = ''default''" "pod_Name (ex_pod u) = u"
  by (simp_all add: ex_pod_def)

lemmas ex_eval = ex_pod_eligible ex_pod_sel wd_deletes_def wd_run_def wd_step_def check_def scan_pods_def scan_pod_def
  new_watchdog_def ex_scan_def time_Sub_def heal_def blastRadiusLimit_def blastRadiusFloor_def float_fifth_eq restrict_map_def

theorem watchdog_deletes_safely_witness:
  "wd_deletes 90 [ex_scan 0 [''a''] []] (ex_scan 100 [''a''] []) = [(''default'', ''a'', ''a'')] \<and>
   (\<exists>j. missing_since 90 [ex_scan 0 [''a''] []] ''a'' j)"
proof -
  let ?ins = "[ex_scan 0 [''a''] []]" and ?i = "ex_scan 100 [''a''] []"
  have d: "wd_deletes 90 ?ins ?i = [(''default'', ''a'', ''a'')]" by (simp add: ex_eval)
  have "\<forall>(ns, n, u) \<in> set (wd_deletes 90 ?ins ?i). \<exists>j. missing_since 90 ?ins u j"
    using watchdog_deletes_safely [of 90 ?i ?ins] by fastforce
  with d show ?thesis by simp
qed

text \<open>
  The grace period is not restarted by every healthy observation: a scan that the blast radius guard
  stops forgets nothing, so a pod seen missing before it and healthy during it is deleted the next time it
  is seen missing, without waiting a grace period again.
\<close>

theorem watchdog_grace_not_restarted:
  assumes "0 < grace" "fst (in_owned s0)" "u \<in> in_missing s0" "u \<notin> in_missing s1"
    and "fst (in_owned s1)" "\<not> scan_completes (wd_run grace [s0]) s1"
    and "p \<in> set (in_pods s2)" "pod_UID p = u" "pod_missing (in_lookupIP s2) p"
    and "grace \<le> time_Sub (in_now s2) (in_now s0)" "scan_completes (wd_run grace [s0, s1]) s2"
  shows "heal p \<in> set (wd_deletes grace [s0, s1] s2)"
proof -
  have r: "wd_run grace [s0] = fst (wd_step (new_watchdog grace) s0)"
    "wd_run grace [s0, s1] = fst (wd_step (wd_run grace [s0]) s1)" by (simp_all add: wd_run_def)
  have g: "0 < wd_gracePeriod (new_watchdog grace)" "0 < wd_gracePeriod (wd_run grace [s0])"
    "wd_gracePeriod (wd_run grace [s0, s1]) = grace" "0 < wd_gracePeriod (wd_run grace [s0, s1])"
    using assms(1) by (simp_all add: wd_run_grace new_watchdog_def)
  have "wd_pending (wd_run grace [s0]) u = Some (in_now s0)"
    unfolding r(1) wd_step_eq(2) [OF g(1)] using assms(2,3) by (auto simp: Let_def new_watchdog_def)
  then have "wd_pending (wd_run grace [s0, s1]) u = Some (in_now s0)"
    unfolding r(2) wd_step_eq(2) [OF g(2)] using assms(5,6) by (auto simp: Let_def)
  then have "p \<in> set (wd_due (wd_run grace [s0, s1]) s2)"
    using assms(7-10) g(3) by (simp add: wd_due_def due_pods_def)
  then show ?thesis using assms(11) by (simp add: wd_deletes_def wd_step_eq(3) [OF g(4)])
qed

text \<open>
  Five pods lose their endpoints; at the second scan \<open>a\<close> is healthy again, but the other four exceed the
  limit; one second later \<open>a\<close> is missing for a moment and is deleted.
\<close>

theorem watchdog_grace_not_restarted_witness:
  "let us = [''a'', ''b'', ''c'', ''d'', ''e'']; s0 = ex_scan 0 us []; s1 = ex_scan 100 us [V4 0x0a000109];
       s2 = ex_scan 101 us [V4 0x0a000108] in
   ''a'' \<in> in_missing s0 \<and> ''a'' \<notin> in_missing s1 \<and> (''default'', ''a'', ''a'') \<in> set (wd_deletes 90 [s0, s1] s2)"
proof -
  define us :: "string list" where "us = [''a'', ''b'', ''c'', ''d'', ''e'']"
  define s0 s1 s2 where "s0 = ex_scan 0 us []" and "s1 = ex_scan 100 us [V4 0x0a000109]" and "s2 = ex_scan 101 us [V4 0x0a000108]"
  have m: "''a'' \<in> in_missing s0" "''a'' \<notin> in_missing s1"
    by (simp_all add: s0_def s1_def us_def ex_scan_def in_missing_def pod_missing_def ex_pod_eligible ex_pod_sel)
  have p: "ex_pod ''a'' \<in> set (in_pods s2)" "pod_UID (ex_pod ''a'') = ''a''" "pod_missing (in_lookupIP s2) (ex_pod ''a'')"
    by (simp_all add: s2_def us_def ex_scan_def pod_missing_def ex_pod_eligible ex_pod_sel)
  have w: "wd_pending (wd_run 90 [s0]) = [''a'' \<mapsto> 0, ''b'' \<mapsto> 0, ''c'' \<mapsto> 0, ''d'' \<mapsto> 0, ''e'' \<mapsto> 0]"
    by (auto simp: s0_def us_def ex_eval fun_eq_iff)
  have c1: "\<not> scan_completes (wd_run 90 [s0]) s1"
    by (simp add: scan_completes_def wd_due_def due_pods_def w wd_run_grace)
      (simp add: s1_def us_def ex_eval eligible_count_def pod_missing_def)
  have "wd_pending (wd_run 90 [s0, s1]) = wd_pending (wd_run 90 [s0])"
    using wd_step_eq(2) [of "wd_run 90 [s0]" s1] c1 wd_run_snoc [of 90 "[s0]" s1] w
    by (auto simp: wd_run_grace fun_eq_iff in_missing_def missing_uids_def)
      (auto simp: s1_def us_def ex_scan_def ex_pod_sel)
  then have c2: "scan_completes (wd_run 90 [s0, s1]) s2"
    by (simp add: scan_completes_def wd_due_def due_pods_def w wd_run_grace)
      (simp add: s2_def us_def ex_eval eligible_count_def pod_missing_def)
  have "heal (ex_pod ''a'') \<in> set (wd_deletes 90 [s0, s1] s2)"
    by (rule watchdog_grace_not_restarted [OF _ _ m _ c1 p _ c2]) (simp_all add: s0_def s1_def s2_def time_Sub_def)
  with m show ?thesis by (simp add: heal_def ex_pod_sel Let_def s0_def s1_def s2_def us_def)
qed

lemma time_Sub_mono: "t \<le> s \<Longrightarrow> time_Sub now s \<le> time_Sub now t"
  by (auto simp: time_Sub_def)

lemma wd_pending_kept:
  assumes "0 < grace" "j < length ins" "fst (in_owned (ins ! j))" "\<forall>k. j \<le> k \<longrightarrow> k < length ins \<longrightarrow> u \<in> in_missing (ins ! k)"
    and "\<forall>k < j. in_now (ins ! k) \<le> in_now (ins ! j)"
  shows "\<exists>t. wd_pending (wd_run grace ins) u = Some t \<and> t \<le> in_now (ins ! j)"
  using assms(2-5)
proof (induction ins rule: rev_induct)
  case (snoc i ins)
  let ?w = "wd_run grace ins"
  have g: "0 < wd_gracePeriod ?w" using assms(1) by (simp add: wd_run_grace)
  have ui: "u \<in> in_missing i" using snoc.prems(1,3) by (metis (no_types) less_Suc_eq_le length_append_singleton lessI nth_append_length)
  show ?case
  proof (cases "j < length ins")
    case True
    have "fst (in_owned (ins ! j))" "\<forall>k. j \<le> k \<longrightarrow> k < length ins \<longrightarrow> u \<in> in_missing (ins ! k)"
      "\<forall>k < j. in_now (ins ! k) \<le> in_now (ins ! j)"
      using snoc.prems True by (auto simp: nth_append split: if_splits dest: less_trans)
    with snoc.IH True obtain t where "wd_pending ?w u = Some t" "t \<le> in_now (ins ! j)" by blast
    with ui True show ?thesis unfolding wd_run_snoc wd_step_eq(2) [OF g] by (simp add: Let_def nth_append)
  next
    case False
    with snoc.prems(1) have j: "j = length ins" by simp
    have i: "fst (in_owned i)" "\<And>k. k < j \<Longrightarrow> in_now (ins ! k) \<le> in_now i"
      using snoc.prems(2,4) j by (auto simp: nth_append)
    have le: "t \<le> in_now i" if "wd_pending ?w u = Some t" for t
      using wd_pending_sound [OF assms(1) that] i(2) j by (auto simp: missing_since_def)
    show ?thesis unfolding wd_run_snoc wd_step_eq(2) [OF g] using i(1) ui j le
      by (cases "wd_pending ?w u") (auto simp: Let_def)
  qed
qed simp

text \<open>
  (C35) A pod that stays without endpoint is healed: once a scan of an owned node has seen it missing, and every
  scan since has, a scan at least a grace period later that completes asks for its deletion.
\<close>

theorem watchdog_heals:
  assumes "0 < grace" "j < length ins" "fst (in_owned (ins ! j))" "\<forall>k. j \<le> k \<longrightarrow> k < length ins \<longrightarrow> pod_UID p \<in> in_missing (ins ! k)"
    and "\<forall>k < j. in_now (ins ! k) \<le> in_now (ins ! j)" "grace \<le> time_Sub (in_now i) (in_now (ins ! j))"
    and "p \<in> set (in_pods i)" "pod_missing (in_lookupIP i) p" "scan_completes (wd_run grace ins) i"
  shows "heal p \<in> set (wd_deletes grace ins i)"
proof -
  have g: "wd_gracePeriod (wd_run grace ins) = grace" "0 < wd_gracePeriod (wd_run grace ins)"
    using assms(1) by (simp_all add: wd_run_grace)
  obtain t where t: "wd_pending (wd_run grace ins) (pod_UID p) = Some t" "t \<le> in_now (ins ! j)"
    using wd_pending_kept [OF assms(1-5)] by blast
  then have "grace \<le> time_Sub (in_now i) t" using assms(6) time_Sub_mono [OF t(2)] order_trans by blast
  then have "p \<in> set (wd_due (wd_run grace ins) i)" using t(1) assms(7,8) g(1) by (simp add: wd_due_def due_pods_def)
  then show ?thesis using assms(9) by (simp add: wd_deletes_def wd_step_eq(3) [OF g(2)])
qed

theorem watchdog_heals_witness:
  "(''default'', ''a'', ''a'') \<in> set (wd_deletes 90 [ex_scan 0 [''a''] []] (ex_scan 100 [''a''] []))"
proof -
  let ?i = "ex_scan 100 [''a''] []"
  have p: "ex_pod ''a'' \<in> set (in_pods ?i)" "pod_missing (in_lookupIP ?i) (ex_pod ''a'')"
    "pod_UID (ex_pod ''a'') \<in> in_missing (ex_scan 0 [''a''] [])"
    by (simp_all add: ex_scan_def in_missing_def pod_missing_def ex_pod_eligible ex_pod_sel)
  have c: "scan_completes (wd_run 90 [ex_scan 0 [''a''] []]) ?i"
    by (simp add: scan_completes_def wd_due_def due_pods_def wd_run_grace)
      (simp add: ex_eval eligible_count_def pod_missing_def)
  have "heal (ex_pod ''a'') \<in> set (wd_deletes 90 [ex_scan 0 [''a''] []] ?i)"
    by (rule watchdog_heals [OF _ _ _ _ _ _ p(1,2) c, of 0]) (use p(3) in \<open>simp_all add: time_Sub_def\<close>)
  then show ?thesis by (simp add: heal_def ex_pod_sel)
qed

section \<open>Ownership\<close>

lemma config_scan_Inl:
  "(\<exists>n. config_scan um rf ns seen = Inl n) \<longleftrightarrow>
   (\<exists>n \<in> set ns. \<exists>types. Option.bind (rf n) (cniPluginTypes um) = Some types \<and> ciliumCNIPluginName \<in> set types)"
  by (induction ns arbitrary: seen) (auto split: option.splits)

lemma config_names_iff:
  "n \<in> set (config_names entries) \<longleftrightarrow>
   (\<exists>e \<in> set entries. de_Name e = n \<and> \<not> de_IsDir e \<and> Ext n \<in> {''.conf'', ''.conflist'', ''.json''})"
  by (auto simp: config_names_def Let_def)

text \<open>
  The node's pods count as this agent's exactly when the local node could be read, its label names
  constellation, and some configuration file of the directory that can be read and decoded names
  \<open>cilium-cni\<close> as a plugin type.
\<close>

theorem cniOwned_iff:
  "fst (cniOwned localNode (nodeUsesCiliumCNI unmarshal confDir readDir readFile)) \<longleftrightarrow>
   (\<exists>labels entries e raw doc. localNode = Some labels \<and> labels CNIProviderLabel = Some CNIProviderConstellation \<and>
      readDir = Inr entries \<and> e \<in> set entries \<and> \<not> de_IsDir e \<and> Ext (de_Name e) \<in> {''.conf'', ''.conflist'', ''.json''} \<and>
      readFile (de_Name e) = Some raw \<and> unmarshal raw = Some doc \<and>
      (doc_Type doc = ciliumCNIPluginName \<or> ciliumCNIPluginName \<in> set (doc_Plugins doc)))"
proof -
  have t: "(\<exists>types. Option.bind r (cniPluginTypes unmarshal) = Some types \<and> ciliumCNIPluginName \<in> set types) \<longleftrightarrow>
      (\<exists>raw doc. r = Some raw \<and> unmarshal raw = Some doc \<and>
        (doc_Type doc = ciliumCNIPluginName \<or> ciliumCNIPluginName \<in> set (doc_Plugins doc)))" for r
    by (cases r) (auto simp: cniPluginTypes_def ciliumCNIPluginName_def Let_def filter_empty_conv split: option.splits)
  have c: "fst (nodeUsesCiliumCNI unmarshal confDir readDir readFile) \<longleftrightarrow>
      (\<exists>entries. readDir = Inr entries \<and> (\<exists>n. config_scan unmarshal readFile (config_names entries) [] = Inl n))"
    by (auto simp: nodeUsesCiliumCNI_def Let_def split: sum.splits dir_error.splits)
  have l: "fst (nodeLabelSaysCilium labels) \<longleftrightarrow> labels CNIProviderLabel = Some CNIProviderConstellation" for labels
    by (auto simp: nodeLabelSaysCilium_def split: option.splits)
  have o: "fst (cniOwned localNode conf) \<longleftrightarrow> (\<exists>labels. localNode = Some labels \<and> fst (nodeLabelSaysCilium labels) \<and> fst conf)" for conf
    by (auto simp: cniOwned_def split: option.splits prod.splits)
  show ?thesis unfolding o l c config_scan_Inl t config_names_iff Bex_def by fast
qed

end
