(* ===== verification/Managed_Nodes.thy ===== *)
theory Managed_Nodes
  imports Prelude "HOL-Library.Code_Target_Nat"
begin

text \<open>
  The nodes one agent serves. \<open>pkg/node/types/managed.go\<close> keeps the names, \<open>pkg/k8s/tables/nodewatcher.go\<close>
  discovers them at startup and follows the watch on node objects, \<open>pkg/nodediscovery/managed.go\<close> copies
  the agent's addresses onto their CiliumNodes, and \<open>pkg/defaults/instance.go\<close> scopes paths and devices to
  the agent's instance. The API server is an argument: its answers, call by call, and the CiliumNodes it
  stores.
\<close>

section \<open>The managed names\<close>

definition SetManagedNames :: "string list \<Rightarrow> string list \<Rightarrow> string list" where
  "SetManagedNames managed names = names"

definition GetManagedNames :: "string \<Rightarrow> string list \<Rightarrow> string list" where
  "GetManagedNames nodeName managed = (if length managed = 0 then [nodeName] else managed)"

definition IsManaged :: "string \<Rightarrow> string list \<Rightarrow> string \<Rightarrow> bool" where
  "IsManaged nodeName managed name \<longleftrightarrow> name \<in> set (GetManagedNames nodeName managed)"

section \<open>CiliumNodes\<close>

record cilium_node =
  cn_Addresses :: "(string \<times> string) list"
  cn_HealthIPv4 :: string
  cn_HealthIPv6 :: string
  cn_IngressIPv4 :: string
  cn_IngressIPv6 :: string
  cn_PodCIDRs :: "string list"

text \<open>
  What the API server answers to the calls of \<open>ensureCiliumNodeFromAPI\<close>: whether reading the CiliumNode
  fails for another reason than its absence, the core Node's addresses if it can be read, and whether a
  creation fails.
\<close>

record api_answers =
  api_getFails :: "string \<Rightarrow> bool"
  api_nodeAddresses :: "string \<Rightarrow> (string \<times> string) list option"
  api_createFails :: "string \<Rightarrow> bool"

definition first_internal_ip :: "(string \<times> string) list \<Rightarrow> string" where
  "first_internal_ip addrs = (case find (\<lambda>(t, a). t = ''InternalIP'') addrs of None \<Rightarrow> [] | Some (t, a) \<Rightarrow> a)"

definition ensureCiliumNodeFromAPI ::
  "api_answers \<Rightarrow> (string \<rightharpoonup> cilium_node) \<Rightarrow> string \<Rightarrow> (string \<rightharpoonup> cilium_node)" where
  "ensureCiliumNodeFromAPI api cns name =
     (if \<not> api_getFails api name \<and> cns name \<noteq> None then cns
      else case api_nodeAddresses api name of
        None \<Rightarrow> cns
      | Some addrs \<Rightarrow>
          (let nodeIP = first_internal_ip addrs in
           if nodeIP = [] then cns
           else if api_createFails api name \<or> cns name \<noteq> None then cns
           else cns(name \<mapsto> \<lparr>cn_Addresses = [(''InternalIP'', nodeIP)], cn_HealthIPv4 = nodeIP, cn_HealthIPv6 = [],
                    cn_IngressIPv4 = [], cn_IngressIPv6 = [], cn_PodCIDRs = []\<rparr>)))"

section \<open>Discovery at startup\<close>

datatype api_error = BadRequest | Invalid | Forbidden | Unreachable string

definition permanent_error :: "api_error \<Rightarrow> bool" where
  "permanent_error e \<longleftrightarrow> e = BadRequest \<or> e = Invalid \<or> e = Forbidden"

record tables_state =
  ts_managed :: "string list"
  ts_ciliumNodes :: "string \<rightharpoonup> cilium_node"

definition discoverManagedNodes ::
  "string \<Rightarrow> api_answers \<Rightarrow> (api_error, string list) result \<Rightarrow> tables_state \<Rightarrow> tables_state \<times> (api_error, string list) result" where
  "discoverManagedNodes localName api answer ts =
     (case answer of
        Inl e \<Rightarrow> (ts, Inl e)
      | Inr names \<Rightarrow>
          (let ts = (if length names > 0 then ts\<lparr>ts_managed := SetManagedNames (ts_managed ts) names\<rparr> else ts);
               cns = foldl (\<lambda>c n. if n = localName then c else ensureCiliumNodeFromAPI api c n) (ts_ciliumNodes ts) names
           in (ts\<lparr>ts_ciliumNodes := cns\<rparr>, Inr names)))"

text \<open>
  The retry loop. Attempt \<open>k\<close> takes \<open>dur k\<close> seconds and gives \<open>answer k\<close>; between attempts the loop waits
  five seconds and gives up when the five minutes of the context end during the wait. The result counts
  the calls of \<open>RotateAPIServerURL\<close>.
\<close>

datatype discover_error = Permanent api_error | GaveUp api_error

definition managedNodeDiscoveryTimeout :: nat where "managedNodeDiscoveryTimeout = 300"
definition managedNodeDiscoveryInterval :: nat where "managedNodeDiscoveryInterval = 5"

function discoverManagedNodesWithRetry ::
  "string \<Rightarrow> api_answers \<Rightarrow> (nat \<Rightarrow> (api_error, string list) result) \<Rightarrow> (nat \<Rightarrow> nat) \<Rightarrow> nat \<Rightarrow> nat \<Rightarrow> nat \<Rightarrow> tables_state \<Rightarrow>
   tables_state \<times> nat \<times> (discover_error, string list) result" where
  "discoverManagedNodesWithRetry localName api answer dur elapsed attempt rotations ts =
     (let (ts', r) = discoverManagedNodes localName api (answer attempt) ts in
      case r of
        Inr names \<Rightarrow> (ts', rotations, Inr names)
      | Inl e \<Rightarrow>
          if permanent_error e then (ts', rotations, Inl (Permanent e))
          else
            let elapsed = elapsed + dur attempt + managedNodeDiscoveryInterval in
            if managedNodeDiscoveryTimeout \<le> elapsed then (ts', rotations + 1, Inl (GaveUp e))
            else discoverManagedNodesWithRetry localName api answer dur elapsed (attempt + 1) (rotations + 1) ts')"
  by pat_completeness auto

termination
  by (relation "measure (\<lambda>(l, api, an, d, elapsed, a, r, ts). managedNodeDiscoveryTimeout - elapsed)")
    (auto simp: managedNodeDiscoveryInterval_def)

declare discoverManagedNodesWithRetry.simps [simp del]

section \<open>The node watcher\<close>

text \<open>
  \<open>nw_known\<close> is the Go set as a list without duplicates. \<open>nw_reflectors\<close> lists the pod reflectors that run,
  by node, and \<open>nw_pending\<close> those of them whose first list is not complete: registering one of the same
  name while it is pending panics in the table library. \<open>nw_notified\<close> records the calls of the node-added
  callbacks, \<open>nw_ensure\<close> the nodes for which the creation of a CiliumNode was started.
\<close>

record node_watcher =
  nw_known :: "string list"
  nw_managed :: "string list"
  nw_reflectors :: "string list"
  nw_pending :: "string list"
  nw_notified :: "string list"
  nw_ensure :: "string list"
  nw_panicked :: bool

text \<open>
  The known nodes are a set in the source, and \<open>knownNames\<close> lists them in an arbitrary order. Here the order is that of
  their arrival; what is stated of the names is stated of their set.
\<close>

definition knownNames :: "node_watcher \<Rightarrow> string list" where
  "knownNames nw = nw_known nw"

text \<open>The reflector of the local node keeps the plain name; the others carry their node's name.\<close>

definition reflector_name :: "string \<Rightarrow> string \<Rightarrow> string" where
  "reflector_name localName name = (if name \<noteq> localName then ''daemon-k8s/'' @ name else ''daemon-k8s'')"

text \<open>
  The only error that registering a reflector returns is an incomplete configuration, which the configuration of the pod reflector
  never is. A reflector whose name is still registered panics.
\<close>

definition RegisterReflector :: "string \<Rightarrow> node_watcher \<Rightarrow> string \<Rightarrow> node_watcher" where
  "RegisterReflector localName nw name =
     (if reflector_name localName name \<in> set (nw_pending nw) then nw\<lparr>nw_panicked := True\<rparr>
      else nw\<lparr>nw_reflectors := nw_reflectors nw @ [name],
              nw_pending := reflector_name localName name # nw_pending nw\<rparr>)"

record node_object =
  no_Name :: string
  no_Labels :: "string \<rightharpoonup> string"

datatype watch_event = Added "node_object option" | Modified "node_object option" | Deleted "node_object option" | OtherEvent

definition fireNodeAdded :: "node_watcher \<Rightarrow> string \<Rightarrow> node_watcher" where
  "fireNodeAdded nw name = nw\<lparr>nw_notified := nw_notified nw @ [name]\<rparr>"

definition handleAdded :: "string \<Rightarrow> ((string \<rightharpoonup> string) \<Rightarrow> bool) \<Rightarrow> node_object option \<Rightarrow> node_watcher \<Rightarrow> node_watcher" where
  "handleAdded localName matches ob nw =
     (case ob of
        None \<Rightarrow> nw
      | Some node \<Rightarrow>
          if \<not> matches (no_Labels node) then nw
          else
            (let name = no_Name node;
                 alreadyKnown = name \<in> set (nw_known nw);
                 nw = nw\<lparr>nw_known := List.insert name (nw_known nw)\<rparr>;
                 nw = (if \<not> alreadyKnown
                       then RegisterReflector localName (nw\<lparr>nw_managed := SetManagedNames (nw_managed nw) (knownNames nw)\<rparr>) name
                       else nw)
             in if nw_panicked nw then nw
                else fireNodeAdded (nw\<lparr>nw_ensure := nw_ensure nw @ [name]\<rparr>) name))"

definition handleDeleted :: "node_object option \<Rightarrow> node_watcher \<Rightarrow> node_watcher" where
  "handleDeleted ob nw =
     (case ob of
        None \<Rightarrow> nw
      | Some node \<Rightarrow>
          if no_Name node \<notin> set (nw_known nw) then nw
          else let nw = nw\<lparr>nw_known := remove1 (no_Name node) (nw_known nw)\<rparr>
               in nw\<lparr>nw_managed := SetManagedNames (nw_managed nw) (knownNames nw)\<rparr>)"

definition handleEvent :: "string \<Rightarrow> ((string \<rightharpoonup> string) \<Rightarrow> bool) \<Rightarrow> node_watcher \<Rightarrow> watch_event \<Rightarrow> node_watcher" where
  "handleEvent localName matches nw evt =
     (case evt of
        Added ob \<Rightarrow> handleAdded localName matches ob nw
      | Deleted ob \<Rightarrow> handleDeleted ob nw
      | _ \<Rightarrow> nw)"

text \<open>
  The startup path with a selector: the discovered names, or the local name when there are none, get their
  reflectors and become the watcher's known nodes.
\<close>

definition startNodeWatcher :: "node_watcher \<Rightarrow> string list \<Rightarrow> node_watcher" where
  "startNodeWatcher nw initialNames = nw\<lparr>nw_known := remdups initialNames\<rparr>"

definition NewPodTableAndReflector :: "string \<Rightarrow> string list \<Rightarrow> string list \<Rightarrow> node_watcher" where
  "NewPodTableAndReflector localName managed discovered =
     (let names = (if length discovered = 0 then [localName] else discovered);
          managed = (if length discovered = 0 then SetManagedNames managed names else managed);
          nw = \<lparr>nw_known = [], nw_managed = managed, nw_reflectors = [], nw_pending = [], nw_notified = [],
                nw_ensure = [], nw_panicked = False\<rparr>
      in startNodeWatcher (foldl (RegisterReflector localName) nw names) names)"

text \<open>Besides the events of the watch, a reflector's first list may complete.\<close>

datatype nw_step = WatchEvent watch_event | FirstListDone string

fun nw_exec :: "string \<Rightarrow> ((string \<rightharpoonup> string) \<Rightarrow> bool) \<Rightarrow> node_watcher \<Rightarrow> nw_step \<Rightarrow> node_watcher" where
  "nw_exec localName matches nw (WatchEvent evt) =
     (if nw_panicked nw then nw else handleEvent localName matches nw evt)"
| "nw_exec localName matches nw (FirstListDone n) = nw\<lparr>nw_pending := filter (\<lambda>x. x \<noteq> n) (nw_pending nw)\<rparr>"

section \<open>Copying the agent's addresses\<close>

datatype ip_family = IPv4Family | IPv6Family | UnknownFamily

text \<open>
  \<open>upsert\<close> replaces the first internal address of the family or appends one. The family of a text is an
  argument. The flag tells whether something changed.
\<close>

fun upsert_addr :: "(string \<Rightarrow> ip_family) \<Rightarrow> ip_family \<Rightarrow> string \<Rightarrow> (string \<times> string) list \<Rightarrow> (string \<times> string) list \<times> bool" where
  "upsert_addr familyOf fam ip [] = ([(''CiliumInternalIP'', ip)], True)"
| "upsert_addr familyOf fam ip ((t, a) # as) =
     (if t = ''CiliumInternalIP'' \<and> familyOf a = fam then
        (if a \<noteq> ip then ((t, ip) # as, True) else ((t, a) # as, False))
      else let (as', ch) = upsert_addr familyOf fam ip as in ((t, a) # as', ch))"

definition upsert :: "(string \<Rightarrow> ip_family) \<Rightarrow> ip_family \<Rightarrow> string \<Rightarrow> cilium_node \<times> bool \<Rightarrow> cilium_node \<times> bool" where
  "upsert familyOf fam ip = (\<lambda>(cn, changed).
     if ip = [] then (cn, changed)
     else let (as, ch) = upsert_addr familyOf fam ip (cn_Addresses cn) in (cn\<lparr>cn_Addresses := as\<rparr>, changed \<or> ch))"

record agent_ips =
  ai_v4 :: string
  ai_v6 :: string
  ai_healthV4 :: string
  ai_healthV6 :: string
  ai_ingressV4 :: string
  ai_ingressV6 :: string

definition merge_ips :: "(string \<Rightarrow> ip_family) \<Rightarrow> agent_ips \<Rightarrow> cilium_node \<Rightarrow> cilium_node \<times> bool" where
  "merge_ips familyOf ai cn =
     (let (cn, ch) = upsert familyOf IPv6Family (ai_v6 ai) (upsert familyOf IPv4Family (ai_v4 ai) (cn, False));
          (cn, ch) = (if ai_healthV4 ai \<noteq> [] \<and> cn_HealthIPv4 cn \<noteq> ai_healthV4 ai
                      then (cn\<lparr>cn_HealthIPv4 := ai_healthV4 ai\<rparr>, True) else (cn, ch));
          (cn, ch) = (if ai_healthV6 ai \<noteq> [] \<and> cn_HealthIPv6 cn \<noteq> ai_healthV6 ai
                      then (cn\<lparr>cn_HealthIPv6 := ai_healthV6 ai\<rparr>, True) else (cn, ch));
          (cn, ch) = (if ai_ingressV4 ai \<noteq> [] \<and> cn_IngressIPv4 cn \<noteq> ai_ingressV4 ai
                      then (cn\<lparr>cn_IngressIPv4 := ai_ingressV4 ai\<rparr>, True) else (cn, ch))
      in if ai_ingressV6 ai \<noteq> [] \<and> cn_IngressIPv6 cn \<noteq> ai_ingressV6 ai
         then (cn\<lparr>cn_IngressIPv6 := ai_ingressV6 ai\<rparr>, True) else (cn, ch))"

datatype update_answer = UpdateOk | UpdateConflict | UpdateFails

datatype sync_error = GetFailed | UpdateFailed | RetriesExhausted

definition maxRetryCount :: nat where "maxRetryCount = 10"

text \<open>
  \<open>syncManagedCiliumInternalIP\<close>: attempt \<open>k\<close> reads the CiliumNode \<open>get k\<close> (\<open>None\<close> is an error) and, when
  something changed, has its update answered by \<open>upd k\<close>. The result is the node as written, or \<open>None\<close>
  when nothing had to be written.
\<close>

fun sync_loop ::
  "(string \<Rightarrow> ip_family) \<Rightarrow> agent_ips \<Rightarrow> (nat \<Rightarrow> cilium_node option) \<Rightarrow> (nat \<Rightarrow> update_answer) \<Rightarrow> nat \<Rightarrow> nat \<Rightarrow>
   (sync_error, cilium_node option) result" where
  "sync_loop familyOf ai get upd 0 retry = Inl RetriesExhausted"
| "sync_loop familyOf ai get upd (Suc n) retry =
     (case get retry of
        None \<Rightarrow> Inl GetFailed
      | Some cn \<Rightarrow>
          (let (cn', changed) = merge_ips familyOf ai cn in
           if \<not> changed then Inr None
           else case upd retry of
                  UpdateOk \<Rightarrow> Inr (Some cn')
                | UpdateConflict \<Rightarrow> sync_loop familyOf ai get upd n (Suc retry)
                | UpdateFails \<Rightarrow> Inl UpdateFailed))"

definition syncManagedCiliumInternalIP ::
  "(string \<Rightarrow> ip_family) \<Rightarrow> agent_ips \<Rightarrow> (nat \<Rightarrow> cilium_node option) \<Rightarrow> (nat \<Rightarrow> update_answer) \<Rightarrow>
   (sync_error, cilium_node option) result" where
  "syncManagedCiliumInternalIP familyOf ai get upd = sync_loop familyOf ai get upd maxRetryCount 0"

text \<open>The nodes that are written: every managed one but the local one, and none at all without an internal address.\<close>

definition updateManagedCiliumInternalIPs :: "string \<Rightarrow> string list \<Rightarrow> agent_ips \<Rightarrow> string list" where
  "updateManagedCiliumInternalIPs localName managed ai =
     (let names = GetManagedNames localName managed in
      if length names \<le> 1 then []
      else if ai_v4 ai = [] \<and> ai_v6 ai = [] then []
      else filter (\<lambda>n. n \<noteq> localName) names)"

section \<open>Instances\<close>

record instance_paths =
  RuntimePath :: string
  LibraryPath :: string
  SockPath :: string
  ShellSockPath :: string
  MonitorSockPath1_2 :: string
  PidFilePath :: string
  DeleteQueueDir :: string
  DeleteQueueLockfile :: string
  BPFFSRoot :: string
  CertsDirectory :: string
  HostDevice :: string
  SecondHostDevice :: string
  IPIPv4Device :: string
  IPIPv6Device :: string
  GeneveDevice :: string
  VxlanDevice :: string

definition SetInstanceID :: "string \<Rightarrow> instance_paths" where
  "SetInstanceID i =
     (let runtime = ''/var/run/cilium/'' @ i; queue = runtime @ ''/deleteQueue'' in
      \<lparr>RuntimePath = runtime, LibraryPath = ''/var/lib/cilium/'' @ i, SockPath = runtime @ ''/cilium.sock'',
       ShellSockPath = runtime @ ''/shell.sock'', MonitorSockPath1_2 = runtime @ ''/monitor1_2.sock'',
       PidFilePath = runtime @ ''/cilium.pid'', DeleteQueueDir = queue, DeleteQueueLockfile = queue @ ''/lockfile'',
       BPFFSRoot = ''/sys/fs/bpf/constellation/'' @ i, CertsDirectory = runtime @ ''/certs'',
       HostDevice = ''cilium_host_'' @ i, SecondHostDevice = ''cilium_net_'' @ i, IPIPv4Device = ''cilium_ipip4_'' @ i,
       IPIPv6Device = ''cilium_ipip6_'' @ i, GeneveDevice = ''cilium_geneve_'' @ i, VxlanDevice = ''cilium_vxlan_'' @ i\<rparr>)"

definition default_paths :: instance_paths where
  "default_paths =
     \<lparr>RuntimePath = ''/var/run/cilium'', LibraryPath = ''/var/lib/cilium'', SockPath = ''/var/run/cilium/cilium.sock'',
      ShellSockPath = ''/var/run/cilium/shell.sock'', MonitorSockPath1_2 = ''/var/run/cilium/monitor1_2.sock'',
      PidFilePath = ''/var/run/cilium/cilium.pid'', DeleteQueueDir = ''/var/run/cilium/deleteQueue'',
      DeleteQueueLockfile = ''/var/run/cilium/deleteQueue/lockfile'', BPFFSRoot = ''/sys/fs/bpf'',
      CertsDirectory = ''/var/run/cilium/certs'', HostDevice = ''cilium_host'', SecondHostDevice = ''cilium_net'',
      IPIPv4Device = ''cilium_ipip4'', IPIPv6Device = ''cilium_ipip6'', GeneveDevice = ''cilium_geneve'',
      VxlanDevice = ''cilium_vxlan''\<rparr>"

text \<open>\<open>preScanInstanceID\<close> looks at the arguments before the flags are parsed.\<close>

fun preScanInstanceID :: "string list \<Rightarrow> instance_paths \<Rightarrow> instance_paths" where
  "preScanInstanceID [] paths = paths"
| "preScanInstanceID (arg # args) paths =
     (if take 14 arg = ''--instance-id='' then SetInstanceID (drop 14 arg)
      else if (arg = ''--instance-id'' \<or> arg = ''-instance-id'') \<and> args \<noteq> [] then SetInstanceID (hd args)
      else preScanInstanceID args paths)"

section \<open>Properties of the discovery\<close>

definition transient :: "(api_error, 'a) result \<Rightarrow> bool" where
  "transient r \<longleftrightarrow> (case r of Inl e \<Rightarrow> \<not> permanent_error e | Inr _ \<Rightarrow> False)"

lemma discover_fails [simp]: "discoverManagedNodes l api (Inl e) ts = (ts, Inl e)"
  by (simp add: discoverManagedNodes_def)

lemma discover_ok: "snd (discoverManagedNodes l api (Inr names) ts) = Inr names"
  by (simp add: discoverManagedNodes_def Let_def)

text \<open>When attempt \<open>k\<close> starts, if the first one starts at 0: each attempt before it took its time and was followed by the wait.\<close>

definition starts_at :: "(nat \<Rightarrow> nat) \<Rightarrow> nat \<Rightarrow> nat" where
  "starts_at dur k = (\<Sum>j < k. dur j + managedNodeDiscoveryInterval)"

lemma starts_at_simps [simp]:
  "starts_at dur 0 = 0" "starts_at dur (Suc k) = starts_at dur k + dur k + managedNodeDiscoveryInterval"
  by (simp_all add: starts_at_def)

lemma starts_at_ge: "5 * k \<le> starts_at dur k"
  by (induction k) (simp_all add: managedNodeDiscoveryInterval_def)

text \<open>
  The answer of attempt \<open>k\<close> decides, and it is the first that is not a transient failure, or the last before the time is up.
\<close>

definition decides :: "(nat \<Rightarrow> (api_error, string list) result) \<Rightarrow> (nat \<Rightarrow> nat) \<Rightarrow> nat \<Rightarrow> bool" where
  "decides answer dur k \<longleftrightarrow> (\<forall>j < k. transient (answer j)) \<and> starts_at dur k < managedNodeDiscoveryTimeout \<and>
     (transient (answer k) \<longrightarrow> managedNodeDiscoveryTimeout \<le> starts_at dur (Suc k))"

lemma discover_retry_spec:
  assumes "discoverManagedNodesWithRetry l api answer dur (starts_at dur attempt) attempt rot ts = (ts', rot', r)"
    and "starts_at dur attempt < managedNodeDiscoveryTimeout" "\<forall>j < attempt. transient (answer j)" "rot = attempt"
  shows "\<exists>k. decides answer dur k \<and>
    (case answer k of
       Inr names \<Rightarrow> r = Inr names \<and> ts' = fst (discoverManagedNodes l api (Inr names) ts) \<and> rot' = k
     | Inl e \<Rightarrow> ts' = ts \<and> (if permanent_error e then r = Inl (Permanent e) \<and> rot' = k else r = Inl (GaveUp e) \<and> rot' = k + 1))"
  using assms
proof (induction l api answer dur "starts_at dur attempt" attempt rot ts rule: discoverManagedNodesWithRetry.induct)
  case (1 l api answer dur attempt rot ts)
  note unf = discoverManagedNodesWithRetry.simps [of l api answer dur "starts_at dur attempt"]
  show ?case
  proof (cases "answer attempt")
    case (Inr names)
    then have "ts' = fst (discoverManagedNodes l api (Inr names) ts)" "rot' = rot" "r = Inr names"
      using "1.prems"(1) discover_ok [of l api names ts] by (auto simp: unf split: prod.splits)
    with Inr "1.prems"(2-4) show ?thesis by (intro exI [of _ attempt]) (auto simp: decides_def transient_def)
  next
    case (Inl e)
    let ?el = "starts_at dur attempt + dur attempt + managedNodeDiscoveryInterval"
    consider (perm) "permanent_error e" | (up) "\<not> permanent_error e" "managedNodeDiscoveryTimeout \<le> ?el"
      | (again) "\<not> permanent_error e" "?el < managedNodeDiscoveryTimeout" by linarith
    then show ?thesis
    proof cases
      case again
      have run: "discoverManagedNodesWithRetry l api answer dur (starts_at dur (attempt + 1)) (attempt + 1) (rot + 1) ts = (ts', rot', r)"
        using "1.prems"(1) Inl again by (simp add: unf)
      have "\<forall>j < attempt + 1. transient (answer j)" using "1.prems"(3) Inl again(1) by (auto simp: transient_def less_Suc_eq)
      moreover have d: "(ts, Inl e) = discoverManagedNodes l api (answer attempt) ts" using Inl by simp
      ultimately show ?thesis using "1.hyps" [OF refl d refl again(1) _ _ run] again(2) "1.prems"(4) by simp
    qed (use Inl "1.prems" in \<open>intro exI [of _ attempt]; auto simp: unf decides_def transient_def\<close>)+
  qed
qed

text \<open>
  (C37) Startup discovery always ends: whatever the API server answers and however long it takes, at most
  sixty attempts are made, five seconds apart, each failed one followed by one step to the next API server. It goes on after
  every transient failure until the five minutes are over, and no longer: the attempt that decides is the first whose answer is
  not a transient failure, or the last that starts in time. A list is returned and the nodes on it are managed (none on it: the managed
  nodes stay), a permanent error is returned at once, and a transient failure of the last attempt is returned as the reason to
  give up; an error leaves everything as it was.
\<close>

theorem discovery_ends:
  "\<exists>ts' rotations r k. discoverManagedNodesWithRetry localName api answer dur 0 0 0 ts = (ts', rotations, r) \<and>
    decides answer dur k \<and> k < 60 \<and>
    (case answer k of
       Inr names \<Rightarrow> r = Inr names \<and> rotations = k \<and> ts_managed ts' = (if names = [] then ts_managed ts else names)
     | Inl e \<Rightarrow> ts' = ts \<and>
         (if permanent_error e then r = Inl (Permanent e) \<and> rotations = k else r = Inl (GaveUp e) \<and> rotations = k + 1))"
proof -
  obtain ts' rot r where run: "discoverManagedNodesWithRetry localName api answer dur 0 0 0 ts = (ts', rot, r)"
    by (metis prod_cases3)
  have "(0 :: nat) < managedNodeDiscoveryTimeout" by (simp add: managedNodeDiscoveryTimeout_def)
  with discover_retry_spec [of localName api answer dur 0 0 ts ts' rot r] run obtain k where k: "decides answer dur k"
    "case answer k of
       Inr names \<Rightarrow> r = Inr names \<and> ts' = fst (discoverManagedNodes localName api (Inr names) ts) \<and> rot = k
     | Inl e \<Rightarrow> ts' = ts \<and> (if permanent_error e then r = Inl (Permanent e) \<and> rot = k else r = Inl (GaveUp e) \<and> rot = k + 1)"
    by auto
  moreover have "k < 60" using k(1) starts_at_ge [of k dur] by (simp add: decides_def managedNodeDiscoveryTimeout_def)
  ultimately show ?thesis using run
    by (intro exI [of _ ts'] exI [of _ rot] exI [of _ r] exI [of _ k])
      (auto simp: discoverManagedNodes_def Let_def SetManagedNames_def split: sum.splits)
qed

text \<open>
  Creating the CiliumNodes of managed nodes never changes one that exists, and never removes one.
\<close>

theorem discovery_keeps_ciliumNodes:
  "ts_ciliumNodes ts n = Some cn \<Longrightarrow>
   ts_ciliumNodes (fst (discoverManagedNodes localName api answer ts)) n = Some cn"
proof -
  assume a: "ts_ciliumNodes ts n = Some cn"
  have e: "ensureCiliumNodeFromAPI api c m n = Some cn" if "c n = Some cn" for c m
    using that by (auto simp: ensureCiliumNodeFromAPI_def Let_def split: option.splits)
  have "foldl (\<lambda>c m. if m = localName then c else ensureCiliumNodeFromAPI api c m) c names n = Some cn"
    if "c n = Some cn" for c names
    using that by (induction names arbitrary: c) (auto simp: e)
  with a show ?thesis by (auto simp: discoverManagedNodes_def Let_def split: sum.splits)
qed

theorem discovery_keeps_ciliumNodes_witness:
  "let cn = \<lparr>cn_Addresses = [], cn_HealthIPv4 = [], cn_HealthIPv6 = [], cn_IngressIPv4 = [], cn_IngressIPv6 = [],
        cn_PodCIDRs = [''10.0.1.0/24'']\<rparr>;
       api = \<lparr>api_getFails = (\<lambda>_. True), api_nodeAddresses = (\<lambda>_. Some [(''InternalIP'', ''10.1.1.1'')]), api_createFails = (\<lambda>_. False)\<rparr>;
       ts = \<lparr>ts_managed = [], ts_ciliumNodes = [''w1'' \<mapsto> cn]\<rparr>;
       ts' = fst (discoverManagedNodes ''host'' api (Inr [''host'', ''w1'', ''w2'']) ts)
   in ts_ciliumNodes ts' ''w1'' = Some cn \<and> ts_ciliumNodes ts' ''w2'' \<noteq> None \<and> ts_managed ts' = [''host'', ''w1'', ''w2'']"
proof -
  define cn where "cn = \<lparr>cn_Addresses = [], cn_HealthIPv4 = [], cn_HealthIPv6 = [], cn_IngressIPv4 = [], cn_IngressIPv6 = [],
        cn_PodCIDRs = [''10.0.1.0/24'']\<rparr>"
  define api where "api = \<lparr>api_getFails = (\<lambda>_. True), api_nodeAddresses = (\<lambda>_. Some [(''InternalIP'', ''10.1.1.1'')]), api_createFails = (\<lambda>_. False)\<rparr>"
  let ?ts = "\<lparr>ts_managed = [], ts_ciliumNodes = [''w1'' \<mapsto> cn]\<rparr>"
  have "ts_ciliumNodes (fst (discoverManagedNodes ''host'' api (Inr [''host'', ''w1'', ''w2'']) ?ts)) ''w1'' = Some cn"
    by (rule discovery_keeps_ciliumNodes) simp
  then show ?thesis
    by (simp add: Let_def flip: cn_def api_def)
      (simp add: discoverManagedNodes_def ensureCiliumNodeFromAPI_def first_internal_ip_def api_def SetManagedNames_def Let_def)
qed

section \<open>Properties of the watcher\<close>

text \<open>What the watcher promises: the set of known nodes follows the events.\<close>

fun track :: "((string \<rightharpoonup> string) \<Rightarrow> bool) \<Rightarrow> string set \<Rightarrow> nw_step \<Rightarrow> string set" where
  "track matches N (WatchEvent (Added (Some n))) = (if matches (no_Labels n) then insert (no_Name n) N else N)"
| "track matches N (WatchEvent (Deleted (Some n))) = N - {no_Name n}"
| "track matches N _ = N"

definition nw_inv :: "node_watcher \<Rightarrow> bool" where
  "nw_inv nw \<longleftrightarrow> distinct (nw_known nw) \<and> nw_managed nw = nw_known nw \<and> set (nw_known nw) \<subseteq> set (nw_reflectors nw)"

lemma RegisterReflector_sel [simp]:
  "nw_known (RegisterReflector l nw n) = nw_known nw" "nw_managed (RegisterReflector l nw n) = nw_managed nw"
  "nw_notified (RegisterReflector l nw n) = nw_notified nw" "nw_ensure (RegisterReflector l nw n) = nw_ensure nw"
  by (simp_all add: RegisterReflector_def)

lemma RegisterReflector_ok:
  "\<not> nw_panicked (RegisterReflector l nw n) \<Longrightarrow>
   nw_reflectors (RegisterReflector l nw n) = nw_reflectors nw @ [n] \<and> \<not> nw_panicked nw"
  by (auto simp: RegisterReflector_def split: if_splits)

lemma handleAdded_step:
  assumes "nw_inv nw" "\<not> nw_panicked (handleAdded l matches ob nw)" "\<not> nw_panicked nw"
  shows "nw_inv (handleAdded l matches ob nw) \<and>
    set (nw_known (handleAdded l matches ob nw)) = track matches (set (nw_known nw)) (WatchEvent (Added ob))"
proof (cases ob)
  case (Some node)
  show ?thesis
  proof (cases "matches (no_Labels node) \<and> no_Name node \<notin> set (nw_known nw)")
    case True
    let ?nw = "nw\<lparr>nw_known := List.insert (no_Name node) (nw_known nw), nw_managed := List.insert (no_Name node) (nw_known nw)\<rparr>"
    have e: "handleAdded l matches ob nw = (let r = RegisterReflector l ?nw (no_Name node) in
        if nw_panicked r then r else fireNodeAdded (r\<lparr>nw_ensure := nw_ensure r @ [no_Name node]\<rparr>) (no_Name node))"
      using True by (simp add: handleAdded_def Some knownNames_def SetManagedNames_def Let_def)
    then have "\<not> nw_panicked (RegisterReflector l ?nw (no_Name node))"
      using assms(2) by (auto simp: Let_def split: if_splits)
    with RegisterReflector_ok [of l ?nw "no_Name node"] e True assms(1) show ?thesis
      by (auto simp: nw_inv_def Let_def fireNodeAdded_def Some)
  next
    case False
    then show ?thesis using assms
      by (auto simp: handleAdded_def Some Let_def fireNodeAdded_def nw_inv_def insert_absorb)
  qed
qed (use assms in \<open>simp add: handleAdded_def\<close>)

lemma handleDeleted_step:
  assumes "nw_inv nw"
  shows "nw_inv (handleDeleted ob nw) \<and>
    set (nw_known (handleDeleted ob nw)) = track matches (set (nw_known nw)) (WatchEvent (Deleted ob))"
  using assms by (auto simp: handleDeleted_def nw_inv_def knownNames_def SetManagedNames_def Let_def split: option.splits
      dest: notin_set_remove1)

lemma nw_exec_step:
  assumes "nw_inv nw" "\<not> nw_panicked (nw_exec l matches nw e)"
  shows "nw_inv (nw_exec l matches nw e) \<and> \<not> nw_panicked nw \<and>
    set (nw_known (nw_exec l matches nw e)) = track matches (set (nw_known nw)) e"
proof (cases e)
  case (WatchEvent evt)
  then have np: "\<not> nw_panicked nw" using assms(2) by (auto split: if_splits)
  show ?thesis
  proof (cases evt)
    case (Added ob)
    with WatchEvent np assms handleAdded_step [OF assms(1), of l matches ob] show ?thesis by (simp add: handleEvent_def)
  next
    case (Deleted ob)
    with WatchEvent np assms handleDeleted_step [OF assms(1), of ob matches] show ?thesis by (simp add: handleEvent_def)
  qed (use WatchEvent np assms in \<open>simp_all add: handleEvent_def\<close>)
qed (use assms in \<open>auto simp: nw_inv_def\<close>)

lemma nw_run_steps:
  assumes "nw_inv nw" "\<not> nw_panicked (foldl (nw_exec l matches) nw es)"
  shows "nw_inv (foldl (nw_exec l matches) nw es) \<and> \<not> nw_panicked nw \<and>
    set (nw_known (foldl (nw_exec l matches) nw es)) = foldl (track matches) (set (nw_known nw)) es"
  using assms
proof (induction es rule: rev_induct)
  case (snoc e es)
  let ?nw = "foldl (nw_exec l matches) nw es"
  have np: "\<not> nw_panicked ?nw"
    using snoc.prems(2) by (cases e) (auto split: if_splits)
  with snoc.IH snoc.prems(1) nw_exec_step [of ?nw l matches e] snoc.prems(2) show ?case by simp
qed simp

lemma reflector_name_inj: "reflector_name l m = reflector_name l n \<longleftrightarrow> m = n"
  by (auto simp: reflector_name_def)

lemma startup_registers:
  assumes "distinct names" "reflector_name l ` set names \<inter> set (nw_pending nw) = {}" "\<not> nw_panicked nw"
  shows "\<not> nw_panicked (foldl (RegisterReflector l) nw names) \<and>
    nw_reflectors (foldl (RegisterReflector l) nw names) = nw_reflectors nw @ names \<and>
    nw_managed (foldl (RegisterReflector l) nw names) = nw_managed nw"
  using assms
proof (induction names arbitrary: nw)
  case (Cons n names)
  have p: "reflector_name l n \<notin> set (nw_pending nw)" using Cons.prems(2) by auto
  then have "reflector_name l ` set names \<inter> set (nw_pending (RegisterReflector l nw n)) = {}"
    using Cons.prems(1,2) by (auto simp: RegisterReflector_def reflector_name_inj)
  from Cons.IH [OF _ this] Cons.prems(1,3) p show ?case by (simp add: RegisterReflector_def)
qed simp

lemma startup_inv:
  fixes l :: string
  assumes "distinct discovered" "discovered \<noteq> [] \<longrightarrow> managed = discovered"
  defines "names \<equiv> if discovered = [] then [l] else discovered"
  shows "nw_inv (NewPodTableAndReflector l managed discovered) \<and> \<not> nw_panicked (NewPodTableAndReflector l managed discovered) \<and>
    nw_known (NewPodTableAndReflector l managed discovered) = names"
proof -
  let ?nw = "\<lparr>nw_known = [], nw_managed = names, nw_reflectors = [], nw_pending = [], nw_notified = [],
      nw_ensure = [], nw_panicked = False\<rparr>"
  have d: "distinct names" using assms(1) by (simp add: names_def)
  have "NewPodTableAndReflector l managed discovered = startNodeWatcher (foldl (RegisterReflector l) ?nw names) names"
    using assms(2) by (auto simp: NewPodTableAndReflector_def names_def SetManagedNames_def Let_def)
  with startup_registers [OF d, of l ?nw] d show ?thesis by (simp add: startNodeWatcher_def nw_inv_def distinct_remdups_id)
qed

text \<open>
  (C38) After startup and any sequence of watch events, the known nodes are those the events leave: the
  discovered ones, plus the added ones that match the selector, minus the deleted ones. Exactly these are
  managed (the local node alone when there are none), and each of them has a pod reflector.
\<close>

theorem node_watcher_follows_events:
  assumes "distinct discovered" "discovered \<noteq> [] \<longrightarrow> managed = discovered"
    and "nw = foldl (nw_exec localName matches) (NewPodTableAndReflector localName managed discovered) es" "\<not> nw_panicked nw"
  shows "set (nw_known nw) = foldl (track matches) (set (if discovered = [] then [localName] else discovered)) es \<and>
    (\<forall>n. IsManaged localName (nw_managed nw) n \<longleftrightarrow> (if nw_known nw = [] then n = localName else n \<in> set (nw_known nw))) \<and>
    set (nw_known nw) \<subseteq> set (nw_reflectors nw)"
proof -
  let ?nw0 = "NewPodTableAndReflector localName managed discovered"
  have i: "nw_inv ?nw0" "nw_known ?nw0 = (if discovered = [] then [localName] else discovered)"
    using startup_inv [OF assms(1,2), of localName] by simp_all
  from nw_run_steps [OF i(1), of localName matches es] assms(3,4) i(2)
  have "nw_inv nw" "set (nw_known nw) = foldl (track matches) (set (if discovered = [] then [localName] else discovered)) es"
    by simp_all
  then show ?thesis by (auto simp: nw_inv_def IsManaged_def GetManagedNames_def)
qed

theorem node_watcher_follows_events_witness:
  "let nw = foldl (nw_exec ''host'' (\<lambda>l. l ''host'' = Some ''h1'')) (NewPodTableAndReflector ''host'' [''w1''] [''w1''])
        [WatchEvent (Added (Some \<lparr>no_Name = ''w2'', no_Labels = [''host'' \<mapsto> ''h1'']\<rparr>)),
         WatchEvent (Added (Some \<lparr>no_Name = ''x'', no_Labels = [''host'' \<mapsto> ''h2'']\<rparr>)),
         WatchEvent (Deleted (Some \<lparr>no_Name = ''w1'', no_Labels = Map.empty\<rparr>))]
   in set (nw_known nw) = {''w2''} \<and> IsManaged ''host'' (nw_managed nw) ''w2'' \<and> \<not> IsManaged ''host'' (nw_managed nw) ''w1''"
proof -
  let ?m = "\<lambda>l :: string \<rightharpoonup> string. l ''host'' = Some ''h1''"
  let ?es = "[WatchEvent (Added (Some \<lparr>no_Name = ''w2'', no_Labels = [''host'' \<mapsto> ''h1'']\<rparr>)),
         WatchEvent (Added (Some \<lparr>no_Name = ''x'', no_Labels = [''host'' \<mapsto> ''h2'']\<rparr>)),
         WatchEvent (Deleted (Some \<lparr>no_Name = ''w1'', no_Labels = Map.empty\<rparr>))]"
  define nw where "nw = foldl (nw_exec ''host'' ?m) (NewPodTableAndReflector ''host'' [''w1''] [''w1'']) ?es"
  have "\<not> nw_panicked nw"
    by (simp add: nw_def NewPodTableAndReflector_def startNodeWatcher_def RegisterReflector_def handleEvent_def handleAdded_def
        handleDeleted_def fireNodeAdded_def reflector_name_def Let_def)
  note f = node_watcher_follows_events [of "[''w1'']" "[''w1'']" nw "''host''" ?m ?es, OF _ _ nw_def this]
  have "set (nw_known nw) = {''w2''}" using f by (simp add: insert_Diff_if)
  with f show ?thesis unfolding Let_def nw_def [symmetric] by (cases "nw_known nw") auto
qed

text \<open>
  A node that is deleted and added again gets another pod reflector although the first one still
  runs; and if the first one has not completed its initial list, registering the second panics.
\<close>

theorem node_watcher_readd:
  assumes "no_Name node \<in> set (nw_known nw)" "distinct (nw_known nw)" "\<not> nw_panicked nw" "matches (no_Labels node)"
  shows "let nw' = handleEvent localName matches (handleEvent localName matches nw (Deleted (Some node))) (Added (Some node)) in
    if reflector_name localName (no_Name node) \<in> set (nw_pending nw) then nw_panicked nw'
    else \<not> nw_panicked nw' \<and> nw_reflectors nw' = nw_reflectors nw @ [no_Name node]"
  using assms by (simp add: handleEvent_def handleAdded_def handleDeleted_def Let_def RegisterReflector_def fireNodeAdded_def
      knownNames_def SetManagedNames_def)

theorem node_watcher_readd_witness:
  "let node = \<lparr>no_Name = ''w1'', no_Labels = Map.empty\<rparr>; nw = NewPodTableAndReflector ''host'' [''w1''] [''w1''];
       nw' = handleEvent ''host'' (\<lambda>_. True) (handleEvent ''host'' (\<lambda>_. True) nw (Deleted (Some node))) (Added (Some node))
   in nw_panicked nw'"
proof -
  let ?node = "\<lparr>no_Name = ''w1'', no_Labels = Map.empty\<rparr>"
  define nw where "nw = NewPodTableAndReflector ''host'' [''w1''] [''w1'']"
  have nw: "no_Name ?node \<in> set (nw_known nw)" "distinct (nw_known nw)" "\<not> nw_panicked nw"
    "reflector_name ''host'' ''w1'' \<in> set (nw_pending nw)"
    by (simp_all add: nw_def NewPodTableAndReflector_def startNodeWatcher_def RegisterReflector_def Let_def)
  from node_watcher_readd [OF nw(1-3), of "\<lambda>_. True" "''host''"] nw(4) show ?thesis by (simp add: Let_def nw_def)
qed

section \<open>Properties of the address synchronisation\<close>

definition internal :: "(string \<Rightarrow> ip_family) \<Rightarrow> ip_family \<Rightarrow> string \<times> string \<Rightarrow> bool" where
  "internal familyOf fam = (\<lambda>(t, a). t = ''CiliumInternalIP'' \<and> familyOf a = fam)"

lemma upsert_addr_spec:
  assumes "f ip = fam" "upsert_addr f fam ip as = (bs, ch)"
  shows "find (internal f fam) bs = Some (''CiliumInternalIP'', ip) \<and>
    filter (\<lambda>x. \<not> internal f fam x) bs = filter (\<lambda>x. \<not> internal f fam x) as \<and>
    (ch \<longleftrightarrow> find (internal f fam) as \<noteq> Some (''CiliumInternalIP'', ip)) \<and> (\<not> ch \<longrightarrow> bs = as) \<and>
    (\<forall>fam'. fam' \<noteq> fam \<longrightarrow> find (internal f fam') bs = find (internal f fam') as)"
  using assms(2)
proof (induction as arbitrary: bs ch)
  case Nil
  with assms(1) show ?case by (auto simp: internal_def)
next
  case (Cons x as)
  obtain t a where x: "x = (t, a)" by (cases x)
  obtain cs c where r: "upsert_addr f fam ip as = (cs, c)" by (cases "upsert_addr f fam ip as")
  show ?case
  proof (cases "internal f fam x")
    case True
    then show ?thesis using Cons.prems assms(1) by (auto simp: x internal_def split: if_splits)
  next
    case False
    then have e: "bs = x # cs" "ch = c" using Cons.prems r by (auto simp: x internal_def)
    show ?thesis using Cons.IH [OF r] False by (simp add: e)
  qed
qed

text \<open>A CiliumNode advertises the agent's addresses.\<close>

definition has_ips :: "(string \<Rightarrow> ip_family) \<Rightarrow> agent_ips \<Rightarrow> cilium_node \<Rightarrow> bool" where
  "has_ips f ai cn \<longleftrightarrow>
     (ai_v4 ai \<noteq> [] \<longrightarrow> find (internal f IPv4Family) (cn_Addresses cn) = Some (''CiliumInternalIP'', ai_v4 ai)) \<and>
     (ai_v6 ai \<noteq> [] \<longrightarrow> find (internal f IPv6Family) (cn_Addresses cn) = Some (''CiliumInternalIP'', ai_v6 ai)) \<and>
     (ai_healthV4 ai \<noteq> [] \<longrightarrow> cn_HealthIPv4 cn = ai_healthV4 ai) \<and> (ai_healthV6 ai \<noteq> [] \<longrightarrow> cn_HealthIPv6 cn = ai_healthV6 ai) \<and>
     (ai_ingressV4 ai \<noteq> [] \<longrightarrow> cn_IngressIPv4 cn = ai_ingressV4 ai) \<and> (ai_ingressV6 ai \<noteq> [] \<longrightarrow> cn_IngressIPv6 cn = ai_ingressV6 ai)"

text \<open>What a synchronisation leaves alone: the pod CIDRs and every address that is not an internal one.\<close>

definition keeps_rest :: "cilium_node \<Rightarrow> cilium_node \<Rightarrow> bool" where
  "keeps_rest cn cn' \<longleftrightarrow> cn_PodCIDRs cn' = cn_PodCIDRs cn \<and>
     filter (\<lambda>(t, a). t \<noteq> ''CiliumInternalIP'') (cn_Addresses cn') = filter (\<lambda>(t, a). t \<noteq> ''CiliumInternalIP'') (cn_Addresses cn)"

definition good_ips :: "(string \<Rightarrow> ip_family) \<Rightarrow> agent_ips \<Rightarrow> bool" where
  "good_ips f ai \<longleftrightarrow> (ai_v4 ai \<noteq> [] \<longrightarrow> f (ai_v4 ai) = IPv4Family) \<and> (ai_v6 ai \<noteq> [] \<longrightarrow> f (ai_v6 ai) = IPv6Family)"

lemma filter_internal:
  assumes "filter (\<lambda>x. \<not> internal f fam x) bs = filter (\<lambda>x. \<not> internal f fam x) as"
  shows "filter (\<lambda>(t, a). t \<noteq> ''CiliumInternalIP'') bs = filter (\<lambda>(t, a). t \<noteq> ''CiliumInternalIP'') as"
proof -
  have "filter (\<lambda>(t, a). t \<noteq> ''CiliumInternalIP'') xs =
      filter (\<lambda>(t, a). t \<noteq> ''CiliumInternalIP'') (filter (\<lambda>x. \<not> internal f fam x) xs)" for xs :: "(string \<times> string) list"
    by (induction xs) (auto simp: internal_def)
  with assms show ?thesis by metis
qed

text \<open>One family: the address is in place afterwards, the rest and the other family are kept.\<close>

definition addr_in_place :: "(string \<Rightarrow> ip_family) \<Rightarrow> ip_family \<Rightarrow> string \<Rightarrow> cilium_node \<Rightarrow> bool" where
  "addr_in_place f fam ip cn \<longleftrightarrow> (ip \<noteq> [] \<longrightarrow> find (internal f fam) (cn_Addresses cn) = Some (''CiliumInternalIP'', ip))"

lemma upsert_spec:
  assumes "ip \<noteq> [] \<longrightarrow> f ip = fam" "upsert f fam ip (cn, ch) = (cn', ch')"
  shows "addr_in_place f fam ip cn'" "keeps_rest cn cn'" "ch' \<longleftrightarrow> ch \<or> \<not> addr_in_place f fam ip cn"
    "addr_in_place f fam ip cn \<Longrightarrow> cn' = cn" "cn' = cn\<lparr>cn_Addresses := cn_Addresses cn'\<rparr>"
    "fam' \<noteq> fam \<Longrightarrow> addr_in_place f fam' ip' cn' = addr_in_place f fam' ip' cn"
proof -
  obtain bs c where r: "upsert_addr f fam ip (cn_Addresses cn) = (bs, c)" by (cases "upsert_addr f fam ip (cn_Addresses cn)")
  have e: "cn' = (if ip = [] then cn else cn\<lparr>cn_Addresses := bs\<rparr>)" "ch' = (if ip = [] then ch else ch \<or> c)"
    using assms(2) r by (auto simp: upsert_def split: if_splits)
  have u: "find (internal f fam) bs = Some (''CiliumInternalIP'', ip)"
    "filter (\<lambda>(t, a). t \<noteq> ''CiliumInternalIP'') bs = filter (\<lambda>(t, a). t \<noteq> ''CiliumInternalIP'') (cn_Addresses cn)"
    "c \<longleftrightarrow> find (internal f fam) (cn_Addresses cn) \<noteq> Some (''CiliumInternalIP'', ip)" "\<not> c \<Longrightarrow> bs = cn_Addresses cn"
    "\<And>fam'. fam' \<noteq> fam \<Longrightarrow> find (internal f fam') bs = find (internal f fam') (cn_Addresses cn)" if "ip \<noteq> []"
    using upsert_addr_spec [OF _ r] assms(1) filter_internal [of f fam bs] that by simp_all
  show "addr_in_place f fam ip cn'" "keeps_rest cn cn'" "ch' \<longleftrightarrow> ch \<or> \<not> addr_in_place f fam ip cn"
    "addr_in_place f fam ip cn \<Longrightarrow> cn' = cn" "cn' = cn\<lparr>cn_Addresses := cn_Addresses cn'\<rparr>"
    "fam' \<noteq> fam \<Longrightarrow> addr_in_place f fam' ip' cn' = addr_in_place f fam' ip' cn"
    using e u by (cases "ip = []"; simp add: addr_in_place_def keeps_rest_def)+
qed

lemma upsert_id:
  assumes "ip \<noteq> [] \<longrightarrow> f ip = fam" "addr_in_place f fam ip cn" shows "upsert f fam ip (cn, ch) = (cn, ch)"
proof -
  obtain cn' ch' where u: "upsert f fam ip (cn, ch) = (cn', ch')" by fastforce
  from upsert_spec(3,4) [OF assms(1) u] assms(2) u show ?thesis by simp
qed

lemma keeps_rest_trans: "keeps_rest a b \<Longrightarrow> keeps_rest b c \<Longrightarrow> keeps_rest a c"
  by (simp add: keeps_rest_def)

definition overwrite :: "string \<Rightarrow> string \<Rightarrow> string" where
  "overwrite new old = (if new \<noteq> [] then new else old)"

definition outdated :: "string \<Rightarrow> string \<Rightarrow> bool" where
  "outdated new old \<longleftrightarrow> new \<noteq> [] \<and> old \<noteq> new"

lemma overwrite_cases: "outdated new old \<Longrightarrow> overwrite new old = new" "\<not> outdated new old \<Longrightarrow> overwrite new old = old"
  by (auto simp: overwrite_def outdated_def)

lemma merge_ips_eq:
  assumes "upsert f IPv6Family (ai_v6 ai) (upsert f IPv4Family (ai_v4 ai) (cn, False)) = (c, h)"
  shows "merge_ips f ai cn =
    (c\<lparr>cn_HealthIPv4 := overwrite (ai_healthV4 ai) (cn_HealthIPv4 c), cn_HealthIPv6 := overwrite (ai_healthV6 ai) (cn_HealthIPv6 c),
       cn_IngressIPv4 := overwrite (ai_ingressV4 ai) (cn_IngressIPv4 c), cn_IngressIPv6 := overwrite (ai_ingressV6 ai) (cn_IngressIPv6 c)\<rparr>,
     h \<or> outdated (ai_healthV4 ai) (cn_HealthIPv4 c) \<or> outdated (ai_healthV6 ai) (cn_HealthIPv6 c) \<or>
       outdated (ai_ingressV4 ai) (cn_IngressIPv4 c) \<or> outdated (ai_ingressV6 ai) (cn_IngressIPv6 c))"
  unfolding merge_ips_def assms
  by (cases "outdated (ai_healthV4 ai) (cn_HealthIPv4 c)"; cases "outdated (ai_healthV6 ai) (cn_HealthIPv6 c)";
      cases "outdated (ai_ingressV4 ai) (cn_IngressIPv4 c)"; cases "outdated (ai_ingressV6 ai) (cn_IngressIPv6 c)";
      simp add: overwrite_cases flip: outdated_def)

text \<open>
  The node to write: the first internal address of a family gives way to the agent's, or the agent's is appended if there is
  none; the health and ingress addresses are the agent's where the agent has them. All else stays.
\<close>

definition put_internal :: "(string \<Rightarrow> ip_family) \<Rightarrow> ip_family \<Rightarrow> string \<Rightarrow> (string \<times> string) list \<Rightarrow> (string \<times> string) list" where
  "put_internal f fam ip as =
     (if ip = [] then as
      else takeWhile (\<lambda>x. \<not> internal f fam x) as @ [(''CiliumInternalIP'', ip)] @ tl (dropWhile (\<lambda>x. \<not> internal f fam x) as))"

definition expected_node :: "(string \<Rightarrow> ip_family) \<Rightarrow> agent_ips \<Rightarrow> cilium_node \<Rightarrow> cilium_node" where
  "expected_node f ai cn =
     cn\<lparr>cn_Addresses := put_internal f IPv6Family (ai_v6 ai) (put_internal f IPv4Family (ai_v4 ai) (cn_Addresses cn)),
        cn_HealthIPv4 := overwrite (ai_healthV4 ai) (cn_HealthIPv4 cn), cn_HealthIPv6 := overwrite (ai_healthV6 ai) (cn_HealthIPv6 cn),
        cn_IngressIPv4 := overwrite (ai_ingressV4 ai) (cn_IngressIPv4 cn), cn_IngressIPv6 := overwrite (ai_ingressV6 ai) (cn_IngressIPv6 cn)\<rparr>"

lemma upsert_addr_put: "ip \<noteq> [] \<Longrightarrow> fst (upsert_addr f fam ip as) = put_internal f fam ip as"
  by (induction as) (auto simp: put_internal_def internal_def case_prod_unfold Let_def)

lemma upsert_put: "fst (upsert f fam ip (cn, ch)) = cn\<lparr>cn_Addresses := put_internal f fam ip (cn_Addresses cn)\<rparr>"
proof (cases "ip = []")
  case True
  then show ?thesis by (cases cn) (simp add: upsert_def put_internal_def)
next
  case False
  then show ?thesis using upsert_addr_put [of ip f fam "cn_Addresses cn"] by (simp add: upsert_def case_prod_unfold Let_def)
qed

lemma merge_ips_spec:
  assumes "good_ips f ai" "merge_ips f ai cn = (cn', ch)"
  shows "has_ips f ai cn'" "keeps_rest cn cn'" "ch \<longleftrightarrow> \<not> has_ips f ai cn" "cn' = expected_node f ai cn"
proof -
  obtain c1 h1 where u1: "upsert f IPv4Family (ai_v4 ai) (cn, False) = (c1, h1)" by fastforce
  obtain c2 h2 where u2: "upsert f IPv6Family (ai_v6 ai) (c1, h1) = (c2, h2)" by fastforce
  have g: "ai_v4 ai \<noteq> [] \<longrightarrow> f (ai_v4 ai) = IPv4Family" "ai_v6 ai \<noteq> [] \<longrightarrow> f (ai_v6 ai) = IPv6Family"
    using assms(1) by (simp_all add: good_ips_def)
  note s1 = upsert_spec [OF g(1) u1] and s2 = upsert_spec [OF g(2) u2]
  note e = merge_ips_eq [of f ai cn, unfolded u1, OF u2, unfolded assms(2), unfolded prod.inject]
  have rest: "cn_HealthIPv4 c2 = cn_HealthIPv4 cn" "cn_HealthIPv6 c2 = cn_HealthIPv6 cn"
    "cn_IngressIPv4 c2 = cn_IngressIPv4 cn" "cn_IngressIPv6 c2 = cn_IngressIPv6 cn"
    by (subst s2(5), subst s1(5), simp)+
  have "keeps_rest cn c2" using s1(2) s2(2) by (rule keeps_rest_trans)
  then show "keeps_rest cn cn'" using e by (simp add: keeps_rest_def)
  have "addr_in_place f IPv4Family (ai_v4 ai) c2" "addr_in_place f IPv6Family (ai_v6 ai) c2"
    using s1(1) s2(1) s2(6) [of IPv4Family "ai_v4 ai"] by simp_all
  then show "has_ips f ai cn'" using e by (simp add: has_ips_def addr_in_place_def overwrite_def)
  have h2: "h2 \<longleftrightarrow> \<not> addr_in_place f IPv4Family (ai_v4 ai) cn \<or> \<not> addr_in_place f IPv6Family (ai_v6 ai) cn"
    using s1(3) s2(3) s1(6) [of IPv6Family "ai_v6 ai"] by simp
  then show "ch \<longleftrightarrow> \<not> has_ips f ai cn" using e rest
    by (simp add: has_ips_def addr_in_place_def outdated_def)
  have "c2 = cn\<lparr>cn_Addresses := put_internal f IPv6Family (ai_v6 ai) (put_internal f IPv4Family (ai_v4 ai) (cn_Addresses cn))\<rparr>"
    using upsert_put [of f IPv4Family "ai_v4 ai" cn False] upsert_put [of f IPv6Family "ai_v6 ai" c1 h1] u1 u2 by simp
  with e rest show "cn' = expected_node f ai cn" by (simp add: expected_node_def)
qed

lemma merge_ips_id:
  assumes "good_ips f ai" "has_ips f ai cn" shows "merge_ips f ai cn = (cn, False)"
proof -
  have i: "addr_in_place f IPv4Family (ai_v4 ai) cn" "addr_in_place f IPv6Family (ai_v6 ai) cn"
    "\<not> outdated (ai_healthV4 ai) (cn_HealthIPv4 cn)" "\<not> outdated (ai_healthV6 ai) (cn_HealthIPv6 cn)"
    "\<not> outdated (ai_ingressV4 ai) (cn_IngressIPv4 cn)" "\<not> outdated (ai_ingressV6 ai) (cn_IngressIPv6 cn)"
    using assms(2) unfolding has_ips_def addr_in_place_def outdated_def by blast+
  have "upsert f IPv6Family (ai_v6 ai) (upsert f IPv4Family (ai_v4 ai) (cn, False)) = (cn, False)"
    using assms(1) upsert_id [OF _ i(1)] upsert_id [OF _ i(2)] by (simp add: good_ips_def)
  from merge_ips_eq [OF this] show ?thesis by (simp add: i overwrite_cases)
qed

text \<open>An attempt that does not end the synchronisation: the node was read, had to be written, and the update met a conflict.\<close>

definition conflicted :: "(string \<Rightarrow> ip_family) \<Rightarrow> agent_ips \<Rightarrow> (nat \<Rightarrow> cilium_node option) \<Rightarrow> (nat \<Rightarrow> update_answer) \<Rightarrow> nat \<Rightarrow> bool" where
  "conflicted f ai get upd k \<longleftrightarrow> (\<exists>cn. get k = Some cn \<and> \<not> has_ips f ai cn) \<and> upd k = UpdateConflict"

text \<open>How attempt \<open>k\<close> ends it.\<close>

definition sync_ends :: "(string \<Rightarrow> ip_family) \<Rightarrow> agent_ips \<Rightarrow> (nat \<Rightarrow> cilium_node option) \<Rightarrow> (nat \<Rightarrow> update_answer) \<Rightarrow> nat \<Rightarrow>
    (sync_error, cilium_node option) result \<Rightarrow> bool" where
  "sync_ends f ai get upd k r \<longleftrightarrow>
     (case get k of
        None \<Rightarrow> r = Inl GetFailed
      | Some cn \<Rightarrow>
          if has_ips f ai cn then r = Inr None
          else upd k = UpdateOk \<and> r = Inr (Some (expected_node f ai cn)) \<or> upd k = UpdateFails \<and> r = Inl UpdateFailed)"

lemma sync_loop_spec:
  assumes "good_ips f ai"
  shows "(\<exists>k \<in> {r ..< r + n}. (\<forall>j \<in> {r ..< k}. conflicted f ai get upd j) \<and> sync_ends f ai get upd k (sync_loop f ai get upd n r)) \<or>
    (\<forall>k \<in> {r ..< r + n}. conflicted f ai get upd k) \<and> sync_loop f ai get upd n r = Inl RetriesExhausted"
proof (induction n arbitrary: r)
  case (Suc n)
  show ?case
  proof (cases "conflicted f ai get upd r")
    case True
    then obtain cn cn' ch where m: "get r = Some cn" "\<not> has_ips f ai cn" "upd r = UpdateConflict" "merge_ips f ai cn = (cn', ch)"
      unfolding conflicted_def by (metis prod.exhaust)
    have e: "sync_loop f ai get upd (Suc n) r = sync_loop f ai get upd n (Suc r)" using m merge_ips_spec(3) [OF assms m(4)] by simp
    have iv: "{r ..< r + Suc n} = insert r {Suc r ..< Suc r + n}" by auto
    have "\<forall>j \<in> {r ..< k}. conflicted f ai get upd j" if "\<forall>j \<in> {Suc r ..< k}. conflicted f ai get upd j" for k
      using that True by (metis atLeastLessThan_iff le_neq_implies_less Suc_leI)
    with Suc.IH [of "Suc r"] True show ?thesis unfolding e iv by blast
  next
    case False
    have "sync_ends f ai get upd r (sync_loop f ai get upd (Suc n) r)"
    proof (cases "get r")
      case (Some cn)
      obtain cn' ch where m: "merge_ips f ai cn = (cn', ch)" by fastforce
      from merge_ips_spec(3,4) [OF assms m] m Some False show ?thesis
        by (cases "upd r") (auto simp: sync_ends_def conflicted_def)
    qed (simp add: sync_ends_def)
    then show ?thesis by (intro disjI1 bexI [of _ r]) auto
  qed
qed simp

lemma expected_node_spec:
  assumes "good_ips f ai"
  shows "has_ips f ai (expected_node f ai cn)" "keeps_rest cn (expected_node f ai cn)"
proof -
  obtain cn' ch where "merge_ips f ai cn = (cn', ch)" by fastforce
  from merge_ips_spec [OF assms this] show "has_ips f ai (expected_node f ai cn)" "keeps_rest cn (expected_node f ai cn)" by simp_all
qed

text \<open>
  (C39) Synchronising a managed CiliumNode ends after at most ten reads, each after the first because the update
  before it met a conflict. The attempt that ends it fails if the node cannot be read; writes nothing if the node as read
  advertises all the addresses that the agent has; and otherwise writes exactly the expected node, or fails if the update does. The
  expected node has the agent's internal, health and ingress addresses where the agent has one and the node's own where it has none,
  all other addresses and the pod CIDRs of the node as read, and needs no further write. Ten conflicts in a row are an error. The
  agent's addresses are of their families.
\<close>

theorem syncManaged_correct:
  assumes "good_ips familyOf ai"
  shows "((\<exists>k < 10. (\<forall>j < k. conflicted familyOf ai get upd j) \<and>
        sync_ends familyOf ai get upd k (syncManagedCiliumInternalIP familyOf ai get upd)) \<or>
      (\<forall>k < 10. conflicted familyOf ai get upd k) \<and> syncManagedCiliumInternalIP familyOf ai get upd = Inl RetriesExhausted) \<and>
    (\<forall>cn. has_ips familyOf ai (expected_node familyOf ai cn) \<and> keeps_rest cn (expected_node familyOf ai cn) \<and>
      merge_ips familyOf ai (expected_node familyOf ai cn) = (expected_node familyOf ai cn, False))"
proof -
  note e = expected_node_spec [OF assms]
  have "(\<exists>k < maxRetryCount. (\<forall>j < k. conflicted familyOf ai get upd j) \<and>
        sync_ends familyOf ai get upd k (sync_loop familyOf ai get upd maxRetryCount 0)) \<or>
      (\<forall>k < maxRetryCount. conflicted familyOf ai get upd k) \<and> sync_loop familyOf ai get upd maxRetryCount 0 = Inl RetriesExhausted"
    using sync_loop_spec [OF assms, of 0 maxRetryCount get upd] by auto
  with e merge_ips_id [OF assms e(1)] show ?thesis unfolding syncManagedCiliumInternalIP_def maxRetryCount_def by blast
qed

theorem syncManaged_correct_witness:
  "let familyOf = (\<lambda>s. if CHR '':'' \<in> set s then IPv6Family else IPv4Family);
       ai = \<lparr>ai_v4 = ''10.0.0.5'', ai_v6 = [], ai_healthV4 = [], ai_healthV6 = [], ai_ingressV4 = [], ai_ingressV6 = []\<rparr>;
       cn = \<lparr>cn_Addresses = [(''InternalIP'', ''10.1.1.1'')], cn_HealthIPv4 = ''10.0.0.9'', cn_HealthIPv6 = [], cn_IngressIPv4 = [],
             cn_IngressIPv6 = [], cn_PodCIDRs = [''10.0.1.0/24'']\<rparr>
   in syncManagedCiliumInternalIP familyOf ai (\<lambda>_. Some cn) (\<lambda>k. if k < 3 then UpdateConflict else UpdateOk) =
        Inr (Some (cn\<lparr>cn_Addresses := [(''InternalIP'', ''10.1.1.1''), (''CiliumInternalIP'', ''10.0.0.5'')]\<rparr>))"
proof -
  define f :: "string \<Rightarrow> ip_family" where "f = (\<lambda>s. if CHR '':'' \<in> set s then IPv6Family else IPv4Family)"
  define ai where "ai = \<lparr>ai_v4 = ''10.0.0.5'', ai_v6 = [], ai_healthV4 = [], ai_healthV6 = [], ai_ingressV4 = [], ai_ingressV6 = []\<rparr>"
  define cn where "cn = \<lparr>cn_Addresses = [(''InternalIP'', ''10.1.1.1'')], cn_HealthIPv4 = ''10.0.0.9'', cn_HealthIPv6 = [], cn_IngressIPv4 = [],
             cn_IngressIPv6 = [], cn_PodCIDRs = [''10.0.1.0/24'']\<rparr>"
  let ?upd = "\<lambda>k :: nat. if k < 3 then UpdateConflict else UpdateOk"
  have g: "good_ips f ai" and n: "\<not> has_ips f ai cn" by (simp_all add: good_ips_def has_ips_def internal_def f_def ai_def cn_def)
  have e: "expected_node f ai cn = cn\<lparr>cn_Addresses := [(''InternalIP'', ''10.1.1.1''), (''CiliumInternalIP'', ''10.0.0.5'')]\<rparr>"
    by (simp add: expected_node_def put_internal_def overwrite_def internal_def ai_def cn_def)
  have c: "conflicted f ai (\<lambda>_. Some cn) ?upd k \<longleftrightarrow> k < 3" for k using n by (simp add: conflicted_def)
  have "\<not> (\<forall>k < 10. conflicted f ai (\<lambda>_. Some cn) ?upd k)"
  proof
    assume "\<forall>k < 10. conflicted f ai (\<lambda>_. Some cn) ?upd k"
    then have "conflicted f ai (\<lambda>_. Some cn) ?upd 3" by simp
    with c [of 3] show False by simp
  qed
  with syncManaged_correct [OF g, of "\<lambda>_. Some cn" ?upd] obtain k where
    "sync_ends f ai (\<lambda>_. Some cn) ?upd k (syncManagedCiliumInternalIP f ai (\<lambda>_. Some cn) ?upd)"
    by blast
  then have "syncManagedCiliumInternalIP f ai (\<lambda>_. Some cn) ?upd = Inr (Some (expected_node f ai cn))"
    using n by (auto simp: sync_ends_def split: if_splits)
  then show ?thesis unfolding e Let_def f_def [symmetric] ai_def [symmetric] cn_def [symmetric] .
qed

section \<open>Properties of instances\<close>

definition instance_files :: "instance_paths \<Rightarrow> string list" where
  "instance_files p = [RuntimePath p, LibraryPath p, SockPath p, ShellSockPath p, MonitorSockPath1_2 p, PidFilePath p,
     DeleteQueueDir p, DeleteQueueLockfile p, BPFFSRoot p, CertsDirectory p]"

definition instance_devices :: "instance_paths \<Rightarrow> string list" where
  "instance_devices p = [HostDevice p, SecondHostDevice p, IPIPv4Device p, IPIPv6Device p, GeneveDevice p, VxlanDevice p]"

lemma takeWhile_no_slash: "CHR ''/'' \<notin> set i \<Longrightarrow> takeWhile (\<lambda>c. c \<noteq> CHR ''/'') (i @ CHR ''/'' # s) = i"
  "CHR ''/'' \<notin> set i \<Longrightarrow> takeWhile (\<lambda>c. c \<noteq> CHR ''/'') i = i"
  by (induction i) auto

lemma slash_split:
  "CHR ''/'' \<notin> set i \<Longrightarrow> CHR ''/'' \<notin> set j \<Longrightarrow> i @ s = j @ t \<Longrightarrow> s = [] \<or> hd s = CHR ''/'' \<Longrightarrow> t = [] \<or> hd t = CHR ''/'' \<Longrightarrow> i = j"
  by (metis append_Nil2 list.collapse takeWhile_no_slash)

definition instance_roots :: "string list" where
  "instance_roots = [''/var/run/cilium/'', ''/var/lib/cilium/'', ''/sys/fs/bpf/constellation/'']"

definition instance_suffixes :: "string list" where
  "instance_suffixes = [[], ''/cilium.sock'', ''/shell.sock'', ''/monitor1_2.sock'', ''/cilium.pid'', ''/deleteQueue'',
     ''/deleteQueue/lockfile'', ''/certs'']"

lemma instance_files_eq:
  "set (instance_files (SetInstanceID i)) = (\<lambda>s. instance_roots ! 0 @ i @ s) ` set instance_suffixes \<union>
     {instance_roots ! 1 @ i @ [], instance_roots ! 2 @ i @ []}"
  by (simp add: instance_files_def SetInstanceID_def instance_roots_def instance_suffixes_def Let_def insert_commute)

lemma instance_suffix: "s \<in> set instance_suffixes \<Longrightarrow> s = [] \<or> hd s = CHR ''/''"
  by (auto simp: instance_suffixes_def)

lemma instance_file_shape:
  assumes "x \<in> set (instance_files (SetInstanceID i))"
  shows "\<exists>root s. root \<in> set instance_roots \<and> x = root @ i @ s \<and> (s = [] \<or> hd s = CHR ''/'')"
proof -
  have r: "instance_roots ! 0 \<in> set instance_roots" "instance_roots ! 1 \<in> set instance_roots" "instance_roots ! 2 \<in> set instance_roots"
    by (simp_all add: instance_roots_def)
  from assms consider s where "x = instance_roots ! 0 @ i @ s" "s \<in> set instance_suffixes"
    | "x = instance_roots ! 1 @ i @ []" | "x = instance_roots ! 2 @ i @ []"
    unfolding instance_files_eq by blast
  then show ?thesis
  proof cases
    case 1
    with r(1) instance_suffix show ?thesis by blast
  qed (use r(2,3) in blast)+
qed

lemma instance_roots_disjoint:
  assumes "r \<in> set instance_roots" "r' \<in> set instance_roots" "r @ s = r' @ t"
  shows "s = t"
  using assms by (auto simp: instance_roots_def)

text \<open>
  Two instances whose identifiers are different path elements share no file or directory name and no
  device name.
\<close>

theorem instances_disjoint:
  assumes "i \<noteq> j" "CHR ''/'' \<notin> set i" "CHR ''/'' \<notin> set j"
  shows "set (instance_files (SetInstanceID i)) \<inter> set (instance_files (SetInstanceID j)) = {} \<and>
    set (instance_devices (SetInstanceID i)) \<inter> set (instance_devices (SetInstanceID j)) = {}"
proof
  show "set (instance_files (SetInstanceID i)) \<inter> set (instance_files (SetInstanceID j)) = {}"
  proof (rule equals0I)
    fix x assume "x \<in> set (instance_files (SetInstanceID i)) \<inter> set (instance_files (SetInstanceID j))"
    then obtain r s r' t where x: "x = r @ i @ s" "x = r' @ j @ t" "s = [] \<or> hd s = CHR ''/''" "t = [] \<or> hd t = CHR ''/''"
      and r: "r \<in> set instance_roots" "r' \<in> set instance_roots"
      using instance_file_shape [of x i] instance_file_shape [of x j] by blast
    have "i @ s = j @ t" using instance_roots_disjoint [OF r, of "i @ s" "j @ t"] x(1,2) by simp
    with slash_split [OF assms(2,3) _ x(3,4)] assms(1) show False by blast
  qed
  show "set (instance_devices (SetInstanceID i)) \<inter> set (instance_devices (SetInstanceID j)) = {}"
    using assms(1) by (simp add: instance_devices_def SetInstanceID_def Let_def)
qed

theorem instances_disjoint_witness:
  "set (instance_files (preScanInstanceID [''--debug'', ''--instance-id=a''] default_paths)) \<inter>
   set (instance_files (preScanInstanceID [''--instance-id'', ''b''] default_paths)) = {}"
  using instances_disjoint [of "''a''" "''b''"] by simp

text \<open>
  With the identifier that the help text of the flag gives as its example, every device name is longer
  than the fifteen characters that Linux allows for an interface.
\<close>

theorem instance_device_names_too_long:
  "list_all (\<lambda>d. 15 < length d) (instance_devices (SetInstanceID ''worker0''))"
  by (simp add: instance_devices_def SetInstanceID_def Let_def)

end
