(* ===== verification/Api_Server.thy ===== *)
theory Api_Server
  imports Prelude
begin

text \<open>
  Which API server the agent talks to: \<open>pkg/k8s/client/rest_config_provider.go\<close>, the heartbeat's reaction
  in \<open>cell.go\<close> and \<open>rotate.go\<close>. URLs are objects that the code shares by pointer and changes in place, so
  the model keeps a store of URLs and lists of references into it. Parsing a URL and its text are
  arguments (\<open>urlParse\<close>, \<open>urlString\<close>), and so are the shuffle of a tier and the answers of the network.
\<close>

section \<open>Definitions\<close>

record url =
  url_Host :: string
  url_Other :: string

type_synonym ref = nat

record service_mapping =
  sm_Service :: string
  sm_Endpoints :: "string list"

record rest_manager =
  rm_store :: "url list"
  rm_apiServerURLs :: "ref list"
  rm_configuredAPIServerURLs :: "ref list"
  rm_isConnectedToService :: bool
  rm_rt_apiServerURL :: "ref option"
  rm_Host :: string

abbreviation deref :: "rest_manager \<Rightarrow> ref \<Rightarrow> url" where
  "deref r p \<equiv> rm_store r ! p"

definition new_urls :: "url list \<Rightarrow> url list \<Rightarrow> url list \<times> ref list" where
  "new_urls st us = (st @ us, [length st ..< length st + length us])"

definition cloneURLs :: "url list \<Rightarrow> ref list \<Rightarrow> url list \<times> ref list" where
  "cloneURLs st ps = new_urls st (map (\<lambda>p. st ! p) ps)"

definition canRotateAPIServerURL :: "rest_manager \<Rightarrow> bool" where
  "canRotateAPIServerURL r \<longleftrightarrow> length (rm_apiServerURLs r) > 1 \<and> \<not> rm_isConnectedToService r"

definition connectedToService :: "rest_manager \<Rightarrow> bool" where
  "connectedToService r = rm_isConnectedToService r"

definition shouldApplyMapping :: "service_mapping \<Rightarrow> service_mapping \<Rightarrow> bool \<Rightarrow> bool" where
  "shouldApplyMapping mapping previous disconnected \<longleftrightarrow> mapping \<noteq> previous \<or> disconnected"

text \<open>\<open>strings.Fields\<close> on ASCII text.\<close>

definition is_space :: "char \<Rightarrow> bool" where
  "is_space c \<longleftrightarrow> (of_char c :: nat) \<in> {9, 10, 11, 12, 13, 32}"

fun fields_acc :: "string \<Rightarrow> string \<Rightarrow> string list" where
  "fields_acc [] acc = (if acc = [] then [] else [rev acc])"
| "fields_acc (c # cs) acc =
     (if is_space c then (if acc = [] then fields_acc cs [] else rev acc # fields_acc cs []) else fields_acc cs (c # acc))"

definition Fields :: "string \<Rightarrow> string list" where
  "Fields s = fields_acc s []"

definition with_scheme :: "string \<Rightarrow> string" where
  "with_scheme u = (if take 4 u = ''http'' \<or> take 5 u = ''https'' then u else ''https://'' @ u)"

definition parse_tier :: "(string \<Rightarrow> url option) \<Rightarrow> (url list \<Rightarrow> url list) \<Rightarrow> string \<Rightarrow> url list" where
  "parse_tier urlParse shuffle spec =
     (let tier = List.map_filter (\<lambda>u. urlParse (with_scheme u)) (Fields spec) in
      if length tier > 1 then shuffle tier else tier)"

definition parseConfig :: "(string \<Rightarrow> url option) \<Rightarrow> (url list \<Rightarrow> url list) \<Rightarrow> string list \<Rightarrow> string \<Rightarrow> rest_manager" where
  "parseConfig urlParse shuffle specs host =
     (let (st, ps) = new_urls [] (concat (map (parse_tier urlParse shuffle) specs));
          (st, qs) = cloneURLs st ps
      in \<lparr>rm_store = st, rm_apiServerURLs = ps, rm_configuredAPIServerURLs = qs, rm_isConnectedToService = False,
          rm_rt_apiServerURL = None, rm_Host = host\<rparr>)"

definition selectPreferredAPIServerURL :: "(url \<Rightarrow> string) \<Rightarrow> rest_manager \<Rightarrow> rest_manager" where
  "selectPreferredAPIServerURL urlString r =
     (if length (rm_apiServerURLs r) = 0 then r
      else let p = rm_apiServerURLs r ! 0 in r\<lparr>rm_rt_apiServerURL := Some p, rm_Host := urlString (deref r p)\<rparr>)"

text \<open>The index after the first entry whose text is the current URL's; 0 without such an entry.\<close>

definition next_index :: "(url \<Rightarrow> string) \<Rightarrow> rest_manager \<Rightarrow> nat" where
  "next_index urlString r =
     (case rm_rt_apiServerURL r of
        None \<Rightarrow> 0
      | Some cur \<Rightarrow>
          (case find (\<lambda>i. urlString (deref r (rm_apiServerURLs r ! i)) = urlString (deref r cur)) [0 ..< length (rm_apiServerURLs r)] of
             None \<Rightarrow> 0
           | Some i \<Rightarrow> (i + 1) mod length (rm_apiServerURLs r)))"

definition rotateAPIServerURL :: "(url \<Rightarrow> string) \<Rightarrow> rest_manager \<Rightarrow> rest_manager" where
  "rotateAPIServerURL urlString r =
     (if length (rm_apiServerURLs r) \<le> 1 then r
      else let p = rm_apiServerURLs r ! next_index urlString r in
           r\<lparr>rm_rt_apiServerURL := Some p, rm_Host := urlString (deref r p)\<rparr>)"

definition disconnectFromService :: "(url \<Rightarrow> string) \<Rightarrow> rest_manager \<Rightarrow> rest_manager" where
  "disconnectFromService urlString r =
     (let wasConnected = rm_isConnectedToService r;
          r = r\<lparr>rm_isConnectedToService := False\<rparr>;
          restored = length (rm_configuredAPIServerURLs r) > 0;
          r = (if restored
               then let (st, ps) = cloneURLs (rm_store r) (rm_configuredAPIServerURLs r) in r\<lparr>rm_store := st, rm_apiServerURLs := ps\<rparr>
               else r)
      in if \<not> wasConnected then r
         else if restored \<and> length (rm_configuredAPIServerURLs r) = 1
         then let p = rm_configuredAPIServerURLs r ! 0 in
              r\<lparr>rm_rt_apiServerURL := Some p, rm_Host := urlString (deref r p)\<rparr>
         else r)"

definition trim_http :: "string \<Rightarrow> string" where
  "trim_http s = (if take 7 s = ''http://'' then drop 7 s else s)"

text \<open>
  \<open>updateMappings\<close>, given whether the service could be reached. Writing through a nil URL pointer panics
  (\<open>None\<close>).
\<close>

definition updateMappings :: "(string \<Rightarrow> url option) \<Rightarrow> bool \<Rightarrow> service_mapping \<Rightarrow> rest_manager \<Rightarrow> rest_manager option" where
  "updateMappings urlParse reachable mapping r =
     (if \<not> reachable then Some r
      else case rm_rt_apiServerURL r of
        None \<Rightarrow> None
      | Some cur \<Rightarrow>
          (let service = trim_http (sm_Service mapping);
               r = r\<lparr>rm_store := (rm_store r)[cur := (deref r cur)\<lparr>url_Host := service\<rparr>],
                     rm_isConnectedToService := True, rm_Host := service\<rparr>;
               updated = List.map_filter (\<lambda>e. urlParse (''https://'' @ e)) (sm_Endpoints mapping)
           in if length updated \<noteq> 0
              then let (st, ps) = new_urls (rm_store r) updated in Some (r\<lparr>rm_store := st, rm_apiServerURLs := ps\<rparr>)
              else Some r))"

definition restConfigManagerInit ::
  "(string \<Rightarrow> url option) \<Rightarrow> (url \<Rightarrow> string) \<Rightarrow> (url list \<Rightarrow> url list) \<Rightarrow> string list \<Rightarrow> string \<Rightarrow> (service_mapping \<times> bool) option \<Rightarrow>
   rest_manager option" where
  "restConfigManagerInit urlParse urlString shuffle specs host disk =
     (let r = parseConfig urlParse shuffle specs host in
      if canRotateAPIServerURL r then
        let r = selectPreferredAPIServerURL urlString r in
        (case disk of
           None \<Rightarrow> Some r
         | Some (mapping, reachable) \<Rightarrow> updateMappings urlParse reachable mapping r)
      else Some r)"

text \<open>The host a request goes to.\<close>

definition RoundTrip_host :: "rest_manager \<Rightarrow> string option" where
  "RoundTrip_host r = map_option (\<lambda>p. url_Host (deref r p)) (rm_rt_apiServerURL r)"

definition RotateAPIServerURL :: "(url \<Rightarrow> string) \<Rightarrow> rest_manager \<Rightarrow> rest_manager \<times> bool" where
  "RotateAPIServerURL urlString r =
     (if \<not> canRotateAPIServerURL r then (r, False) else (rotateAPIServerURL urlString r, True))"

text \<open>What a failed heartbeat does.\<close>

definition rotateAPIServer :: "(url \<Rightarrow> string) \<Rightarrow> rest_manager \<Rightarrow> rest_manager" where
  "rotateAPIServer urlString r =
     (let r = disconnectFromService urlString r in
      if canRotateAPIServerURL r then rotateAPIServerURL urlString r else r)"

text \<open>Whether the job that follows the service's frontend is started, and one round of its loop.\<close>

definition registerMappingsUpdater :: "rest_manager \<Rightarrow> bool" where
  "registerMappingsUpdater r \<longleftrightarrow> canRotateAPIServerURL r"

definition updater_round ::
  "(string \<Rightarrow> url option) \<Rightarrow> service_mapping option \<Rightarrow> bool \<Rightarrow> rest_manager \<times> service_mapping \<Rightarrow> (rest_manager \<times> service_mapping) option" where
  "updater_round urlParse found reachable = (\<lambda>(r, previous).
     case found of
       None \<Rightarrow> Some (r, previous)
     | Some mapping \<Rightarrow>
         if shouldApplyMapping mapping previous (\<not> connectedToService r)
         then map_option (\<lambda>r'. (r', mapping)) (updateMappings urlParse reachable mapping r)
         else Some (r, previous))"

section \<open>The store\<close>

abbreviation urls :: "rest_manager \<Rightarrow> ref list \<Rightarrow> url list" where
  "urls r ps \<equiv> map (deref r) ps"

lemma new_urls_eq:
  assumes "new_urls st us = (st', ps)"
  shows "st' = st @ us" "map ((!) st') ps = us" "set ps = {length st ..< length st'}" "length ps = length us" "distinct ps"
proof -
  show st: "st' = st @ us" and ps: "length ps = length us" "distinct ps" using assms by (auto simp: new_urls_def)
  show "set ps = {length st ..< length st'}" using assms by (auto simp: new_urls_def)
  show "map ((!) st') ps = us" using assms by (intro nth_equalityI) (auto simp: new_urls_def nth_append)
qed

text \<open>
  The sharing that the code relies on: references are valid, the configured list shares no object with the
  active list or with the round tripper, and it has the configured values.
\<close>

definition unshared :: "rest_manager \<Rightarrow> bool" where
  "unshared r \<longleftrightarrow> set (rm_configuredAPIServerURLs r) \<inter> (set (rm_apiServerURLs r) \<union> set_option (rm_rt_apiServerURL r)) = {}"

definition rm_inv :: "url list \<Rightarrow> rest_manager \<Rightarrow> bool" where
  "rm_inv cfg r \<longleftrightarrow>
     set (rm_apiServerURLs r) \<subseteq> {..<length (rm_store r)} \<and> set (rm_configuredAPIServerURLs r) \<subseteq> {..<length (rm_store r)} \<and>
     set_option (rm_rt_apiServerURL r) \<subseteq> {..<length (rm_store r)} \<and> unshared r \<and>
     urls r (rm_configuredAPIServerURLs r) = cfg \<and> rm_rt_apiServerURL r \<noteq> None \<and> rm_apiServerURLs r \<noteq> []"

text \<open>With at most one URL the round tripper is never used and the active list keeps the configured values.\<close>

definition rm_single :: "url list \<Rightarrow> rest_manager \<Rightarrow> bool" where
  "rm_single cfg r \<longleftrightarrow>
     set (rm_apiServerURLs r) \<subseteq> {..<length (rm_store r)} \<and> set (rm_configuredAPIServerURLs r) \<subseteq> {..<length (rm_store r)} \<and>
     unshared r \<and> urls r (rm_configuredAPIServerURLs r) = cfg \<and> urls r (rm_apiServerURLs r) = cfg \<and>
     rm_rt_apiServerURL r = None \<and> \<not> rm_isConnectedToService r"

lemma urls_append: "set ps \<subseteq> {..<length st} \<Longrightarrow> map ((!) (st @ us)) ps = map ((!) st) ps"
  by (auto simp: nth_append)

lemma urls_update: "p \<notin> set ps \<Longrightarrow> map ((!) (st[p := u])) ps = map ((!) st) ps"
  by (intro map_cong refl nth_list_update_neq) blast

lemma next_index_less: "rm_apiServerURLs r \<noteq> [] \<Longrightarrow> next_index s r < length (rm_apiServerURLs r)"
  by (auto simp: next_index_def split: option.splits)

lemma rotate_inv: "rm_inv cfg r \<Longrightarrow> rm_inv cfg (rotateAPIServerURL s r)"
proof -
  assume i: "rm_inv cfg r"
  show ?thesis
  proof (cases "length (rm_apiServerURLs r) \<le> 1")
    case False
    let ?n = "next_index s r"
    have "?n < length (rm_apiServerURLs r)" using False by (intro next_index_less) auto
    then have "rm_apiServerURLs r ! ?n \<in> set (rm_apiServerURLs r)" by simp
    then show ?thesis using i False unfolding rm_inv_def unshared_def by (auto simp: rotateAPIServerURL_def Let_def)
  qed (use i in \<open>simp add: rotateAPIServerURL_def\<close>)
qed

lemma disconnect_eq:
  assumes "rm_inv cfg r" "length cfg > 1"
  shows "disconnectFromService s r =
    r\<lparr>rm_isConnectedToService := False, rm_store := rm_store r @ cfg,
      rm_apiServerURLs := [length (rm_store r) ..< length (rm_store r) + length cfg]\<rparr>"
proof -
  have c: "urls r (rm_configuredAPIServerURLs r) = cfg" using assms(1) by (simp add: rm_inv_def)
  then have l: "length (rm_configuredAPIServerURLs r) = length cfg" by auto
  have "cloneURLs (rm_store r) (rm_configuredAPIServerURLs r) = new_urls (rm_store r) cfg"
    using c by (simp add: cloneURLs_def)
  moreover have "rm_configuredAPIServerURLs r \<noteq> []" using assms(2) l by auto
  ultimately show ?thesis using assms(2) l by (simp add: disconnectFromService_def Let_def new_urls_def)
qed

lemma disconnect_inv:
  assumes "rm_inv cfg r" "length cfg > 1" shows "rm_inv cfg (disconnectFromService s r)"
  using assms urls_append [of "rm_configuredAPIServerURLs r" "rm_store r" cfg]
  unfolding disconnect_eq [OF assms] rm_inv_def unshared_def by (auto simp: subset_iff)

lemma updateMappings_inv:
  assumes "rm_inv cfg r" shows "\<exists>r'. updateMappings p reachable m r = Some r' \<and> rm_inv cfg r' \<and>
    (reachable \<longrightarrow> rm_isConnectedToService r' \<and> RoundTrip_host r' = Some (trim_http (sm_Service m)))"
proof (cases reachable)
  case True
  obtain cur where cur: "rm_rt_apiServerURL r = Some cur" using assms by (auto simp: rm_inv_def)
  have c: "cur < length (rm_store r)" "cur \<notin> set (rm_configuredAPIServerURLs r)" using assms cur by (auto simp: rm_inv_def unshared_def)
  let ?s = "trim_http (sm_Service m)"
  define r1 where "r1 = r\<lparr>rm_store := (rm_store r)[cur := (deref r cur)\<lparr>url_Host := ?s\<rparr>],
    rm_isConnectedToService := True, rm_Host := ?s\<rparr>"
  define updated where "updated = List.map_filter (\<lambda>e. p (''https://'' @ e)) (sm_Endpoints m)"
  have i1: "rm_inv cfg r1" using assms urls_update [OF c(2), of "rm_store r"] unfolding rm_inv_def unshared_def r1_def by simp
  have h1: "RoundTrip_host r1 = Some ?s" "rm_isConnectedToService r1" "rm_rt_apiServerURL r1 = Some cur"
    using c(1) cur by (simp_all add: RoundTrip_host_def r1_def)
  define r2 where "r2 = (if updated = [] then r1
    else r1\<lparr>rm_store := rm_store r1 @ updated, rm_apiServerURLs := [length (rm_store r1) ..< length (rm_store r1) + length updated]\<rparr>)"
  have "updateMappings p reachable m r = Some r2"
    unfolding updateMappings_def using True cur by (simp add: Let_def r1_def r2_def updated_def new_urls_def)
  moreover have "rm_inv cfg r2"
    using i1 urls_append [of "rm_configuredAPIServerURLs r1" "rm_store r1" updated]
    unfolding r2_def rm_inv_def unshared_def by (auto simp: subset_iff)
  moreover have "RoundTrip_host r2 = Some ?s"
  proof -
    have "cur < length (rm_store r1)" using c(1) by (simp add: r1_def)
    then show ?thesis using h1 by (simp add: RoundTrip_host_def r2_def nth_append)
  qed
  moreover have "rm_isConnectedToService r2" using h1 by (simp add: r2_def)
  ultimately show ?thesis by blast
qed (use assms in \<open>simp add: updateMappings_def\<close>)

section \<open>Runs\<close>

text \<open>
  The callers of the manager run at the same time, and hold its locks only within a method. So besides the callers' sequences (\<open>Rotate\<close>,
  \<open>HeartbeatFails\<close>, \<open>UpdaterRound\<close>) a run may have their parts as steps: disconnecting, a rotation whose check was made before, and
  a mapping that is applied after its connectivity check was made.
\<close>

datatype rm_op =
    Rotate | HeartbeatFails | UpdaterRound "service_mapping option" bool
  | Disconnect | RotateChecked | ApplyMapping service_mapping bool

fun rm_exec :: "(string \<Rightarrow> url option) \<Rightarrow> (url \<Rightarrow> string) \<Rightarrow> rest_manager \<times> service_mapping \<Rightarrow> rm_op \<Rightarrow> (rest_manager \<times> service_mapping) option" where
  "rm_exec p s (r, prev) Rotate = Some (fst (RotateAPIServerURL s r), prev)"
| "rm_exec p s (r, prev) HeartbeatFails = Some (rotateAPIServer s r, prev)"
| "rm_exec p s (r, prev) (UpdaterRound found reachable) = updater_round p found reachable (r, prev)"
| "rm_exec p s (r, prev) Disconnect = Some (disconnectFromService s r, prev)"
| "rm_exec p s (r, prev) RotateChecked = Some (rotateAPIServerURL s r, prev)"
| "rm_exec p s (r, prev) (ApplyMapping mapping reachable) = map_option (\<lambda>r'. (r', mapping)) (updateMappings p reachable mapping r)"

text \<open>The steps of the job that follows the service.\<close>

fun of_updater :: "rm_op \<Rightarrow> bool" where
  "of_updater (UpdaterRound _ _) = True"
| "of_updater (ApplyMapping _ _) = True"
| "of_updater _ = False"

fun rm_run :: "(string \<Rightarrow> url option) \<Rightarrow> (url \<Rightarrow> string) \<Rightarrow> rest_manager \<times> service_mapping \<Rightarrow> rm_op list \<Rightarrow> (rest_manager \<times> service_mapping) option" where
  "rm_run p s st [] = Some st"
| "rm_run p s st (q # qs) = Option.bind (rm_exec p s st q) (\<lambda>st'. rm_run p s st' qs)"

lemma rotateAPIServer_inv:
  assumes "rm_inv cfg r" "length cfg > 1" shows "rm_inv cfg (rotateAPIServer s r)"
  using disconnect_inv [OF assms, of s] rotate_inv by (simp add: rotateAPIServer_def Let_def)

lemma rm_exec_inv:
  assumes "rm_inv cfg (fst st)" "length cfg > 1"
  shows "\<exists>st'. rm_exec p s st q = Some st' \<and> rm_inv cfg (fst st')"
proof -
  obtain r prev where st: "st = (r, prev)" by (cases st)
  show ?thesis
  proof (cases q)
    case (UpdaterRound found reachable)
    with st assms(1) updateMappings_inv [of cfg r p reachable] show ?thesis
      by (cases found) (auto simp: updater_round_def)
  next
    case (ApplyMapping mapping reachable)
    with st assms(1) updateMappings_inv [of cfg r p reachable mapping] show ?thesis by auto
  qed (use st assms rotate_inv rotateAPIServer_inv disconnect_inv in \<open>auto simp: RotateAPIServerURL_def\<close>)
qed

lemma rm_run_inv:
  assumes "rm_inv cfg (fst st)" "length cfg > 1"
  shows "\<exists>st'. rm_run p s st qs = Some st' \<and> rm_inv cfg (fst st')"
  using assms(1)
proof (induction qs arbitrary: st)
  case (Cons q qs)
  obtain st' where "rm_exec p s st q = Some st'" "rm_inv cfg (fst st')" using rm_exec_inv [OF Cons.prems assms(2)] by blast
  with Cons.IH [of st'] show ?case by simp
qed simp

lemma disconnect_single:
  assumes "rm_single cfg r" shows "rm_single cfg (disconnectFromService s r)"
proof -
  let ?c = "rm_configuredAPIServerURLs r" and ?n = "length (rm_store r)"
  have c: "urls r ?c = cfg" and v: "set ?c \<subseteq> {..<?n}" and n: "\<not> rm_isConnectedToService r" using assms by (simp_all add: rm_single_def)
  have u: "map ((!) (rm_store r @ cfg)) [?n ..< ?n + length cfg] = cfg" by (intro nth_equalityI) (auto simp: nth_append)
  have l: "length ?c = length cfg" using c by auto
  show ?thesis
  proof (cases "?c = []")
    case True
    with n have "disconnectFromService s r = r" by (simp add: disconnectFromService_def Let_def)
    with assms show ?thesis by simp
  next
    case False
    have "cloneURLs (rm_store r) ?c = new_urls (rm_store r) cfg" using c by (simp add: cloneURLs_def)
    with n False have d: "disconnectFromService s r = r\<lparr>rm_store := rm_store r @ cfg, rm_apiServerURLs := [?n ..< ?n + length cfg]\<rparr>"
      by (simp add: disconnectFromService_def Let_def new_urls_def)
    show ?thesis
      unfolding d using assms u v urls_append [OF v, of cfg] unfolding rm_single_def unshared_def by (auto simp: subset_iff)
  qed
qed

lemma rotate_single: "rm_single cfg r \<Longrightarrow> length cfg \<le> 1 \<Longrightarrow> rotateAPIServerURL s r = r"
  using length_map [of "deref r" "rm_apiServerURLs r"] by (simp add: rm_single_def rotateAPIServerURL_def)

lemma rotateAPIServer_single: "rm_single cfg r \<Longrightarrow> length cfg \<le> 1 \<Longrightarrow> rm_single cfg (rotateAPIServer s r)"
  using disconnect_single [of cfg r s] rotate_single by (simp add: rotateAPIServer_def Let_def)

lemma rm_exec_single:
  assumes "rm_single cfg (fst st)" "length cfg \<le> 1" "\<not> of_updater q"
  shows "\<exists>st'. rm_exec p s st q = Some st' \<and> rm_single cfg (fst st')"
proof -
  obtain r prev where st: "st = (r, prev)" by (cases st)
  with assms rotate_single [of cfg r s] rotateAPIServer_single [of cfg r s] disconnect_single [of cfg r s] show ?thesis
    by (cases q) (auto simp: RotateAPIServerURL_def)
qed

lemma rm_run_single:
  assumes "rm_single cfg (fst st)" "length cfg \<le> 1" "\<forall>q \<in> set qs. \<not> of_updater q"
  shows "\<exists>st'. rm_run p s st qs = Some st' \<and> rm_single cfg (fst st')"
  using assms(1,3)
proof (induction qs arbitrary: st)
  case (Cons q qs)
  obtain st' where "rm_exec p s st q = Some st'" "rm_single cfg (fst st')"
    using rm_exec_single [OF Cons.prems(1) assms(2), of q p s] Cons.prems(2) by auto
  with Cons.IH [of st'] Cons.prems(2) show ?case by simp
qed simp

text \<open>The URLs that the configuration gives, in order of preference.\<close>

definition configured_urls :: "(string \<Rightarrow> url option) \<Rightarrow> (url list \<Rightarrow> url list) \<Rightarrow> string list \<Rightarrow> url list" where
  "configured_urls urlParse shuffle specs = concat (map (parse_tier urlParse shuffle) specs)"

lemma parseConfig_eq:
  "parseConfig p sh specs host =
     (let us = configured_urls p sh specs; n = length us in
      \<lparr>rm_store = us @ us, rm_apiServerURLs = [0 ..< n], rm_configuredAPIServerURLs = [n ..< n + n], rm_isConnectedToService = False,
       rm_rt_apiServerURL = None, rm_Host = host\<rparr>)"
  by (simp add: parseConfig_def configured_urls_def new_urls_def cloneURLs_def Let_def map_nth)

lemma select_inv:
  assumes "length (configured_urls p sh specs) > 1"
  shows "rm_inv (configured_urls p sh specs) (selectPreferredAPIServerURL s (parseConfig p sh specs host))"
proof -
  let ?us = "configured_urls p sh specs"
  have "map ((!) (?us @ ?us)) [length ?us ..< length ?us + length ?us] = ?us"
    by (intro nth_equalityI) (auto simp: nth_append)
  with assms show ?thesis unfolding selectPreferredAPIServerURL_def parseConfig_eq rm_inv_def unshared_def
    by (auto simp: Let_def subset_iff)
qed

lemma init_inv:
  assumes "length (configured_urls p sh specs) > 1"
  shows "\<exists>r. restConfigManagerInit p s sh specs host disk = Some r \<and> rm_inv (configured_urls p sh specs) r \<and>
    (\<forall>m. disk = Some (m, True) \<longrightarrow> rm_isConnectedToService r)"
proof -
  let ?r = "selectPreferredAPIServerURL s (parseConfig p sh specs host)"
  have c: "canRotateAPIServerURL (parseConfig p sh specs host)"
    using assms by (simp add: canRotateAPIServerURL_def parseConfig_eq Let_def)
  note i = select_inv [OF assms, of s host]
  show ?thesis
  proof (cases disk)
    case None
    with c i show ?thesis by (simp add: restConfigManagerInit_def Let_def)
  next
    case (Some d)
    obtain m reach where d: "d = (m, reach)" by (cases d)
    with Some c updateMappings_inv [OF i, of p reach m] show ?thesis by (auto simp: restConfigManagerInit_def Let_def)
  qed
qed

lemma heartbeat_host:
  assumes "rm_inv cfg r" "length cfg > 1"
  shows "\<exists>u \<in> set cfg. RoundTrip_host (rotateAPIServer s r) = Some (url_Host u) \<and> rm_Host (rotateAPIServer s r) = s u \<and>
    \<not> rm_isConnectedToService (rotateAPIServer s r) \<and> urls (rotateAPIServer s r) (rm_apiServerURLs (rotateAPIServer s r)) = cfg"
proof -
  let ?d = "disconnectFromService s r" and ?n = "length (rm_store r)"
  have d: "rm_store ?d = rm_store r @ cfg" "rm_apiServerURLs ?d = [?n ..< ?n + length cfg]" "\<not> rm_isConnectedToService ?d"
    unfolding disconnect_eq [OF assms] by simp_all
  let ?i = "next_index s ?d"
  have i: "?i < length cfg" using next_index_less [of ?d s] d(2) assms(2) by (cases cfg) auto
  have e: "rotateAPIServer s r = ?d\<lparr>rm_rt_apiServerURL := Some (?n + ?i), rm_Host := s (cfg ! ?i)\<rparr>"
    using assms(2) d i by (simp add: rotateAPIServer_def rotateAPIServerURL_def canRotateAPIServerURL_def Let_def nth_append)
  have "urls ?d (rm_apiServerURLs ?d) = cfg" unfolding d(1,2) by (intro nth_equalityI) (auto simp: nth_append)
  with i d show ?thesis unfolding e by (intro bexI [of _ "cfg ! ?i"]) (simp_all add: RoundTrip_host_def nth_append)
qed

lemma init_single:
  assumes "length (configured_urls p sh specs) \<le> 1" "restConfigManagerInit p s sh specs host disk = Some r"
  shows "rm_single (configured_urls p sh specs) r" "\<not> registerMappingsUpdater r"
proof -
  let ?us = "configured_urls p sh specs"
  have n: "\<not> canRotateAPIServerURL (parseConfig p sh specs host)"
    using assms(1) by (simp add: canRotateAPIServerURL_def parseConfig_eq Let_def)
  with assms(2) have r: "r = parseConfig p sh specs host" by (simp add: restConfigManagerInit_def Let_def)
  have "map ((!) (?us @ ?us)) [0 ..< length ?us] = ?us" "map ((!) (?us @ ?us)) [length ?us ..< length ?us + length ?us] = ?us"
    by (intro nth_equalityI; auto simp: nth_append)+
  then show "rm_single ?us r" unfolding r parseConfig_eq rm_single_def unshared_def by (auto simp: Let_def subset_iff)
  show "\<not> registerMappingsUpdater r" using n unfolding r registerMappingsUpdater_def .
qed

lemma heartbeat_single:
  fixes s assumes "rm_single cfg r" "length cfg \<le> 1" defines "r' \<equiv> rotateAPIServer s r"
  shows "\<not> rm_isConnectedToService r'" "urls r' (rm_apiServerURLs r') = cfg" "urls r' (rm_configuredAPIServerURLs r') = cfg" "unshared r'"
  using rotateAPIServer_single [OF assms(1,2), of s] unfolding r'_def rm_single_def by blast+

text \<open>
  (C40) The configured API server list, from start-up on and with any number of URLs. A run is any sequence of rotations, failed heartbeats
  and rounds of the job that follows the kubernetes service, whole or in parts; steps of that job are in it only if it has been
  started or there are at least two URLs. (With at most one URL it is never started.) No such run panics or changes
  the configured URLs, although the active URL is overwritten in place on every switch to the service: the configured entries are never
  shared with the active list or with the round tripper. So after a failed heartbeat the active list is the configured one again, still
  unshared, and with at least two URLs requests go to a configured server.
\<close>

theorem configured_urls_survive:
  fixes urlParse shuffle specs defines "cfg \<equiv> configured_urls urlParse shuffle specs"
  assumes "restConfigManagerInit urlParse urlString shuffle specs host disk = Some r0"
    and "\<forall>q \<in> set ops. of_updater q \<longrightarrow> registerMappingsUpdater r0 \<or> length cfg > 1"
  shows "(length cfg \<le> 1 \<longrightarrow> \<not> registerMappingsUpdater r0) \<and>
    (\<exists>r prev. rm_run urlParse urlString (r0, prev0) ops = Some (r, prev) \<and>
      urls r (rm_configuredAPIServerURLs r) = cfg \<and> unshared r \<and>
      (let r' = rotateAPIServer urlString r in
         \<not> connectedToService r' \<and> urls r' (rm_apiServerURLs r') = cfg \<and> urls r' (rm_configuredAPIServerURLs r') = cfg \<and> unshared r' \<and>
         (length cfg > 1 \<longrightarrow> (\<exists>u \<in> set cfg. RoundTrip_host r' = Some (url_Host u)))))"
proof (cases "length cfg > 1")
  case True
  have "rm_inv cfg (fst (r0, prev0))" using init_inv [of urlParse shuffle specs urlString host disk] True assms(2) by (auto simp: cfg_def)
  from rm_run_inv [OF this True, of urlParse urlString ops] obtain r prev
    where r: "rm_run urlParse urlString (r0, prev0) ops = Some (r, prev)" "rm_inv cfg r" by auto
  with rotateAPIServer_inv [OF r(2) True, of urlString] heartbeat_host [OF r(2) True, of urlString] True show ?thesis
    by (auto simp: connectedToService_def Let_def rm_inv_def)
next
  case False
  then have l: "length cfg \<le> 1" by simp
  note i = init_single [OF l [unfolded cfg_def] assms(2), folded cfg_def]
  have n: "\<forall>q \<in> set ops. \<not> of_updater q" using assms(3) i(2) False by blast
  from rm_run_single [OF _ l n, of "(r0, prev0)" urlParse urlString] i(1) obtain r prev
    where r: "rm_run urlParse urlString (r0, prev0) ops = Some (r, prev)" "rm_single cfg r" by auto
  then have "urls r (rm_configuredAPIServerURLs r) = cfg" "unshared r" by (simp_all add: rm_single_def)
  with r(1) heartbeat_single [OF r(2) l, of urlString] i(2) False show ?thesis by (simp add: connectedToService_def Let_def)
qed

definition ex_parse :: "string \<Rightarrow> url option" where
  "ex_parse u = Some \<lparr>url_Host = drop 8 u, url_Other = take 8 u\<rparr>"

definition ex_string :: "url \<Rightarrow> string" where
  "ex_string u = url_Other u @ url_Host u"

lemma ex_configured:
  "configured_urls ex_parse rev [''a b'', ''c''] = [\<lparr>url_Host = ''b'', url_Other = ''https://''\<rparr>,
     \<lparr>url_Host = ''a'', url_Other = ''https://''\<rparr>, \<lparr>url_Host = ''c'', url_Other = ''https://''\<rparr>]"
  by (simp add: configured_urls_def parse_tier_def Fields_def is_space_def with_scheme_def ex_parse_def map_filter_def)

theorem configured_urls_survive_witness:
  "let m = \<lparr>sm_Service = ''10.96.0.1:443'', sm_Endpoints = [''a'']\<rparr>; prev0 = \<lparr>sm_Service = [], sm_Endpoints = []\<rparr>;
       ops = [UpdaterRound (Some m) True, Disconnect, ApplyMapping m True, RotateChecked, HeartbeatFails, UpdaterRound (Some m) True] in
   (\<exists>r0 r prev. restConfigManagerInit ex_parse ex_string rev [''a b'', ''c''] [] None = Some r0 \<and>
     rm_run ex_parse ex_string (r0, prev0) ops = Some (r, prev) \<and> unshared r \<and>
     (\<exists>u \<in> set (configured_urls ex_parse rev [''a b'', ''c'']). RoundTrip_host (rotateAPIServer ex_string r) = Some (url_Host u))) \<and>
   (\<exists>r0 r prev. restConfigManagerInit ex_parse ex_string rev [''c''] [] None = Some r0 \<and>
     rm_run ex_parse ex_string (r0, prev0) [HeartbeatFails, Rotate, Disconnect] = Some (r, prev) \<and> unshared r)"
proof -
  let ?m = "\<lparr>sm_Service = ''10.96.0.1:443'', sm_Endpoints = [''a'']\<rparr>" and ?p = "\<lparr>sm_Service = [], sm_Endpoints = []\<rparr>"
  have l: "length (configured_urls ex_parse rev [''a b'', ''c'']) > 1" by (simp add: ex_configured)
  from init_inv [OF this] obtain r0 where r0: "restConfigManagerInit ex_parse ex_string rev [''a b'', ''c''] [] None = Some r0"
    by blast
  have "configured_urls ex_parse rev [''c''] = [\<lparr>url_Host = ''c'', url_Other = ''https://''\<rparr>]"
    by (simp add: configured_urls_def parse_tier_def Fields_def is_space_def with_scheme_def ex_parse_def map_filter_def)
  then obtain r1 where r1: "restConfigManagerInit ex_parse ex_string rev [''c''] [] None = Some r1"
    by (simp add: restConfigManagerInit_def Let_def parseConfig_eq canRotateAPIServerURL_def)
  show ?thesis
    using configured_urls_survive [OF r0, of "[UpdaterRound (Some ?m) True, Disconnect, ApplyMapping ?m True, RotateChecked, HeartbeatFails, UpdaterRound (Some ?m) True]" ?p]
      configured_urls_survive [OF r1, of "[HeartbeatFails, Rotate, Disconnect]" ?p] l r0 r1
    unfolding Let_def by simp blast
qed

section \<open>The order of rotation\<close>

lemma find_upt_distinct:
  assumes "distinct (map f xs)" "i < length xs" shows "find (\<lambda>j. f (xs ! j) = f (xs ! i)) [0 ..< length xs] = Some i"
proof -
  have "f (xs ! j) = f (xs ! i) \<longleftrightarrow> j = i" if "j < length xs" for j
    using assms that nth_eq_iff_index_eq [OF assms(1), of j i] by simp
  then show ?thesis unfolding find_Some_iff using assms(2) by (intro exI [of _ i]) auto
qed

text \<open>The round tripper stands at entry \<open>i\<close> of the active list.\<close>

definition at_entry :: "url list \<Rightarrow> nat \<Rightarrow> rest_manager \<Rightarrow> bool" where
  "at_entry cfg i r \<longleftrightarrow> urls r (rm_apiServerURLs r) = cfg \<and> i < length cfg \<and> rm_rt_apiServerURL r = Some (rm_apiServerURLs r ! i)"

lemma at_entry_length: "at_entry cfg i r \<Longrightarrow> length (rm_apiServerURLs r) = length cfg"
  by (auto simp: at_entry_def)

lemma at_entry_nth: "at_entry cfg i r \<Longrightarrow> j < length cfg \<Longrightarrow> deref r (rm_apiServerURLs r ! j) = cfg ! j"
  unfolding at_entry_def by (metis length_map nth_map)

lemma at_entry_host: "at_entry cfg i r \<Longrightarrow> RoundTrip_host r = Some (url_Host (cfg ! i))"
  using at_entry_nth [of cfg i r i] by (simp add: at_entry_def RoundTrip_host_def)

lemma next_index_at:
  assumes "at_entry cfg i r" "find (\<lambda>j. s (cfg ! j) = s (cfg ! i)) [0 ..< length cfg] = Some k"
  shows "next_index s r = (k + 1) mod length cfg"
proof -
  note l = at_entry_length [OF assms(1)] and n = at_entry_nth [OF assms(1)]
  have i: "rm_rt_apiServerURL r = Some (rm_apiServerURLs r ! i)" "i < length cfg" using assms(1) by (simp_all add: at_entry_def)
  have "find (\<lambda>j. s (deref r (rm_apiServerURLs r ! j)) = s (deref r (rm_apiServerURLs r ! i))) [0 ..< length (rm_apiServerURLs r)] =
      find (\<lambda>j. s (cfg ! j) = s (cfg ! i)) [0 ..< length cfg]"
    unfolding l by (intro find_cong refl) (use n i(2) in simp)
  with assms(2) i(1) l show ?thesis by (simp add: next_index_def)
qed

lemma rotate_at:
  assumes "at_entry cfg i r" "1 < length cfg" "next_index s r = j"
  shows "at_entry cfg j (rotateAPIServerURL s r)"
proof -
  have l: "length (rm_apiServerURLs r) = length cfg" by (rule at_entry_length [OF assms(1)])
  have "j < length cfg" using next_index_less [of r s] l assms(2,3) by (cases "rm_apiServerURLs r") auto
  with assms l show ?thesis by (simp add: at_entry_def rotateAPIServerURL_def Let_def)
qed

lemma select_at:
  assumes "configured_urls p sh specs \<noteq> []"
  shows "at_entry (configured_urls p sh specs) 0 (selectPreferredAPIServerURL s (parseConfig p sh specs host))"
proof -
  let ?us = "configured_urls p sh specs"
  have "map ((!) (?us @ ?us)) [0 ..< length ?us] = ?us" by (intro nth_equalityI) (auto simp: nth_append)
  with assms show ?thesis by (simp add: at_entry_def selectPreferredAPIServerURL_def parseConfig_eq Let_def)
qed

text \<open>
  Rotation walks the configured servers in order of preference and wraps around: when their texts are
  different, the \<open>k\<close>-th rotation after the start leads to entry \<open>k\<close> modulo their number, so that
  after one round every server has been tried.
\<close>

theorem rotation_in_order:
  assumes "distinct (map urlString (configured_urls urlParse shuffle specs))" "length (configured_urls urlParse shuffle specs) > 1"
  shows "let us = configured_urls urlParse shuffle specs;
             r = ((rotateAPIServerURL urlString) ^^ k) (selectPreferredAPIServerURL urlString (parseConfig urlParse shuffle specs host))
    in RoundTrip_host r = Some (url_Host (us ! (k mod length us)))"
proof -
  let ?us = "configured_urls urlParse shuffle specs"
  let ?r = "\<lambda>k. ((rotateAPIServerURL urlString) ^^ k) (selectPreferredAPIServerURL urlString (parseConfig urlParse shuffle specs host))"
  have "at_entry ?us (k mod length ?us) (?r k)"
  proof (induction k)
    case 0
    have "?us \<noteq> []" using assms(2) by (cases ?us) simp_all
    then show ?case using select_at by simp
  next
    case (Suc k)
    have "k mod length ?us < length ?us" using assms(2) by (intro mod_less_divisor) linarith
    note f = find_upt_distinct [OF assms(1) this]
    have "(k mod length ?us + 1) mod length ?us = Suc k mod length ?us" by (simp add: mod_Suc_eq)
    with rotate_at [OF Suc assms(2) next_index_at [OF Suc f]] show ?case by simp
  qed
  then show ?thesis using at_entry_host by (simp add: Let_def)
qed

theorem rotation_in_order_witness:
  "RoundTrip_host ((rotateAPIServerURL ex_string ^^ 5) (selectPreferredAPIServerURL ex_string (parseConfig ex_parse rev [''a b'', ''c''] []))) =
   Some ''c''"
proof -
  have d: "distinct (map ex_string (configured_urls ex_parse rev [''a b'', ''c'']))" "length (configured_urls ex_parse rev [''a b'', ''c'']) > 1"
    by (simp_all add: ex_configured ex_string_def)
  from rotation_in_order [OF d, of 5 "[]"] show ?thesis by (simp add: ex_configured Let_def)
qed

text \<open>
  With a server listed twice, rotation never leaves the part of the list up to its second entry: the
  position is found again by text, and the first match wins. Here the last server is never tried.
\<close>

theorem rotation_stuck_on_duplicates:
  assumes "configured_urls urlParse shuffle specs = [a, b, a, c]" "distinct (map urlString [a, b, c])"
  shows "RoundTrip_host (((rotateAPIServerURL urlString) ^^ k)
      (selectPreferredAPIServerURL urlString (parseConfig urlParse shuffle specs host))) \<in> {Some (url_Host a), Some (url_Host b)}"
proof -
  let ?us = "configured_urls urlParse shuffle specs"
  let ?r = "\<lambda>k. ((rotateAPIServerURL urlString) ^^ k) (selectPreferredAPIServerURL urlString (parseConfig urlParse shuffle specs host))"
  have "\<exists>i \<in> {0, 1, 2}. at_entry [a, b, a, c] i (?r k)"
  proof (induction k)
    case 0
    have "?us \<noteq> []" by (simp add: assms(1))
    then show ?case using select_at [of urlParse shuffle specs urlString host] by (simp add: assms(1))
  next
    case (Suc k)
    then obtain i where i: "i \<in> {0, 1, 2}" "at_entry [a, b, a, c] i (?r k)" by blast
    have "find (\<lambda>j. urlString ([a, b, a, c] ! j) = urlString ([a, b, a, c] ! i)) [0 ..< length [a, b, a, c]] = Some (i mod 2)"
    proof -
      have up: "[0 ..< length [a, b, a, c]] = [0, 1, 2, 3]" by (simp add: upt_conv_Cons)
      have ne: "urlString a \<noteq> urlString b" using assms(2) by simp
      from i(1) consider "i = 0" | "i = 1" | "i = 2" by blast
      then show ?thesis unfolding up by cases (use ne in simp_all)
    qed
    from rotate_at [OF i(2) _ next_index_at [OF i(2) this]]
    have "at_entry [a, b, a, c] ((i mod 2 + 1) mod 4) (?r (Suc k))" by simp
    moreover have "(i mod 2 + 1) mod 4 \<in> {0, 1, 2}" using i(1) by auto
    ultimately show ?case by (rule bexI)
  qed
  then obtain i where i: "i \<in> {0, 1, 2}" "at_entry [a, b, a, c] i (?r k)" by blast
  from at_entry_host [OF i(2)] i(1) show ?thesis by auto
qed

theorem rotation_stuck_on_duplicates_witness:
  "RoundTrip_host ((rotateAPIServerURL ex_string ^^ 7)
     (selectPreferredAPIServerURL ex_string (parseConfig ex_parse rev [''a'', ''b'', ''a'', ''c''] []))) \<noteq> Some ''c''"
proof -
  let ?u = "\<lambda>h. \<lparr>url_Host = h, url_Other = ''https://''\<rparr>"
  have c: "configured_urls ex_parse rev [''a'', ''b'', ''a'', ''c''] = [?u ''a'', ?u ''b'', ?u ''a'', ?u ''c'']"
    by (simp add: configured_urls_def parse_tier_def Fields_def is_space_def with_scheme_def ex_parse_def map_filter_def)
  have d: "distinct (map ex_string [?u ''a'', ?u ''b'', ?u ''c''])" by (simp add: ex_string_def)
  define h where "h = RoundTrip_host ((rotateAPIServerURL ex_string ^^ 7)
     (selectPreferredAPIServerURL ex_string (parseConfig ex_parse rev [''a'', ''b'', ''a'', ''c''] [])))"
  have "h \<in> {Some (url_Host (?u ''a'')), Some (url_Host (?u ''b''))}"
    unfolding h_def by (rule rotation_stuck_on_duplicates [OF c d])
  then have "h \<noteq> Some ''c''" by auto
  then show ?thesis unfolding h_def .
qed

text \<open>
  An agent that starts on the service address restored from disk does not follow the service: the job
  that would is not started, and once heartbeats fail the agent never returns to the service address.
\<close>

theorem restored_manager_never_returns:
  assumes "length (configured_urls urlParse shuffle specs) > 1"
    and "restConfigManagerInit urlParse urlString shuffle specs host (Some (mapping, True)) = Some r"
  shows "\<not> registerMappingsUpdater r \<and> connectedToService r \<and> \<not> connectedToService ((rotateAPIServer urlString ^^ Suc k) r)"
proof -
  let ?cfg = "configured_urls urlParse shuffle specs"
  have r: "rm_inv ?cfg r" "rm_isConnectedToService r"
    using init_inv [OF assms(1), of urlString host "Some (mapping, True)"] assms(2) by simp_all
  have "rm_inv ?cfg ((rotateAPIServer urlString ^^ k) r)" by (induction k) (use r rotateAPIServer_inv [OF _ assms(1)] in auto)
  from heartbeat_host [OF this assms(1), of urlString] r(2) show ?thesis
    by (auto simp: registerMappingsUpdater_def canRotateAPIServerURL_def connectedToService_def)
qed

theorem restored_manager_never_returns_witness:
  "\<exists>r. restConfigManagerInit ex_parse ex_string rev [''a b'', ''c''] [] (Some (\<lparr>sm_Service = ''s'', sm_Endpoints = []\<rparr>, True)) = Some r \<and>
     \<not> registerMappingsUpdater r \<and> \<not> connectedToService (rotateAPIServer ex_string r)"
proof -
  have l: "length (configured_urls ex_parse rev [''a b'', ''c'']) > 1" by (simp add: ex_configured)
  from init_inv [OF this] obtain r where
    r: "restConfigManagerInit ex_parse ex_string rev [''a b'', ''c''] [] (Some (\<lparr>sm_Service = ''s'', sm_Endpoints = []\<rparr>, True)) = Some r"
    by blast
  from restored_manager_never_returns [OF l r, of 0] r show ?thesis by simp
qed

end
