(* ===== verification/Hash_Alloc.thy ===== *)
theory Hash_Alloc
  imports Netip "HOL-Library.AList" "HOL-Library.Multiset" "HOL-Library.Code_Target_Nat"
begin

text \<open>
  \<open>pkg/ipalloc/ipalloc.go\<close>: an allocator of addresses with values. The free addresses are blocks that are at
  once the elements of a binary heap (by size) and of a doubly linked list (by address). Blocks are shared
  by pointer and changed in place, so the model keeps a store of blocks, and the heap and the links are
  references into it. The operations of \<open>container/heap\<close> are modelled as far as they are used.
\<close>

section \<open>Addresses\<close>

text \<open>\<open>Addr.Compare\<close>: family, then value, then zone; only the sign matters.\<close>

fun string_compare :: "string \<Rightarrow> string \<Rightarrow> int" where
  "string_compare [] [] = 0"
| "string_compare [] (_ # _) = - 1"
| "string_compare (_ # _) [] = 1"
| "string_compare (c # cs) (d # ds) =
     (if (of_char c :: nat) < of_char d then - 1 else if (of_char d :: nat) < of_char c then 1 else string_compare cs ds)"

fun addr_zone :: "addr \<Rightarrow> string" where
  "addr_zone (V6 _ z) = z"
| "addr_zone _ = []"

definition addr_compare :: "addr \<Rightarrow> addr \<Rightarrow> int" where
  "addr_compare a b =
     (if addr_bitlen a < addr_bitlen b then - 1 else if addr_bitlen b < addr_bitlen a then 1
      else if addr_as16 a < addr_as16 b then - 1 else if addr_as16 b < addr_as16 a then 1
      else string_compare (addr_zone a) (addr_zone b))"

text \<open>\<open>Prev\<close> yields the zero value before the first address of a family.\<close>

fun addr_prev :: "addr \<Rightarrow> addr" where
  "addr_prev AddrInvalid = AddrInvalid"
| "addr_prev (V4 a) = (if a = 0 then AddrInvalid else V4 (a - 1))"
| "addr_prev (V6 a z) = (if a = 0 then AddrInvalid else V6 (a - 1) z)"

section \<open>Sizes\<close>

type_synonym uint128 = "u64 \<times> u64"

definition uint128_less :: "uint128 \<Rightarrow> uint128 \<Rightarrow> bool" where
  "uint128_less u v = (if fst u = fst v then snd u < snd v else fst u < fst v)"

definition uint128_sub :: "uint128 \<Rightarrow> uint128 \<Rightarrow> uint128" where
  "uint128_sub u v =
     (let hi = fst u - fst v; lo = snd u - snd v; hi = (if snd u < snd v then hi - 1 else hi) in (hi, lo))"

definition uint128FromAddr :: "addr \<Rightarrow> uint128" where
  "uint128FromAddr a = (hi64 (addr_as16 a), lo64 (addr_as16 a))"

definition addrDiff :: "addr \<Rightarrow> addr \<Rightarrow> uint128" where
  "addrDiff from to = uint128_sub (uint128FromAddr to) (uint128FromAddr from)"

section \<open>Blocks\<close>

type_synonym ref = nat

record linked_block =
  lb_from :: addr
  lb_to :: addr
  lb_size :: uint128
  lb_prev :: "ref option"
  lb_next :: "ref option"

definition within :: "linked_block \<Rightarrow> addr \<Rightarrow> bool" where
  "within b ip \<longleftrightarrow> addr_compare ip (lb_from b) \<ge> 0 \<and> addr_compare ip (lb_to b) \<le> 0"

definition block_less :: "linked_block \<Rightarrow> linked_block \<Rightarrow> bool" where
  "block_less b c = uint128_less (lb_size b) (lb_size c)"

definition calcSize :: "linked_block \<Rightarrow> linked_block" where
  "calcSize b = b\<lparr>lb_size := addrDiff (lb_from b) (lb_to b)\<rparr>"

section \<open>The heap\<close>

type_synonym store = "linked_block list"

text \<open>The slice of blocks with the store they point into.\<close>

record block_list =
  bl_store :: store
  bl_heap :: "ref list"

definition abl_Less :: "store \<Rightarrow> ref list \<Rightarrow> nat \<Rightarrow> nat \<Rightarrow> bool" where
  "abl_Less st h i j = block_less (st ! (h ! i)) (st ! (h ! j))"

definition abl_Swap :: "ref list \<Rightarrow> nat \<Rightarrow> nat \<Rightarrow> ref list" where
  "abl_Swap h i j = h[j := h ! i, i := h ! j]"

fun heap_up :: "store \<Rightarrow> ref list \<Rightarrow> nat \<Rightarrow> ref list" where
  "heap_up st h j =
     (let i = (j - 1) div 2 in
      if i = j \<or> \<not> abl_Less st h j i then h else heap_up st (abl_Swap h i j) i)"

function heap_down :: "store \<Rightarrow> ref list \<Rightarrow> nat \<Rightarrow> nat \<Rightarrow> ref list \<times> nat" where
  "heap_down st h i n =
     (let j1 = 2 * i + 1 in
      if j1 \<ge> n then (h, i)
      else let j = (if j1 + 1 < n \<and> abl_Less st h (j1 + 1) j1 then j1 + 1 else j1) in
           if \<not> abl_Less st h j i then (h, i) else heap_down st (abl_Swap h i j) j n)"
  by pat_completeness auto

termination
  by (relation "measure (\<lambda>(st, h, i, n). n - i)") (auto split: if_splits)

declare heap_up.simps [simp del] heap_down.simps [simp del]

definition heap_fix_at :: "store \<Rightarrow> ref list \<Rightarrow> nat \<Rightarrow> nat \<Rightarrow> ref list" where
  "heap_fix_at st h i n = (let (h', i') = heap_down st h i n in if \<not> i < i' then heap_up st h' i else h')"

definition heap_Fix :: "store \<Rightarrow> ref list \<Rightarrow> nat \<Rightarrow> ref list" where
  "heap_Fix st h i = heap_fix_at st h i (length h)"

definition heap_Push :: "store \<Rightarrow> ref list \<Rightarrow> ref \<Rightarrow> ref list" where
  "heap_Push st h r = heap_up st (h @ [r]) (length h)"

definition heap_Remove :: "store \<Rightarrow> ref list \<Rightarrow> nat \<Rightarrow> ref list" where
  "heap_Remove st h i =
     (let n = length h - 1 in
      butlast (if n \<noteq> i then heap_fix_at st (abl_Swap h i n) i n else h))"

section \<open>Lists of free blocks\<close>

datatype ha_error = ErrFull | ErrOutOfRange | ErrInUse | ErrNotFound | ErrBadLoop | IndexPanic
  | UninitializedAddress | DifferentFamilies | StartAfterStop

definition set_next :: "ref option \<Rightarrow> ref option \<Rightarrow> store \<Rightarrow> store" where
  "set_next p v st = (case p of None \<Rightarrow> st | Some r \<Rightarrow> st[r := (st ! r)\<lparr>lb_next := v\<rparr>])"

definition set_prev :: "ref option \<Rightarrow> ref option \<Rightarrow> store \<Rightarrow> store" where
  "set_prev p v st = (case p of None \<Rightarrow> st | Some r \<Rightarrow> st[r := (st ! r)\<lparr>lb_prev := v\<rparr>])"

definition abl_delete :: "nat \<Rightarrow> block_list \<Rightarrow> block_list" where
  "abl_delete idx bl =
     (let st = bl_store bl; elem = st ! (bl_heap bl ! idx)
      in \<lparr>bl_store = set_prev (lb_next elem) (lb_prev elem) (set_next (lb_prev elem) (lb_next elem) st),
          bl_heap = heap_Remove st (bl_heap bl) idx\<rparr>)"

text \<open>\<open>slices.Index\<close>.\<close>

fun index_of :: "ref \<Rightarrow> ref list \<Rightarrow> nat" where
  "index_of r [] = 0"
| "index_of r (x # xs) = (if x = r then 0 else Suc (index_of r xs))"

definition abl_merge :: "ref \<Rightarrow> ref \<Rightarrow> block_list \<Rightarrow> block_list" where
  "abl_merge left right bl =
     (let st = bl_store bl; leftOfLeft = lb_prev (st ! left); rightOfRight = lb_next (st ! right);
          merged = calcSize \<lparr>lb_from = lb_from (st ! left), lb_to = lb_to (st ! right), lb_size = (0, 0),
                     lb_prev = leftOfLeft, lb_next = rightOfRight\<rparr>;
          m = length st; st = st @ [merged];
          st = set_prev rightOfRight (Some m) (set_next leftOfLeft (Some m) st);
          h = heap_Remove st (bl_heap bl) (index_of left (bl_heap bl));
          h = heap_Remove st h (index_of right h)
      in \<lparr>bl_store = st, bl_heap = heap_Push st h m\<rparr>)"

definition abl_insert :: "ref option \<Rightarrow> ref option \<Rightarrow> addr \<Rightarrow> block_list \<Rightarrow> block_list" where
  "abl_insert left right newIP bl =
     (let st = bl_store bl; b = length st;
          st = st @ [\<lparr>lb_from = newIP, lb_to = newIP, lb_size = (0, 1), lb_prev = left, lb_next = right\<rparr>];
          st = set_prev right (Some b) (set_next left (Some b) st)
      in \<lparr>bl_store = st, bl_heap = heap_Push st (bl_heap bl) b\<rparr>)"

definition abl_take :: "addr \<Rightarrow> block_list \<Rightarrow> (ha_error, block_list) result" where
  "abl_take ip bl =
     (case find (\<lambda>i. within (bl_store bl ! (bl_heap bl ! i)) ip) [0 ..< length (bl_heap bl)] of
        None \<Rightarrow> Inl ErrInUse
      | Some index \<Rightarrow>
          (let r = bl_heap bl ! index; b = bl_store bl ! r in
           if lb_from b = ip then
             if lb_from b = lb_to b then Inr (abl_delete index bl)
             else let st = (bl_store bl)[r := calcSize (b\<lparr>lb_from := addr_next (lb_from b)\<rparr>)]
                  in Inr \<lparr>bl_store = st, bl_heap = heap_Fix st (bl_heap bl) index\<rparr>
           else if lb_to b = ip then
             if lb_from b = lb_to b then Inr (abl_delete index bl)
             else let st = (bl_store bl)[r := calcSize (b\<lparr>lb_to := addr_prev (lb_to b)\<rparr>)]
                  in Inr \<lparr>bl_store = st, bl_heap = heap_Fix st (bl_heap bl) index\<rparr>
           else
             let h = heap_Remove (bl_store bl) (bl_heap bl) index;
                 l = length (bl_store bl); m = l + 1;
                 leftBlock = calcSize \<lparr>lb_from = lb_from b, lb_to = addr_prev ip, lb_size = (0, 0), lb_prev = lb_prev b, lb_next = Some m\<rparr>;
                 rightBlock = calcSize \<lparr>lb_from = addr_next ip, lb_to = lb_to b, lb_size = (0, 0), lb_prev = Some l, lb_next = lb_next b\<rparr>;
                 st = bl_store bl @ [leftBlock, rightBlock];
                 st = set_prev (lb_next b) (Some m) (set_next (lb_prev b) (Some l) st)
             in Inr \<lparr>bl_store = st, bl_heap = heap_Push st (heap_Push st h l) m\<rparr>))"

text \<open>The walk of \<open>put\<close>: fuel, the loop counter, the current block and the one before.\<close>

fun put_walk :: "nat \<Rightarrow> nat \<Rightarrow> addr \<Rightarrow> ref \<Rightarrow> ref option \<Rightarrow> block_list \<Rightarrow> (ha_error, block_list) result" where
  "put_walk 0 i ip cur prev bl = Inl ErrBadLoop"
| "put_walk (Suc n) i ip cur prev bl =
     (let st = bl_store bl; c = st ! cur in
      if addr_compare ip (lb_from c) < 0 then
        if addr_prev (lb_from c) = ip then
          let c' = calcSize (c\<lparr>lb_from := addr_prev (lb_from c)\<rparr>); bl' = bl\<lparr>bl_store := st[cur := c']\<rparr> in
          (case lb_prev c of
             None \<Rightarrow> Inr bl'
           | Some p \<Rightarrow> if lb_to (st ! p) = addr_prev (lb_from c') then Inr (abl_merge p cur bl') else Inr bl')
        else
          (case lb_prev c of
             None \<Rightarrow> Inr (abl_insert None (Some cur) ip bl)
           | Some p \<Rightarrow>
               if lb_prev c = prev then Inr (abl_insert (Some p) (Some cur) ip bl)
               else put_walk n (Suc i) ip p (Some cur) bl)
      else if addr_next (lb_to c) = ip then
        let c' = calcSize (c\<lparr>lb_to := addr_next (lb_to c)\<rparr>); st' = st[cur := c'] in
        if i < length (bl_heap bl) then
          let bl' = \<lparr>bl_store = st', bl_heap = heap_Fix st' (bl_heap bl) i\<rparr> in
          (case lb_next c of
             None \<Rightarrow> Inr bl'
           | Some q \<Rightarrow> if lb_from (st ! q) = addr_next (lb_to c') then Inr (abl_merge cur q bl') else Inr bl')
        else Inl IndexPanic
      else
        (case lb_next c of
           None \<Rightarrow> Inr (abl_insert (Some cur) None ip bl)
         | Some q \<Rightarrow>
             if lb_next c = prev then Inr (abl_insert (Some cur) (Some q) ip bl)
             else put_walk n (Suc i) ip q (Some cur) bl))"

definition maxIter :: nat where "maxIter = 1000000"

definition abl_put :: "addr \<Rightarrow> block_list \<Rightarrow> (ha_error, block_list) result" where
  "abl_put ip bl =
     (if length (bl_heap bl) = 0 then
        (let r = length (bl_store bl);
             st = bl_store bl @ [\<lparr>lb_from = ip, lb_to = ip, lb_size = (0, 1), lb_prev = None, lb_next = None\<rparr>]
         in Inr \<lparr>bl_store = st, bl_heap = heap_Push st (bl_heap bl) r\<rparr>)
      else put_walk maxIter 0 ip (bl_heap bl ! 0) None bl)"

section \<open>The allocator\<close>

record 'v hash_allocator =
  ha_start :: addr
  ha_stop :: addr
  ha_peakAllocations :: nat
  ha_allocations :: "(addr \<times> 'v) list"
  ha_availableBlocks :: block_list

definition NewHashAllocator :: "addr \<Rightarrow> addr \<Rightarrow> (ha_error, 'v hash_allocator) result" where
  "NewHashAllocator start stop =
     (if \<not> addr_is_valid start then Inl UninitializedAddress
      else if addr_bitlen start \<noteq> addr_bitlen stop then Inl DifferentFamilies
      else if addr_compare start stop > 0 then Inl StartAfterStop
      else Inr \<lparr>ha_start = start, ha_stop = stop, ha_peakAllocations = 0, ha_allocations = [],
                ha_availableBlocks = \<lparr>bl_store = [calcSize \<lparr>lb_from = start, lb_to = stop, lb_size = (0, 0), lb_prev = None, lb_next = None\<rparr>],
                                      bl_heap = [0]\<rparr>\<rparr>)"

definition record_alloc :: "addr \<Rightarrow> 'v \<Rightarrow> block_list \<Rightarrow> 'v hash_allocator \<Rightarrow> 'v hash_allocator" where
  "record_alloc ip val bl a =
     (let allocs = AList.update ip val (ha_allocations a) in
      a\<lparr>ha_availableBlocks := bl, ha_allocations := allocs, ha_peakAllocations := max (ha_peakAllocations a) (length allocs)\<rparr>)"

definition AllocAny :: "'v hash_allocator \<Rightarrow> 'v \<Rightarrow> 'v hash_allocator \<times> (ha_error, addr) result" where
  "AllocAny a val =
     (if length (bl_heap (ha_availableBlocks a)) = 0 then (a, Inl ErrFull)
      else let ip = lb_from (bl_store (ha_availableBlocks a) ! (bl_heap (ha_availableBlocks a) ! 0)) in
           case abl_take ip (ha_availableBlocks a) of
             Inl e \<Rightarrow> (a, Inl e)
           | Inr bl \<Rightarrow> (record_alloc ip val bl a, Inr ip))"

definition Alloc :: "'v hash_allocator \<Rightarrow> addr \<Rightarrow> 'v \<Rightarrow> 'v hash_allocator \<times> ha_error option" where
  "Alloc a ip val =
     (if addr_compare ip (ha_start a) < 0 \<or> addr_compare ip (ha_stop a) > 0 then (a, Some ErrOutOfRange)
      else if map_of (ha_allocations a) ip \<noteq> None then (a, Some ErrInUse)
      else if length (bl_heap (ha_availableBlocks a)) = 0 then (a, Some ErrFull)
      else case abl_take ip (ha_availableBlocks a) of
             Inl e \<Rightarrow> (a, Some e)
           | Inr bl \<Rightarrow> (record_alloc ip val bl a, None))"

definition Update :: "'v hash_allocator \<Rightarrow> addr \<Rightarrow> 'v \<Rightarrow> 'v hash_allocator \<times> ha_error option" where
  "Update a ip val =
     (if map_of (ha_allocations a) ip \<noteq> None
      then (a\<lparr>ha_allocations := AList.update ip val (ha_allocations a)\<rparr>, None) else (a, Some ErrNotFound))"

definition Free :: "'v hash_allocator \<Rightarrow> addr \<Rightarrow> 'v hash_allocator \<times> ha_error option" where
  "Free a ip =
     (if map_of (ha_allocations a) ip = None then (a, Some ErrNotFound)
      else case abl_put ip (ha_availableBlocks a) of
             Inl e \<Rightarrow> (a, Some e)
           | Inr bl \<Rightarrow>
               (let allocs = AList.delete ip (ha_allocations a) in
                (a\<lparr>ha_availableBlocks := bl, ha_allocations := allocs,
                   ha_peakAllocations := (if length allocs * 3 < ha_peakAllocations a then length allocs else ha_peakAllocations a)\<rparr>, None)))"

definition Get :: "'v hash_allocator \<Rightarrow> addr \<Rightarrow> 'v option" where
  "Get a ip = map_of (ha_allocations a) ip"

definition Stats :: "'v hash_allocator \<Rightarrow> nat \<times> int" where
  "Stats a =
     (let allocated = length (ha_allocations a)
      in (allocated, int (addr_val (ha_stop a)) - int (addr_val (ha_start a)) + 1 - int allocated))"

definition Range :: "'v hash_allocator \<Rightarrow> addr \<times> addr" where
  "Range a = (ha_start a, ha_stop a)"

section \<open>The heap operations permute\<close>

lemma Swap_length [simp]: "length (abl_Swap h i j) = length h"
  by (simp add: abl_Swap_def)

lemma Swap_mset: "i < length h \<Longrightarrow> j < length h \<Longrightarrow> mset (abl_Swap h i j) = mset h"
  unfolding abl_Swap_def by (rule mset_swap)

lemma Swap_nth: "k \<noteq> i \<Longrightarrow> k \<noteq> j \<Longrightarrow> abl_Swap h i j ! k = h ! k"
  by (simp add: abl_Swap_def)

lemma heap_up_perm:
  "j < length h \<Longrightarrow> mset (heap_up st h j) = mset h \<and> (\<forall>k > j. heap_up st h j ! k = h ! k)"
proof (induction st h j rule: heap_up.induct)
  case (1 st h j)
  let ?i = "(j - 1) div 2"
  show ?case
  proof (cases "?i = j \<or> \<not> abl_Less st h j ?i")
    case True
    then show ?thesis by (subst (1 2) heap_up.simps) (simp add: Let_def)
  next
    case False
    have i: "?i \<le> j" "?i \<noteq> j" using False by auto
    have e: "heap_up st h j = heap_up st (abl_Swap h ?i j) ?i" using False by (subst heap_up.simps) (simp add: Let_def)
    have ih: "mset (heap_up st (abl_Swap h ?i j) ?i) = mset (abl_Swap h ?i j)"
      "\<forall>k > ?i. heap_up st (abl_Swap h ?i j) ?i ! k = abl_Swap h ?i j ! k"
      using "1.IH" [OF refl False] "1.prems" i by auto
    show ?thesis unfolding e using ih Swap_mset [of ?i h j] Swap_nth [of _ ?i j h] "1.prems" i by auto
  qed
qed

lemma heap_down_perm:
  "n \<le> length h \<Longrightarrow> mset (fst (heap_down st h i n)) = mset h \<and> (\<forall>k \<ge> n. fst (heap_down st h i n) ! k = h ! k)"
proof (induction st h i n rule: heap_down.induct)
  case (1 st h i n)
  let ?j1 = "2 * i + 1"
  let ?j = "if ?j1 + 1 < n \<and> abl_Less st h (?j1 + 1) ?j1 then ?j1 + 1 else ?j1"
  show ?case
  proof (cases "?j1 \<ge> n \<or> \<not> abl_Less st h ?j i")
    case True
    then have "heap_down st h i n = (h, i)" by (subst heap_down.simps) (auto simp: Let_def)
    then show ?thesis by simp
  next
    case False
    have j: "?j < n" "i < n" using False by (auto split: if_splits)
    have e: "heap_down st h i n = heap_down st (abl_Swap h i ?j) ?j n"
      using False by (subst heap_down.simps) (simp only: Let_def if_False de_Morgan_disj not_not if_True not_True_eq_False)
    have ih: "mset (fst (heap_down st (abl_Swap h i ?j) ?j n)) = mset (abl_Swap h i ?j)"
      "\<forall>k \<ge> n. fst (heap_down st (abl_Swap h i ?j) ?j n) ! k = abl_Swap h i ?j ! k"
      using "1.IH" [OF refl _ refl] False "1.prems" by simp_all
    have m: "mset (abl_Swap h i ?j) = mset h" using j "1.prems" by (intro Swap_mset) linarith+
    have "abl_Swap h i ?j ! k = h ! k" if "k \<ge> n" for k by (rule Swap_nth) (use that j in linarith)+
    with ih m show ?thesis unfolding e by simp
  qed
qed

lemma heap_fix_at_perm:
  assumes "i < n" "n \<le> length h"
  shows "mset (heap_fix_at st h i n) = mset h \<and> (\<forall>k \<ge> n. heap_fix_at st h i n ! k = h ! k)"
proof -
  obtain h' i' where d: "heap_down st h i n = (h', i')" by fastforce
  have p: "mset h' = mset h" "\<forall>k \<ge> n. h' ! k = h ! k" using heap_down_perm [OF assms(2), of st i] d by simp_all
  have "length h' = length h" using p(1) by (rule mset_eq_length)
  then have "mset (heap_up st h' i) = mset h'" "\<forall>k > i. heap_up st h' i ! k = h' ! k"
    using heap_up_perm [of i h' st] assms by simp_all
  then show ?thesis using p d assms(1) by (simp add: heap_fix_at_def)
qed

lemma heap_Fix_mset: "i < length h \<Longrightarrow> mset (heap_Fix st h i) = mset h"
  using heap_fix_at_perm [of i "length h" h st] by (simp add: heap_Fix_def)

lemma heap_Push_mset: "mset (heap_Push st h r) = add_mset r (mset h)"
  using heap_up_perm [of "length h" "h @ [r]" st] by (simp add: heap_Push_def)

lemma mset_butlast: "xs \<noteq> [] \<Longrightarrow> mset (butlast xs) = mset xs - {#last xs#}"
  by (metis add_mset_diff_bothsides append_butlast_last_id diff_zero mset_append mset.simps(1,2) union_mset_add_mset_right add.right_neutral)

lemma heap_Remove_mset:
  assumes "i < length h" shows "mset (heap_Remove st h i) = mset h - {#h ! i#}"
proof -
  let ?n = "length h - 1"
  have ne: "h \<noteq> []" using assms by auto
  show ?thesis
  proof (cases "?n = i")
    case True
    then have "last h = h ! i" using ne by (simp add: last_conv_nth)
    then show ?thesis using True mset_butlast [OF ne] by (simp add: heap_Remove_def Let_def)
  next
    case False
    let ?s = "abl_Swap h i ?n"
    have i: "i < ?n" "?n \<le> length ?s" "?n < length h" using assms False by auto
    let ?f = "heap_fix_at st ?s i ?n"
    have f: "mset ?f = mset ?s" "?f ! ?n = ?s ! ?n" using heap_fix_at_perm [OF i(1,2), of st] by simp_all
    have sm: "mset ?s = mset h" using i assms by (intro Swap_mset)
    have l: "length ?f = length h" using f(1) sm by (metis mset_eq_length)
    then have fne: "?f \<noteq> []" using ne by auto
    have "last ?f = ?f ! ?n" using fne l by (simp add: last_conv_nth)
    also have "\<dots> = h ! i" using f(2) i by (simp add: abl_Swap_def)
    finally have "last ?f = h ! i" .
    moreover have "heap_Remove st h i = butlast ?f" using False by (simp add: heap_Remove_def Let_def)
    ultimately show ?thesis using mset_butlast [OF fne] f(1) sm by simp
  qed
qed

lemma index_of_nth: "r \<in> set h \<Longrightarrow> index_of r h < length h \<and> h ! index_of r h = r"
  by (induction h) auto

lemma heap_Remove_index: "r \<in> set h \<Longrightarrow> mset (heap_Remove st h (index_of r h)) = mset h - {#r#}"
  using heap_Remove_mset [of "index_of r h" h st] index_of_nth [of r h] by simp

section \<open>The linked list\<close>

text \<open>
  \<open>lseg st p xs q\<close>: the blocks \<open>xs\<close> are linked in this order, the first back to \<open>p\<close> and the last on to \<open>q\<close>.
\<close>

fun lseg :: "store \<Rightarrow> ref option \<Rightarrow> ref list \<Rightarrow> ref option \<Rightarrow> bool" where
  "lseg st p [] q \<longleftrightarrow> True"
| "lseg st p (r # rs) q \<longleftrightarrow>
     lb_prev (st ! r) = p \<and> lb_next (st ! r) = (if rs = [] then q else Some (hd rs)) \<and> lseg st (Some r) rs q"

abbreviation first_or :: "ref list \<Rightarrow> ref option \<Rightarrow> ref option" where
  "first_or xs q \<equiv> (if xs = [] then q else Some (hd xs))"

abbreviation last_or :: "ref list \<Rightarrow> ref option \<Rightarrow> ref option" where
  "last_or xs p \<equiv> (if xs = [] then p else Some (last xs))"

lemma lseg_append: "lseg st p (xs @ ys) q \<longleftrightarrow> lseg st p xs (first_or ys q) \<and> lseg st (last_or xs p) ys q"
  by (induction xs arbitrary: p) auto

lemma lseg_cong:
  "(\<And>r. r \<in> set xs \<Longrightarrow> lb_prev (st' ! r) = lb_prev (st ! r) \<and> lb_next (st' ! r) = lb_next (st ! r)) \<Longrightarrow>
   lseg st' p xs q = lseg st p xs q"
  by (induction xs arbitrary: p) auto

lemma set_next_nth:
  "set_ptr = set_next p v st \<Longrightarrow> set_option p \<subseteq> {..<length st} \<Longrightarrow>
   set_ptr ! r = (if p = Some r then (st ! r)\<lparr>lb_next := v\<rparr> else st ! r)"
  by (auto simp: set_next_def nth_list_update split: option.splits)

lemma set_prev_nth:
  "set_ptr = set_prev p v st \<Longrightarrow> set_option p \<subseteq> {..<length st} \<Longrightarrow>
   set_ptr ! r = (if p = Some r then (st ! r)\<lparr>lb_prev := v\<rparr> else st ! r)"
  by (auto simp: set_prev_def nth_list_update split: option.splits)

lemma set_ptr_length [simp]: "length (set_next p v st) = length st" "length (set_prev p v st) = length st"
  by (simp_all add: set_next_def set_prev_def split: option.splits)

text \<open>Redirecting the end of a segment, and its beginning.\<close>

lemma lseg_redirect_next:
  "distinct xs \<Longrightarrow> set xs \<subseteq> {..<length st} \<Longrightarrow> xs \<noteq> [] \<Longrightarrow> lseg st p xs q \<Longrightarrow> lseg (set_next (Some (last xs)) v st) p xs v"
proof (induction xs arbitrary: p)
  case (Cons r rs)
  show ?case
  proof (cases "rs = []")
    case True
    with Cons.prems show ?thesis by (simp add: set_next_nth [OF refl])
  next
    case False
    then have "last rs \<noteq> r" using Cons.prems(1) by auto
    then have "set_next (Some (last (r # rs))) v st ! r = st ! r" using False Cons.prems(2) by (simp add: set_next_def)
    with False Cons show ?thesis by simp
  qed
qed simp

lemma lseg_redirect_prev:
  "distinct xs \<Longrightarrow> set xs \<subseteq> {..<length st} \<Longrightarrow> xs \<noteq> [] \<Longrightarrow> lseg st p xs q \<Longrightarrow> lseg (set_prev (Some (hd xs)) v st) v xs q"
proof (cases xs)
  case (Cons r rs)
  assume a: "distinct xs" "set xs \<subseteq> {..<length st}" "lseg st p xs q"
  have "lseg (set_prev (Some r) v st) (Some r) rs q = lseg st (Some r) rs q"
    by (rule lseg_cong) (use a Cons in \<open>auto simp: set_prev_def nth_list_update\<close>)
  with a Cons show ?thesis by (simp add: set_prev_nth [OF refl])
qed simp

text \<open>
  Replacing a stretch of the list by other blocks: the neighbours are redirected, the new blocks are already
  linked among themselves.
\<close>

lemma lseg_splice:
  assumes "lseg st None (xs @ old @ ys) None" "distinct (xs @ ns @ ys)" "set (xs @ ys) \<subseteq> {..<length st1}"
    and "\<And>r. r \<in> set (xs @ ys) \<Longrightarrow> st1 ! r = st ! r"
    and "lseg st1 (last_or xs None) ns (first_or ys None)"
  shows "lseg (set_prev (first_or ys None) (last_or (xs @ ns) None) (set_next (last_or xs None) (first_or (ns @ ys) None) st1))
    None (xs @ ns @ ys) None"
proof -
  define s1 where "s1 = set_next (last_or xs None) (first_or (ns @ ys) None) st1"
  define s2 where "s2 = set_prev (first_or ys None) (last_or (xs @ ns) None) s1"
  have l: "length s1 = length st1" by (simp add: s1_def)
  have x: "lseg st None xs (first_or (old @ ys) None)" and y: "\<exists>p. lseg st p ys None"
    using assms(1) unfolding lseg_append by blast+
  have n1: "s1 ! r = st1 ! r" if "r \<notin> set xs" for r
  proof (cases "xs = []")
    case False
    then have "last xs \<noteq> r" using that last_in_set by metis
    with False show ?thesis by (simp add: s1_def set_next_def)
  qed (simp add: s1_def set_next_def)
  have n2: "s2 ! r = s1 ! r" if "r \<notin> set ys" for r
  proof (cases "ys = []")
    case False
    then have "hd ys \<noteq> r" using that hd_in_set by metis
    with False show ?thesis by (simp add: s2_def set_prev_def)
  qed (simp add: s2_def set_prev_def)
  have "lseg st1 None xs (first_or (old @ ys) None)"
    using lseg_cong [of xs st1 st] assms(4) x by simp
  then have "lseg s1 None xs (first_or (ns @ ys) None)"
    using lseg_redirect_next [of xs st1] assms(2,3) by (cases "xs = []") (simp_all add: s1_def)
  moreover have "lseg s2 None xs q = lseg s1 None xs q" for q
    by (rule lseg_cong) (use n2 assms(2) in auto)
  ultimately have X: "lseg s2 None xs (first_or (ns @ ys) None)" by simp
  have "lseg s2 p ns q = lseg st1 p ns q" for p q
  proof (rule lseg_cong)
    fix r assume "r \<in> set ns"
    then have "r \<notin> set xs" "r \<notin> set ys" using assms(2) by auto
    then show "lb_prev (s2 ! r) = lb_prev (st1 ! r) \<and> lb_next (s2 ! r) = lb_next (st1 ! r)" using n1 n2 by simp
  qed
  with assms(5) have N: "lseg s2 (last_or xs None) ns (first_or ys None)" by simp
  from y obtain p where "lseg st p ys None" by blast
  moreover have "lseg s1 p ys None = lseg st p ys None"
  proof (rule lseg_cong)
    fix r assume r: "r \<in> set ys"
    then have "r \<notin> set xs" using assms(2) by auto
    then have "s1 ! r = st ! r" using n1 [of r] assms(4) [of r] r by simp
    then show "lb_prev (s1 ! r) = lb_prev (st ! r) \<and> lb_next (s1 ! r) = lb_next (st ! r)" by simp
  qed
  ultimately have "lseg s1 p ys None" by simp
  then have Y: "lseg s2 (last_or (xs @ ns) None) ys None"
    using lseg_redirect_prev [of ys s1 p None "last_or (xs @ ns) None"] assms(2,3) l
    by (cases "ys = []") (simp_all add: s2_def)
  show ?thesis unfolding s1_def [symmetric] s2_def [symmetric] lseg_append
    using X N Y by (auto split: if_splits)
qed

section \<open>Intervals\<close>

text \<open>The list of free blocks as separated, ordered intervals of numbers.\<close>

definition wf_ivs :: "(nat \<times> nat) list \<Rightarrow> bool" where
  "wf_ivs is \<longleftrightarrow> sorted_wrt (\<lambda>(l, h) (l', h'). h + 1 < l') is \<and> list_all (\<lambda>(l, h). l \<le> h) is"

definition ivs_set :: "(nat \<times> nat) list \<Rightarrow> nat set" where
  "ivs_set is = (\<Union>(l, h) \<in> set is. {l..h})"

lemma ivs_set_simps [simp]:
  "ivs_set [] = {}" "ivs_set ((l, h) # is) = {l..h} \<union> ivs_set is" "ivs_set (is @ js) = ivs_set is \<union> ivs_set js"
  by (auto simp: ivs_set_def)

lemma wf_ivs_append: "wf_ivs (is @ js) \<longleftrightarrow> wf_ivs is \<and> wf_ivs js \<and> (\<forall>(l, h) \<in> set is. \<forall>(l', h') \<in> set js. h + 1 < l')"
  by (auto simp: wf_ivs_def sorted_wrt_append)

lemma wf_ivs_Cons: "wf_ivs ((l, h) # is) \<longleftrightarrow> l \<le> h \<and> wf_ivs is \<and> (\<forall>(l', h') \<in> set is. h + 1 < l')"
  by (auto simp: wf_ivs_def)

lemma ivs_below: "wf_ivs (is @ (l, h) # js) \<Longrightarrow> x \<in> ivs_set is \<Longrightarrow> x + 1 < l"
  by (fastforce simp: wf_ivs_append ivs_set_def)

lemma ivs_above: "wf_ivs (is @ (l, h) # js) \<Longrightarrow> x \<in> ivs_set js \<Longrightarrow> h + 1 < x"
  by (fastforce simp: wf_ivs_append wf_ivs_Cons ivs_set_def)

text \<open>Cutting a number out of its interval.\<close>

lemma ivs_remove:
  assumes "wf_ivs (is @ (l, h) # js)"
  shows "wf_ivs (is @ js)" "l < h \<Longrightarrow> wf_ivs (is @ (l + 1, h) # js)" "l < h \<Longrightarrow> wf_ivs (is @ (l, h - 1) # js)"
    "l < x \<Longrightarrow> x < h \<Longrightarrow> wf_ivs (is @ (l, x - 1) # (x + 1, h) # js)"
  using assms by (fastforce simp: wf_ivs_append wf_ivs_Cons)+

lemma ivs_cut:
  assumes "wf_ivs (is @ (l, h) # js)" "l \<le> x" "x \<le> h"
  shows "ivs_set (is @ (l, h) # js) - {x} = ivs_set is \<union> ({l..h} - {x}) \<union> ivs_set js"
  using ivs_below [OF assms(1), of x] ivs_above [OF assms(1), of x] assms(2,3) by auto

text \<open>Adding a number.\<close>

lemma ivs_add:
  assumes "wf_ivs (is @ js)" "\<And>l h. (l, h) \<in> set is \<Longrightarrow> h + 1 < x" "\<And>l h. (l, h) \<in> set js \<Longrightarrow> x + 1 < l"
  shows "wf_ivs (is @ (x, x) # js)"
  using assms by (fastforce simp: wf_ivs_append wf_ivs_Cons)

section \<open>The invariant\<close>

definition same_kind :: "addr \<Rightarrow> addr \<Rightarrow> bool" where
  "same_kind a b \<longleftrightarrow> same_family a b \<and> \<not> addr_has_zone b"

definition iv :: "linked_block \<Rightarrow> nat \<times> nat" where
  "iv b = (addr_val (lb_from b), addr_val (lb_to b))"

definition good_block :: "addr \<Rightarrow> linked_block \<Rightarrow> bool" where
  "good_block a0 b \<longleftrightarrow> same_kind a0 (lb_from b) \<and> same_kind a0 (lb_to b)"

definition bl_inv :: "addr \<Rightarrow> block_list \<Rightarrow> ref list \<Rightarrow> bool" where
  "bl_inv a0 bl ord \<longleftrightarrow> mset (bl_heap bl) = mset ord \<and> distinct ord \<and> set ord \<subseteq> {..<length (bl_store bl)} \<and>
     lseg (bl_store bl) None ord None \<and> (\<forall>r \<in> set ord. good_block a0 (bl_store bl ! r)) \<and>
     wf_ivs (map (\<lambda>r. iv (bl_store bl ! r)) ord)"

definition bl_free :: "block_list \<Rightarrow> nat set" where
  "bl_free bl = ivs_set (map (\<lambda>r. iv (bl_store bl ! r)) (bl_heap bl))"

lemma bl_free_ord: "bl_inv a0 bl ord \<Longrightarrow> bl_free bl = ivs_set (map (\<lambda>r. iv (bl_store bl ! r)) ord)"
  using mset_eq_setD [of "bl_heap bl" ord] by (simp add: bl_inv_def bl_free_def ivs_set_def)

lemma iv_ptr [simp]: "iv (b\<lparr>lb_next := v\<rparr>) = iv b" "iv (b\<lparr>lb_prev := v\<rparr>) = iv b" "iv (calcSize b) = iv b"
  by (simp_all add: iv_def calcSize_def)

lemma good_ptr [simp]:
  "good_block a0 (b\<lparr>lb_next := v\<rparr>) = good_block a0 b" "good_block a0 (b\<lparr>lb_prev := v\<rparr>) = good_block a0 b"
  "good_block a0 (calcSize b) = good_block a0 b"
  by (simp_all add: good_block_def calcSize_def)

lemma set_ptr_iv:
  assumes "set_option p \<subseteq> {..<length st}"
  shows "iv (set_next p v st ! r) = iv (st ! r)" "iv (set_prev p v st ! r) = iv (st ! r)"
    "good_block a0 (set_next p v st ! r) = good_block a0 (st ! r)" "good_block a0 (set_prev p v st ! r) = good_block a0 (st ! r)"
  using assms by (simp_all add: set_next_nth [OF refl] set_prev_nth [OF refl])

lemma bl_splice:
  assumes inv: "bl_inv a0 bl (xs @ old @ ys)"
    and st1: "\<And>r. r \<in> set (xs @ ys) \<Longrightarrow> st1 ! r = bl_store bl ! r" "length (bl_store bl) \<le> length st1"
    and ns: "distinct (xs @ ns @ ys)" "set ns \<subseteq> {..<length st1}" "lseg st1 (last_or xs None) ns (first_or ys None)"
      "\<forall>r \<in> set ns. good_block a0 (st1 ! r)"
    and wf: "wf_ivs (map (\<lambda>r. iv (bl_store bl ! r)) xs @ map (\<lambda>r. iv (st1 ! r)) ns @ map (\<lambda>r. iv (bl_store bl ! r)) ys)"
    and st': "st' = set_prev (first_or ys None) (last_or (xs @ ns) None) (set_next (last_or xs None) (first_or (ns @ ys) None) st1)"
    and h: "mset h = mset (xs @ ns @ ys)"
  shows "bl_inv a0 \<lparr>bl_store = st', bl_heap = h\<rparr> (xs @ ns @ ys)"
    "bl_free \<lparr>bl_store = st', bl_heap = h\<rparr> = ivs_set (map (\<lambda>r. iv (bl_store bl ! r)) xs @ map (\<lambda>r. iv (st1 ! r)) ns @ map (\<lambda>r. iv (bl_store bl ! r)) ys)"
proof -
  have b: "set (xs @ ys) \<subseteq> {..<length (bl_store bl)}" "lseg (bl_store bl) None (xs @ old @ ys) None"
    "\<forall>r \<in> set (xs @ ys). good_block a0 (bl_store bl ! r)" using inv by (auto simp: bl_inv_def)
  then have b1: "set (xs @ ys) \<subseteq> {..<length st1}" using st1(2) by (auto simp: subset_iff)
  have ls: "lseg st' None (xs @ ns @ ys) None" unfolding st' by (rule lseg_splice [OF b(2) ns(1) b1 st1(1) ns(3)])
  have "set_option (last_or xs None) \<subseteq> {..<length st1}" "set_option (first_or ys None) \<subseteq> {..<length st1}"
    using b1 by (auto simp: subset_iff)
  then have ivs: "iv (st' ! r) = iv (st1 ! r)" "good_block a0 (st' ! r) = good_block a0 (st1 ! r)" for r
    unfolding st' by (simp_all add: set_ptr_iv)
  have m: "map (\<lambda>r. iv (st' ! r)) (xs @ ns @ ys) =
      map (\<lambda>r. iv (bl_store bl ! r)) xs @ map (\<lambda>r. iv (st1 ! r)) ns @ map (\<lambda>r. iv (bl_store bl ! r)) ys"
    using st1(1) by (simp add: ivs)
  have len: "length st' = length st1" by (simp add: st')
  show i: "bl_inv a0 \<lparr>bl_store = st', bl_heap = h\<rparr> (xs @ ns @ ys)"
    unfolding bl_inv_def block_list.simps m len using ls h ns(1,2,4) b1 b(3) wf ivs(2) st1(1) by auto
  show "bl_free \<lparr>bl_store = st', bl_heap = h\<rparr> = ivs_set (map (\<lambda>r. iv (bl_store bl ! r)) xs @ map (\<lambda>r. iv (st1 ! r)) ns @ map (\<lambda>r. iv (bl_store bl ! r)) ys)"
    unfolding bl_free_ord [OF i] block_list.simps m ..
qed

text \<open>Changing the bounds of a block in place.\<close>

lemma bl_resize:
  assumes inv: "bl_inv a0 bl (xs @ r # ys)"
    and b': "lb_prev b' = lb_prev (bl_store bl ! r)" "lb_next b' = lb_next (bl_store bl ! r)" "good_block a0 b'"
    and wf: "wf_ivs (map (\<lambda>r. iv (bl_store bl ! r)) xs @ iv b' # map (\<lambda>r. iv (bl_store bl ! r)) ys)"
    and h: "mset h = mset (xs @ r # ys)"
  shows "bl_inv a0 \<lparr>bl_store = (bl_store bl)[r := b'], bl_heap = h\<rparr> (xs @ r # ys)"
    "bl_free \<lparr>bl_store = (bl_store bl)[r := b'], bl_heap = h\<rparr> =
      ivs_set (map (\<lambda>r. iv (bl_store bl ! r)) xs @ iv b' # map (\<lambda>r. iv (bl_store bl ! r)) ys)"
proof -
  let ?st = "(bl_store bl)[r := b']"
  have d: "r < length (bl_store bl)" "r \<notin> set xs" "r \<notin> set ys" using inv by (auto simp: bl_inv_def)
  have st: "?st ! q = (if q = r then b' else bl_store bl ! q)" for q using d(1) by (simp add: nth_list_update)
  have m: "map (\<lambda>r. iv (?st ! r)) (xs @ r # ys) = map (\<lambda>r. iv (bl_store bl ! r)) xs @ iv b' # map (\<lambda>r. iv (bl_store bl ! r)) ys"
    using d by (auto simp: st)
  have "lseg ?st None (xs @ r # ys) None = lseg (bl_store bl) None (xs @ r # ys) None"
    by (rule lseg_cong) (simp add: st b')
  then show i: "bl_inv a0 \<lparr>bl_store = ?st, bl_heap = h\<rparr> (xs @ r # ys)"
    unfolding bl_inv_def block_list.simps m using inv h wf b'(3) d by (auto simp: bl_inv_def st)
  show "bl_free \<lparr>bl_store = ?st, bl_heap = h\<rparr> = ivs_set (map (\<lambda>r. iv (bl_store bl ! r)) xs @ iv b' # map (\<lambda>r. iv (bl_store bl ! r)) ys)"
    unfolding bl_free_ord [OF i] block_list.simps m ..
qed

section \<open>Addresses of one family\<close>

lemma unat_as16: "unat (addr_as16 (V4 a)) = 0xffff00000000 + unat a"
proof -
  have u: "unat (ucast a :: u128) = unat a"
    using unat_less_pow [of a] by (simp add: unsigned_ucast_eq take_bit_nat_eq_self)
  have "unat (0xffff00000000 OR ucast a :: u128) = unat (0xffff00000000 :: u128) + unat (ucast a :: u128)"
    by (rule unat_or_low [of 32]) (use u unat_less_pow [of a] in simp_all)
  then show ?thesis by (simp add: u)
qed

lemma string_compare_refl [simp]: "string_compare s s = 0"
  by (induction s) auto

lemma compare_val:
  assumes "same_kind a0 a" "same_kind a0 b"
  shows "addr_compare a b < 0 \<longleftrightarrow> addr_val a < addr_val b" "addr_compare a b > 0 \<longleftrightarrow> addr_val b < addr_val a"
    "addr_compare a b \<ge> 0 \<longleftrightarrow> addr_val b \<le> addr_val a" "addr_compare a b \<le> 0 \<longleftrightarrow> addr_val a \<le> addr_val b"
proof -
  have l: "addr_as16 a < addr_as16 b \<longleftrightarrow> addr_val a < addr_val b" "addr_as16 b < addr_as16 a \<longleftrightarrow> addr_val b < addr_val a"
    "addr_bitlen a = addr_bitlen b" "addr_zone a = []" "addr_zone b = []"
    using assms by (cases a0; cases a; cases b; simp add: same_kind_def word_less_nat_alt unat_as16 del: addr_as16.simps(2))+
  show "addr_compare a b < 0 \<longleftrightarrow> addr_val a < addr_val b" "addr_compare a b > 0 \<longleftrightarrow> addr_val b < addr_val a"
    "addr_compare a b \<ge> 0 \<longleftrightarrow> addr_val b \<le> addr_val a" "addr_compare a b \<le> 0 \<longleftrightarrow> addr_val a \<le> addr_val b"
    unfolding addr_compare_def l by auto
qed

lemma same_kind_eq: "same_kind a0 a \<Longrightarrow> same_kind a0 b \<Longrightarrow> a = b \<longleftrightarrow> addr_val a = addr_val b"
  by (cases a0; cases a; cases b) (auto simp: same_kind_def word_unat_eq_iff)

lemma word_plus1: "unat (w :: 'a::len word) + 1 < 2 ^ LENGTH('a) \<Longrightarrow> w + 1 \<noteq> 0 \<and> unat (w + 1) = unat w + 1"
  by (metis add.commute add_is_0 unatSuc unat_0 unat_eq_zero Suc_eq_plus1 plus_1_eq_Suc less_irrefl unat_word_ariths(1) unsigned_1 mod_less zero_neq_one unat_1)

lemma word_minus1: "0 < unat (w :: 'a::len word) \<Longrightarrow> w \<noteq> 0 \<and> unat (w - 1) = unat w - 1"
  by (metis bot_nat_0.not_eq_extremum unat_eq_zero unat_minus_one)

lemma next_kind:
  assumes "same_kind a0 a" "same_kind a0 b" "addr_val a < addr_val b"
  shows "same_kind a0 (addr_next a) \<and> addr_val (addr_next a) = addr_val a + 1"
proof (cases a)
  case (V4 w)
  then obtain v where b: "b = V4 v" using assms by (cases a0; cases b) (auto simp: same_kind_def)
  have "unat w + 1 < 2 ^ LENGTH(32)" using assms(3) unat_less_pow [of v] by (simp add: V4 b)
  with word_plus1 [of w] V4 assms(1) show ?thesis by (cases a0) (auto simp: same_kind_def)
next
  case (V6 w z)
  then obtain v z' where b: "b = V6 v z'" using assms by (cases a0; cases b) (auto simp: same_kind_def)
  have "unat w + 1 < 2 ^ LENGTH(128)" using assms(3) unat_less_pow [of v] by (simp add: V6 b)
  with word_plus1 [of w] V6 assms(1) show ?thesis by (cases a0) (auto simp: same_kind_def)
qed (use assms in \<open>cases a0; simp add: same_kind_def\<close>)

lemma prev_kind:
  assumes "same_kind a0 a" "0 < addr_val a"
  shows "same_kind a0 (addr_prev a) \<and> addr_val (addr_prev a) = addr_val a - 1"
  using assms by (cases a0; cases a) (auto simp: same_kind_def word_minus1)

lemma next_is:
  assumes "same_kind a0 a" "same_kind a0 b" shows "addr_next a = b \<longleftrightarrow> addr_val b = addr_val a + 1"
proof
  assume n: "addr_next a = b"
  have z: "addr_val (addr_next a) = addr_val a + 1 \<or> addr_next a = AddrInvalid"
  proof (cases a)
    case (V4 w)
    then show ?thesis using unatSuc [of w] by (auto simp: add.commute)
  next
    case (V6 w zz)
    then show ?thesis using unatSuc [of w] by (auto simp: add.commute)
  qed (use assms(1) in \<open>cases a0; simp add: same_kind_def\<close>)
  have "b \<noteq> AddrInvalid" using assms(2) by (cases a0) (auto simp: same_kind_def)
  with z n show "addr_val b = addr_val a + 1" by auto
next
  assume "addr_val b = addr_val a + 1"
  with next_kind [OF assms] same_kind_eq [OF _ assms(2), of "addr_next a"] show "addr_next a = b" by simp
qed

lemma prev_is:
  assumes "same_kind a0 a" "same_kind a0 b" shows "addr_prev a = b \<longleftrightarrow> addr_val a = addr_val b + 1"
proof
  assume n: "addr_prev a = b"
  have "b \<noteq> AddrInvalid" using assms(2) by (cases a0) (auto simp: same_kind_def)
  then have "0 < addr_val a" using n assms(1) by (cases a) (auto split: if_splits simp: unat_gt_0)
  with prev_kind [OF assms(1)] n show "addr_val a = addr_val b + 1" by auto
next
  assume "addr_val a = addr_val b + 1"
  with prev_kind [OF assms(1)] same_kind_eq [OF _ assms(2), of "addr_prev a"] show "addr_prev a = b" by simp
qed

section \<open>Taking an address\<close>

lemma bl_links:
  assumes "bl_inv a0 bl (xs @ r # ys)"
  shows "lb_prev (bl_store bl ! r) = last_or xs None" "lb_next (bl_store bl ! r) = first_or ys None"
    "good_block a0 (bl_store bl ! r)" "r < length (bl_store bl)"
    "wf_ivs (map (\<lambda>r. iv (bl_store bl ! r)) xs @ iv (bl_store bl ! r) # map (\<lambda>r. iv (bl_store bl ! r)) ys)"
    "mset (bl_heap bl) = mset (xs @ r # ys)" "distinct (xs @ r # ys)"
  using assms unfolding bl_inv_def lseg_append by auto

lemma bl_le: "bl_inv a0 bl (xs @ r # ys) \<Longrightarrow> addr_val (lb_from (bl_store bl ! r)) \<le> addr_val (lb_to (bl_store bl ! r))"
  using bl_links(5) [of a0 bl xs r ys] by (simp add: wf_ivs_append wf_ivs_Cons iv_def)

lemma within_iff:
  "good_block a0 b \<Longrightarrow> same_kind a0 ip \<Longrightarrow> within b ip \<longleftrightarrow> addr_val (lb_from b) \<le> addr_val ip \<and> addr_val ip \<le> addr_val (lb_to b)"
  by (simp add: within_def good_block_def compare_val(3) [of a0] compare_val(4) [of a0])

lemma take_found:
  assumes inv: "bl_inv a0 bl ord" and ip: "same_kind a0 ip"
  shows "case find (\<lambda>i. within (bl_store bl ! (bl_heap bl ! i)) ip) [0 ..< length (bl_heap bl)] of
      None \<Rightarrow> addr_val ip \<notin> bl_free bl
    | Some i \<Rightarrow> i < length (bl_heap bl) \<and> (\<exists>xs ys. ord = xs @ (bl_heap bl ! i) # ys) \<and>
        within (bl_store bl ! (bl_heap bl ! i)) ip \<and> addr_val ip \<in> bl_free bl"
proof -
  have s: "set (bl_heap bl) = set ord" using inv by (auto simp: bl_inv_def dest: mset_eq_setD)
  have g: "good_block a0 (bl_store bl ! r)" if "r \<in> set ord" for r using inv that by (simp add: bl_inv_def)
  have f: "addr_val ip \<in> bl_free bl \<longleftrightarrow> (\<exists>r \<in> set (bl_heap bl). within (bl_store bl ! r) ip)"
    unfolding bl_free_def ivs_set_def using within_iff [OF g ip] s by (auto simp: iv_def)
  show ?thesis
  proof (cases "find (\<lambda>i. within (bl_store bl ! (bl_heap bl ! i)) ip) [0 ..< length (bl_heap bl)]")
    case None
    then have "\<not> within (bl_store bl ! r) ip" if "r \<in> set (bl_heap bl)" for r
      using that by (auto simp: find_None_iff in_set_conv_nth)
    with None f show ?thesis by simp
  next
    case (Some i)
    then have i: "i < length (bl_heap bl)" "within (bl_store bl ! (bl_heap bl ! i)) ip"
      unfolding find_Some_iff by auto
    then have h: "bl_heap bl ! i \<in> set (bl_heap bl)" by simp
    then have "\<exists>xs ys. ord = xs @ (bl_heap bl ! i) # ys" using s by (simp add: split_list)
    with Some i h f show ?thesis by auto
  qed
qed

lemma ivs_split: "ivs_set (map f xs @ (l, h) # map f ys) = ivs_set (map f xs) \<union> {l..h} \<union> ivs_set (map f ys)"
  by auto

lemma bl_free_split:
  assumes "bl_inv a0 bl (xs @ r # ys)"
  shows "bl_free bl = ivs_set (map (\<lambda>r. iv (bl_store bl ! r)) xs) \<union>
      {addr_val (lb_from (bl_store bl ! r)) .. addr_val (lb_to (bl_store bl ! r))} \<union> ivs_set (map (\<lambda>r. iv (bl_store bl ! r)) ys)"
  unfolding bl_free_ord [OF assms] by (auto simp: iv_def)

text \<open>The other blocks lie strictly on their sides of a block.\<close>

lemma bl_sides:
  assumes "bl_inv a0 bl (xs @ r # ys)"
  shows "x \<in> ivs_set (map (\<lambda>r. iv (bl_store bl ! r)) xs) \<Longrightarrow> x + 1 < addr_val (lb_from (bl_store bl ! r))"
    "x \<in> ivs_set (map (\<lambda>r. iv (bl_store bl ! r)) ys) \<Longrightarrow> addr_val (lb_to (bl_store bl ! r)) + 1 < x"
  using ivs_below [OF bl_links(5) [OF assms, unfolded iv_def [of "bl_store bl ! r"]]]
    ivs_above [OF bl_links(5) [OF assms, unfolded iv_def [of "bl_store bl ! r"]]] by blast+

lemma delete_spec:
  assumes inv: "bl_inv a0 bl (xs @ r # ys)" and i: "i < length (bl_heap bl)" "bl_heap bl ! i = r"
    and single: "addr_val (lb_from (bl_store bl ! r)) = addr_val (lb_to (bl_store bl ! r))"
  shows "bl_inv a0 (abl_delete i bl) (xs @ ys) \<and> bl_free (abl_delete i bl) = bl_free bl - {addr_val (lb_from (bl_store bl ! r))}"
proof -
  note l = bl_links [OF inv]
  let ?h = "heap_Remove (bl_store bl) (bl_heap bl) i"
  let ?st = "set_prev (lb_next (bl_store bl ! r)) (lb_prev (bl_store bl ! r))
      (set_next (lb_prev (bl_store bl ! r)) (lb_next (bl_store bl ! r)) (bl_store bl))"
  have e: "abl_delete i bl = \<lparr>bl_store = ?st, bl_heap = ?h\<rparr>" by (simp add: abl_delete_def i(2) Let_def)
  have h: "mset ?h = mset (xs @ [] @ ys)" using heap_Remove_mset [OF i(1), of "bl_store bl"] l(6) i(2) by simp
  have st: "?st = set_prev (first_or ys None) (last_or (xs @ []) None) (set_next (last_or xs None) (first_or ([] @ ys) None) (bl_store bl))"
    by (simp add: l(1,2))
  have wf: "wf_ivs (map (\<lambda>r. iv (bl_store bl ! r)) xs @ map (\<lambda>r. iv (bl_store bl ! r)) [] @ map (\<lambda>r. iv (bl_store bl ! r)) ys)"
    using ivs_remove(1) [OF l(5) [unfolded iv_def [of "bl_store bl ! r"]]] by simp
  have inv': "bl_inv a0 bl (xs @ [r] @ ys)" using inv by simp
  have d: "distinct (xs @ [] @ ys)" using l(7) by simp
  note s = bl_splice [OF inv' refl order_refl d _ _ _ wf st h]
  have "bl_inv a0 (abl_delete i bl) (xs @ [] @ ys)" unfolding e by (rule s(1)) simp_all
  moreover have "bl_free (abl_delete i bl) = bl_free bl - {addr_val (lb_from (bl_store bl ! r))}"
  proof -
    have "bl_free (abl_delete i bl) = ivs_set (map (\<lambda>r. iv (bl_store bl ! r)) xs) \<union> ivs_set (map (\<lambda>r. iv (bl_store bl ! r)) ys)"
      unfolding e by (subst s(2)) simp_all
    then show ?thesis using bl_free_split [OF inv] single bl_sides [OF inv] by fastforce
  qed
  ultimately show ?thesis by simp
qed

text \<open>Shrinking a block at one end.\<close>

lemma shrink_spec:
  assumes inv: "bl_inv a0 bl (xs @ r # ys)" and i: "i < length (bl_heap bl)"
    and b': "lb_prev b' = lb_prev (bl_store bl ! r)" "lb_next b' = lb_next (bl_store bl ! r)" "good_block a0 b'"
    and lt: "addr_val (lb_from (bl_store bl ! r)) < addr_val (lb_to (bl_store bl ! r))"
    and cut: "iv b' = (addr_val (lb_from (bl_store bl ! r)) + 1, addr_val (lb_to (bl_store bl ! r))) \<and> x = addr_val (lb_from (bl_store bl ! r)) \<or>
      iv b' = (addr_val (lb_from (bl_store bl ! r)), addr_val (lb_to (bl_store bl ! r)) - 1) \<and> x = addr_val (lb_to (bl_store bl ! r))"
  defines "st \<equiv> (bl_store bl)[r := b']"
  shows "bl_inv a0 \<lparr>bl_store = st, bl_heap = heap_Fix st (bl_heap bl) i\<rparr> (xs @ r # ys) \<and>
    bl_free \<lparr>bl_store = st, bl_heap = heap_Fix st (bl_heap bl) i\<rparr> = bl_free bl - {x}"
proof -
  note l = bl_links [OF inv]
  have wf: "wf_ivs (map (\<lambda>r. iv (bl_store bl ! r)) xs @ iv b' # map (\<lambda>r. iv (bl_store bl ! r)) ys)"
    using ivs_remove(2,3) [OF l(5) [unfolded iv_def [of "bl_store bl ! r"]] lt] cut by auto
  have h: "mset (heap_Fix st (bl_heap bl) i) = mset (xs @ r # ys)" using heap_Fix_mset [OF i] l(6) by simp
  note s = bl_resize [OF inv b' wf h, folded st_def]
  have "{addr_val (lb_from (bl_store bl ! r)) .. addr_val (lb_to (bl_store bl ! r))} - {x} = {fst (iv b') .. snd (iv b')}"
    using cut lt by auto
  moreover have "x \<notin> ivs_set (map (\<lambda>r. iv (bl_store bl ! r)) xs)" "x \<notin> ivs_set (map (\<lambda>r. iv (bl_store bl ! r)) ys)"
    using bl_sides [OF inv, of x] cut lt by auto
  ultimately have "bl_free bl - {x} =
      ivs_set (map (\<lambda>r. iv (bl_store bl ! r)) xs @ (fst (iv b'), snd (iv b')) # map (\<lambda>r. iv (bl_store bl ! r)) ys)"
    unfolding bl_free_split [OF inv] ivs_split by blast
  with s show ?thesis by simp
qed

lemma split_spec:
  assumes inv: "bl_inv a0 bl (xs @ r # ys)" and i: "i < length (bl_heap bl)" "bl_heap bl ! i = r" and ip: "same_kind a0 ip"
    and lt: "addr_val (lb_from (bl_store bl ! r)) < addr_val ip" "addr_val ip < addr_val (lb_to (bl_store bl ! r))"
  defines "b \<equiv> bl_store bl ! r" and "l \<equiv> length (bl_store bl)" and "m \<equiv> length (bl_store bl) + 1"
  defines "lft \<equiv> calcSize \<lparr>lb_from = lb_from b, lb_to = addr_prev ip, lb_size = (0, 0), lb_prev = lb_prev b, lb_next = Some m\<rparr>"
    and "rgt \<equiv> calcSize \<lparr>lb_from = addr_next ip, lb_to = lb_to b, lb_size = (0, 0), lb_prev = Some l, lb_next = lb_next b\<rparr>"
  defines "st \<equiv> set_prev (lb_next b) (Some m) (set_next (lb_prev b) (Some l) (bl_store bl @ [lft, rgt]))"
  defines "bl' \<equiv> \<lparr>bl_store = st, bl_heap = heap_Push st (heap_Push st (heap_Remove (bl_store bl) (bl_heap bl) i) l) m\<rparr>"
  shows "bl_inv a0 bl' (xs @ l # m # ys) \<and> bl_free bl' = bl_free bl - {addr_val ip}"
proof -
  note k = bl_links [OF inv, folded b_def]
  let ?st1 = "bl_store bl @ [lft, rgt]"
  have g: "same_kind a0 (lb_from b)" "same_kind a0 (lb_to b)" using k(3) by (simp_all add: good_block_def)
  have nx: "same_kind a0 (addr_next ip)" "addr_val (addr_next ip) = addr_val ip + 1"
    using next_kind [OF ip g(2)] lt by (simp_all add: b_def)
  have pv: "same_kind a0 (addr_prev ip)" "addr_val (addr_prev ip) = addr_val ip - 1"
    using prev_kind [OF ip] lt by simp_all
  have nth: "?st1 ! l = lft" "?st1 ! m = rgt" by (simp_all add: l_def m_def nth_append)
  have bd: "set (xs @ ys) \<subseteq> {..<l}" using inv by (auto simp: bl_inv_def l_def)
  have d: "distinct (xs @ [l, m] @ ys)" using k(7) bd by (auto simp: l_def m_def)
  have seg: "lseg ?st1 (last_or xs None) [l, m] (first_or ys None)"
    using nth k(1,2) by (simp add: lft_def rgt_def calcSize_def)
  have ivn: "map (\<lambda>r. iv (?st1 ! r)) [l, m] = [(addr_val (lb_from b), addr_val ip - 1), (addr_val ip + 1, addr_val (lb_to b))]"
    using nth nx pv by (simp add: lft_def rgt_def) (simp add: iv_def)
  have wf: "wf_ivs (map (\<lambda>r. iv (bl_store bl ! r)) xs @ map (\<lambda>r. iv (?st1 ! r)) [l, m] @ map (\<lambda>r. iv (bl_store bl ! r)) ys)"
    unfolding ivn using ivs_remove(4) [OF k(5) [unfolded iv_def [of b]]] lt by (simp add: b_def)
  have gd: "\<forall>r \<in> set [l, m]. good_block a0 (?st1 ! r)" using nth g nx pv by (simp add: lft_def rgt_def) (simp add: good_block_def)
  have st: "st = set_prev (first_or ys None) (last_or (xs @ [l, m]) None) (set_next (last_or xs None) (first_or ([l, m] @ ys) None) ?st1)"
    by (simp add: st_def k(1,2))
  have hp: "mset (bl_heap bl') = mset (xs @ [l, m] @ ys)"
    using heap_Remove_mset [OF i(1), of "bl_store bl"] k(6) i(2) by (simp add: bl'_def heap_Push_mset)
  have inv': "bl_inv a0 bl (xs @ [r] @ ys)" using inv by simp
  have old: "?st1 ! q = bl_store bl ! q" if "q \<in> set (xs @ ys)" for q using that bd by (auto simp: nth_append l_def)
  have b2: "set [l, m] \<subseteq> {..<length ?st1}" by (simp add: l_def m_def)
  have "length (bl_store bl) \<le> length ?st1" by simp
  note s = bl_splice [OF inv' old this d b2 seg gd wf st hp]
  have bl': "\<lparr>bl_store = st, bl_heap = bl_heap bl'\<rparr> = bl'" by (simp add: bl'_def)
  have "bl_inv a0 bl' (xs @ [l, m] @ ys)" using s(1) unfolding bl' .
  moreover have "bl_free bl' = bl_free bl - {addr_val ip}"
  proof -
    have "bl_free bl' = ivs_set (map (\<lambda>r. iv (bl_store bl ! r)) xs) \<union>
        ({addr_val (lb_from b) .. addr_val ip - 1} \<union> {addr_val ip + 1 .. addr_val (lb_to b)}) \<union> ivs_set (map (\<lambda>r. iv (bl_store bl ! r)) ys)"
      using s(2) unfolding bl' ivn by auto
    moreover have "{addr_val (lb_from b) .. addr_val ip - 1} \<union> {addr_val ip + 1 .. addr_val (lb_to b)} = {addr_val (lb_from b) .. addr_val (lb_to b)} - {addr_val ip}"
      using lt by (auto simp: b_def)
    moreover have "addr_val ip \<notin> ivs_set (map (\<lambda>r. iv (bl_store bl ! r)) xs)" "addr_val ip \<notin> ivs_set (map (\<lambda>r. iv (bl_store bl ! r)) ys)"
      using bl_sides [OF inv, of "addr_val ip"] lt by auto
    ultimately show ?thesis using bl_free_split [OF inv, folded b_def] by blast
  qed
  ultimately show ?thesis by simp
qed

lemma shrink_low:
  assumes inv: "bl_inv a0 bl (xs @ r # ys)" and i: "i < length (bl_heap bl)" and lt: "addr_val (lb_from (bl_store bl ! r)) < addr_val (lb_to (bl_store bl ! r))"
  defines "b \<equiv> calcSize ((bl_store bl ! r)\<lparr>lb_from := addr_next (lb_from (bl_store bl ! r))\<rparr>)"
  shows "\<exists>ord. bl_inv a0 \<lparr>bl_store = (bl_store bl)[r := b], bl_heap = heap_Fix ((bl_store bl)[r := b]) (bl_heap bl) i\<rparr> ord \<and>
      bl_free \<lparr>bl_store = (bl_store bl)[r := b], bl_heap = heap_Fix ((bl_store bl)[r := b]) (bl_heap bl) i\<rparr> =
        bl_free bl - {addr_val (lb_from (bl_store bl ! r))}"
proof -
  have g: "same_kind a0 (lb_from (bl_store bl ! r))" "same_kind a0 (lb_to (bl_store bl ! r))"
    using bl_links(3) [OF inv] by (simp_all add: good_block_def)
  note n = next_kind [OF g lt]
  show ?thesis
    by (rule exI, rule shrink_spec [OF inv i]) (use g lt n in \<open>simp_all add: b_def good_block_def calcSize_def iv_def\<close>)
qed

lemma shrink_high:
  assumes inv: "bl_inv a0 bl (xs @ r # ys)" and i: "i < length (bl_heap bl)" and lt: "addr_val (lb_from (bl_store bl ! r)) < addr_val (lb_to (bl_store bl ! r))"
  defines "b \<equiv> calcSize ((bl_store bl ! r)\<lparr>lb_to := addr_prev (lb_to (bl_store bl ! r))\<rparr>)"
  shows "\<exists>ord. bl_inv a0 \<lparr>bl_store = (bl_store bl)[r := b], bl_heap = heap_Fix ((bl_store bl)[r := b]) (bl_heap bl) i\<rparr> ord \<and>
      bl_free \<lparr>bl_store = (bl_store bl)[r := b], bl_heap = heap_Fix ((bl_store bl)[r := b]) (bl_heap bl) i\<rparr> =
        bl_free bl - {addr_val (lb_to (bl_store bl ! r))}"
proof -
  have g: "same_kind a0 (lb_from (bl_store bl ! r))" "same_kind a0 (lb_to (bl_store bl ! r))"
    using bl_links(3) [OF inv] by (simp_all add: good_block_def)
  have n: "same_kind a0 (addr_prev (lb_to (bl_store bl ! r))) \<and> addr_val (addr_prev (lb_to (bl_store bl ! r))) = addr_val (lb_to (bl_store bl ! r)) - 1"
    by (rule prev_kind [OF g(2)]) (use lt in simp)
  show ?thesis
    by (rule exI, rule shrink_spec [OF inv i]) (use g lt n in \<open>simp_all add: b_def good_block_def calcSize_def iv_def\<close>)
qed

lemma take_spec:
  assumes inv: "bl_inv a0 bl ord" and ip: "same_kind a0 ip"
  shows "if addr_val ip \<in> bl_free bl
    then \<exists>bl' ord'. abl_take ip bl = Inr bl' \<and> bl_inv a0 bl' ord' \<and> bl_free bl' = bl_free bl - {addr_val ip}
    else abl_take ip bl = Inl ErrInUse"
proof (cases "find (\<lambda>i. within (bl_store bl ! (bl_heap bl ! i)) ip) [0 ..< length (bl_heap bl)]")
  case None
  with take_found [OF inv ip] show ?thesis by (simp add: abl_take_def)
next
  case (Some i)
  with take_found [OF inv ip] obtain xs ys where i: "i < length (bl_heap bl)" "within (bl_store bl ! (bl_heap bl ! i)) ip"
    and ord: "ord = xs @ (bl_heap bl ! i) # ys" and free: "addr_val ip \<in> bl_free bl" by auto
  define r b where "r = bl_heap bl ! i" and "b = bl_store bl ! r"
  note inv' = inv [unfolded ord, folded r_def]
  note k = bl_links [OF inv', folded b_def]
  have g: "same_kind a0 (lb_from b)" "same_kind a0 (lb_to b)" using k(3) by (simp_all add: good_block_def)
  have w: "addr_val (lb_from b) \<le> addr_val ip" "addr_val ip \<le> addr_val (lb_to b)"
    using within_iff [OF k(3) ip] i(2) by (simp_all add: r_def b_def)
  have "\<exists>bl' ord'. abl_take ip bl = Inr bl' \<and> bl_inv a0 bl' ord' \<and> bl_free bl' = bl_free bl - {addr_val ip}"
  proof -
    consider (del) "lb_from b = ip" "lb_from b = lb_to b" | (lo) "lb_from b = ip" "lb_from b \<noteq> lb_to b"
      | (hi) "lb_from b \<noteq> ip" "lb_to b = ip" | (mid) "lb_from b \<noteq> ip" "lb_to b \<noteq> ip" by blast
    then show ?thesis
    proof cases
      case del
      then have "abl_take ip bl = Inr (abl_delete i bl)" using Some by (simp add: abl_take_def Let_def r_def b_def)
      moreover have s: "addr_val (lb_from (bl_store bl ! r)) = addr_val (lb_to (bl_store bl ! r))" using del by (simp add: b_def)
      ultimately show ?thesis using delete_spec [OF inv' i(1) r_def [symmetric] s] del(1) unfolding b_def by blast
    next
      case lo
      then have lt: "addr_val (lb_from (bl_store bl ! r)) < addr_val (lb_to (bl_store bl ! r))"
        using w same_kind_eq [OF g] by (simp add: b_def)
      from shrink_low [OF inv' i(1) lt] Some lo show ?thesis by (simp add: abl_take_def Let_def r_def b_def)
    next
      case hi
      then have lt: "addr_val (lb_from (bl_store bl ! r)) < addr_val (lb_to (bl_store bl ! r))"
        using w same_kind_eq [OF g] by (auto simp: b_def)
      from shrink_high [OF inv' i(1) lt] Some hi show ?thesis by (auto simp: abl_take_def Let_def r_def b_def)
    next
      case mid
      have lt: "addr_val (lb_from (bl_store bl ! r)) < addr_val ip" "addr_val ip < addr_val (lb_to (bl_store bl ! r))"
        using mid w same_kind_eq [OF g(1) ip] same_kind_eq [OF g(2) ip] by (simp_all add: b_def)
      from split_spec [OF inv' i(1) r_def [symmetric] ip lt] Some mid show ?thesis
        unfolding abl_take_def by (simp add: Let_def r_def b_def) blast
    qed
  qed
  with free show ?thesis by simp
qed

section \<open>Returning an address\<close>

abbreviation ivm :: "block_list \<Rightarrow> ref list \<Rightarrow> (nat \<times> nat) list" where
  "ivm bl xs \<equiv> map (\<lambda>r. iv (bl_store bl ! r)) xs"

definition put_ok :: "addr \<Rightarrow> addr \<Rightarrow> block_list \<Rightarrow> (ha_error, block_list) result \<Rightarrow> bool" where
  "put_ok a0 ip bl res \<longleftrightarrow> (\<exists>bl' ord'. res = Inr bl' \<and> bl_inv a0 bl' ord' \<and> bl_free bl' = insert (addr_val ip) (bl_free bl) \<and>
     length ord' \<le> length (bl_heap bl) + 1)"

lemma put_okI:
  "bl_inv a0 bl' ord' \<Longrightarrow> bl_free bl' = insert (addr_val ip) (bl_free bl) \<Longrightarrow> length ord' \<le> length (bl_heap bl) + 1 \<Longrightarrow> put_ok a0 ip bl (Inr bl')"
  by (auto simp: put_ok_def)

lemma heap_length: "bl_inv a0 bl ord \<Longrightarrow> length (bl_heap bl) = length ord"
  by (auto simp: bl_inv_def dest: mset_eq_length)

lemma insert_spec:
  assumes inv: "bl_inv a0 bl (xs @ ys)" and ip: "same_kind a0 ip"
    and sep: "\<And>l h. (l, h) \<in> set (ivm bl xs) \<Longrightarrow> h + 1 < addr_val ip" "\<And>l h. (l, h) \<in> set (ivm bl ys) \<Longrightarrow> addr_val ip + 1 < l"
  shows "put_ok a0 ip bl (Inr (abl_insert (last_or xs None) (first_or ys None) ip bl))"
proof -
  let ?b = "length (bl_store bl)"
  let ?new = "\<lparr>lb_from = ip, lb_to = ip, lb_size = (0, 1), lb_prev = last_or xs None, lb_next = first_or ys None\<rparr> :: linked_block"
  let ?st1 = "bl_store bl @ [?new]"
  let ?st = "set_prev (first_or ys None) (Some ?b) (set_next (last_or xs None) (Some ?b) ?st1)"
  let ?h = "heap_Push ?st (bl_heap bl) ?b"
  have e: "abl_insert (last_or xs None) (first_or ys None) ip bl = \<lparr>bl_store = ?st, bl_heap = ?h\<rparr>"
    by (simp add: abl_insert_def Let_def)
  have bd: "set (xs @ ys) \<subseteq> {..<?b}" "distinct (xs @ ys)" "mset (bl_heap bl) = mset (xs @ ys)" "wf_ivs (ivm bl xs @ ivm bl ys)"
    using inv by (auto simp: bl_inv_def)
  have ivn: "map (\<lambda>r. iv (?st1 ! r)) [?b] = [(addr_val ip, addr_val ip)]" by (simp add: iv_def)
  have wf: "wf_ivs (ivm bl xs @ map (\<lambda>r. iv (?st1 ! r)) [?b] @ ivm bl ys)"
    unfolding ivn using ivs_add [OF bd(4) sep] by simp
  have inv': "bl_inv a0 bl (xs @ [] @ ys)" using inv by simp
  have old: "?st1 ! q = bl_store bl ! q" if "q \<in> set (xs @ ys)" for q using that bd(1) by (auto simp: nth_append)
  have d: "distinct (xs @ [?b] @ ys)" using bd(1,2) by auto
  have seg: "lseg ?st1 (last_or xs None) [?b] (first_or ys None)" by simp
  have gd: "\<forall>r \<in> set [?b]. good_block a0 (?st1 ! r)" using ip by (simp add: good_block_def)
  have st: "?st = set_prev (first_or ys None) (last_or (xs @ [?b]) None) (set_next (last_or xs None) (first_or ([?b] @ ys) None) ?st1)" by simp
  have hp: "mset ?h = mset (xs @ [?b] @ ys)" using bd(3) by (simp add: heap_Push_mset)
  have "length (bl_store bl) \<le> length ?st1" "set [?b] \<subseteq> {..<length ?st1}" by simp_all
  note s = bl_splice [OF inv' old this(1) d this(2) seg gd wf st hp]
  have "ivs_set (ivm bl xs @ [(addr_val ip, addr_val ip)] @ ivm bl ys) = insert (addr_val ip) (bl_free bl)"
    unfolding bl_free_ord [OF inv] by auto
  then have f: "bl_free \<lparr>bl_store = ?st, bl_heap = ?h\<rparr> = insert (addr_val ip) (bl_free bl)"
    using s(2) [unfolded ivn] by (rule trans [rotated])
  have "length (xs @ [?b] @ ys) \<le> length (bl_heap bl) + 1" using heap_length [OF inv] by simp
  from put_okI [OF s(1) f this] show ?thesis unfolding e .
qed

lemma ivs_grow:
  assumes "wf_ivs (is @ (l, h) # js)"
  shows "x + 1 = l \<Longrightarrow> (\<And>l' h'. (l', h') \<in> set is \<Longrightarrow> h' + 1 < x) \<Longrightarrow> wf_ivs (is @ (x, h) # js)"
    "x = h + 1 \<Longrightarrow> (\<And>l' h'. (l', h') \<in> set js \<Longrightarrow> x + 1 < l') \<Longrightarrow> wf_ivs (is @ (l, x) # js)"
    "js = (l2, h2) # js' \<Longrightarrow> wf_ivs (is @ (l, h2) # js')"
  using assms by (fastforce simp: wf_ivs_append wf_ivs_Cons)+

lemma merge_spec:
  assumes inv: "bl_inv a0 bl (xs @ p # q # ys)"
    and st2: "length st2 = length (bl_store bl)" "\<And>r. r \<noteq> p \<Longrightarrow> r \<noteq> q \<Longrightarrow> st2 ! r = bl_store bl ! r"
      "lb_prev (st2 ! p) = lb_prev (bl_store bl ! p)" "lb_next (st2 ! q) = lb_next (bl_store bl ! q)"
      "lb_from (st2 ! p) = lb_from (bl_store bl ! p)" "lb_to (st2 ! q) = lb_to (bl_store bl ! q)"
    and h2: "mset h2 = mset (bl_heap bl)"
    and x: "addr_val ip = addr_val (lb_to (bl_store bl ! p)) + 1" "addr_val (lb_from (bl_store bl ! q)) = addr_val ip + 1"
  shows "put_ok a0 ip bl (Inr (abl_merge p q \<lparr>bl_store = st2, bl_heap = h2\<rparr>))"
proof -
  have inv2: "bl_inv a0 bl ((xs @ [p]) @ q # ys)" using inv by simp
  note kp = bl_links [OF inv] and kq = bl_links [OF inv2]
  define m where "m = length (bl_store bl)"
  define new where "new = calcSize \<lparr>lb_from = lb_from (bl_store bl ! p), lb_to = lb_to (bl_store bl ! q), lb_size = (0, 0),
      lb_prev = last_or xs None, lb_next = first_or ys None\<rparr>"
  define st1 where "st1 = st2 @ [new]"
  define st where "st = set_prev (first_or ys None) (Some m) (set_next (last_or xs None) (Some m) st1)"
  define h where "h = (let h = heap_Remove st h2 (index_of p h2) in heap_Push st (heap_Remove st h (index_of q h)) m)"
  have e: "abl_merge p q \<lparr>bl_store = st2, bl_heap = h2\<rparr> = \<lparr>bl_store = st, bl_heap = h\<rparr>"
    using kp(1) kq(2) by (simp add: abl_merge_def Let_def st2 st_def st1_def new_def m_def h_def)
  have bd: "set (xs @ ys) \<subseteq> {..<m}" "p \<notin> set (xs @ ys)" "q \<notin> set (xs @ ys)" "distinct (xs @ ys)" "p \<noteq> q"
    using inv by (auto simp: bl_inv_def m_def)
  have hm: "mset h2 = mset (xs @ p # q # ys)" using h2 kp(6) by simp
  have "p \<in> set h2" using mset_eq_setD [OF hm] by simp
  then have r1: "mset (heap_Remove st h2 (index_of p h2)) = add_mset q (mset (xs @ ys))"
    using heap_Remove_index [of p h2 st] hm by simp
  then have "q \<in> set (heap_Remove st h2 (index_of p h2))" by (metis set_mset_mset union_single_eq_member add_mset_add_single)
  then have hp: "mset h = mset (xs @ [m] @ ys)"
    using heap_Remove_index [of q "heap_Remove st h2 (index_of p h2)" st] r1 by (simp add: h_def Let_def heap_Push_mset)
  have nth: "st1 ! m = new" using st2(1) by (simp add: st1_def m_def nth_append)
  have old: "st1 ! r = bl_store bl ! r" if r: "r \<in> set (xs @ ys)" for r
  proof -
    have "r < m" "r \<noteq> p" "r \<noteq> q" using r bd by auto
    then show ?thesis using st2 by (simp add: st1_def nth_append m_def)
  qed
  let ?l = "addr_val (lb_from (bl_store bl ! p))" and ?u = "addr_val (lb_to (bl_store bl ! q))"
  have ivn: "map (\<lambda>r. iv (st1 ! r)) [m] = [(?l, ?u)]" using nth by (simp add: new_def) (simp add: iv_def)
  have w: "wf_ivs (ivm bl xs @ (?l, addr_val (lb_to (bl_store bl ! p))) # (addr_val (lb_from (bl_store bl ! q)), ?u) # ivm bl ys)"
    using kp(5) by (simp add: iv_def)
  then have wf: "wf_ivs (ivm bl xs @ map (\<lambda>r. iv (st1 ! r)) [m] @ ivm bl ys)"
    unfolding ivn using ivs_grow(3) [OF w refl] by simp
  have inv': "bl_inv a0 bl (xs @ [p, q] @ ys)" using inv by simp
  have d: "distinct (xs @ [m] @ ys)" using bd by auto
  have seg: "lseg st1 (last_or xs None) [m] (first_or ys None)" using nth by (simp add: new_def calcSize_def)
  have gd: "\<forall>r \<in> set [m]. good_block a0 (st1 ! r)"
    using nth kp(3) kq(3) by (simp add: new_def) (simp add: good_block_def)
  have st': "st = set_prev (first_or ys None) (last_or (xs @ [m]) None) (set_next (last_or xs None) (first_or ([m] @ ys) None) st1)"
    by (simp add: st_def)
  have len: "length (bl_store bl) \<le> length st1" "set [m] \<subseteq> {..<length st1}" using st2(1) by (simp_all add: st1_def m_def)
  note s = bl_splice [OF inv' old len(1) d len(2) seg gd wf st' hp]
  have "{?l..?u} = insert (addr_val ip) ({?l .. addr_val (lb_to (bl_store bl ! p))} \<union> {addr_val (lb_from (bl_store bl ! q)) .. ?u})"
    using w x by (auto simp: wf_ivs_append wf_ivs_Cons)
  then have "ivs_set (ivm bl xs @ [(?l, ?u)] @ ivm bl ys) = insert (addr_val ip) (bl_free bl)"
    unfolding bl_free_ord [OF inv] by (simp add: iv_def) blast
  then have f: "bl_free \<lparr>bl_store = st, bl_heap = h\<rparr> = insert (addr_val ip) (bl_free bl)"
    using s(2) [unfolded ivn] by (rule trans [rotated])
  have "length (xs @ [m] @ ys) \<le> length (bl_heap bl) + 1" using heap_length [OF inv] by simp
  from put_okI [OF s(1) f this] show ?thesis unfolding e .
qed

text \<open>Growing a block that is adjacent to the address, when no neighbour touches it.\<close>

lemma grow_spec:
  assumes inv: "bl_inv a0 bl (xs @ r # ys)"
    and b': "lb_prev b' = lb_prev (bl_store bl ! r)" "lb_next b' = lb_next (bl_store bl ! r)" "good_block a0 b'"
    and h: "mset h = mset (bl_heap bl)"
    and iv': "iv b' = (addr_val ip, addr_val (lb_to (bl_store bl ! r))) \<and> addr_val (lb_from (bl_store bl ! r)) = addr_val ip + 1 \<or>
      iv b' = (addr_val (lb_from (bl_store bl ! r)), addr_val ip) \<and> addr_val ip = addr_val (lb_to (bl_store bl ! r)) + 1"
    and sep: "\<And>l u. (l, u) \<in> set (ivm bl xs) \<Longrightarrow> u + 1 < addr_val ip \<or> addr_val (lb_from (bl_store bl ! r)) \<le> addr_val ip"
      "\<And>l u. (l, u) \<in> set (ivm bl ys) \<Longrightarrow> addr_val ip + 1 < l \<or> addr_val ip \<le> addr_val (lb_to (bl_store bl ! r))"
  shows "put_ok a0 ip bl (Inr \<lparr>bl_store = (bl_store bl)[r := b'], bl_heap = h\<rparr>)"
proof -
  note k = bl_links [OF inv]
  have le: "addr_val (lb_from (bl_store bl ! r)) \<le> addr_val (lb_to (bl_store bl ! r))" by (rule bl_le [OF inv])
  have w: "wf_ivs (ivm bl xs @ (addr_val (lb_from (bl_store bl ! r)), addr_val (lb_to (bl_store bl ! r))) # ivm bl ys)"
    using k(5) by (simp add: iv_def)
  have wf: "wf_ivs (ivm bl xs @ iv b' # ivm bl ys)"
    using iv'
  proof
    assume i: "iv b' = (addr_val ip, addr_val (lb_to (bl_store bl ! r))) \<and> addr_val (lb_from (bl_store bl ! r)) = addr_val ip + 1"
    then have l: "u + 1 < addr_val ip" if "(l, u) \<in> set (ivm bl xs)" for l u using sep(1) [OF that] by simp
    have "wf_ivs (ivm bl xs @ (addr_val ip, addr_val (lb_to (bl_store bl ! r))) # ivm bl ys)"
      by (rule ivs_grow(1) [OF w]) (use i l in auto)
    with i show ?thesis by simp
  next
    assume i: "iv b' = (addr_val (lb_from (bl_store bl ! r)), addr_val ip) \<and> addr_val ip = addr_val (lb_to (bl_store bl ! r)) + 1"
    then have l: "addr_val ip + 1 < l" if "(l, u) \<in> set (ivm bl ys)" for l u using sep(2) [OF that] by simp
    have "wf_ivs (ivm bl xs @ (addr_val (lb_from (bl_store bl ! r)), addr_val ip) # ivm bl ys)"
      by (rule ivs_grow(2) [OF w]) (use i l in auto)
    with i show ?thesis by simp
  qed
  have hp: "mset h = mset (xs @ r # ys)" using h k(6) by simp
  note s = bl_resize [OF inv b' wf hp]
  have "{fst (iv b') .. snd (iv b')} = insert (addr_val ip) {addr_val (lb_from (bl_store bl ! r)) .. addr_val (lb_to (bl_store bl ! r))}"
    using iv' le by auto
  then have "ivs_set (ivm bl xs @ iv b' # ivm bl ys) = insert (addr_val ip) (bl_free bl)"
    unfolding bl_free_split [OF inv] by (subst surjective_pairing [of "iv b'"], subst ivs_split) blast
  with s(2) have f: "bl_free \<lparr>bl_store = (bl_store bl)[r := b'], bl_heap = h\<rparr> = insert (addr_val ip) (bl_free bl)" by simp
  have "length (xs @ r # ys) \<le> length (bl_heap bl) + 1" using heap_length [OF inv] by simp
  from put_okI [OF s(1) f this] show ?thesis .
qed

lemma calcSize_fields [simp]:
  "lb_from (calcSize b) = lb_from b" "lb_to (calcSize b) = lb_to b" "lb_prev (calcSize b) = lb_prev b" "lb_next (calcSize b) = lb_next b"
  by (simp_all add: calcSize_def)

lemma ivm_last: "xs \<noteq> [] \<Longrightarrow> iv (bl_store bl ! last xs) \<in> set (ivm bl xs)"
  by (simp add: image_iff) (metis last_in_set)

lemma wf_last_max: "wf_ivs (is @ [(l, h)]) \<Longrightarrow> (l', h') \<in> set (is @ [(l, h)]) \<Longrightarrow> h' \<le> h"
  by (fastforce simp: wf_ivs_append wf_ivs_Cons)

lemma wf_first_min: "wf_ivs ((l, h) # is) \<Longrightarrow> (l', h') \<in> set ((l, h) # is) \<Longrightarrow> l \<le> l'"
  by (fastforce simp: wf_ivs_Cons)

lemma free_outside:
  assumes inv: "bl_inv a0 bl (xs @ r # ys)" and x: "x \<notin> bl_free bl"
  shows "x < addr_val (lb_from (bl_store bl ! r)) \<or> addr_val (lb_to (bl_store bl ! r)) < x"
  using x unfolding bl_free_split [OF inv] by auto

text \<open>What lies before a block that the address precedes, and after one that it follows.\<close>

lemma left_sep:
  assumes inv: "bl_inv a0 bl (xs @ p # ys)" and x: "addr_val (lb_to (bl_store bl ! p)) + 1 < x" and m: "(l, h) \<in> set (ivm bl (xs @ [p]))"
  shows "h + 1 < x"
proof -
  have "wf_ivs (ivm bl (xs @ [p]) @ ivm bl ys)" using bl_links(5) [OF inv] by simp
  then have "wf_ivs (ivm bl xs @ [(addr_val (lb_from (bl_store bl ! p)), addr_val (lb_to (bl_store bl ! p)))])"
    unfolding wf_ivs_append [of _ "ivm bl ys"] by (simp add: iv_def)
  from wf_last_max [OF this, of l h] m x show ?thesis by (simp add: iv_def)
qed

lemma right_sep:
  assumes inv: "bl_inv a0 bl (xs @ q # ys)" and x: "x + 1 < addr_val (lb_from (bl_store bl ! q))" and m: "(l, h) \<in> set (ivm bl (q # ys))"
  shows "x + 1 < l"
proof -
  have "wf_ivs (ivm bl xs @ (addr_val (lb_from (bl_store bl ! q)), addr_val (lb_to (bl_store bl ! q))) # ivm bl ys)"
    using bl_links(5) [OF inv] by (simp add: iv_def)
  then have "wf_ivs ((addr_val (lb_from (bl_store bl ! q)), addr_val (lb_to (bl_store bl ! q))) # ivm bl ys)"
    unfolding wf_ivs_append [of "ivm bl xs"] by simp
  from wf_first_min [OF this, of l h] m x show ?thesis by (simp add: iv_def)
qed

text \<open>The branch of \<open>put\<close> that extends the current block downwards.\<close>

definition grow_left :: "addr \<Rightarrow> ref \<Rightarrow> block_list \<Rightarrow> (ha_error, block_list) result" where
  "grow_left ip cur bl =
     (let st = bl_store bl; c = st ! cur;
          c' = calcSize (c\<lparr>lb_from := addr_prev (lb_from c)\<rparr>); bl' = bl\<lparr>bl_store := st[cur := c']\<rparr> in
      (case lb_prev c of
         None \<Rightarrow> Inr bl'
       | Some p \<Rightarrow> if lb_to (st ! p) = addr_prev (lb_from c') then Inr (abl_merge p cur bl') else Inr bl'))"

lemma grow_left_ok:
  assumes inv: "bl_inv a0 bl (xs @ cur # ys)" and ip: "same_kind a0 ip" "addr_prev (lb_from (bl_store bl ! cur)) = ip"
    and x: "addr_val ip \<notin> bl_free bl"
  shows "put_ok a0 ip bl (grow_left ip cur bl)"
proof -
  note k = bl_links [OF inv]
  let ?c = "bl_store bl ! cur"
  let ?c' = "calcSize (?c\<lparr>lb_from := ip\<rparr>)"
  let ?bl' = "\<lparr>bl_store = (bl_store bl)[cur := ?c'], bl_heap = bl_heap bl\<rparr>"
  have f: "addr_val (lb_from ?c) = addr_val ip + 1" using prev_is [of a0 "lb_from ?c" ip] k(3) ip by (simp add: good_block_def)
  have c': "lb_prev ?c' = lb_prev ?c" "lb_next ?c' = lb_next ?c" "good_block a0 ?c'" "iv ?c' = (addr_val ip, addr_val (lb_to ?c))"
    using k(3) ip(1) by (simp_all add: good_block_def iv_def)
  have plain: "put_ok a0 ip bl (Inr ?bl')" if sep: "\<And>l u. (l, u) \<in> set (ivm bl xs) \<Longrightarrow> u + 1 < addr_val ip"
  proof (rule grow_spec [OF inv c'(1-3) refl])
    show "addr_val ip + 1 < l \<or> addr_val ip \<le> addr_val (lb_to ?c)" for l u using f bl_le [OF inv] by simp
  qed (use sep f c'(4) in auto)
  have gl: "grow_left ip cur bl = (case last_or xs None of None \<Rightarrow> Inr ?bl'
      | Some p \<Rightarrow> if lb_to (bl_store bl ! p) = addr_prev ip then Inr (abl_merge p cur ?bl') else Inr ?bl')"
    unfolding grow_left_def Let_def ip(2) k(1) calcSize_fields by (cases bl) (simp add: calcSize_def)
  show ?thesis
  proof (cases xs rule: rev_cases)
    case Nil
    then show ?thesis using plain gl by simp
  next
    case (snoc xs' p)
    have invp: "bl_inv a0 bl (xs' @ p # cur # ys)" using inv snoc by simp
    note kp = bl_links [OF invp]
    have pc: "p \<noteq> cur" using kp(7) by simp
    have adj: "lb_to (bl_store bl ! p) = addr_prev ip \<longleftrightarrow> addr_val ip = addr_val (lb_to (bl_store bl ! p)) + 1"
      using prev_is [of a0 ip "lb_to (bl_store bl ! p)"] ip(1) kp(3) by (auto simp: good_block_def)
    show ?thesis
    proof (cases "addr_val ip = addr_val (lb_to (bl_store bl ! p)) + 1")
      case True
      have "put_ok a0 ip bl (Inr (abl_merge p cur ?bl'))"
        by (rule merge_spec [OF invp]) (use pc k(4) True f in simp_all)
      with True adj show ?thesis using snoc gl by simp
    next
      case False
      have "addr_val (lb_to (bl_store bl ! p)) \<in> ivs_set (ivm bl xs)"
        using bl_le [OF invp] by (auto simp: snoc ivs_set_def iv_def)
      then have "addr_val (lb_to (bl_store bl ! p)) + 1 < addr_val ip" using bl_sides(1) [OF inv] f False by fastforce
      from plain [OF left_sep [OF invp this]] False adj show ?thesis using snoc gl by simp
    qed
  qed
qed

text \<open>The branch that extends it upwards.\<close>

definition grow_right :: "nat \<Rightarrow> addr \<Rightarrow> ref \<Rightarrow> block_list \<Rightarrow> (ha_error, block_list) result" where
  "grow_right i ip cur bl =
     (let st = bl_store bl; c = st ! cur;
          c' = calcSize (c\<lparr>lb_to := addr_next (lb_to c)\<rparr>); st' = st[cur := c'] in
      if i < length (bl_heap bl) then
        let bl' = \<lparr>bl_store = st', bl_heap = heap_Fix st' (bl_heap bl) i\<rparr> in
        (case lb_next c of
           None \<Rightarrow> Inr bl'
         | Some q \<Rightarrow> if lb_from (st ! q) = addr_next (lb_to c') then Inr (abl_merge cur q bl') else Inr bl')
      else Inl IndexPanic)"

lemma grow_right_ok:
  assumes inv: "bl_inv a0 bl (xs @ cur # ys)" and ip: "same_kind a0 ip" "addr_next (lb_to (bl_store bl ! cur)) = ip"
    and i: "i < length (bl_heap bl)"
  shows "put_ok a0 ip bl (grow_right i ip cur bl)"
proof -
  note k = bl_links [OF inv]
  let ?c = "bl_store bl ! cur"
  let ?c' = "calcSize (?c\<lparr>lb_to := ip\<rparr>)"
  let ?h = "heap_Fix ((bl_store bl)[cur := ?c']) (bl_heap bl) i"
  let ?bl' = "\<lparr>bl_store = (bl_store bl)[cur := ?c'], bl_heap = ?h\<rparr>"
  have f: "addr_val ip = addr_val (lb_to ?c) + 1" using next_is [of a0 "lb_to ?c" ip] k(3) ip by (simp add: good_block_def)
  have c': "lb_prev ?c' = lb_prev ?c" "lb_next ?c' = lb_next ?c" "good_block a0 ?c'" "iv ?c' = (addr_val (lb_from ?c), addr_val ip)"
    using k(3) ip(1) by (simp_all add: good_block_def iv_def)
  have h: "mset ?h = mset (bl_heap bl)" using i by (rule heap_Fix_mset)
  have plain: "put_ok a0 ip bl (Inr ?bl')" if sep: "\<And>l u. (l, u) \<in> set (ivm bl ys) \<Longrightarrow> addr_val ip + 1 < l"
  proof (rule grow_spec [OF inv c'(1-3) h])
    show "u + 1 < addr_val ip \<or> addr_val (lb_from ?c) \<le> addr_val ip" for l u using f bl_le [OF inv] by simp
  qed (use sep f c'(4) in auto)
  have gr: "grow_right i ip cur bl = (case first_or ys None of None \<Rightarrow> Inr ?bl'
      | Some q \<Rightarrow> if lb_from (bl_store bl ! q) = addr_next ip then Inr (abl_merge cur q ?bl') else Inr ?bl')"
    by (simp add: grow_right_def Let_def ip(2) k(2) i calcSize_def)
  show ?thesis
  proof (cases ys)
    case Nil
    then show ?thesis using plain gr by simp
  next
    case (Cons q ys')
    have invq: "bl_inv a0 bl ((xs @ [cur]) @ q # ys')" "bl_inv a0 bl (xs @ cur # q # ys')" using inv Cons by simp_all
    note kq = bl_links [OF invq(1)]
    have qc: "q \<noteq> cur" using kq(7) by auto
    have adj: "lb_from (bl_store bl ! q) = addr_next ip \<longleftrightarrow> addr_val (lb_from (bl_store bl ! q)) = addr_val ip + 1"
      using next_is [of a0 ip "lb_from (bl_store bl ! q)"] ip(1) kq(3) by (auto simp: good_block_def)
    show ?thesis
    proof (cases "addr_val (lb_from (bl_store bl ! q)) = addr_val ip + 1")
      case True
      have "put_ok a0 ip bl (Inr (abl_merge cur q ?bl'))"
        by (rule merge_spec [OF invq(2)]) (use qc k(4) True f h in simp_all)
      with True adj show ?thesis using Cons gr by simp
    next
      case False
      have "addr_val (lb_from (bl_store bl ! q)) \<in> ivs_set (ivm bl ys)"
        using bl_le [OF invq(1)] by (auto simp: Cons ivs_set_def iv_def)
      then have "addr_val ip + 1 < addr_val (lb_from (bl_store bl ! q))" using bl_sides(2) [OF inv] f False by fastforce
      from plain [OF right_sep [OF invq(1) this, folded Cons]] False adj show ?thesis using Cons gr by simp
    qed
  qed
qed

lemma put_walk_Suc:
  "put_walk (Suc n) i ip cur pv bl =
     (if addr_compare ip (lb_from (bl_store bl ! cur)) < 0 then
        if addr_prev (lb_from (bl_store bl ! cur)) = ip then grow_left ip cur bl
        else (case lb_prev (bl_store bl ! cur) of
             None \<Rightarrow> Inr (abl_insert None (Some cur) ip bl)
           | Some p \<Rightarrow> if Some p = pv then Inr (abl_insert (Some p) (Some cur) ip bl) else put_walk n (Suc i) ip p (Some cur) bl)
      else if addr_next (lb_to (bl_store bl ! cur)) = ip then grow_right i ip cur bl
      else (case lb_next (bl_store bl ! cur) of
             None \<Rightarrow> Inr (abl_insert (Some cur) None ip bl)
           | Some q \<Rightarrow> if Some q = pv then Inr (abl_insert (Some cur) (Some q) ip bl) else put_walk n (Suc i) ip q (Some cur) bl))"
  by (simp add: grow_left_def grow_right_def Let_def split: option.splits)

text \<open>One step: the walk ends at the current block, or moves on with the address strictly beyond the block's
  neighbourhood.\<close>

lemma put_walk_left:
  assumes inv: "bl_inv a0 bl (xs @ cur # ys)" and ip: "same_kind a0 ip" and x: "addr_val ip \<notin> bl_free bl"
    and l: "addr_val ip < addr_val (lb_from (bl_store bl ! cur))"
    and left: "addr_val ip + 1 < addr_val (lb_from (bl_store bl ! cur)) \<Longrightarrow> xs \<noteq> [] \<Longrightarrow>
      Some (last xs) = pv \<and> addr_val (lb_to (bl_store bl ! last xs)) + 1 < addr_val ip \<or>
      Some (last xs) \<noteq> pv \<and> put_ok a0 ip bl (put_walk n (Suc i) ip (last xs) (Some cur) bl)"
  shows "put_ok a0 ip bl (put_walk (Suc n) i ip cur pv bl)"
proof -
  note k = bl_links [OF inv]
  let ?c = "bl_store bl ! cur"
  have kc: "same_kind a0 (lb_from ?c)" using k(3) by (simp add: good_block_def)
  have w: "put_walk (Suc n) i ip cur pv bl = (if addr_prev (lb_from ?c) = ip then grow_left ip cur bl
      else (case last_or xs None of None \<Rightarrow> Inr (abl_insert None (Some cur) ip bl)
        | Some p \<Rightarrow> if Some p = pv then Inr (abl_insert (Some p) (Some cur) ip bl) else put_walk n (Suc i) ip p (Some cur) bl))"
    unfolding put_walk_Suc k(1) using l by (simp add: compare_val(1) [OF ip kc])
  show ?thesis
  proof (cases "addr_prev (lb_from ?c) = ip")
    case True
    with grow_left_ok [OF inv ip True x] w show ?thesis by simp
  next
    case False
    then have lt: "addr_val ip + 1 < addr_val (lb_from ?c)" using l prev_is [OF kc ip] by linarith
    have ins: "put_ok a0 ip bl (Inr (abl_insert (last_or xs None) (first_or (cur # ys) None) ip bl))"
      if "\<And>l h. (l, h) \<in> set (ivm bl xs) \<Longrightarrow> h + 1 < addr_val ip"
      by (rule insert_spec [OF inv ip that right_sep [OF inv lt]])
    show ?thesis
    proof (cases xs rule: rev_cases)
      case Nil
      with ins show ?thesis unfolding w using False by simp
    next
      case (snoc xs' q)
      have invp: "bl_inv a0 bl (xs' @ q # cur # ys)" using inv snoc by simp
      from left [OF lt] snoc consider (stop) "Some q = pv" "addr_val (lb_to (bl_store bl ! q)) + 1 < addr_val ip"
        | (go) "Some q \<noteq> pv" "put_ok a0 ip bl (put_walk n (Suc i) ip q (Some cur) bl)" by auto
      then show ?thesis
      proof cases
        case stop
        have "put_ok a0 ip bl (Inr (abl_insert (last_or xs None) (first_or (cur # ys) None) ip bl))"
          by (rule ins, rule left_sep [OF invp stop(2)]) (simp add: snoc)
        then show ?thesis unfolding w using False by (simp add: snoc stop(1) [symmetric])
      next
        case go
        then show ?thesis unfolding w using False snoc by simp
      qed
    qed
  qed
qed

lemma put_walk_right:
  assumes inv: "bl_inv a0 bl (xs @ cur # ys)" and ip: "same_kind a0 ip" and i: "i < length (bl_heap bl)"
    and r: "addr_val (lb_to (bl_store bl ! cur)) < addr_val ip"
    and right: "addr_val (lb_to (bl_store bl ! cur)) + 1 < addr_val ip \<Longrightarrow> ys \<noteq> [] \<Longrightarrow>
      Some (hd ys) = pv \<and> addr_val ip + 1 < addr_val (lb_from (bl_store bl ! hd ys)) \<or>
      Some (hd ys) \<noteq> pv \<and> put_ok a0 ip bl (put_walk n (Suc i) ip (hd ys) (Some cur) bl)"
  shows "put_ok a0 ip bl (put_walk (Suc n) i ip cur pv bl)"
proof -
  note k = bl_links [OF inv]
  let ?c = "bl_store bl ! cur"
  have kc: "same_kind a0 (lb_from ?c)" "same_kind a0 (lb_to ?c)" using k(3) by (simp_all add: good_block_def)
  have w: "put_walk (Suc n) i ip cur pv bl = (if addr_next (lb_to ?c) = ip then grow_right i ip cur bl
      else (case first_or ys None of None \<Rightarrow> Inr (abl_insert (Some cur) None ip bl)
        | Some q \<Rightarrow> if Some q = pv then Inr (abl_insert (Some cur) (Some q) ip bl) else put_walk n (Suc i) ip q (Some cur) bl))"
    unfolding put_walk_Suc k(2) using r bl_le [OF inv] by (simp add: compare_val(1) [OF ip kc(1)])
  show ?thesis
  proof (cases "addr_next (lb_to ?c) = ip")
    case True
    with grow_right_ok [OF inv ip True i] w show ?thesis by simp
  next
    case False
    then have lt: "addr_val (lb_to ?c) + 1 < addr_val ip" using r next_is [OF kc(2) ip] by linarith
    have inv': "bl_inv a0 bl ((xs @ [cur]) @ ys)" using inv by simp
    have ins: "put_ok a0 ip bl (Inr (abl_insert (last_or (xs @ [cur]) None) (first_or ys None) ip bl))"
      if "\<And>l h. (l, h) \<in> set (ivm bl ys) \<Longrightarrow> addr_val ip + 1 < l"
      by (rule insert_spec [OF inv' ip left_sep [OF inv lt] that])
    show ?thesis
    proof (cases ys)
      case Nil
      with ins show ?thesis unfolding w using False by simp
    next
      case (Cons q ys')
      have invq: "bl_inv a0 bl ((xs @ [cur]) @ q # ys')" using inv Cons by simp
      from right [OF lt] Cons consider (stop) "Some q = pv" "addr_val ip + 1 < addr_val (lb_from (bl_store bl ! q))"
        | (go) "Some q \<noteq> pv" "put_ok a0 ip bl (put_walk n (Suc i) ip q (Some cur) bl)" by auto
      then show ?thesis
      proof cases
        case stop
        have "put_ok a0 ip bl (Inr (abl_insert (last_or (xs @ [cur]) None) (first_or ys None) ip bl))"
          by (rule ins, rule right_sep [OF invq stop(2)]) (simp add: Cons)
        then show ?thesis unfolding w using False by (simp add: Cons stop(1) [symmetric])
      next
        case go
        then show ?thesis unfolding w using False Cons by simp
      qed
    qed
  qed
qed

lemma last_ne_hd: "distinct (xs @ c # ys) \<Longrightarrow> xs \<noteq> [] \<Longrightarrow> ys \<noteq> [] \<Longrightarrow> last xs \<noteq> hd ys"
  by (cases xs rule: rev_cases; cases ys) auto

text \<open>The walk keeps its direction: it turns round only to stop.\<close>

lemma put_walk_down:
  assumes "bl_inv a0 bl (xs @ cur # ys)" "same_kind a0 ip" "addr_val ip \<notin> bl_free bl" "length xs < n" "i \<le> length ys"
    "ys \<noteq> []" "addr_val ip + 1 < addr_val (lb_from (bl_store bl ! hd ys))"
  shows "put_ok a0 ip bl (put_walk n i ip cur (Some (hd ys)) bl)"
  using assms
proof (induction n arbitrary: xs cur ys i)
  case (Suc n)
  note inv = Suc.prems(1)
  have il: "i < length (bl_heap bl)" using heap_length [OF inv] Suc.prems(5) by simp
  consider (l) "addr_val ip < addr_val (lb_from (bl_store bl ! cur))" | (r) "addr_val (lb_to (bl_store bl ! cur)) < addr_val ip"
    using free_outside [OF inv Suc.prems(3)] by blast
  then show ?case
  proof cases
    case l
    show ?thesis
    proof (rule put_walk_left [OF inv Suc.prems(2,3) l])
      assume lt: "addr_val ip + 1 < addr_val (lb_from (bl_store bl ! cur))" and ne: "xs \<noteq> []"
      then have xs: "xs @ cur # ys = butlast xs @ last xs # cur # ys" and l0: "length (butlast xs) < length xs" by simp_all
      have "last xs \<noteq> hd ys" by (rule last_ne_hd [OF bl_links(7) [OF inv] ne Suc.prems(6)])
      moreover have "put_ok a0 ip bl (put_walk n (Suc i) ip (last xs) (Some (hd (cur # ys))) bl)"
        by (rule Suc.IH [OF inv [unfolded xs] Suc.prems(2,3)]) (use Suc.prems(4,5) l0 lt in \<open>simp_all del: length_butlast length_tl\<close>)
      ultimately show "Some (last xs) = Some (hd ys) \<and> addr_val (lb_to (bl_store bl ! last xs)) + 1 < addr_val ip \<or>
          Some (last xs) \<noteq> Some (hd ys) \<and> put_ok a0 ip bl (put_walk n (Suc i) ip (last xs) (Some cur) bl)" by simp
    qed
  next
    case r
    show ?thesis by (rule put_walk_right [OF inv Suc.prems(2) il r]) (use Suc.prems(7) in simp)
  qed
qed simp

lemma put_walk_up:
  assumes "bl_inv a0 bl (xs @ cur # ys)" "same_kind a0 ip" "addr_val ip \<notin> bl_free bl" "length ys < n" "i \<le> length xs"
    "xs \<noteq> []" "addr_val (lb_to (bl_store bl ! last xs)) + 1 < addr_val ip"
  shows "put_ok a0 ip bl (put_walk n i ip cur (Some (last xs)) bl)"
  using assms
proof (induction n arbitrary: xs cur ys i)
  case (Suc n)
  note inv = Suc.prems(1)
  have il: "i < length (bl_heap bl)" using heap_length [OF inv] Suc.prems(5) by simp
  consider (l) "addr_val ip < addr_val (lb_from (bl_store bl ! cur))" | (r) "addr_val (lb_to (bl_store bl ! cur)) < addr_val ip"
    using free_outside [OF inv Suc.prems(3)] by blast
  then show ?case
  proof cases
    case r
    show ?thesis
    proof (rule put_walk_right [OF inv Suc.prems(2) il r])
      assume lt: "addr_val (lb_to (bl_store bl ! cur)) + 1 < addr_val ip" and ne: "ys \<noteq> []"
      then have ys: "xs @ cur # ys = (xs @ [cur]) @ hd ys # tl ys" and l0: "length (tl ys) < length ys" by simp_all
      have "hd ys \<noteq> last xs" using last_ne_hd [OF bl_links(7) [OF inv] Suc.prems(6) ne] by simp
      moreover have "put_ok a0 ip bl (put_walk n (Suc i) ip (hd ys) (Some (last (xs @ [cur]))) bl)"
        by (rule Suc.IH [OF inv [unfolded ys] Suc.prems(2,3)]) (use Suc.prems(4,5) l0 lt in \<open>simp_all del: length_butlast length_tl\<close>)
      ultimately show "Some (hd ys) = Some (last xs) \<and> addr_val ip + 1 < addr_val (lb_from (bl_store bl ! hd ys)) \<or>
          Some (hd ys) \<noteq> Some (last xs) \<and> put_ok a0 ip bl (put_walk n (Suc i) ip (hd ys) (Some cur) bl)" by simp
    qed
  next
    case l
    show ?thesis by (rule put_walk_left [OF inv Suc.prems(2,3) l]) (use Suc.prems(7) in simp)
  qed
qed simp

text \<open>From the root of the heap the walk finds the place of the address, with as many steps as there are blocks.\<close>

lemma put_walk_start:
  assumes inv: "bl_inv a0 bl (xs @ cur # ys)" and ip: "same_kind a0 ip" "addr_val ip \<notin> bl_free bl"
    and n: "length (bl_heap bl) \<le> n"
  shows "put_ok a0 ip bl (put_walk n 0 ip cur None bl)"
proof -
  have len: "length (bl_heap bl) = length xs + 1 + length ys" using heap_length [OF inv] by simp
  with n obtain k where k: "n = Suc k" "length xs + length ys \<le> k" by (cases n) auto
  consider (l) "addr_val ip < addr_val (lb_from (bl_store bl ! cur))" | (r) "addr_val (lb_to (bl_store bl ! cur)) < addr_val ip"
    using free_outside [OF inv ip(2)] by blast
  then show ?thesis
  proof cases
    case l
    show ?thesis unfolding k(1)
    proof (rule put_walk_left [OF inv ip l])
      assume lt: "addr_val ip + 1 < addr_val (lb_from (bl_store bl ! cur))" and ne: "xs \<noteq> []"
      then have xs: "xs @ cur # ys = butlast xs @ last xs # cur # ys" and l0: "length (butlast xs) < length xs" by simp_all
      have "put_ok a0 ip bl (put_walk k (Suc 0) ip (last xs) (Some (hd (cur # ys))) bl)"
        by (rule put_walk_down [OF inv [unfolded xs] ip]) (use k(2) l0 lt in \<open>simp_all del: length_butlast length_tl\<close>)
      then show "Some (last xs) = None \<and> addr_val (lb_to (bl_store bl ! last xs)) + 1 < addr_val ip \<or>
          Some (last xs) \<noteq> None \<and> put_ok a0 ip bl (put_walk k (Suc 0) ip (last xs) (Some cur) bl)" by simp
    qed
  next
    case r
    show ?thesis unfolding k(1)
    proof (rule put_walk_right [OF inv ip(1) _ r])
      assume lt: "addr_val (lb_to (bl_store bl ! cur)) + 1 < addr_val ip" and ne: "ys \<noteq> []"
      then have ys: "xs @ cur # ys = (xs @ [cur]) @ hd ys # tl ys" and l0: "length (tl ys) < length ys" by simp_all
      have "put_ok a0 ip bl (put_walk k (Suc 0) ip (hd ys) (Some (last (xs @ [cur]))) bl)"
        by (rule put_walk_up [OF inv [unfolded ys] ip]) (use k(2) l0 lt in \<open>simp_all del: length_butlast length_tl\<close>)
      then show "Some (hd ys) = None \<and> addr_val ip + 1 < addr_val (lb_from (bl_store bl ! hd ys)) \<or>
          Some (hd ys) \<noteq> None \<and> put_ok a0 ip bl (put_walk k (Suc 0) ip (hd ys) (Some cur) bl)" by simp
    qed (use len in simp)
  qed
qed

lemma put_spec:
  assumes inv: "bl_inv a0 bl ord" and ip: "same_kind a0 ip" "addr_val ip \<notin> bl_free bl" and n: "length (bl_heap bl) \<le> maxIter"
  shows "put_ok a0 ip bl (abl_put ip bl)"
proof (cases "bl_heap bl = []")
  case True
  then have "ord = []" using inv by (simp add: bl_inv_def)
  with insert_spec [of a0 bl "[]" "[]" ip] inv ip(1) True show ?thesis
    by (simp add: abl_put_def abl_insert_def Let_def set_next_def set_prev_def)
next
  case False
  then have "bl_heap bl ! 0 \<in> set ord" using inv by (metis bl_inv_def length_greater_0_conv mset_eq_setD nth_mem)
  then obtain xs ys where ord: "ord = xs @ bl_heap bl ! 0 # ys" by (meson split_list)
  from put_walk_start [OF inv [unfolded ord] ip n] False show ?thesis by (simp add: abl_put_def)
qed

section \<open>The allocator as a finite map\<close>

text \<open>The blocks are separated by allocated addresses, so there is at most one more of them than allocations.\<close>

lemma wf_ivs_gaps:
  "wf_ivs is \<Longrightarrow> is \<noteq> [] \<Longrightarrow> finite K \<Longrightarrow> (\<And>x. fst (hd is) \<le> x \<Longrightarrow> x \<le> snd (last is) \<Longrightarrow> x \<notin> ivs_set is \<Longrightarrow> x \<in> K) \<Longrightarrow> length is \<le> card K + 1"
proof (induction "is" arbitrary: K)
  case (Cons a "is")
  obtain l h where a: "a = (l, h)" by fastforce
  show ?case
  proof (cases "is")
    case (Cons b js)
    obtain l2 h2 where b: "b = (l2, h2)" by fastforce
    note w = Cons.prems(1) [unfolded a wf_ivs_Cons]
    have w2: "l \<le> h" "h + 1 < l2" "wf_ivs is" using w by (auto simp: Cons b)
    have ht: "h2 \<le> snd (last is)" "l2 \<le> h2"
    proof -
      have "\<exists>l3 h3. last is = (l3, h3)" by (rule surj_pair)
      then obtain l3 h3 where z: "last is = (l3, h3)" by blast
      have "is = butlast is @ [(l3, h3)]" using Cons z by (metis append_butlast_last_id list.distinct(1))
      then show "h2 \<le> snd (last is)" using w2(3) Cons b z by (cases js) (auto simp: wf_ivs_Cons wf_ivs_append split: if_splits)
      show "l2 \<le> h2" using w2(3) by (simp add: Cons b wf_ivs_Cons)
    qed
    have above: "h + 1 < x" if "x \<in> ivs_set is" for x using ivs_above [of "[]" l h "is" x] that Cons.prems(1) a by simp
    have gap: "h + 1 \<in> K"
      by (rule Cons.prems(4)) (use w2 ht above [of "h + 1"] in \<open>auto simp: a Cons b\<close>)
    have "length is \<le> card (K - {h + 1}) + 1"
    proof (rule Cons.IH [OF w2(3)])
      fix x assume x: "fst (hd is) \<le> x" "x \<le> snd (last is)" "x \<notin> ivs_set is"
      then have "l2 \<le> x" by (simp add: Cons b)
      then show "x \<in> K - {h + 1}" using Cons.prems(4) [of x] x w2 by (auto simp: a Cons)
    qed (use Cons Cons.prems(3) in simp_all)
    moreover have "0 < card K" using gap Cons.prems(3) card_gt_0_iff by blast
    ultimately show ?thesis using gap Cons.prems(3) by simp
  qed simp
qed simp

definition in_range :: "'v hash_allocator \<Rightarrow> addr \<Rightarrow> bool" where
  "in_range a ip \<longleftrightarrow> same_kind (ha_start a) ip \<and> addr_val (ha_start a) \<le> addr_val ip \<and> addr_val ip \<le> addr_val (ha_stop a)"

definition ha_inv :: "'v hash_allocator \<Rightarrow> bool" where
  "ha_inv a \<longleftrightarrow> (\<exists>ord. bl_inv (ha_start a) (ha_availableBlocks a) ord) \<and>
     same_kind (ha_start a) (ha_start a) \<and> same_kind (ha_start a) (ha_stop a) \<and> addr_val (ha_start a) \<le> addr_val (ha_stop a) \<and>
     distinct (map fst (ha_allocations a)) \<and> (\<forall>ip \<in> fst ` set (ha_allocations a). in_range a ip) \<and>
     bl_free (ha_availableBlocks a) = {addr_val (ha_start a) .. addr_val (ha_stop a)} - addr_val ` fst ` set (ha_allocations a)"

lemma ha_blocks:
  assumes "ha_inv a" shows "length (bl_heap (ha_availableBlocks a)) \<le> length (ha_allocations a) + 1"
proof -
  let ?bl = "ha_availableBlocks a" and ?K = "addr_val ` fst ` set (ha_allocations a)"
  obtain ord where inv: "bl_inv (ha_start a) ?bl ord" using assms by (auto simp: ha_inv_def)
  have free: "ivs_set (ivm ?bl ord) = {addr_val (ha_start a) .. addr_val (ha_stop a)} - ?K"
    using assms bl_free_ord [OF inv] by (simp add: ha_inv_def)
  have wf: "wf_ivs (ivm ?bl ord)" using inv by (simp add: bl_inv_def)
  have "length (ivm ?bl ord) \<le> card ?K + 1" if ne: "ord \<noteq> []"
  proof (rule wf_ivs_gaps [OF wf])
    have h: "fst (hd (ivm ?bl ord)) \<in> ivs_set (ivm ?bl ord)" "snd (last (ivm ?bl ord)) \<in> ivs_set (ivm ?bl ord)"
    proof -
      have m: "hd (ivm ?bl ord) \<in> set (ivm ?bl ord)" "last (ivm ?bl ord) \<in> set (ivm ?bl ord)"
        by (rule hd_in_set, use ne in simp) (rule last_in_set, use ne in simp)
      have w: "\<forall>(l, h) \<in> set (ivm ?bl ord). l \<le> h" using wf unfolding wf_ivs_def list_all_iff by (rule conjunct2)
      have "fst p \<in> ivs_set (ivm ?bl ord) \<and> snd p \<in> ivs_set (ivm ?bl ord)" if "p \<in> set (ivm ?bl ord)" for p
        using bspec [OF w that] that unfolding ivs_set_def by (intro conjI UN_I [OF that]) (auto split: prod.splits)
      then show "fst (hd (ivm ?bl ord)) \<in> ivs_set (ivm ?bl ord)" "snd (last (ivm ?bl ord)) \<in> ivs_set (ivm ?bl ord)"
        using m by simp_all
    qed
    fix x assume "fst (hd (ivm ?bl ord)) \<le> x" "x \<le> snd (last (ivm ?bl ord))" "x \<notin> ivs_set (ivm ?bl ord)"
    then show "x \<in> ?K" using h unfolding free by auto
  qed (use ne in simp_all)
  moreover have "card ?K \<le> length (ha_allocations a)"
    using le_trans [OF card_image_le card_length [of "map fst (ha_allocations a)"], of addr_val] by simp
  ultimately show ?thesis using heap_length [OF inv] by (cases "ord = []") simp_all
qed

lemma key_val:
  assumes "ha_inv a" "in_range a ip"
  shows "addr_val ip \<in> addr_val ` fst ` set (ha_allocations a) \<longleftrightarrow> map_of (ha_allocations a) ip \<noteq> None"
proof -
  define K where "K = fst ` set (ha_allocations a)"
  have eq: "k = ip" if "k \<in> K" "addr_val k = addr_val ip" for k
    using assms that same_kind_eq [of "ha_start a" k ip] by (auto simp: ha_inv_def in_range_def K_def)
  have "ip \<in> K" if "addr_val ip \<in> addr_val ` K" using that by (elim imageE) (use eq in metis)
  then have "addr_val ip \<in> addr_val ` K \<longleftrightarrow> ip \<in> K" by blast
  then show ?thesis by (simp add: K_def map_of_eq_None_iff)
qed

lemma ha_free_iff: "ha_inv a \<Longrightarrow> in_range a ip \<Longrightarrow> addr_val ip \<in> bl_free (ha_availableBlocks a) \<longleftrightarrow> map_of (ha_allocations a) ip = None"
  using key_val [of a ip] by (auto simp: ha_inv_def in_range_def)

lemma range_iff:
  assumes "ha_inv a" "\<not> addr_has_zone ip"
  shows "addr_compare ip (ha_start a) < 0 \<or> addr_compare ip (ha_stop a) > 0 \<longleftrightarrow> \<not> in_range a ip"
proof (cases "same_family (ha_start a) ip")
  case True
  with assms have k: "same_kind (ha_start a) ip" by (simp add: same_kind_def)
  then show ?thesis using assms(1) compare_val(1) [OF k, of "ha_start a"] compare_val(2) [OF k, of "ha_stop a"]
    by (auto simp: ha_inv_def in_range_def)
next
  case False
  with assms(1) show ?thesis
    by (cases "ha_start a"; cases "ha_stop a"; cases ip) (auto simp: ha_inv_def in_range_def same_kind_def addr_compare_def)
qed

lemma record_alloc_inv:
  assumes a: "ha_inv a" "in_range a ip" and bl: "bl_inv (ha_start a) bl ord" "bl_free bl = bl_free (ha_availableBlocks a) - {addr_val ip}"
  shows "ha_inv (record_alloc ip v bl a)"
proof -
  let ?a = "record_alloc ip v bl a"
  have s: "ha_start ?a = ha_start a" "ha_stop ?a = ha_stop a" "ha_availableBlocks ?a = bl"
    "ha_allocations ?a = AList.update ip v (ha_allocations a)" by (simp_all add: record_alloc_def Let_def)
  have k: "fst ` set (ha_allocations ?a) = insert ip (fst ` set (ha_allocations a))" by (simp add: s dom_update)
  have r: "in_range ?a = in_range a" by (simp add: in_range_def s fun_eq_iff)
  have "distinct (map fst (ha_allocations ?a))" using a(1) by (simp add: s distinct_update ha_inv_def)
  moreover have "\<forall>ip \<in> fst ` set (ha_allocations ?a). in_range ?a ip" using a by (simp add: k r ha_inv_def)
  moreover have "bl_free (ha_availableBlocks ?a) = {addr_val (ha_start ?a) .. addr_val (ha_stop ?a)} - addr_val ` fst ` set (ha_allocations ?a)"
    using a(1) bl(2) unfolding k by (simp add: s ha_inv_def) blast
  ultimately show ?thesis unfolding ha_inv_def using a(1) bl(1) s by (auto simp: ha_inv_def)
qed

text \<open>The operations as one step on the allocator, and what they may do to the map of allocations.\<close>

datatype 'v ha_op = OpAllocAny 'v | OpAlloc addr 'v | OpUpdate addr 'v | OpFree addr

fun ha_step :: "'v hash_allocator \<Rightarrow> 'v ha_op \<Rightarrow> 'v hash_allocator \<times> (ha_error, addr option) result" where
  "ha_step a (OpAllocAny v) = (let (a', r) = AllocAny a v in (a', map_sum id Some r))"
| "ha_step a (OpAlloc ip v) = (let (a', e) = Alloc a ip v in (a', case e of Some err \<Rightarrow> Inl err | None \<Rightarrow> Inr None))"
| "ha_step a (OpUpdate ip v) = (let (a', e) = Update a ip v in (a', case e of Some err \<Rightarrow> Inl err | None \<Rightarrow> Inr None))"
| "ha_step a (OpFree ip) = (let (a', e) = Free a ip in (a', case e of Some err \<Rightarrow> Inl err | None \<Rightarrow> Inr None))"

fun ha_run :: "'v hash_allocator \<Rightarrow> 'v ha_op list \<Rightarrow> 'v hash_allocator" where
  "ha_run a [] = a"
| "ha_run a (p # ps) = ha_run (fst (ha_step a p)) ps"

text \<open>The abstract allocator: a set of addresses and a map from the allocated ones to their values.\<close>

fun ha_spec :: "addr set \<Rightarrow> (addr \<rightharpoonup> 'v) \<Rightarrow> 'v ha_op \<Rightarrow> (addr \<rightharpoonup> 'v) \<Rightarrow> (ha_error, addr option) result \<Rightarrow> bool" where
  "ha_spec R m (OpAllocAny v) m' r \<longleftrightarrow>
     (if R \<subseteq> dom m then r = Inl ErrFull \<and> m' = m else \<exists>ip \<in> R - dom m. r = Inr (Some ip) \<and> m' = m(ip \<mapsto> v))"
| "ha_spec R m (OpAlloc ip v) m' r \<longleftrightarrow>
     (if ip \<notin> R then r = Inl ErrOutOfRange \<and> m' = m
      else if ip \<in> dom m then r = Inl ErrInUse \<and> m' = m else r = Inr None \<and> m' = m(ip \<mapsto> v))"
| "ha_spec R m (OpUpdate ip v) m' r \<longleftrightarrow>
     (if ip \<in> dom m then r = Inr None \<and> m' = m(ip \<mapsto> v) else r = Inl ErrNotFound \<and> m' = m)"
| "ha_spec R m (OpFree ip) m' r \<longleftrightarrow>
     (if ip \<in> dom m then r = Inr None \<and> m' = m(ip := None) else r = Inl ErrNotFound \<and> m' = m)"

fun op_zone_free :: "'v ha_op \<Rightarrow> bool" where
  "op_zone_free (OpAlloc ip v) = (\<not> addr_has_zone ip)"
| "op_zone_free _ = True"

abbreviation ha_range :: "'v hash_allocator \<Rightarrow> addr set" where
  "ha_range a \<equiv> {ip. in_range a ip}"

definition ha_ok :: "'v hash_allocator \<Rightarrow> 'v ha_op \<Rightarrow> 'v hash_allocator \<times> (ha_error, addr option) result \<Rightarrow> bool" where
  "ha_ok a p s \<longleftrightarrow> ha_inv (fst s) \<and> ha_start (fst s) = ha_start a \<and> ha_stop (fst s) = ha_stop a \<and>
     ha_spec (ha_range a) (Get a) p (Get (fst s)) (snd s) \<and> length (ha_allocations (fst s)) \<le> length (ha_allocations a) + 1"

lemma ha_keys_inj: "ha_inv a \<Longrightarrow> inj_on addr_val (fst ` set (ha_allocations a))"
  using same_kind_eq [of "ha_start a"] by (auto simp: ha_inv_def in_range_def intro!: inj_onI)

lemma Get_map: "Get a = map_of (ha_allocations a)"
  by (simp add: Get_def fun_eq_iff)

lemma record_alloc_fields [simp]:
  "ha_start (record_alloc ip v bl a) = ha_start a" "ha_stop (record_alloc ip v bl a) = ha_stop a"
  "Get (record_alloc ip v bl a) = (Get a)(ip \<mapsto> v)"
  by (simp_all add: record_alloc_def Let_def Get_map update_conv')

lemma update_length: "length (AList.update k v al) \<le> length al + 1"
  by (induction al) auto

lemma record_alloc_length: "length (ha_allocations (record_alloc ip v bl a)) \<le> length (ha_allocations a) + 1"
  by (simp add: record_alloc_def Let_def update_length [simplified])

lemma ha_take:
  assumes a: "ha_inv a" "in_range a ip" "map_of (ha_allocations a) ip = None"
  obtains bl where "abl_take ip (ha_availableBlocks a) = Inr bl" "ha_inv (record_alloc ip v bl a)"
proof -
  obtain ord where inv: "bl_inv (ha_start a) (ha_availableBlocks a) ord" using a(1) by (auto simp: ha_inv_def)
  have k: "same_kind (ha_start a) ip" using a(2) by (simp add: in_range_def)
  have f: "addr_val ip \<in> bl_free (ha_availableBlocks a)" using ha_free_iff [OF a(1,2)] a(3) by simp
  from take_spec [OF inv k] f obtain bl ord' where "abl_take ip (ha_availableBlocks a) = Inr bl" "bl_inv (ha_start a) bl ord'"
    "bl_free bl = bl_free (ha_availableBlocks a) - {addr_val ip}" by auto
  with record_alloc_inv [OF a(1,2)] show ?thesis using that by blast
qed

lemma AllocAny_ok:
  assumes a: "ha_inv a" shows "ha_ok a (OpAllocAny v) (ha_step a (OpAllocAny v))"
proof -
  let ?bl = "ha_availableBlocks a"
  obtain ord where inv: "bl_inv (ha_start a) ?bl ord" using a by (auto simp: ha_inv_def)
  show ?thesis
  proof (cases "bl_heap ?bl = []")
    case True
    then have "bl_free ?bl = {}" by (simp add: bl_free_def ivs_set_def)
    then have "ha_range a \<subseteq> dom (Get a)" using ha_free_iff [OF a] by (auto simp: Get_map)
    with True a show ?thesis by (simp add: ha_ok_def AllocAny_def)
  next
    case False
    let ?r = "bl_heap ?bl ! 0"
    let ?ip = "lb_from (bl_store ?bl ! ?r)"
    have "?r \<in> set ord" using False inv by (metis bl_inv_def length_greater_0_conv mset_eq_setD nth_mem)
    then obtain xs ys where inv': "bl_inv (ha_start a) ?bl (xs @ ?r # ys)" using inv by (metis split_list)
    have k: "same_kind (ha_start a) ?ip" using bl_links(3) [OF inv'] by (simp add: good_block_def)
    have f: "addr_val ?ip \<in> bl_free ?bl" using bl_free_split [OF inv'] bl_le [OF inv'] by simp
    then have r: "in_range a ?ip" using a k by (simp add: ha_inv_def in_range_def)
    have n: "map_of (ha_allocations a) ?ip = None" using ha_free_iff [OF a r] f by simp
    obtain bl where bl: "abl_take ?ip ?bl = Inr bl" "ha_inv (record_alloc ?ip v bl a)" by (rule ha_take [OF a r n])
    have s: "ha_step a (OpAllocAny v) = (record_alloc ?ip v bl a, Inr (Some ?ip))" using False bl(1) by (simp add: AllocAny_def Let_def)
    have "?ip \<in> ha_range a - dom (Get a)" using r n by (simp add: Get_map domIff)
    then show ?thesis unfolding s ha_ok_def using bl(2) record_alloc_length [of ?ip v bl a] by auto
  qed
qed

lemma Alloc_ok:
  assumes a: "ha_inv a" and z: "\<not> addr_has_zone ip" shows "ha_ok a (OpAlloc ip v) (ha_step a (OpAlloc ip v))"
proof (cases "in_range a ip")
  case False
  then show ?thesis using range_iff [OF a z] a by (simp add: ha_ok_def Alloc_def)
next
  case r: True
  then have nr: "\<not> (addr_compare ip (ha_start a) < 0 \<or> addr_compare ip (ha_stop a) > 0)" using range_iff [OF a z] by simp
  show ?thesis
  proof (cases "map_of (ha_allocations a) ip")
    case (Some w)
    with r nr a show ?thesis by (simp add: ha_ok_def Alloc_def Get_map domIff)
  next
    case n: None
    obtain bl where bl: "abl_take ip (ha_availableBlocks a) = Inr bl" "ha_inv (record_alloc ip v bl a)" by (rule ha_take [OF a r n])
    have "bl_heap (ha_availableBlocks a) \<noteq> []" using bl(1) by (auto simp: abl_take_def)
    with nr n bl(1) have s: "ha_step a (OpAlloc ip v) = (record_alloc ip v bl a, Inr None)" by (simp add: Alloc_def)
    show ?thesis unfolding s ha_ok_def using bl(2) r n record_alloc_length [of ip v bl a] Get_map [of a] by (simp add: domIff)
  qed
qed

lemma Update_ok:
  assumes a: "ha_inv a" shows "ha_ok a (OpUpdate ip v) (ha_step a (OpUpdate ip v))"
proof (cases "map_of (ha_allocations a) ip")
  case None
  with a show ?thesis by (simp add: ha_ok_def Update_def Get_map domIff)
next
  case (Some w)
  let ?a = "a\<lparr>ha_allocations := AList.update ip v (ha_allocations a)\<rparr>"
  have i: "ip \<in> fst ` set (ha_allocations a)" using Some by (metis domI dom_map_of_conv_image_fst)
  have "in_range a ip" using a i by (simp only: ha_inv_def)
  then have "ha_inv ?a" using a i by (simp add: ha_inv_def distinct_update dom_update in_range_def insert_absorb)
  moreover have s: "ha_step a (OpUpdate ip v) = (?a, Inr None)" using Some by (simp add: Update_def)
  ultimately show ?thesis unfolding s ha_ok_def using Some by (simp add: Get_map domIff update_conv' update_length [simplified])
qed

lemma Free_ok:
  assumes a: "ha_inv a" and n: "length (ha_allocations a) < maxIter"
  shows "ha_ok a (OpFree ip) (ha_step a (OpFree ip))"
proof (cases "map_of (ha_allocations a) ip")
  case None
  with a show ?thesis by (simp add: ha_ok_def Free_def Get_map domIff)
next
  case (Some w)
  let ?bl = "ha_availableBlocks a" and ?K = "fst ` set (ha_allocations a)"
  obtain ord where inv: "bl_inv (ha_start a) ?bl ord" using a by (auto simp: ha_inv_def)
  have i: "ip \<in> ?K" using Some by (metis domI dom_map_of_conv_image_fst)
  have r: "in_range a ip" using a i by (simp only: ha_inv_def)
  then have k: "same_kind (ha_start a) ip" by (simp add: in_range_def)
  have f: "addr_val ip \<notin> bl_free ?bl" using ha_free_iff [OF a r] Some by simp
  have "length (bl_heap ?bl) \<le> maxIter" using ha_blocks [OF a] n by simp
  from put_spec [OF inv k f this] obtain bl ord' where bl: "abl_put ip ?bl = Inr bl" "bl_inv (ha_start a) bl ord'"
    "bl_free bl = insert (addr_val ip) (bl_free ?bl)" by (auto simp: put_ok_def)
  obtain a' where s: "ha_step a (OpFree ip) = (a', Inr None)" and a': "ha_start a' = ha_start a" "ha_stop a' = ha_stop a"
    "ha_availableBlocks a' = bl" "ha_allocations a' = AList.delete ip (ha_allocations a)"
    using Some bl(1) by (simp add: Free_def Let_def)
  have keys: "fst ` set (ha_allocations a') = ?K - {ip}" 
    unfolding a' list.set_map [symmetric] delete_keys by simp
  have rr: "in_range a' = in_range a" by (simp add: fun_eq_iff in_range_def a')
  have inj: "addr_val ` (?K - {ip}) = addr_val ` ?K - {addr_val ip}"
    using inj_on_image_set_diff [OF ha_keys_inj [OF a], of ?K "{ip}"] i by simp
  have "bl_free (ha_availableBlocks a') = {addr_val (ha_start a') .. addr_val (ha_stop a')} - addr_val ` fst ` set (ha_allocations a')"
    unfolding keys inj a'(1-3) bl(3) using a r by (auto simp: ha_inv_def in_range_def)
  moreover have "distinct (map fst (ha_allocations a'))" using a by (simp add: a' distinct_delete ha_inv_def)
  moreover have "\<forall>q \<in> fst ` set (ha_allocations a'). in_range a' q" using a by (auto simp: keys rr ha_inv_def)
  ultimately have "ha_inv a'" unfolding ha_inv_def using a bl(2) a' by (auto simp: ha_inv_def)
  then show ?thesis unfolding s ha_ok_def using Some a' length_delete_le [of ip "ha_allocations a"]
    by (simp add: Get_map domIff delete_conv')
qed

lemma ha_step_ok:
  assumes "ha_inv a" "op_zone_free p" "length (ha_allocations a) < maxIter"
  shows "ha_ok a p (ha_step a p)"
  using assms AllocAny_ok Alloc_ok Update_ok Free_ok by (cases p) (simp_all del: ha_step.simps)

lemma NewHashAllocator_inv:
  assumes n: "NewHashAllocator start stop = Inr a" and z: "\<not> addr_has_zone start" "\<not> addr_has_zone stop"
  shows "ha_inv a" "ha_allocations a = []" "ha_start a = start" "ha_stop a = stop"
proof -
  let ?b = "calcSize \<lparr>lb_from = start, lb_to = stop, lb_size = (0, 0), lb_prev = None, lb_next = None\<rparr>"
  let ?bl = "\<lparr>bl_store = [?b], bl_heap = [0]\<rparr>"
  from n have v: "addr_is_valid start" "addr_bitlen start = addr_bitlen stop" "\<not> addr_compare start stop > 0"
    and a: "a = \<lparr>ha_start = start, ha_stop = stop, ha_peakAllocations = 0, ha_allocations = [], ha_availableBlocks = ?bl\<rparr>"
    by (auto simp: NewHashAllocator_def split: if_splits)
  have k: "same_kind start start" "same_kind start stop" using v z by (cases start; cases stop; simp add: same_kind_def)+
  then have le: "addr_val start \<le> addr_val stop" using v(3) compare_val(2) [OF k] by simp
  have "bl_inv start ?bl [0]" using k le by (simp add: bl_inv_def good_block_def iv_def wf_ivs_def)
  moreover have "bl_free ?bl = {addr_val start .. addr_val stop}" by (simp add: bl_free_def ivs_set_def iv_def)
  ultimately show "ha_inv a" using k le by (auto simp: ha_inv_def a)
  show "ha_allocations a = []" "ha_start a = start" "ha_stop a = stop" by (simp_all add: a)
qed

lemma ha_run_inv:
  "ha_inv a \<Longrightarrow> list_all op_zone_free ps \<Longrightarrow> length (ha_allocations a) + length ps \<le> maxIter \<Longrightarrow>
   ha_inv (ha_run a ps) \<and> ha_start (ha_run a ps) = ha_start a \<and> ha_stop (ha_run a ps) = ha_stop a \<and>
   length (ha_allocations (ha_run a ps)) \<le> length (ha_allocations a) + length ps"
proof (induction ps arbitrary: a)
  case (Cons p ps)
  let ?a = "fst (ha_step a p)"
  have s: "ha_inv ?a" "ha_start ?a = ha_start a" "ha_stop ?a = ha_stop a" "length (ha_allocations ?a) \<le> length (ha_allocations a) + 1"
    using ha_step_ok [of a p] Cons.prems by (simp_all add: ha_ok_def)
  with Cons.IH [OF s(1)] Cons.prems show ?case by simp
qed simp

section \<open>Correctness\<close>

text \<open>(C32) The allocator refines a finite map: after any sequence of operations on zone-free addresses, and as long as
  there are fewer allocations than the iteration bound of \<open>put\<close>, every operation does to the map of allocations, and answers,
  what the abstract allocator allows. An allocation of any address fails only when every address of the range is allocated,
  otherwise it yields an address of the range that is not; a specific one fails exactly when the address is outside the range
  or in use; freeing never fails for an allocated address, and neither the loop guard nor an index out of range is ever hit.\<close>

theorem hash_allocator_refines_map:
  assumes "NewHashAllocator start stop = Inr a" "\<not> addr_has_zone start" "\<not> addr_has_zone stop"
    "list_all op_zone_free (ps @ [p])" "length ps < maxIter"
  shows "ha_spec {ip. same_family start ip \<and> \<not> addr_has_zone ip \<and> addr_val start \<le> addr_val ip \<and> addr_val ip \<le> addr_val stop}
    (Get (ha_run a ps)) p (Get (fst (ha_step (ha_run a ps) p))) (snd (ha_step (ha_run a ps) p))"
proof -
  note n = NewHashAllocator_inv [OF assms(1-3)]
  note r = ha_run_inv [OF n(1), of ps]
  have "ha_ok (ha_run a ps) p (ha_step (ha_run a ps) p)" by (rule ha_step_ok) (use r n(2) assms(4,5) in simp_all)
  moreover have "{ip. in_range (ha_run a ps) ip} =
      {ip. same_family start ip \<and> \<not> addr_has_zone ip \<and> addr_val start \<le> addr_val ip \<and> addr_val ip \<le> addr_val stop}"
    using r n assms(4,5) by (auto simp: in_range_def same_kind_def)
  ultimately show ?thesis by (simp add: ha_ok_def)
qed

theorem hash_allocator_refines_map_witness:
  "ha_spec {ip. same_family (V4 10) ip \<and> \<not> addr_has_zone ip \<and> addr_val (V4 10) \<le> addr_val ip \<and> addr_val ip \<le> addr_val (V4 12)}
     (Get (ha_run (projr (NewHashAllocator (V4 10) (V4 12))) [OpAlloc (V4 11) True])) (OpAllocAny False)
     (Get (fst (ha_step (ha_run (projr (NewHashAllocator (V4 10) (V4 12))) [OpAlloc (V4 11) True]) (OpAllocAny False))))
     (snd (ha_step (ha_run (projr (NewHashAllocator (V4 10) (V4 12))) [OpAlloc (V4 11) True]) (OpAllocAny False)))"
  by (rule hash_allocator_refines_map)
    (simp_all add: NewHashAllocator_def addr_compare_def maxIter_def)

text \<open>The counts of \<open>Stats\<close> are exact: the number of allocated addresses, and the number of addresses of the range
  that are not allocated.\<close>

theorem hash_allocator_stats:
  assumes "NewHashAllocator start stop = Inr a" "\<not> addr_has_zone start" "\<not> addr_has_zone stop"
    "list_all op_zone_free ps" "length ps \<le> maxIter"
  shows "Stats (ha_run a ps) = (card (dom (Get (ha_run a ps))),
      int (card ({addr_val start .. addr_val stop} - addr_val ` dom (Get (ha_run a ps)))))"
proof -
  let ?a = "ha_run a ps"
  let ?R = "{addr_val start .. addr_val stop}" and ?K = "fst ` set (ha_allocations ?a)"
  note n = NewHashAllocator_inv [OF assms(1-3)]
  have r: "ha_inv ?a" "ha_start ?a = start" "ha_stop ?a = stop" using ha_run_inv [OF n(1), of ps] n assms(4,5) by simp_all
  have dom: "dom (Get ?a) = ?K" by (simp add: Get_map dom_map_of_conv_image_fst)
  have c: "card ?K = length (ha_allocations ?a)" using r(1) distinct_card [of "map fst (ha_allocations ?a)"] by (simp add: ha_inv_def)
  have inj: "inj_on addr_val ?K" by (rule ha_keys_inj [OF r(1)])
  have sub: "addr_val ` ?K \<subseteq> ?R" using r by (auto simp: ha_inv_def in_range_def)
  have "card (?R - addr_val ` ?K) = card ?R - card ?K" using card_Diff_subset [OF _ sub] card_image [OF inj] by simp
  moreover have "card ?K \<le> card ?R" using card_mono [OF _ sub] card_image [OF inj] by simp
  moreover have "addr_val start \<le> addr_val stop" using r by (simp add: ha_inv_def)
  ultimately show ?thesis unfolding dom c by (simp add: Stats_def Let_def r(2,3) c)
qed

theorem hash_allocator_stats_witness:
  "Stats (ha_run (projr (NewHashAllocator (V4 10) (V4 12))) [OpAlloc (V4 11) True]) =
     (card (dom (Get (ha_run (projr (NewHashAllocator (V4 10) (V4 12))) [OpAlloc (V4 11) True]))),
      int (card ({addr_val (V4 10) .. addr_val (V4 12)} -
        addr_val ` dom (Get (ha_run (projr (NewHashAllocator (V4 10) (V4 12))) [OpAlloc (V4 11) True])))))"
  by (rule hash_allocator_stats)
    (simp_all add: NewHashAllocator_def addr_compare_def maxIter_def)

text \<open>The slice of blocks is documented to be a min heap, smallest block first. It is not: in the range 0 to 9,
  allocating 5 and 4 and freeing 5 leaves the block 5-9 at the root of the heap and the smaller block 0-3 below it.
  \<open>put\<close> passes the loop counter to \<open>heap.Fix\<close> where the index of the grown block is meant, and does not
  call it at all when it grows a block to the left.\<close>

definition min_heap :: "block_list \<Rightarrow> bool" where
  "min_heap bl \<longleftrightarrow> list_all (\<lambda>i. i = 0 \<or> \<not> abl_Less (bl_store bl) (bl_heap bl) i ((i - 1) div 2)) [0 ..< length (bl_heap bl)]"

lemmas heap_eval = heap_Remove_def heap_Fix_def heap_fix_at_def heap_down.simps heap_up.simps heap_Push_def abl_Swap_def abl_Less_def
  block_less_def Let_def calcSize_def addrDiff_def uint128_sub_def uint128FromAddr_def hi64_def lo64_def uint128_less_def
  set_next_def set_prev_def

lemma hash_allocator_heap_order_broken:
  "\<not> min_heap (ha_availableBlocks (ha_run (projr (NewHashAllocator (V4 0) (V4 9))) [OpAlloc (V4 5) (), OpAlloc (V4 4) (), OpFree (V4 5)]))"
proof -
  let ?b = "\<lambda>f t s p n. (\<lparr>lb_from = V4 f, lb_to = V4 t, lb_size = (0, s), lb_prev = p, lb_next = n\<rparr> :: linked_block)"
  let ?root = "?b 0 9 9 None None"
  let ?w = "\<lparr>bl_store = [?root], bl_heap = [0]\<rparr>"
  let ?x = "\<lparr>bl_store = [?root, ?b 0 4 4 None (Some 2), ?b 6 9 3 (Some 1) None], bl_heap = [2, 1]\<rparr>"
  let ?y = "\<lparr>bl_store = [?root, ?b 0 3 3 None (Some 2), ?b 6 9 3 (Some 1) None], bl_heap = [2, 1]\<rparr>"
  let ?z = "\<lparr>bl_store = [?root, ?b 0 3 3 None (Some 2), ?b 5 9 4 (Some 1) None], bl_heap = [2, 1]\<rparr>"
  have new: "NewHashAllocator (V4 0) (V4 9) =
      Inr \<lparr>ha_start = V4 0, ha_stop = V4 9, ha_peakAllocations = 0, ha_allocations = [] :: (addr \<times> unit) list, ha_availableBlocks = ?w\<rparr>"
    by (simp add: NewHashAllocator_def addr_compare_def heap_eval)
  have t1: "abl_take (V4 5) ?w = Inr ?x"
    by (simp add: abl_take_def within_def addr_compare_def) (simp add: heap_eval cong: if_weak_cong)
  have t2: "abl_take (V4 4) ?x = Inr ?y"
    by (simp add: abl_take_def within_def addr_compare_def upt_rec) (simp add: heap_eval cong: if_weak_cong)
  have m: "maxIter = Suc 999999" by (simp add: maxIter_def)
  have p: "abl_put (V4 5) ?y = Inr ?z"
    unfolding abl_put_def m put_walk_Suc grow_left_def by (simp add: addr_compare_def heap_eval)
  show ?thesis
    by (simp add: new Alloc_def Free_def record_alloc_def t1 t2 p addr_compare_def min_heap_def upt_rec del: One_nat_def) (simp add: heap_eval)
qed

end
