(* ===== verification/Stz_Datapath.thy ===== *)
theory Stz_Datapath
  imports Scale_To_Zero
begin

unbundle bit_operations_syntax

text \<open>
  The kernel's side of the scale-to-zero datapath: \<open>bpf/lib/constellation_stz.h\<close>, the hook that local delivery of an
  IPv4 packet runs. It works on the same two maps as the agent and appends wake events to a ring buffer. The packet is an
  argument, as what loading \<open>n\<close> bytes at an offset of it gives (\<open>None\<close> when the helper fails), and so are the
  clock and whether the ring buffer has room.
\<close>

section \<open>Definitions\<close>

datatype verdict = CTX_ACT_OK | CTX_ACT_DROP

record stz_state =
  sd_maps :: stz_maps
  sd_events :: "u32 list"

type_synonym packet = "nat \<Rightarrow> nat \<Rightarrow> u8 list option"

text \<open>Map keys are the four address bytes in network order; the model writes them as the address they spell.\<close>

fun be32 :: "u8 list \<Rightarrow> u32" where
  "be32 [a, b, c, d] = push_bit 24 (ucast a) OR push_bit 16 (ucast b) OR push_bit 8 (ucast c) OR ucast d"
| "be32 _ = 0"

text \<open>Loading the flags reads two bytes at offset 12 of the TCP header; \<open>SYN\<close> and \<open>ACK\<close> are in the second.\<close>

definition l4_load_tcp_flags :: "packet \<Rightarrow> nat \<Rightarrow> u8 list option" where
  "l4_load_tcp_flags load l4_off = load (l4_off + 12) 2"

definition TCP_FLAG_SYN :: u8 where "TCP_FLAG_SYN = 0x02"
definition TCP_FLAG_ACK :: u8 where "TCP_FLAG_ACK = 0x10"
definition IPPROTO_TCP :: u8 where "IPPROTO_TCP = 6"

definition constellation_stz_ingress4 :: "packet \<Rightarrow> nat \<Rightarrow> u64 \<Rightarrow> bool \<Rightarrow> stz_state \<Rightarrow> verdict \<times> stz_state" where
  "constellation_stz_ingress4 load l3_off now room s =
     (case load (l3_off + 16) 4 of
        None \<Rightarrow> (CTX_ACT_OK, s)
      | Some daddr_bytes \<Rightarrow>
          (let daddr = be32 daddr_bytes;
               m = sd_maps s;
               m = (case stz_flows m daddr of
                      None \<Rightarrow> m
                    | Some ts \<Rightarrow> m\<lparr>stz_flows := (stz_flows m)(daddr \<mapsto> now)\<rparr>);
               s = s\<lparr>sd_maps := m\<rparr>
           in case stz_triggers m daddr of
                None \<Rightarrow> (CTX_ACT_OK, s)
              | Some _ \<Rightarrow>
                  (case load (l3_off + 9) 1 of
                     None \<Rightarrow> (CTX_ACT_OK, s)
                   | Some protocol \<Rightarrow>
                       if hd protocol \<noteq> IPPROTO_TCP then (CTX_ACT_OK, s)
                       else
                         (case load l3_off 1 of
                            None \<Rightarrow> (CTX_ACT_OK, s)
                          | Some ihl_byte \<Rightarrow>
                              (let l4_off = l3_off + unat (hd ihl_byte AND 0x0f) * 4 in
                               case l4_load_tcp_flags load l4_off of
                                 None \<Rightarrow> (CTX_ACT_OK, s)
                               | Some flags \<Rightarrow>
                                   if \<not> ((flags ! 1) AND TCP_FLAG_SYN \<noteq> 0 \<and> (flags ! 1) AND TCP_FLAG_ACK = 0)
                                   then (CTX_ACT_OK, s)
                                   else (CTX_ACT_DROP, if room then s\<lparr>sd_events := sd_events s @ [daddr]\<rparr> else s))))))"

section \<open>What the hook does\<close>

definition pkt_daddr :: "packet \<Rightarrow> nat \<Rightarrow> u32 option" where
  "pkt_daddr load l3_off = map_option be32 (load (l3_off + 16) 4)"

text \<open>What the hook takes for an opening segment: it loads the protocol, the header length and the flags, and nothing else.\<close>

definition looks_like_syn :: "packet \<Rightarrow> nat \<Rightarrow> bool" where
  "looks_like_syn load l3_off \<longleftrightarrow>
     (\<exists>protocol ihl_byte flags. load (l3_off + 9) 1 = Some protocol \<and> hd protocol = IPPROTO_TCP \<and> load l3_off 1 = Some ihl_byte \<and>
        load (l3_off + unat (hd ihl_byte AND 0x0f) * 4 + 12) 2 = Some flags \<and>
        (flags ! 1) AND TCP_FLAG_SYN \<noteq> 0 \<and> (flags ! 1) AND TCP_FLAG_ACK = 0)"

definition touch :: "u32 option \<Rightarrow> u64 \<Rightarrow> stz_maps \<Rightarrow> stz_maps" where
  "touch k now m = (case k of
     Some d \<Rightarrow> if stz_flows m d = None then m else m\<lparr>stz_flows := (stz_flows m)(d \<mapsto> now)\<rparr> | None \<Rightarrow> m)"

definition trapped :: "packet \<Rightarrow> nat \<Rightarrow> stz_maps \<Rightarrow> bool" where
  "trapped load l3_off m \<longleftrightarrow> looks_like_syn load l3_off \<and> (\<exists>d. pkt_daddr load l3_off = Some d \<and> stz_triggers m d \<noteq> None)"

lemma touch_triggers [simp]: "stz_triggers (touch k now m) = stz_triggers m"
  by (simp add: touch_def split: option.split)

lemma ingress4_eq:
  "constellation_stz_ingress4 load l3_off now room s =
     (if trapped load l3_off (sd_maps s)
      then (CTX_ACT_DROP, s\<lparr>sd_maps := touch (pkt_daddr load l3_off) now (sd_maps s),
              sd_events := sd_events s @ (if room then [the (pkt_daddr load l3_off)] else [])\<rparr>)
      else (CTX_ACT_OK, s\<lparr>sd_maps := touch (pkt_daddr load l3_off) now (sd_maps s)\<rparr>))"
proof (cases "load (l3_off + 16) 4")
  case None
  then show ?thesis by (simp add: constellation_stz_ingress4_def trapped_def pkt_daddr_def touch_def)
next
  case (Some bs)
  have m: "(case stz_flows (sd_maps s) (be32 bs) of None \<Rightarrow> sd_maps s
      | Some ts \<Rightarrow> (sd_maps s)\<lparr>stz_flows := (stz_flows (sd_maps s))(be32 bs \<mapsto> now)\<rparr>) = touch (Some (be32 bs)) now (sd_maps s)"
    by (simp add: touch_def split: option.split)
  show ?thesis
    unfolding constellation_stz_ingress4_def Let_def Some option.case m touch_triggers trapped_def pkt_daddr_def looks_like_syn_def
      l4_load_tcp_flags_def
    by (auto split: option.splits)
qed

section \<open>IPv4 packets\<close>

text \<open>
  An IPv4 packet as the protocol defines it (RFC 791) and the bytes it is sent as. The fields that do not matter here are
  kept as bytes: type of service, total length and identification; checksum and source address.
\<close>

record ip4_packet =
  ip_tos_len_id :: "u8 list"
  ip_flags_offset :: "16 word"
  ip_ttl :: u8
  ip_protocol :: u8
  ip_check_saddr :: "u8 list"
  ip_daddr :: u32
  ip_options :: "u8 list"
  ip_payload :: "u8 list"

definition ip4_wf :: "ip4_packet \<Rightarrow> bool" where
  "ip4_wf p \<longleftrightarrow> length (ip_tos_len_id p) = 5 \<and> length (ip_check_saddr p) = 6 \<and> length (ip_options p) mod 4 = 0 \<and> length (ip_options p) \<le> 40"

definition bytes32 :: "u32 \<Rightarrow> u8 list" where
  "bytes32 w = [ucast (drop_bit 24 w), ucast (drop_bit 16 w), ucast (drop_bit 8 w), ucast w]"

definition ip4_bytes :: "ip4_packet \<Rightarrow> u8 list" where
  "ip4_bytes p =
     [0x40 OR word_of_nat (5 + length (ip_options p) div 4)] @ ip_tos_len_id p @
     [ucast (drop_bit 8 (ip_flags_offset p)), ucast (ip_flags_offset p), ip_ttl p, ip_protocol p] @ ip_check_saddr p @
     bytes32 (ip_daddr p) @ ip_options p @ ip_payload p"

definition fragment_offset :: "ip4_packet \<Rightarrow> 16 word" where
  "fragment_offset p = ip_flags_offset p AND 0x1fff"

text \<open>The flags of a TCP header are in its fourteenth byte (RFC 793).\<close>

definition syn_without_ack :: "u8 list \<Rightarrow> bool" where
  "syn_without_ack segment \<longleftrightarrow> length segment \<ge> 14 \<and> bit (segment ! 13) 1 \<and> \<not> bit (segment ! 13) 4"

text \<open>A packet that opens a TCP connection: only the first fragment of a segment has its header.\<close>

definition opens_connection :: "ip4_packet \<Rightarrow> bool" where
  "opens_connection p \<longleftrightarrow> ip_protocol p = 6 \<and> fragment_offset p = 0 \<and> syn_without_ack (ip_payload p)"

text \<open>The packet in a frame: loads within the frame succeed.\<close>

definition frame :: "u8 list \<Rightarrow> packet" where
  "frame bytes off n = (if off + n \<le> length bytes then Some (take n (drop off bytes)) else None)"

lemma be32_bytes32: "be32 (bytes32 w) = w"
proof (rule bit_word_eqI)
  fix n assume "n < LENGTH(32)"
  then consider "n < 8" | "8 \<le> n" "n < 16" | "16 \<le> n" "n < 24" | "24 \<le> n" "n < 32" by fastforce
  then show "bit (be32 (bytes32 w)) n = bit w n"
    by cases (auto simp: bytes32_def bit_or_iff bit_push_bit_iff bit_ucast_iff bit_drop_bit_eq)
qed

lemma header_length:
  assumes "n \<le> 10" shows "unat ((0x40 OR word_of_nat (5 + n)) AND 0x0f :: u8) = 5 + n"
proof -
  let ?w = "word_of_nat (5 + n) :: u8"
  have "(0x40 OR ?w) AND 0x0f = take_bit 4 ?w"
    unfolding take_bit_eq_mask bit.conj_disj_distrib2 by (simp add: mask_eq_exp_minus_1)
  moreover have "unat ?w = 5 + n" using assms by (simp add: unat_of_nat take_bit_eq_mod del: of_nat_add)
  ultimately show ?thesis using assms by (simp only: unsigned_take_bit_eq) (simp add: take_bit_eq_mod)
qed

lemma flag_bits: "x AND TCP_FLAG_SYN \<noteq> 0 \<longleftrightarrow> bit x 1" "x AND TCP_FLAG_ACK = 0 \<longleftrightarrow> \<not> bit x 4"
  using and_exp_eq_0_iff_not_bit [of x 1] and_exp_eq_0_iff_not_bit [of x 4] by (simp_all add: TCP_FLAG_SYN_def TCP_FLAG_ACK_def)

lemma frame_nth: "frame (link @ bs) (length link + i) n = (if i + n \<le> length bs then Some (take n (drop i bs)) else None)"
  by (simp add: frame_def)

lemma ip4_loads:
  fixes link :: "u8 list" assumes "ip4_wf p"
  defines "load \<equiv> frame (link @ ip4_bytes p)" and "l3 \<equiv> length link"
  shows "pkt_daddr load l3 = Some (ip_daddr p)"
    and "looks_like_syn load l3 \<longleftrightarrow> ip_protocol p = 6 \<and> syn_without_ack (ip_payload p)"
proof -
  note w = assms(1) [unfolded ip4_wf_def]
  obtain t1 t2 t3 t4 t5 where t: "ip_tos_len_id p = [t1, t2, t3, t4, t5]"
    using conjunct1 [OF w] by (auto simp: length_Suc_conv eval_nat_numeral)
  obtain c1 c2 c3 c4 c5 c6 where c: "ip_check_saddr p = [c1, c2, c3, c4, c5, c6]"
    using conjunct1 [OF conjunct2 [OF w]] by (auto simp: length_Suc_conv eval_nat_numeral)
  let ?h = "0x40 OR word_of_nat (5 + length (ip_options p) div 4) :: u8"
  have b: "ip4_bytes p = [?h, t1, t2, t3, t4, t5, ucast (drop_bit 8 (ip_flags_offset p)), ucast (ip_flags_offset p), ip_ttl p, ip_protocol p,
      c1, c2, c3, c4, c5, c6] @ bytes32 (ip_daddr p) @ ip_options p @ ip_payload p"
    by (simp add: ip4_bytes_def t c)
  have l: "length (bytes32 (ip_daddr p)) = 4" by (simp add: bytes32_def)
  have k: "length (ip_options p) div 4 \<le> 10" "(5 + length (ip_options p) div 4) * 4 = 20 + length (ip_options p)" using w by presburger+
  have hl: "unat (?h AND 0x0f) * 4 = 20 + length (ip_options p)" unfolding header_length [OF k(1)] by (rule k(2))
  have loads: "load l3 1 = Some [?h]" "load (l3 + 9) 1 = Some [ip_protocol p]" "load (l3 + 16) 4 = Some (bytes32 (ip_daddr p))"
    using frame_nth [of link "ip4_bytes p" 0] frame_nth [of link "ip4_bytes p"] l unfolding load_def l3_def
    by (simp_all add: b)
  then show "pkt_daddr load l3 = Some (ip_daddr p)" by (simp add: pkt_daddr_def be32_bytes32)
  define h where "h = take 16 (ip4_bytes p) @ bytes32 (ip_daddr p) @ ip_options p"
  have h: "ip4_bytes p = h @ ip_payload p" "length h = 20 + length (ip_options p)"
    using l by (simp_all add: h_def b)
  have flags: "load (l3 + unat (?h AND 0x0f) * 4 + 12) 2 =
      (if 14 \<le> length (ip_payload p) then Some (take 2 (drop 12 (ip_payload p))) else None)"
    using frame_nth [of link "ip4_bytes p" "length h + 12" 2] unfolding load_def l3_def hl h(2) [symmetric] by (simp add: h(1) add.assoc)
  have "take 2 (drop 12 (ip_payload p)) ! 1 = ip_payload p ! 13" if "14 \<le> length (ip_payload p)" using that by simp
  then show "looks_like_syn load l3 \<longleftrightarrow> ip_protocol p = 6 \<and> syn_without_ack (ip_payload p)"
    using loads flags unfolding looks_like_syn_def syn_without_ack_def IPPROTO_TCP_def flag_bits by auto
qed

lemma ip4_ingress:
  fixes link :: "u8 list" assumes "ip4_wf p"
  shows "trapped (frame (link @ ip4_bytes p)) (length link) m \<longleftrightarrow>
      ip_protocol p = 6 \<and> syn_without_ack (ip_payload p) \<and> stz_triggers m (ip_daddr p) \<noteq> None"
  unfolding trapped_def ip4_loads [OF assms] by auto

text \<open>
  (C33) The trap on IPv4 packets. The hook runs on the frame of a well-formed packet, behind any link-layer header \<open>link\<close>. An
  unfragmented packet or a first fragment is dropped if and only if it opens a TCP connection to an address that has a trigger. A later fragment has
  no TCP header; the hook does not look at the offset and drops it if and only if the bytes of its payload in the place of the flags
  have \<open>SYN\<close> and not \<open>ACK\<close>. A dropped packet queues one wake event for its destination if the ring buffer has
  room, and none otherwise; a packet that passes queues none. Every packet refreshes the time stamp of its destination if the destination is tracked.
  Triggers and the tracking of other addresses never change.
\<close>

theorem stz_trap_exact:
  assumes "ip4_wf p" and "constellation_stz_ingress4 (frame (link @ ip4_bytes p)) (length link) now room s = (v, s')"
  shows "(fragment_offset p = 0 \<longrightarrow> (v = CTX_ACT_DROP \<longleftrightarrow> opens_connection p \<and> stz_triggers (sd_maps s) (ip_daddr p) \<noteq> None)) \<and>
    (fragment_offset p \<noteq> 0 \<longrightarrow> (v = CTX_ACT_DROP \<longleftrightarrow>
       ip_protocol p = 6 \<and> syn_without_ack (ip_payload p) \<and> stz_triggers (sd_maps s) (ip_daddr p) \<noteq> None)) \<and>
    sd_events s' = sd_events s @ (if v = CTX_ACT_DROP \<and> room then [ip_daddr p] else []) \<and>
    stz_triggers (sd_maps s') = stz_triggers (sd_maps s) \<and>
    (\<forall>k. stz_flows (sd_maps s') k =
       (if k = ip_daddr p \<and> stz_flows (sd_maps s) k \<noteq> None then Some now else stz_flows (sd_maps s) k))"
proof -
  have "stz_flows (touch (Some (ip_daddr p)) now (sd_maps s)) k =
       (if k = ip_daddr p \<and> stz_flows (sd_maps s) k \<noteq> None then Some now else stz_flows (sd_maps s) k)" for k
    by (auto simp: touch_def split: option.splits)
  then show ?thesis
    using assms(2) unfolding ingress4_eq ip4_ingress [OF assms(1)] ip4_loads(1) [OF assms(1)] opens_connection_def
    by (auto split: if_splits)
qed

text \<open>A segment of twenty bytes in an Ethernet frame, given by its flags and the fragment offset.\<close>

definition ex_ip4 :: "u8 \<Rightarrow> 16 word \<Rightarrow> ip4_packet" where
  "ex_ip4 flags offset =
     \<lparr>ip_tos_len_id = [0, 0, 40, 0, 0], ip_flags_offset = offset, ip_ttl = 64, ip_protocol = 6,
      ip_check_saddr = [0, 0, 10, 0, 0, 1], ip_daddr = 0x0a001008, ip_options = [],
      ip_payload = [0x30, 0x39, 0, 80, 0, 0, 0, 0, 0, 0, 0, 0, 0x50, flags, 0, 0, 0, 0, 0, 0]\<rparr>"

definition ex_packet :: "u8 \<Rightarrow> packet" where
  "ex_packet flags = frame (ip4_bytes (ex_ip4 flags 0))"

lemma ex_ip4_wf: "ip4_wf (ex_ip4 flags offset)"
  by (simp add: ip4_wf_def ex_ip4_def)

lemma ex_packet_loads: "pkt_daddr (ex_packet flags) 0 = Some 0x0a001008" "looks_like_syn (ex_packet 0x02) 0"
  using ip4_loads [OF ex_ip4_wf, of "[]"] by (simp_all add: ex_packet_def ex_ip4_def syn_without_ack_def)

definition ex_armed :: stz_state where
  "ex_armed = \<lparr>sd_maps = \<lparr>stz_triggers = [0x0a001008 \<mapsto> 1], stz_flows = [0x0a001008 \<mapsto> 5],
     stz_trigger_delete_fails = (\<lambda>_. False), stz_flow_delete_fails = (\<lambda>_. False)\<rparr>, sd_events = []\<rparr>"

theorem stz_trap_exact_witness:
  "let link = replicate 14 0; run = (\<lambda>p room. constellation_stz_ingress4 (frame (link @ ip4_bytes p)) 14 77 room ex_armed) in
   fst (run (ex_ip4 0x02 0) True) = CTX_ACT_DROP \<and> sd_events (snd (run (ex_ip4 0x02 0) True)) = [0x0a001008] \<and>
   sd_events (snd (run (ex_ip4 0x02 0) False)) = [] \<and>
   fst (run (ex_ip4 0x12 0) True) \<noteq> CTX_ACT_DROP \<and>
   stz_flows (sd_maps (snd (run (ex_ip4 0x12 0) True))) 0x0a001008 = Some 77 \<and>
   fst (run (ex_ip4 0x02 185) True) = CTX_ACT_DROP"
proof -
  have x: "ip_daddr (ex_ip4 f n) = 0x0a001008" "ip_protocol (ex_ip4 f n) = 6"
    "fragment_offset (ex_ip4 f 0) = 0" "fragment_offset (ex_ip4 f 185) = 185" for f n
    by (simp_all add: ex_ip4_def fragment_offset_def)
  have y: "syn_without_ack (ip_payload (ex_ip4 0x02 n))" "\<not> syn_without_ack (ip_payload (ex_ip4 0x12 n))" for n
    by (simp_all add: ex_ip4_def syn_without_ack_def)
  show ?thesis
    unfolding Let_def
    using stz_trap_exact [of "ex_ip4 0x02 0" "replicate 14 0" 77 True ex_armed, OF ex_ip4_wf surjective_pairing]
      stz_trap_exact [of "ex_ip4 0x02 0" "replicate 14 0" 77 False ex_armed, OF ex_ip4_wf surjective_pairing]
      stz_trap_exact [of "ex_ip4 0x12 0" "replicate 14 0" 77 True ex_armed, OF ex_ip4_wf surjective_pairing]
      stz_trap_exact [of "ex_ip4 0x02 185" "replicate 14 0" 77 True ex_armed, OF ex_ip4_wf surjective_pairing] y
    unfolding opens_connection_def length_replicate by (simp add: x ex_armed_def)
qed

text \<open>
  The hook does not look at the fragment offset. A later fragment to an armed address opens no connection, and yet is dropped, and wakes the
  pod, when its payload happens to look like an opening segment.
\<close>

lemma stz_traps_later_fragments:
  assumes "ip4_wf p" "fragment_offset p \<noteq> 0" "ip_protocol p = 6" "syn_without_ack (ip_payload p)"
    "stz_triggers (sd_maps s) (ip_daddr p) \<noteq> None"
  shows "\<not> opens_connection p \<and> fst (constellation_stz_ingress4 (frame (link @ ip4_bytes p)) (length link) now room s) = CTX_ACT_DROP"
  using assms unfolding ingress4_eq ip4_ingress [OF assms(1)] opens_connection_def by simp

end
