(* ===== verification/Pod_CIDR.thy ===== *)
theory Pod_CIDR
  imports CIDR_Set
begin

text \<open>
  The operator's pod CIDR manager: it gives every node its pod CIDRs, takes over those that nodes already
  have, and queues the nodes for publication in Kubernetes. Sources:
  \<open>operator/pkg/ipam/allocator/podcidr/podcidr.go\<close>, \<open>pkg/revert/revert.go\<close> and the start-up in
  \<open>operator/pkg/ipam/allocator/clusterpool/clusterpool.go\<close>. The allocators are the CIDR sets of \<open>CIDR_Set\<close>.
  Every exported method runs under the manager's mutex, so it is one step. The Kubernetes client is an
  argument. Go's maps are partial functions; the order of an iteration over one is an argument.
\<close>

section \<open>Data\<close>

datatype allocator_type = V4Allocator | V6Allocator

datatype podcidr_error =
    ErrAllocatorNotFound "prefix list" allocator_type
  | ErrAllocatorFull
  | ErrCIDRAllocated prefix
  | ErrNoAllocators string "(prefix \<times> int) list" "(prefix \<times> int) list"
  | CIDRsConflict "prefix list" "prefix list"
  | AllocatorNotConfigured prefix
  | AllocatorIsFull "prefix \<times> int"
  | CIDRErr cidr_error

fun is_ErrCIDRAllocated :: "podcidr_error \<Rightarrow> bool" where
  "is_ErrCIDRAllocated (ErrCIDRAllocated _) = True"
| "is_ErrCIDRAllocated _ = False"

record node_cidrs =
  nc_v4 :: "prefix list"
  nc_v6 :: "prefix list"

text \<open>
  What the manager uses of a \<open>CiliumNode\<close>. The status error is the message of an error; the model keeps
  the error itself, \<open>None\<close> for the empty message. \<open>cn_Rest\<close> stands for all other fields.
\<close>

record 'r CiliumNode =
  cn_Name :: string
  cn_ResourceVersion :: string
  cn_OwnerReferences :: "string list"
  cn_PodCIDRs :: "prefix list"
  cn_Error :: "podcidr_error option"
  cn_Rest :: 'r

text \<open>An entry of the queue: the operation with its node; a deletion has none.\<close>

datatype 'r node_k8s_op = K8sOpCreate "'r CiliumNode" | K8sOpDelete | K8sOpUpdate "'r CiliumNode"
  | K8sOpUpdateStatus "'r CiliumNode"

record 'r podcidr_manager =
  pm_canAllocatePodCIDRs :: bool
  pm_nodesToAllocate :: "(string \<rightharpoonup> 'r CiliumNode) option"
  pm_v4CIDRAllocators :: "cidr_set list"
  pm_v6CIDRAllocators :: "cidr_set list"
  pm_nodes :: "string \<rightharpoonup> node_cidrs"
  pm_ciliumNodesToK8s :: "string \<rightharpoonup> 'r node_k8s_op"
  pm_triggers :: nat
  pm_panicked :: bool

definition NewNodesPodCIDRManager :: "cidr_set list \<Rightarrow> cidr_set list \<Rightarrow> 'r podcidr_manager" where
  "NewNodesPodCIDRManager v4 v6 =
     \<lparr>pm_canAllocatePodCIDRs = False, pm_nodesToAllocate = Some Map.empty, pm_v4CIDRAllocators = v4,
      pm_v6CIDRAllocators = v6, pm_nodes = Map.empty, pm_ciliumNodesToK8s = Map.empty, pm_triggers = 0,
      pm_panicked = False\<rparr>"

definition trigger :: "'r podcidr_manager \<Rightarrow> 'r podcidr_manager" where
  "trigger m = m\<lparr>pm_triggers := pm_triggers m + 1\<rparr>"

text \<open>
  \<open>AllocatorOperator.Init\<close> and \<open>Start\<close>: the CIDR sets of the enabled families, over the prefixes that
  parsing the configured strings gives.
\<close>

datatype init_error = ClusterPoolCIDRMissing allocator_type | UnableToInitialize allocator_type cidr_error
  | ClusterPoolCIDRSet allocator_type

definition init_family :: "allocator_type \<Rightarrow> bool \<Rightarrow> prefix list \<Rightarrow> int \<Rightarrow> (init_error, cidr_set list) result" where
  "init_family ty enabled cidrs maskSize =
     (if enabled then
        if cidrs = [] then Inl (ClusterPoolCIDRMissing ty)
        else case NewCIDRSets (ty = V6Allocator) maskSize cidrs [] of
               Inl e \<Rightarrow> Inl (UnableToInitialize ty e)
             | Inr ss \<Rightarrow> Inr ss
      else if cidrs \<noteq> [] then Inl (ClusterPoolCIDRSet ty)
      else Inr [])"

definition Init :: "bool \<Rightarrow> prefix list \<Rightarrow> int \<Rightarrow> bool \<Rightarrow> prefix list \<Rightarrow> int \<Rightarrow>
    (init_error, cidr_set list \<times> cidr_set list) result" where
  "Init enable4 cidrs4 mask4 enable6 cidrs6 mask6 =
     (case init_family V4Allocator enable4 cidrs4 mask4 of
        Inl e \<Rightarrow> Inl e
      | Inr v4 \<Rightarrow> (case init_family V6Allocator enable6 cidrs6 mask6 of Inl e \<Rightarrow> Inl e | Inr v6 \<Rightarrow> Inr (v4, v6)))"

section \<open>Operations on the allocators of a family\<close>

text \<open>
  A revert function releases a prefix in one of the allocators, named by its index. \<open>Revert\<close> runs them in
  the reverse order of pushing and stops at the first that fails.
\<close>

type_synonym revert_stack = "(nat \<times> prefix) list"

fun run_reverts :: "revert_stack \<Rightarrow> cidr_set list \<Rightarrow> cidr_set list" where
  "run_reverts [] ss = ss"
| "run_reverts ((k, p) # fs) ss = (case cs_Release (ss ! k) p of Inl _ \<Rightarrow> ss | Inr t \<Rightarrow> run_reverts fs (ss[k := t]))"

definition Revert :: "revert_stack \<Rightarrow> cidr_set list \<Rightarrow> cidr_set list" where
  "Revert st ss = run_reverts (rev st) ss"

definition getCIDRAllocatorsInfo :: "cidr_set list \<Rightarrow> (prefix \<times> int) list" where
  "getCIDRAllocatorsInfo ss = map (\<lambda>s. (cs_clusterPrefix s, cs_nodeMaskSize s)) ss"

text \<open>
  The inner loop of \<open>allocateIPNet\<close>: the first allocator in range decides. \<open>err\<close> is the variable of that name;
  the result also says in which allocator the CIDR was occupied.
\<close>

fun occupy_first :: "prefix \<Rightarrow> nat \<Rightarrow> cidr_set list \<Rightarrow> podcidr_error option \<Rightarrow>
    (podcidr_error, cidr_set list \<times> nat option) result" where
  "occupy_first c k [] err = (case err of Some e \<Rightarrow> Inl e | None \<Rightarrow> Inr ([], None))"
| "occupy_first c k (s # ss) err =
     (if \<not> cs_InRange s c then
        (case occupy_first c (Suc k) ss (Some (AllocatorNotConfigured c)) of
           Inl e \<Rightarrow> Inl e
         | Inr (ss', r) \<Rightarrow> Inr (s # ss', r))
      else if cs_IsFull s then Inl (AllocatorIsFull (cs_clusterPrefix s, cs_nodeMaskSize s))
      else case cs_IsAllocated s c of
             Inl e \<Rightarrow> Inl (CIDRErr e)
           | Inr True \<Rightarrow> Inl (ErrCIDRAllocated c)
           | Inr False \<Rightarrow> (case cs_Occupy s c of Inl e \<Rightarrow> Inl (CIDRErr e) | Inr t \<Rightarrow> Inr (t # ss, Some k)))"

fun occupy_all :: "prefix list \<Rightarrow> cidr_set list \<Rightarrow> revert_stack \<Rightarrow>
    cidr_set list \<times> (podcidr_error, revert_stack) result" where
  "occupy_all [] ss st = (ss, Inr st)"
| "occupy_all (c # cs) ss st =
     (case occupy_first c 0 ss None of
        Inl e \<Rightarrow> (Revert st ss, Inl e)
      | Inr (ss', None) \<Rightarrow> occupy_all cs ss' st
      | Inr (ss', Some k) \<Rightarrow> occupy_all cs ss' (st @ [(k, c)]))"

definition allocateIPNet :: "allocator_type \<Rightarrow> cidr_set list \<Rightarrow> prefix list \<Rightarrow>
    cidr_set list \<times> (podcidr_error, revert_stack) result" where
  "allocateIPNet ty ss cs = (if ss = [] then (ss, Inl (ErrAllocatorNotFound cs ty)) else occupy_all cs ss [])"

fun first_free :: "nat \<Rightarrow> cidr_set list \<Rightarrow> nat option" where
  "first_free k [] = None"
| "first_free k (s # ss) = (if \<not> cs_IsFull s then Some k else first_free (Suc k) ss)"

definition allocateFirstFreeCIDR :: "cidr_set list \<Rightarrow>
    cidr_set list \<times> (podcidr_error, revert_stack \<times> prefix) result" where
  "allocateFirstFreeCIDR ss =
     (case first_free 0 ss of
        None \<Rightarrow> (ss, Inl ErrAllocatorFull)
      | Some k \<Rightarrow>
          (case cs_AllocateNext (ss ! k) of
             Inl e \<Rightarrow> (ss, Inl (CIDRErr e))
           | Inr (t, p) \<Rightarrow> (ss[k := t], Inr ([(k, p)], p))))"

text \<open>A failed release is logged, and the next allocator in range is tried.\<close>

fun release_first :: "prefix \<Rightarrow> cidr_set list \<Rightarrow> cidr_set list" where
  "release_first p [] = []"
| "release_first p (s # ss) =
     (if \<not> cs_InRange s p then s # release_first p ss
      else case cs_Release s p of Inl _ \<Rightarrow> s # release_first p ss | Inr t \<Rightarrow> t # ss)"

definition releaseCIDRs :: "cidr_set list \<Rightarrow> prefix list \<Rightarrow> cidr_set list" where
  "releaseCIDRs ss cs = (if ss = [] then ss else fold release_first cs ss)"

section \<open>The manager\<close>

definition splitPodCIDRs :: "prefix list \<Rightarrow> node_cidrs" where
  "splitPodCIDRs ps =
     \<lparr>nc_v4 = filter (\<lambda>p. addr_is4 (pfx_addr p)) (map pfx_masked ps),
      nc_v6 = filter (\<lambda>p. \<not> addr_is4 (pfx_addr p)) (map pfx_masked ps)\<rparr>"

definition containsAll :: "prefix list \<Rightarrow> prefix list \<Rightarrow> bool" where
  "containsAll outer inner \<longleftrightarrow> list_all (\<lambda>p. List.member outer p) inner"

definition syncNode :: "('r CiliumNode \<Rightarrow> 'r node_k8s_op) \<Rightarrow> 'r CiliumNode \<Rightarrow> 'r podcidr_manager \<Rightarrow> 'r podcidr_manager" where
  "syncNode op cn m = trigger (m\<lparr>pm_ciliumNodesToK8s := (pm_ciliumNodesToK8s m)(cn_Name cn \<mapsto> op cn)\<rparr>)"

definition releaseIPNets :: "string \<Rightarrow> 'r podcidr_manager \<Rightarrow> 'r podcidr_manager \<times> bool" where
  "releaseIPNets name m =
     (case pm_nodes m name of
        None \<Rightarrow> (m, False)
      | Some c \<Rightarrow>
          (m\<lparr>pm_nodes := (pm_nodes m)(name := None),
             pm_v4CIDRAllocators := releaseCIDRs (pm_v4CIDRAllocators m) (nc_v4 c),
             pm_v6CIDRAllocators := releaseCIDRs (pm_v6CIDRAllocators m) (nc_v6 c)\<rparr>, True))"

text \<open>The answers of \<open>allocateNext\<close> and \<open>reuseIPNets\<close>: the CIDRs, whether any was allocated, the error.\<close>

type_synonym node_answer = "node_cidrs option \<times> bool \<times> podcidr_error option"

text \<open>One family of \<open>allocateNext\<close>.\<close>

definition next_family :: "cidr_set list \<Rightarrow> cidr_set list \<times> (podcidr_error, revert_stack \<times> prefix list) result" where
  "next_family ss =
     (if ss \<noteq> [] then
        (case allocateFirstFreeCIDR ss of (ss', Inl e) \<Rightarrow> (ss', Inl e) | (ss', Inr (st, p)) \<Rightarrow> (ss', Inr (st, [p])))
      else (ss, Inr ([], [])))"

definition allocateNext :: "string \<Rightarrow> 'r podcidr_manager \<Rightarrow> 'r podcidr_manager \<times> node_answer" where
  "allocateNext name m =
     (case pm_nodes m name of
        Some c \<Rightarrow> (m, Some c, False, None)
      | None \<Rightarrow>
          (case next_family (pm_v4CIDRAllocators m) of
             (v4, Inl e) \<Rightarrow> (m\<lparr>pm_v4CIDRAllocators := v4\<rparr>, None, False, Some e)
           | (v4, Inr (st, c4)) \<Rightarrow>
               (case next_family (pm_v6CIDRAllocators m) of
                  (v6, Inl e) \<Rightarrow>
                    (m\<lparr>pm_v4CIDRAllocators := Revert st v4, pm_v6CIDRAllocators := v6\<rparr>, None, False, Some e)
                | (v6, Inr (_, c6)) \<Rightarrow>
                    if c4 = [] \<and> c6 = [] then
                      (m\<lparr>pm_v4CIDRAllocators := v4, pm_v6CIDRAllocators := v6\<rparr>, None, False,
                       Some (ErrNoAllocators name (getCIDRAllocatorsInfo v4) (getCIDRAllocatorsInfo v6)))
                    else
                      (m\<lparr>pm_v4CIDRAllocators := v4, pm_v6CIDRAllocators := v6,
                         pm_nodes := (pm_nodes m)(name \<mapsto> \<lparr>nc_v4 = c4, nc_v6 = c6\<rparr>)\<rparr>,
                       Some \<lparr>nc_v4 = c4, nc_v6 = c6\<rparr>, True, None))))"

text \<open>The checks of \<open>reuseIPNets\<close> on a node that already has CIDRs.\<close>

definition reuse_check :: "'r podcidr_manager \<Rightarrow> node_cidrs \<Rightarrow> prefix list \<Rightarrow> prefix list \<Rightarrow> podcidr_error option" where
  "reuse_check m old v4 v6 =
     (if nc_v4 old \<noteq> [] \<and> pm_v4CIDRAllocators m = [] then Some (ErrAllocatorNotFound (nc_v4 old) V4Allocator)
      else if nc_v4 old \<noteq> [] \<and> \<not> containsAll (nc_v4 old) v4 then Some (CIDRsConflict (nc_v4 old) v4)
      else if nc_v6 old \<noteq> [] \<and> pm_v6CIDRAllocators m = [] then Some (ErrAllocatorNotFound (nc_v6 old) V6Allocator)
      else if nc_v6 old \<noteq> [] \<and> \<not> containsAll (nc_v6 old) v6 then Some (CIDRsConflict (nc_v6 old) v6)
      else None)"

text \<open>One family of \<open>reuseIPNets\<close>: the given CIDRs, or the next free one when none is given.\<close>

definition reuse_family :: "allocator_type \<Rightarrow> cidr_set list \<Rightarrow> prefix list \<Rightarrow>
    cidr_set list \<times> (podcidr_error, revert_stack \<times> prefix list) result" where
  "reuse_family ty ss cs =
     (if cs \<noteq> [] then
        (case allocateIPNet ty ss cs of (ss', Inl e) \<Rightarrow> (ss', Inl e) | (ss', Inr st) \<Rightarrow> (ss', Inr (st, cs)))
      else
        (case allocateFirstFreeCIDR ss of (ss', Inl e) \<Rightarrow> (ss', Inl e) | (ss', Inr (st, p)) \<Rightarrow> (ss', Inr (st, cs @ [p]))))"

text \<open>
  The rest of \<open>reuseIPNets\<close>, the IPv4 half and then the IPv6 half. \<open>has\<close> says that \<open>old\<close> is the object in the
  map of nodes: then what the first half writes to its \<open>v4PodCIDRs\<close> stays there even if the second half fails.
  A family that is not tried gives \<open>None\<close>.
\<close>

definition reuse_second :: "string \<Rightarrow> bool \<Rightarrow> node_cidrs \<Rightarrow> revert_stack \<Rightarrow> cidr_set list \<Rightarrow> podcidr_error option \<Rightarrow>
    bool \<Rightarrow> bool \<Rightarrow> prefix list \<Rightarrow> 'r podcidr_manager \<Rightarrow> 'r podcidr_manager \<times> node_answer" where
  "reuse_second name has old st4 ss4 err4 allocated can6 v6 m =
     (if can6 \<and> pm_v6CIDRAllocators m \<noteq> [] then
        (case reuse_family V6Allocator (pm_v6CIDRAllocators m) v6 of
           (ss6, Inl e) \<Rightarrow>
             if \<not> is_ErrCIDRAllocated e then
               (m\<lparr>pm_v4CIDRAllocators := Revert st4 ss4, pm_v6CIDRAllocators := ss6,
                  pm_nodes := (if has then (pm_nodes m)(name \<mapsto> old) else pm_nodes m)\<rparr>, None, False, Some e)
             else if err4 \<noteq> None then
               (m\<lparr>pm_v4CIDRAllocators := ss4, pm_v6CIDRAllocators := ss6\<rparr>, None, False, err4)
             else
               (m\<lparr>pm_v4CIDRAllocators := ss4, pm_v6CIDRAllocators := ss6, pm_nodes := (pm_nodes m)(name \<mapsto> old)\<rparr>,
                Some old, allocated, Some e)
         | (ss6, Inr (_, cs)) \<Rightarrow>
             (m\<lparr>pm_v4CIDRAllocators := ss4, pm_v6CIDRAllocators := ss6,
                pm_nodes := (pm_nodes m)(name \<mapsto> old\<lparr>nc_v6 := cs\<rparr>)\<rparr>, Some (old\<lparr>nc_v6 := cs\<rparr>), True, err4))
      else
        (m\<lparr>pm_v4CIDRAllocators := ss4, pm_nodes := (pm_nodes m)(name \<mapsto> old)\<rparr>, Some old, allocated, err4))"

definition reuse_allocate :: "string \<Rightarrow> bool \<Rightarrow> node_cidrs \<Rightarrow> bool \<Rightarrow> bool \<Rightarrow> prefix list \<Rightarrow> prefix list \<Rightarrow>
    'r podcidr_manager \<Rightarrow> 'r podcidr_manager \<times> node_answer" where
  "reuse_allocate name has old can4 can6 v4 v6 m =
     (if can4 \<and> pm_v4CIDRAllocators m \<noteq> [] then
        (case reuse_family V4Allocator (pm_v4CIDRAllocators m) v4 of
           (ss4, Inl e) \<Rightarrow>
             if \<not> is_ErrCIDRAllocated e then (m\<lparr>pm_v4CIDRAllocators := ss4\<rparr>, None, False, Some e)
             else reuse_second name has old [] ss4 (Some e) False can6 v6 m
         | (ss4, Inr (st, cs)) \<Rightarrow> reuse_second name has (old\<lparr>nc_v4 := cs\<rparr>) st ss4 None True can6 v6 m)
      else reuse_second name has old [] (pm_v4CIDRAllocators m) None False can6 v6 m)"

definition reuseIPNets :: "string \<Rightarrow> prefix list \<Rightarrow> prefix list \<Rightarrow> 'r podcidr_manager \<Rightarrow>
    'r podcidr_manager \<times> node_answer" where
  "reuseIPNets name v4 v6 m =
     (if pm_v4CIDRAllocators m = [] \<and> v4 \<noteq> [] then (m, None, False, Some (ErrAllocatorNotFound v4 V4Allocator))
      else if pm_v6CIDRAllocators m = [] \<and> v6 \<noteq> [] then (m, None, False, Some (ErrAllocatorNotFound v6 V6Allocator))
      else case pm_nodes m name of
             Some old \<Rightarrow>
               (case reuse_check m old v4 v6 of
                  Some e \<Rightarrow> (m, None, False, Some e)
                | None \<Rightarrow> reuse_allocate name True old (nc_v4 old = [] \<and> pm_canAllocatePodCIDRs m)
                            (nc_v6 old = [] \<and> pm_canAllocatePodCIDRs m) v4 v6 m)
           | None \<Rightarrow> reuse_allocate name False \<lparr>nc_v4 = [], nc_v6 = []\<rparr> True True v4 v6 m)"

text \<open>Storing a node until \<open>Resync\<close>: writing to the map once it is nil would panic.\<close>

definition postpone :: "'r CiliumNode \<Rightarrow> 'r podcidr_manager \<Rightarrow> 'r podcidr_manager" where
  "postpone node m =
     (case pm_nodesToAllocate m of
        None \<Rightarrow> m\<lparr>pm_panicked := True\<rparr>
      | Some w \<Rightarrow> m\<lparr>pm_nodesToAllocate := Some (w(cn_Name node \<mapsto> node))\<rparr>)"

text \<open>The four results of \<open>allocateNode\<close>: the node to publish, \<open>allocated\<close>, \<open>updateStatus\<close>, the error.\<close>

type_synonym 'r node_result = "'r CiliumNode option \<times> bool \<times> bool \<times> podcidr_error option"

text \<open>The deferred function, for an error to be recorded in the status.\<close>

definition report_error :: "'r podcidr_manager \<Rightarrow> 'r CiliumNode \<Rightarrow> podcidr_error \<Rightarrow> 'r node_result" where
  "report_error m node e =
     (let cn = node\<lparr>cn_Error := Some e\<rparr>;
          cn' = (case pm_nodes m (cn_Name node) of
                   Some c \<Rightarrow> cn\<lparr>cn_PodCIDRs := nc_v4 c @ nc_v6 c\<rparr>
                 | None \<Rightarrow> cn)
      in (Some cn', False, True, None))"

definition publish_cidrs :: "'r CiliumNode \<Rightarrow> node_cidrs \<Rightarrow> bool \<Rightarrow> 'r node_result" where
  "publish_cidrs node c allocated =
     (Some (node\<lparr>cn_PodCIDRs := nc_v4 c @ nc_v6 c, cn_Error := None\<rparr>), allocated, False, None)"

definition allocateNode :: "'r CiliumNode \<Rightarrow> 'r podcidr_manager \<Rightarrow> 'r podcidr_manager \<times> 'r node_result" where
  "allocateNode node m =
     (if cn_PodCIDRs node = [] then
        if \<not> pm_canAllocatePodCIDRs m then (postpone node m, None, False, False, None)
        else (case allocateNext (cn_Name node) m of
                (m', _, _, Some e) \<Rightarrow> (m', report_error m' node e)
              | (m', Some c, allocated, None) \<Rightarrow> (m', publish_cidrs node c allocated)
              | (m', None, allocated, None) \<Rightarrow> (m'\<lparr>pm_panicked := True\<rparr>, None, False, False, None))
      else
        let c = splitPodCIDRs (cn_PodCIDRs node) in
        (case reuseIPNets (cn_Name node) (nc_v4 c) (nc_v6 c) m of
           (m', _, _, Some e) \<Rightarrow> (m', report_error m' node e)
         | (m', Some c', True, None) \<Rightarrow> (m', publish_cidrs node c' True)
         | (m', None, True, None) \<Rightarrow> (m'\<lparr>pm_panicked := True\<rparr>, None, False, False, None)
         | (m', _, False, None) \<Rightarrow>
             if \<not> pm_canAllocatePodCIDRs m' then (postpone node m', None, False, False, None)
             else if cn_Error node \<noteq> None then (m', Some (node\<lparr>cn_Error := None\<rparr>), False, True, None)
             else (m', None, False, False, None)))"

definition upsertLocked :: "'r CiliumNode \<Rightarrow> 'r podcidr_manager \<Rightarrow> 'r podcidr_manager" where
  "upsertLocked node m =
     (case allocateNode node m of
        (m', _, _, _, Some _) \<Rightarrow> m'
      | (m', None, _, _, None) \<Rightarrow> m'
      | (m', Some cn, allocated, updateStatus, None) \<Rightarrow>
          if \<not> allocated \<and> updateStatus then
            if cn_ResourceVersion cn \<noteq> [] then
              if cn_PodCIDRs cn \<noteq> cn_PodCIDRs node then syncNode K8sOpUpdate cn m'
              else syncNode K8sOpUpdateStatus cn m'
            else syncNode K8sOpCreate cn m'
          else if cn_ResourceVersion cn \<noteq> [] then syncNode K8sOpUpdate cn m'
          else syncNode K8sOpCreate cn m')"

definition Upsert :: "'r CiliumNode \<Rightarrow> 'r podcidr_manager \<Rightarrow> 'r podcidr_manager" where
  "Upsert node m = upsertLocked node m"

definition Delete :: "string \<Rightarrow> 'r podcidr_manager \<Rightarrow> 'r podcidr_manager" where
  "Delete name m =
     (let m1 = (if \<not> pm_canAllocatePodCIDRs m
                then m\<lparr>pm_nodesToAllocate := map_option (\<lambda>w. w(name := None)) (pm_nodesToAllocate m)\<rparr> else m)
      in case releaseIPNets name m1 of
           (m2, False) \<Rightarrow> m2
         | (m2, True) \<Rightarrow> trigger (m2\<lparr>pm_ciliumNodesToK8s := (pm_ciliumNodesToK8s m2)(name \<mapsto> K8sOpDelete)\<rparr>))"

text \<open>\<open>order\<close> is the order in which the iteration over the waiting nodes visits their names.\<close>

fun upsert_waiting :: "(string \<rightharpoonup> 'r CiliumNode) \<Rightarrow> string list \<Rightarrow> 'r podcidr_manager \<Rightarrow> 'r podcidr_manager" where
  "upsert_waiting w [] m = m"
| "upsert_waiting w (n # ns) m = upsert_waiting w ns (case w n of None \<Rightarrow> m | Some cn \<Rightarrow> upsertLocked cn m)"

definition Resync :: "string list \<Rightarrow> 'r podcidr_manager \<Rightarrow> 'r podcidr_manager" where
  "Resync order m =
     trigger (if \<not> pm_canAllocatePodCIDRs m then
                (upsert_waiting (case pm_nodesToAllocate m of None \<Rightarrow> Map.empty | Some w \<Rightarrow> w) order
                   (m\<lparr>pm_canAllocatePodCIDRs := True\<rparr>))\<lparr>pm_nodesToAllocate := None\<rparr>
              else m)"

section \<open>Publication in Kubernetes\<close>

datatype k8s_error = NotFound | AlreadyExists | Conflict | OtherError

text \<open>The client of the API server, over a state \<open>'k\<close> of its own.\<close>

record ('k, 'r) node_client =
  api_Create :: "'k \<Rightarrow> 'r CiliumNode \<Rightarrow> 'k \<times> (k8s_error, 'r CiliumNode) result"
  api_Update :: "'k \<Rightarrow> 'r CiliumNode \<Rightarrow> 'k \<times> (k8s_error, 'r CiliumNode) result"
  api_UpdateStatus :: "'k \<Rightarrow> 'r CiliumNode \<Rightarrow> 'k \<times> (k8s_error, 'r CiliumNode) result"
  api_Get :: "'k \<Rightarrow> string \<Rightarrow> 'k \<times> (k8s_error, 'r CiliumNode) result"

definition error_of :: "(k8s_error, 'a) result \<Rightarrow> k8s_error option" where
  "error_of r = (case r of Inl e \<Rightarrow> Some e | Inr _ \<Rightarrow> None)"

definition unless_NotFound :: "k8s_error option \<Rightarrow> k8s_error option" where
  "unless_NotFound err = (if err = Some NotFound then None else err)"

text \<open>The first switch of \<open>syncToK8s\<close>: the calls for one entry, the entry as they leave it, and the error.\<close>

definition sync_call :: "('k, 'r) node_client \<Rightarrow> string \<Rightarrow> 'r node_k8s_op \<Rightarrow> 'k \<Rightarrow>
    'k \<times> 'r node_k8s_op \<times> k8s_error option" where
  "sync_call api name ko k =
     (case ko of
        K8sOpCreate cn \<Rightarrow> (case api_Create api k cn of (k', r) \<Rightarrow> (k', ko, error_of r))
      | K8sOpUpdate cn \<Rightarrow>
          (case api_Update api k cn of
             (k', Inl e) \<Rightarrow> (k', ko, unless_NotFound (Some e))
           | (k', Inr u) \<Rightarrow>
               (let u' = u\<lparr>cn_Error := cn_Error cn\<rparr>
                in case api_UpdateStatus api k' u' of (k'', r) \<Rightarrow> (k'', K8sOpUpdate u', unless_NotFound (error_of r))))
      | K8sOpUpdateStatus cn \<Rightarrow>
          (case api_UpdateStatus api k cn of (k', r) \<Rightarrow> (k', ko, unless_NotFound (error_of r)))
      | K8sOpDelete \<Rightarrow> (case api_Get api k name of (k', r) \<Rightarrow> (k', ko, unless_NotFound (error_of r))))"

definition merge_conflict :: "'r CiliumNode \<Rightarrow> 'r CiliumNode \<Rightarrow> 'r CiliumNode" where
  "merge_conflict new old =
     new\<lparr>cn_PodCIDRs := cn_PodCIDRs old,
         cn_OwnerReferences := (if cn_OwnerReferences new = [] then cn_OwnerReferences old else cn_OwnerReferences new),
         cn_Error := cn_Error old\<rparr>"

text \<open>
  The second switch. On a conflict the latest node is fetched for the next attempt; an entry that is a
  deletion has no node to fetch, so that a conflict there would dereference nil, which gives \<open>None\<close>.
\<close>

definition sync_conflict :: "('k, 'r) node_client \<Rightarrow> 'r node_k8s_op \<Rightarrow> 'k \<Rightarrow> ('k \<times> 'r node_k8s_op) option" where
  "sync_conflict api ko k =
     (case ko of
        K8sOpDelete \<Rightarrow> None
      | K8sOpCreate cn \<Rightarrow>
          (case api_Get api k (cn_Name cn) of
             (k', Inl _) \<Rightarrow> Some (k', ko) | (k', Inr new) \<Rightarrow> Some (k', K8sOpUpdate (merge_conflict new cn)))
      | K8sOpUpdate cn \<Rightarrow>
          (case api_Get api k (cn_Name cn) of
             (k', Inl _) \<Rightarrow> Some (k', ko) | (k', Inr new) \<Rightarrow> Some (k', K8sOpUpdate (merge_conflict new cn)))
      | K8sOpUpdateStatus cn \<Rightarrow>
          (case api_Get api k (cn_Name cn) of
             (k', Inl _) \<Rightarrow> Some (k', ko) | (k', Inr new) \<Rightarrow> Some (k', K8sOpUpdateStatus (merge_conflict new cn))))"

text \<open>\<open>order\<close> is the order of the iteration over the queue; \<open>None\<close> is a nil dereference.\<close>

fun syncToK8s :: "('k, 'r) node_client \<Rightarrow> string list \<Rightarrow> (string \<rightharpoonup> 'r node_k8s_op) \<Rightarrow> k8s_error option \<Rightarrow> 'k \<Rightarrow>
    ('k \<times> (string \<rightharpoonup> 'r node_k8s_op) \<times> k8s_error option) option" where
  "syncToK8s api [] q retErr k = Some (k, q, retErr)"
| "syncToK8s api (n # ns) q retErr k =
     (case q n of
        None \<Rightarrow> syncToK8s api ns q retErr k
      | Some ko \<Rightarrow>
          (case sync_call api n ko k of
             (k', ko', err) \<Rightarrow>
               if err = Some AlreadyExists \<or> err = Some Conflict then
                 (case sync_conflict api ko' k' of
                    None \<Rightarrow> None
                  | Some (k'', ko'') \<Rightarrow> syncToK8s api ns (q(n \<mapsto> ko'')) err k'')
               else if err = None then syncToK8s api ns (q(n := None)) retErr k'
               else syncToK8s api ns (q(n \<mapsto> ko')) err k'))"

section \<open>The allocators of a family as one pool of slots\<close>

text \<open>
  A slot is a node CIDR of one of the allocators. A prefix no larger than a node CIDR lies in the slot of the
  first allocator that has it in range.
\<close>

type_synonym slot = "nat \<times> nat"

definition fits :: "int \<Rightarrow> prefix \<Rightarrow> bool" where
  "fits msk p \<longleftrightarrow> pfx_wf p \<and> pfx_is_masked p \<and> msk \<le> pfx_bits p"

fun slot_from :: "nat \<Rightarrow> cidr_set list \<Rightarrow> prefix \<Rightarrow> slot option" where
  "slot_from k [] p = None"
| "slot_from k (s # ss) p = (if cs_InRange s p then Some (k, cs_index s (pfx_addr p)) else slot_from (Suc k) ss p)"

definition slots_used :: "cidr_set list \<Rightarrow> slot set" where
  "slots_used ss = {(k, i). k < length ss \<and> i \<in> bits_of (cs_used (ss ! k))}"

text \<open>The allocators \<open>ss\<close> are well formed and have the geometry of \<open>g\<close>.\<close>

definition pools_inv :: "bool \<Rightarrow> int \<Rightarrow> cidr_set list \<Rightarrow> cidr_set list \<Rightarrow> bool" where
  "pools_inv isV6 msk g ss \<longleftrightarrow> sets_ok isV6 msk ss \<and> list_all2 cs_same g ss"

lemma fits_host_bits:
  assumes "cs_geometry s" "fits (cs_nodeMaskSize s) p" "same_family (pfx_addr (cs_clusterPrefix s)) (pfx_addr p)"
  shows "pfx_host_bits p \<le> cs_block_bits s" "pfx_host_bits p \<le> pfx_host_bits (cs_clusterPrefix s)"
proof -
  have b: "addr_bitlen (pfx_addr p) = cs_width s" unfolding cs_width_def
    using same_family_bitlen [OF assms(3)] by simp
  have m: "cs_nodeMaskSize s \<le> pfx_bits p" using assms(2) by (simp add: fits_def)
  have c: "pfx_bits (cs_clusterPrefix s) \<le> cs_nodeMaskSize s" "0 \<le> pfx_bits (cs_clusterPrefix s)"
    using assms(1) pfx_bits_nonneg by (auto simp: cs_geometry_def)
  show "pfx_host_bits p \<le> cs_block_bits s" using m c by (simp add: pfx_host_bits_def cs_block_bits_def b)
  show "pfx_host_bits p \<le> pfx_host_bits (cs_clusterPrefix s)" using m c
    by (simp add: pfx_host_bits_def b) (simp add: cs_width_def)
qed

lemma InRange_family:
  assumes "cs_geometry s" "pfx_wf p" "pfx_is_masked p" "cs_InRange s p"
  shows "same_family (pfx_addr (cs_clusterPrefix s)) (pfx_addr p)"
  using assms cs_cluster_contains [OF assms(1)] pfx_contains_iff [OF assms(2,3)] same_family_sym
  by (auto simp: cs_InRange_def)

text \<open>Such a prefix lies inside one node CIDR.\<close>

lemma fits_block:
  assumes "cs_geometry s" "fits (cs_nodeMaskSize s) p" "cs_InRange s p"
  shows "pfx_contains (cs_clusterPrefix s) (pfx_addr p)" "cs_index s (pfx_addr p) < cs_maxCIDRs s"
    "pfx_contains p a \<Longrightarrow> pfx_contains (indexToCIDRBlock s (cs_index s (pfx_addr p))) a"
    "cs_blocks s p = {cs_index s (pfx_addr p)}"
proof -
  have p: "pfx_wf p" "pfx_is_masked p" using assms(2) by (simp_all add: fits_def)
  have c: "pfx_wf (cs_clusterPrefix s)" "pfx_is_masked (cs_clusterPrefix s)" using assms(1) by (simp_all add: cs_geometry_def)
  note h = fits_host_bits [OF assms(1,2) InRange_family [OF assms(1) p assms(3)]]
  show 1: "pfx_contains (cs_clusterPrefix s) (pfx_addr p)"
    using pfx_nested(1) [OF p c h(2)] assms(3) by (simp add: cs_InRange_def)
  show 2: "cs_index s (pfx_addr p) < cs_maxCIDRs s" by (rule cs_index_less [OF assms(1) 1])
  let ?b = "indexToCIDRBlock s (cs_index s (pfx_addr p))"
  note b = cs_block [OF assms(1) 2]
  have "pfx_contains ?b (pfx_addr p)" using cs_block_contains [OF assms(1) 2] 1 by simp
  then have 3: "pfx_contains ?b a" if "pfx_contains p a" for a
    using pfx_nested(2) [OF p b(1,2) _ _ that] h(1) b(4) by simp
  then show "pfx_contains p a \<Longrightarrow> pfx_contains ?b a" .
  have "i = cs_index s (pfx_addr p)" if "i \<in> cs_blocks s p" for i
    using that 3 cs_block_contains [OF assms(1)] 2 by (auto simp: cs_blocks_def)
  moreover have "cs_index s (pfx_addr p) \<in> cs_blocks s p"
    using 2 pfx_contains_self [OF p] 3 by (auto simp: cs_blocks_def)
  ultimately show "cs_blocks s p = {cs_index s (pfx_addr p)}" by blast
qed

lemma cs_same_geometry:
  assumes "cs_same s t"
  shows "cs_InRange t p = cs_InRange s p" "cs_index t a = cs_index s a" "cs_geometry t = cs_geometry s"
  using assms by (simp_all add: cs_same_def cs_InRange_def cs_index_def cs_block_bits_def cs_width_def cs_geometry_cong [of t s])

lemma slot_from_cong: "list_all2 cs_same g ss \<Longrightarrow> slot_from k ss p = slot_from k g p"
  by (induction arbitrary: k rule: list_all2_induct) (simp_all add: cs_same_geometry)

lemma cs_same_sym: "cs_same s t \<Longrightarrow> cs_same t s"
  by (simp add: cs_same_def)

lemma pool_update:
  assumes "pools_inv v msk g ss" "k < length ss" "cs_inv t" "cs_same (ss ! k) t"
  shows "pools_inv v msk g (ss[k := t])"
    "slots_used (ss[k := t]) = {(j, i). j \<noteq> k \<and> (j, i) \<in> slots_used ss} \<union> Pair k ` bits_of (cs_used t)"
proof -
  have c: "cs_clusterPrefix t = cs_clusterPrefix (ss ! k)" "cs_nodeMaskSize t = cs_nodeMaskSize (ss ! k)"
    using assms(4) by (simp_all add: cs_same_def)
  have "sorted_wrt (\<lambda>s t. pfx_disjoint (cs_clusterPrefix s) (cs_clusterPrefix t)) (ss[k := t])"
    using assms(1,2) c by (auto simp: pools_inv_def sets_ok_def sorted_wrt_iff_nth_less nth_list_update)
  moreover have "list_all (\<lambda>s. cs_inv s \<and> cs_nodeMaskSize s = msk \<and> addr_is4 (pfx_addr (cs_clusterPrefix s)) = (\<not> v)) (ss[k := t])"
    using assms(1,2,3) c by (auto simp: pools_inv_def sets_ok_def list_all_length nth_list_update)
  moreover have "list_all2 cs_same g (ss[k := t])"
    using assms(1,2,4) by (auto simp: pools_inv_def list_all2_conv_all_nth nth_list_update intro: cs_same_trans)
  ultimately show "pools_inv v msk g (ss[k := t])" by (simp add: pools_inv_def sets_ok_def)
  show "slots_used (ss[k := t]) = {(j, i). j \<noteq> k \<and> (j, i) \<in> slots_used ss} \<union> Pair k ` bits_of (cs_used t)"
    using assms(2) by (auto simp: slots_used_def nth_list_update split: if_splits)
qed

lemma pool_invD:
  assumes "pools_inv v msk g ss" "k < length ss"
  shows "cs_inv (ss ! k)" "cs_geometry (ss ! k)" "cs_nodeMaskSize (ss ! k) = msk" "cs_same (g ! k) (ss ! k)"
  using assms cs_invD(1) by (auto simp: pools_inv_def sets_ok_def list_all_length list_all2_conv_all_nth)

lemma slot_fromD:
  assumes "slot_from k ss p = Some (j, i)"
  shows "k \<le> j \<and> j < k + length ss \<and> cs_InRange (ss ! (j - k)) p \<and> i = cs_index (ss ! (j - k)) (pfx_addr p)"
  using assms
proof (induction ss arbitrary: k)
  case (Cons s ss)
  show ?case
  proof (cases "cs_InRange s p")
    case False
    with Cons.prems Cons.IH [of "Suc k"] have "Suc k \<le> j \<and> j < Suc k + length ss \<and> cs_InRange (ss ! (j - Suc k)) p \<and>
        i = cs_index (ss ! (j - Suc k)) (pfx_addr p)" by simp
    moreover from this have "j - k = Suc (j - Suc k)" by linarith
    ultimately show ?thesis by simp
  qed (use Cons.prems in auto)
qed simp

lemma cs_ops_fit:
  assumes "cs_inv s" "fits (cs_nodeMaskSize s) p" "cs_InRange s p"
  obtains t u where "cs_Occupy s p = Inr t" "cs_inv t" "cs_same s t"
      "bits_of (cs_used t) = insert (cs_index s (pfx_addr p)) (bits_of (cs_used s))"
    "cs_Release s p = Inr u" "cs_inv u" "cs_same s u"
      "bits_of (cs_used u) = bits_of (cs_used s) - {cs_index s (pfx_addr p)}"
    "cs_IsAllocated s p = Inr (cs_index s (pfx_addr p) \<in> bits_of (cs_used s))"
proof -
  have p: "pfx_wf p" "pfx_is_masked p" using assms(2) by (simp_all add: fits_def)
  note b = fits_block(4) [OF cs_invD(1) [OF assms(1)] assms(2,3)]
  obtain t where t: "cs_Occupy s p = Inr t" "cs_inv t" "cs_same s t" "bits_of (cs_used t) = bits_of (cs_used s) \<union> cs_blocks s p"
    by (rule cs_Occupy_spec [OF assms(1) p assms(3)])
  obtain u where u: "cs_Release s p = Inr u" "cs_inv u" "cs_same s u" "bits_of (cs_used u) = bits_of (cs_used s) - cs_blocks s p"
    by (rule cs_Release_spec [OF assms(1) p assms(3)])
  show ?thesis using t u cs_IsAllocated_spec [OF assms(1) p assms(3)] unfolding b by (intro that) simp_all
qed

text \<open>Where \<open>occupy_first\<close> and \<open>release_first\<close> act.\<close>

lemma occupy_first_at:
  assumes "occupy_first c k ss err = Inr (ss', r)" "ss \<noteq> [] \<or> err \<noteq> None"
  shows "\<exists>j t. r = Some (k + j) \<and> j < length ss \<and> ss' = ss[j := t] \<and> cs_InRange (ss ! j) c \<and>
    cs_Occupy (ss ! j) c = Inr t \<and> cs_IsAllocated (ss ! j) c = Inr False \<and>
    slot_from k ss c = Some (k + j, cs_index (ss ! j) (pfx_addr c))"
  using assms
proof (induction ss arbitrary: k err ss')
  case (Cons s ss)
  show ?case
  proof (cases "cs_InRange s c")
    case True
    with Cons.prems show ?thesis by (intro exI [of _ 0]) (auto split: if_splits sum.splits bool.splits)
  next
    case False
    with Cons.prems obtain ss1 where o: "occupy_first c (Suc k) ss (Some (AllocatorNotConfigured c)) = Inr (ss1, r)" "ss' = s # ss1"
      by (auto split: sum.splits)
    from Cons.IH [OF o(1)] obtain j t where "r = Some (Suc k + j) \<and> j < length ss \<and> ss1 = ss[j := t] \<and> cs_InRange (ss ! j) c \<and>
      cs_Occupy (ss ! j) c = Inr t \<and> cs_IsAllocated (ss ! j) c = Inr False \<and>
      slot_from (Suc k) ss c = Some (Suc k + j, cs_index (ss ! j) (pfx_addr c))" by auto
    with False o(2) show ?thesis by (intro exI [of _ "Suc j"] exI [of _ t]) simp
  qed
qed (auto split: option.splits)

lemma release_first_at:
  assumes "slot_from k ss p = Some (k + j, i)" "cs_Release (ss ! j) p = Inr t"
  shows "release_first p ss = ss[j := t]"
  using assms
proof (induction ss arbitrary: k j)
  case (Cons s ss)
  show ?case
  proof (cases "cs_InRange s p")
    case False
    with Cons.prems(1) have s: "slot_from (Suc k) ss p = Some (k + j, i)" by simp
    then obtain j' where j: "j = Suc j'" using slot_fromD [OF s] by (cases j) auto
    with False s Cons.prems(2) Cons.IH [of "Suc k" j'] show ?thesis by simp
  qed (use Cons.prems in auto)
qed simp

lemma slot_0D:
  assumes "slot_from 0 ss p = Some (k, i)"
  shows "k < length ss" "cs_InRange (ss ! k) p" "i = cs_index (ss ! k) (pfx_addr p)"
  using slot_fromD [OF assms] by simp_all

lemma slots_used_update:
  assumes "k < length ss" "\<And>i. i \<in> bits_of (cs_used t) \<longleftrightarrow> (k, i) \<in> U" "\<And>j i. j \<noteq> k \<Longrightarrow> (j, i) \<in> U \<longleftrightarrow> (j, i) \<in> slots_used ss"
  shows "slots_used (ss[k := t]) = U"
proof (rule set_eqI)
  fix u :: slot
  obtain j i where u: "u = (j, i)" by (cases u)
  show "u \<in> slots_used (ss[k := t]) \<longleftrightarrow> u \<in> U"
    unfolding u using assms(1) assms(2) [of i] assms(3) [of j i] by (cases "j = k") (simp_all add: slots_used_def)
qed

lemma slots_used_remove:
  assumes "k < length ss" "bits_of (cs_used t) = bits_of (cs_used (ss ! k)) - {i}"
  shows "slots_used (ss[k := t]) = slots_used ss - {(k, i)}"
  by (rule slots_used_update [OF assms(1)], unfold assms(2)) (use assms(1) in \<open>auto simp: slots_used_def\<close>)

lemma slots_used_insert:
  assumes "k < length ss" "bits_of (cs_used t) = insert i (bits_of (cs_used (ss ! k)))"
  shows "slots_used (ss[k := t]) = insert (k, i) (slots_used ss)"
  by (rule slots_used_update [OF assms(1)], unfold assms(2)) (use assms(1) in \<open>auto simp: slots_used_def\<close>)

lemma pool_slot: "pools_inv v msk g ss \<Longrightarrow> slot_from k ss p = slot_from k g p"
  by (rule slot_from_cong) (simp add: pools_inv_def)

lemma pool_release:
  assumes "pools_inv v msk g ss" "fits msk p" "slot_from 0 g p = Some (k, i)"
  obtains t where "cs_Release (ss ! k) p = Inr t" "release_first p ss = ss[k := t]" "pools_inv v msk g (ss[k := t])"
    "slots_used (ss[k := t]) = slots_used ss - {(k, i)}"
proof -
  have s: "slot_from 0 ss p = Some (k, i)" using assms(3) pool_slot [OF assms(1)] by simp
  note k = slot_0D [OF s] and d = pool_invD [OF assms(1) slot_0D(1) [OF s]]
  obtain t where t: "cs_Release (ss ! k) p = Inr t" "cs_inv t" "cs_same (ss ! k) t" "bits_of (cs_used t) = bits_of (cs_used (ss ! k)) - {i}"
    using cs_ops_fit [OF d(1) _ k(2)] assms(2) d(3) k(3) by metis
  show ?thesis
    using t(1) release_first_at [of 0 ss p k i t] s pool_update(1) [OF assms(1) k(1) t(2,3)] slots_used_remove [OF k(1) t(4)]
    by (intro that) simp_all
qed

lemma pool_occupy:
  assumes "pools_inv v msk g ss" "fits msk c" "ss \<noteq> []" "occupy_first c 0 ss None = Inr (ss', r)"
  obtains k i where "r = Some k" "slot_from 0 g c = Some (k, i)" "(k, i) \<notin> slots_used ss" "pools_inv v msk g ss'"
    "slots_used ss' = insert (k, i) (slots_used ss)"
proof -
  obtain k t where k: "r = Some k" "k < length ss" "ss' = ss[k := t]" "cs_InRange (ss ! k) c" "cs_Occupy (ss ! k) c = Inr t"
      "cs_IsAllocated (ss ! k) c = Inr False" "slot_from 0 ss c = Some (k, cs_index (ss ! k) (pfx_addr c))"
    using occupy_first_at [OF assms(4)] assms(3) by auto
  note d = pool_invD [OF assms(1) k(2)]
  let ?i = "cs_index (ss ! k) (pfx_addr c)"
  have f: "fits (cs_nodeMaskSize (ss ! k)) c" using assms(2) d(3) by simp
  have t: "cs_inv t" "cs_same (ss ! k) t" "bits_of (cs_used t) = insert ?i (bits_of (cs_used (ss ! k)))" "?i \<notin> bits_of (cs_used (ss ! k))"
    using cs_ops_fit [OF d(1) f k(4)] k(5,6) by (metis Inr_inject)+
  show ?thesis
    using k(1,2,3,7) pool_slot [OF assms(1), of 0 c] t(4) pool_update(1) [OF assms(1) k(2) t(1,2)] slots_used_insert [OF k(2) t(3)]
    by (intro that [of k ?i]) (auto simp: slots_used_def)
qed

text \<open>What a stack of revert functions undoes.\<close>

definition stack_ok :: "int \<Rightarrow> cidr_set list \<Rightarrow> revert_stack \<Rightarrow> bool" where
  "stack_ok msk g st \<longleftrightarrow> (\<forall>(k, p) \<in> set st. fits msk p \<and> (\<exists>i. slot_from 0 g p = Some (k, i)))"

definition stack_slots :: "cidr_set list \<Rightarrow> revert_stack \<Rightarrow> slot set" where
  "stack_slots g st = {u. \<exists>p \<in> snd ` set st. slot_from 0 g p = Some u}"

lemma run_reverts_spec:
  assumes "pools_inv v msk g ss" "stack_ok msk g st"
  shows "pools_inv v msk g (run_reverts st ss) \<and> slots_used (run_reverts st ss) = slots_used ss - stack_slots g st"
  using assms
proof (induction st arbitrary: ss)
  case (Cons x st)
  obtain k p where x: "x = (k, p)" by (cases x)
  from Cons.prems(2) x obtain i where i: "fits msk p" "slot_from 0 g p = Some (k, i)" "stack_ok msk g st"
    by (auto simp: stack_ok_def)
  obtain t where t: "cs_Release (ss ! k) p = Inr t" "pools_inv v msk g (ss[k := t])" "slots_used (ss[k := t]) = slots_used ss - {(k, i)}"
    by (rule pool_release [OF Cons.prems(1) i(1,2)])
  have "stack_slots g (x # st) = insert (k, i) (stack_slots g st)" using x i(2) by (auto simp: stack_slots_def)
  then show ?case using Cons.IH [OF t(2) i(3)] t(1,3) x by auto
qed (simp add: stack_slots_def)

lemma Revert_spec:
  assumes "pools_inv v msk g ss" "stack_ok msk g st"
  shows "pools_inv v msk g (Revert st ss)" "slots_used (Revert st ss) = slots_used ss - stack_slots g st"
  using run_reverts_spec [OF assms(1), of "rev st"] assms(2) by (simp_all add: Revert_def stack_ok_def stack_slots_def)

lemma stack_snoc:
  assumes "fits msk p" "slot_from 0 g p = Some (k, i)" "stack_ok msk g st"
  shows "stack_ok msk g (st @ [(k, p)])" "stack_slots g (st @ [(k, p)]) = insert (k, i) (stack_slots g st)"
  using assms by (auto simp: stack_ok_def stack_slots_def)

lemma occupy_all_spec:
  assumes "pools_inv v msk g ss" "ss \<noteq> []" "list_all (fits msk) cs" "stack_ok msk g st"
    and "stack_slots g st \<inter> U = {}" "slots_used ss = U \<union> stack_slots g st" "distinct (map (slot_from 0 g \<circ> snd) st)"
  shows "case occupy_all cs ss st of
      (ss', Inl e) \<Rightarrow> pools_inv v msk g ss' \<and> slots_used ss' = U
    | (ss', Inr st') \<Rightarrow> pools_inv v msk g ss' \<and> map snd st' = map snd st @ cs \<and> stack_ok msk g st' \<and>
        stack_slots g st' \<inter> U = {} \<and> slots_used ss' = U \<union> stack_slots g st' \<and> distinct (map (slot_from 0 g \<circ> snd) st')"
  using assms
proof (induction cs arbitrary: ss st)
  case (Cons c cs)
  show ?case
  proof (cases "occupy_first c 0 ss None")
    case (Inl e)
    with Revert_spec [OF Cons.prems(1,4)] Cons.prems(5,6) show ?thesis by auto
  next
    case (Inr x)
    obtain ss' r where x: "x = (ss', r)" by (cases x)
    have f: "fits msk c" using Cons.prems(3) by simp
    obtain k i where k: "r = Some k" "slot_from 0 g c = Some (k, i)" "(k, i) \<notin> slots_used ss" "pools_inv v msk g ss'"
      "slots_used ss' = insert (k, i) (slots_used ss)"
      by (rule pool_occupy [OF Cons.prems(1) f Cons.prems(2) Inr [unfolded x]])
    note st = stack_snoc [OF f k(2) Cons.prems(4)]
    have ne: "ss' \<noteq> []" using k(4) Cons.prems(1,2) by (auto simp: pools_inv_def)
    have new: "slot_from 0 g c \<notin> set (map (slot_from 0 g \<circ> snd) st)"
    proof
      assume "slot_from 0 g c \<in> set (map (slot_from 0 g \<circ> snd) st)"
      then have "(k, i) \<in> stack_slots g st" using k(2) by (force simp: stack_slots_def)
      with k(3) Cons.prems(6) show False by simp
    qed
    have IH: "stack_slots g (st @ [(k, c)]) \<inter> U = {}" "slots_used ss' = U \<union> stack_slots g (st @ [(k, c)])"
      "distinct (map (slot_from 0 g \<circ> snd) (st @ [(k, c)]))"
      unfolding st(2) using k(3,5) Cons.prems(5,6,7) new by (simp_all add: comp_def)
    from Cons.IH [OF k(4) ne _ st(1) IH] Cons.prems(3) Inr x k(1) show ?thesis by simp
  qed
qed simp

lemma stack_slots_snd: "map snd st = cs \<Longrightarrow> stack_slots g st = {u. \<exists>p \<in> set cs. slot_from 0 g p = Some u}"
  by (auto simp: stack_slots_def simp flip: set_map)

lemma allocateIPNet_spec:
  assumes "pools_inv v msk g ss" "list_all (fits msk) cs"
  shows "case allocateIPNet ty ss cs of
      (ss', Inl e) \<Rightarrow> pools_inv v msk g ss' \<and> slots_used ss' = slots_used ss
    | (ss', Inr st) \<Rightarrow> pools_inv v msk g ss' \<and> distinct (map (slot_from 0 g) cs) \<and> stack_ok msk g st \<and> map snd st = cs \<and>
        stack_slots g st \<inter> slots_used ss = {} \<and> slots_used ss' = slots_used ss \<union> stack_slots g st"
proof (cases "ss = []")
  case False
  have "stack_slots g [] \<inter> slots_used ss = {}" "slots_used ss = slots_used ss \<union> stack_slots g []" "stack_ok msk g []"
    by (simp_all add: stack_slots_def stack_ok_def)
  from occupy_all_spec [OF assms(1) False assms(2) this(3,1,2)] False show ?thesis
    by (auto simp: allocateIPNet_def simp flip: map_map split: sum.splits)
qed (use assms in \<open>simp add: allocateIPNet_def\<close>)

text \<open>\<open>AllocateNext\<close> of an allocator takes a free slot, which no other allocator has in range.\<close>

lemma slot_from_skip:
  assumes "j < length ss" "\<And>i. i < j \<Longrightarrow> \<not> cs_InRange (ss ! i) p" "cs_InRange (ss ! j) p"
  shows "slot_from k ss p = Some (k + j, cs_index (ss ! j) (pfx_addr p))"
  using assms
proof (induction ss arbitrary: j k)
  case (Cons s ss)
  show ?case
  proof (cases j)
    case (Suc j')
    have "\<not> cs_InRange s p" using Cons.prems(2) [of 0] Suc by simp
    moreover have "\<not> cs_InRange (ss ! i) p" if "i < j'" for i using Cons.prems(2) [of "Suc i"] Suc that by simp
    ultimately show ?thesis using Cons.IH [of j' "Suc k"] Cons.prems(1,3) Suc by simp
  qed (use Cons.prems in auto)
qed simp

lemma block_slot:
  assumes "pools_inv v msk g ss" "k < length ss" "i < cs_maxCIDRs (ss ! k)"
  defines "q \<equiv> indexToCIDRBlock (ss ! k) i"
  shows "slot_from 0 g q = Some (k, i)" "fits msk q"
proof -
  note d = pool_invD [OF assms(1,2)]
  note b = cs_block [OF d(2) assms(3), folded q_def]
  have self: "pfx_contains q (pfx_addr q)" by (rule pfx_contains_self [OF b(1,2)])
  then have i: "pfx_contains (cs_clusterPrefix (ss ! k)) (pfx_addr q)" "cs_index (ss ! k) (pfx_addr q) = i"
    using cs_block_contains [OF d(2) assms(3)] by (simp_all add: q_def)
  have "\<not> cs_InRange (ss ! j) q" if j: "j < k" for j
  proof
    assume "cs_InRange (ss ! j) q"
    have dj: "cs_geometry (ss ! j)" using pool_invD(2) [OF assms(1)] j assms(2) by simp
    have dis: "pfx_disjoint (cs_clusterPrefix (ss ! j)) (cs_clusterPrefix (ss ! k))"
      using assms(1,2) j by (simp add: pools_inv_def sets_ok_def sorted_wrt_iff_nth_less)
    have "pfx_contains (cs_clusterPrefix (ss ! j)) (pfx_addr (cs_clusterPrefix (ss ! j)))"
      using dj by (intro pfx_contains_self) (simp_all add: cs_geometry_def)
    with \<open>cs_InRange (ss ! j) q\<close> dis i(1) cs_block_contains [OF d(2) assms(3)] show False
      by (auto simp: cs_InRange_def pfx_disjoint_def q_def)
  qed
  from slot_from_skip [OF assms(2) this, of 0] i pool_slot [OF assms(1), of 0 q]
  show "slot_from 0 g q = Some (k, i)" by (simp add: cs_InRange_def)
  show "fits msk q" using b(1-3) d(3) by (simp add: fits_def)
qed

lemma first_free_Some:
  "first_free k ss = Some j \<Longrightarrow> k \<le> j \<and> j < k + length ss \<and> \<not> cs_IsFull (ss ! (j - k))"
proof (induction ss arbitrary: k)
  case (Cons s ss)
  show ?case
  proof (cases "cs_IsFull s")
    case True
    with Cons.prems Cons.IH [of "Suc k"] have h: "Suc k \<le> j \<and> j < Suc k + length ss \<and> \<not> cs_IsFull (ss ! (j - Suc k))" by simp
    then have "j - k = Suc (j - Suc k)" by linarith
    with h show ?thesis by simp
  qed (use Cons.prems in auto)
qed simp

lemma first_free_None: "first_free k ss = None \<longleftrightarrow> list_all cs_IsFull ss"
  by (induction ss arbitrary: k) auto

lemma allocateFirstFreeCIDR_spec:
  assumes "pools_inv v msk g ss"
  shows "case allocateFirstFreeCIDR ss of
      (ss', Inl e) \<Rightarrow> ss' = ss \<and> e = ErrAllocatorFull \<and> list_all cs_IsFull ss
    | (ss', Inr (st, p)) \<Rightarrow> pools_inv v msk g ss' \<and> pfx_bits p = msk \<and> fits msk p \<and>
        (\<exists>k i. st = [(k, p)] \<and> slot_from 0 g p = Some (k, i) \<and> (k, i) \<notin> slots_used ss \<and>
               slots_used ss' = insert (k, i) (slots_used ss))"
proof (cases "first_free 0 ss")
  case None
  moreover from this have "list_all cs_IsFull ss" by (simp only: first_free_None)
  ultimately show ?thesis by (simp add: allocateFirstFreeCIDR_def)
next
  case (Some k)
  then have k: "k < length ss" "\<not> cs_IsFull (ss ! k)" using first_free_Some [OF Some] by simp_all
  note d = pool_invD [OF assms k(1)]
  obtain t q where a: "cs_AllocateNext (ss ! k) = Inr (t, q)"
    using k(2) by (auto simp: cs_AllocateNext_def cs_IsFull_def Let_def)
  obtain i where i: "i < cs_maxCIDRs (ss ! k)" "i \<notin> cs_taken (ss ! k)" "q = indexToCIDRBlock (ss ! k) i" "cs_inv t" "cs_same (ss ! k) t"
      "bits_of (cs_used t) = insert i (bits_of (cs_used (ss ! k)))"
    by (rule cs_AllocateNext_Inr [OF d(1) a])
  have "pfx_bits q = msk" using cs_block(3) [OF d(2) i(1)] d(3) i(3) by simp
  moreover have "(k, i) \<notin> slots_used ss" using i(2) by (simp add: slots_used_def in_cs_taken)
  ultimately show ?thesis
    using Some a block_slot [OF assms k(1) i(1)] i(3) pool_update(1) [OF assms k(1) i(4,5)] slots_used_insert [OF k(1) i(6)]
    by (simp add: allocateFirstFreeCIDR_def)
qed

lemma releaseCIDRs_spec:
  assumes "pools_inv v msk g ss" "list_all (fits msk) cs" "\<And>p. p \<in> set cs \<Longrightarrow> slot_from 0 g p \<noteq> None"
  shows "pools_inv v msk g (releaseCIDRs ss cs) \<and>
    slots_used (releaseCIDRs ss cs) = slots_used ss - {u. \<exists>p \<in> set cs. slot_from 0 g p = Some u}"
proof -
  have "pools_inv v msk g (fold release_first cs ss) \<and>
    slots_used (fold release_first cs ss) = slots_used ss - {u. \<exists>p \<in> set cs. slot_from 0 g p = Some u}"
    using assms
  proof (induction cs arbitrary: ss)
    case (Cons c cs)
    have f: "fits msk c" using Cons.prems(2) by simp
    obtain k i where i: "slot_from 0 g c = Some (k, i)" using Cons.prems(3) [of c] by auto
    obtain t where t: "release_first c ss = ss[k := t]" "pools_inv v msk g (ss[k := t])" "slots_used (ss[k := t]) = slots_used ss - {(k, i)}"
      by (rule pool_release [OF Cons.prems(1) f i])
    have "{u. \<exists>p \<in> set (c # cs). slot_from 0 g p = Some u} = insert (k, i) {u. \<exists>p \<in> set cs. slot_from 0 g p = Some u}"
      using i by auto
    then show ?case using Cons.IH [OF t(2)] Cons.prems(2,3) t(1,3) by auto
  qed simp
  moreover have "ss = [] \<Longrightarrow> slots_used ss = {}" by (simp add: slots_used_def)
  ultimately show ?thesis using assms(1) by (auto simp: releaseCIDRs_def)
qed

section \<open>The contract of a family's allocators\<close>

text \<open>
  What the manager relies on, for either family: slots are taken and given back, a failure takes none, and
  a revert function gives back what its call took. The manager's books say which node holds which CIDRs.
\<close>

definition slots_of :: "(prefix \<Rightarrow> 's option) \<Rightarrow> prefix list \<Rightarrow> 's set" where
  "slots_of slt cs = {u. \<exists>p \<in> set cs. slt p = Some u}"

text \<open>The books are exact: every CIDR has a slot, no slot is held twice, and a slot is in use iff it is held.\<close>

definition ledger :: "(prefix \<Rightarrow> 's option) \<Rightarrow> 's set \<Rightarrow> (string \<Rightarrow> prefix list) \<Rightarrow> bool" where
  "ledger slt U B \<longleftrightarrow> (\<forall>n. \<forall>p \<in> set (B n). slt p \<noteq> None) \<and> (\<forall>n. distinct (map slt (B n))) \<and>
     (\<forall>n n'. n \<noteq> n' \<longrightarrow> slots_of slt (B n) \<inter> slots_of slt (B n') = {}) \<and> U = (\<Union>n. slots_of slt (B n))"

lemma ledgerD:
  assumes "ledger slt U B"
  shows "p \<in> set (B n) \<Longrightarrow> slt p \<noteq> None" "distinct (map slt (B n))"
    "n \<noteq> n' \<Longrightarrow> slots_of slt (B n) \<inter> slots_of slt (B n') = {}" "U = (\<Union>n. slots_of slt (B n))"
  using assms unfolding ledger_def by blast+

lemma UN_update: "(\<Union>x. f ((B(n := c)) x)) = f c \<union> (\<Union>x \<in> - {n}. f (B x))"
proof -
  have "(\<Union>x. f ((B(n := c)) x)) = f ((B(n := c)) n) \<union> (\<Union>x \<in> - {n}. f ((B(n := c)) x))" by blast
  then show ?thesis by simp
qed

lemma UN_split: "(\<Union>x. f (B x)) = f (B n) \<union> (\<Union>x \<in> - {n}. f (B x))"
  by blast

lemma ledger_assign:
  assumes "ledger slt U B" "B n = []" "\<And>p. p \<in> set cs \<Longrightarrow> slt p \<noteq> None" "distinct (map slt cs)"
    and "slots_of slt cs \<inter> U = {}" "U' = U \<union> slots_of slt cs"
  shows "ledger slt U' (B(n := cs))"
proof -
  note d = ledgerD [OF assms(1)]
  have away: "slots_of slt cs \<inter> slots_of slt (B n') = {}" for n' using assms(5) d(4) by blast
  have "U' = (\<Union>n'. slots_of slt ((B(n := cs)) n'))"
  proof -
    have "slots_of slt (B n) = {}" by (simp add: assms(2) slots_of_def)
    then show ?thesis unfolding assms(6) d(4) UN_update using UN_split [of "slots_of slt" B n] by blast
  qed
  moreover have "slots_of slt ((B(n := cs)) n1) \<inter> slots_of slt ((B(n := cs)) n2) = {}" if "n1 \<noteq> n2" for n1 n2
    using that away [of n1] away [of n2] d(3) [of n1 n2] by (auto split: if_splits)
  moreover have "\<forall>n'. \<forall>p \<in> set ((B(n := cs)) n'). slt p \<noteq> None" using assms(3) d(1) by simp
  moreover have "\<forall>n'. distinct (map slt ((B(n := cs)) n'))" using assms(4) d(2) by simp
  ultimately show ?thesis unfolding ledger_def by blast
qed

lemma ledger_clear:
  assumes "ledger slt U B" "U' = U - slots_of slt (B n)"
  shows "ledger slt U' (B(n := []))"
proof -
  note d = ledgerD [OF assms(1)]
  have e: "slots_of slt [] = {}" by (simp add: slots_of_def)
  have "U' = (\<Union>n'. slots_of slt ((B(n := [])) n'))"
    unfolding assms(2) d(4) UN_update e using UN_split [of "slots_of slt" B n] d(3) [of _ n] by blast
  moreover have "slots_of slt ((B(n := [])) n1) \<inter> slots_of slt ((B(n := [])) n2) = {}" if "n1 \<noteq> n2" for n1 n2
    using that e d(3) [of n1 n2] by simp
  ultimately show ?thesis unfolding ledger_def using d(1,2) by simp
qed

locale cidr_pool =
  fixes allocate_next :: "'p \<Rightarrow> 'p \<times> ('e, 'u \<times> prefix) result"
    and occupy :: "'p \<Rightarrow> prefix list \<Rightarrow> 'p \<times> ('e, 'u) result"
    and undo :: "'u \<Rightarrow> 'p \<Rightarrow> 'p"
    and give_back :: "'p \<Rightarrow> prefix list \<Rightarrow> 'p"
    and slt :: "prefix \<Rightarrow> 's option"
    and used :: "'p \<Rightarrow> 's set"
    and inv :: "'p \<Rightarrow> bool"
    and fit :: "prefix \<Rightarrow> bool"
  assumes next_Inr: "inv s \<Longrightarrow> allocate_next s = (t, Inr (r, p)) \<Longrightarrow> inv t \<and> fit p \<and> slt p \<noteq> None \<and>
        slots_of slt [p] \<inter> used s = {} \<and> used t = used s \<union> slots_of slt [p] \<and> inv (undo r t) \<and> used (undo r t) = used s"
    and next_Inl: "inv s \<Longrightarrow> allocate_next s = (t, Inl e) \<Longrightarrow> t = s"
    and occupy_Inr: "inv s \<Longrightarrow> list_all fit cs \<Longrightarrow> occupy s cs = (t, Inr r) \<Longrightarrow> inv t \<and>
        (\<forall>p \<in> set cs. slt p \<noteq> None) \<and> distinct (map slt cs) \<and> slots_of slt cs \<inter> used s = {} \<and>
        used t = used s \<union> slots_of slt cs \<and> inv (undo r t) \<and> used (undo r t) = used s"
    and occupy_Inl: "inv s \<Longrightarrow> list_all fit cs \<Longrightarrow> occupy s cs = (t, Inl e) \<Longrightarrow> inv t \<and> used t = used s"
    and give_back: "inv s \<Longrightarrow> list_all fit cs \<Longrightarrow> \<forall>p \<in> set cs. slt p \<noteq> None \<Longrightarrow>
        inv (give_back s cs) \<and> used (give_back s cs) = used s - slots_of slt cs"
begin

lemma next_books:
  assumes "inv s" "ledger slt (used s) B" "B n = []" "allocate_next s = (t, Inr (r, p))"
  shows "inv t" "ledger slt (used t) (B(n := [p]))" "list_all fit [p]" "inv (undo r t)" "used (undo r t) = used s"
  using next_Inr [OF assms(1,4)] ledger_assign [OF assms(2,3), of "[p]"] by simp_all

lemma occupy_books:
  assumes "inv s" "ledger slt (used s) B" "B n = []" "list_all fit cs" "occupy s cs = (t, Inr r)"
  shows "inv t" "ledger slt (used t) (B(n := cs))" "inv (undo r t)" "used (undo r t) = used s"
  using occupy_Inr [OF assms(1,4,5)] ledger_assign [OF assms(2,3), of cs] by simp_all

lemma release_books:
  assumes "inv s" "ledger slt (used s) B" "list_all fit (B n)"
  shows "inv (give_back s (B n))" "ledger slt (used (give_back s (B n))) (B(n := []))"
  using give_back [OF assms(1,3)] ledgerD(1) [OF assms(2)] ledger_clear [OF assms(2)] by simp_all

end

lemma stack_slots_of: "map snd st = cs \<Longrightarrow> stack_slots g st = slots_of (slot_from 0 g) cs"
  by (simp add: stack_slots_snd slots_of_def)

interpretation family: cidr_pool allocateFirstFreeCIDR "allocateIPNet ty" Revert releaseCIDRs
  "slot_from 0 g" slots_used "pools_inv v msk g" "fits msk" for ty v msk g
proof (unfold_locales, goal_cases)
  case (1 s t r p)
  from allocateFirstFreeCIDR_spec [OF 1(1)] 1(2) obtain k i where a: "pools_inv v msk g t" "fits msk p" "r = [(k, p)]"
    "slot_from 0 g p = Some (k, i)" "(k, i) \<notin> slots_used s" "slots_used t = insert (k, i) (slots_used s)" by auto
  have st: "stack_ok msk g r" "stack_slots g r = {(k, i)}" using a(2-4) by (auto simp: stack_ok_def stack_slots_def)
  have "slots_of (slot_from 0 g) [p] = {(k, i)}" using a(4) by (auto simp: slots_of_def)
  with a st Revert_spec [OF a(1) st(1)] show ?case by simp
next
  case (2 s t e)
  from allocateFirstFreeCIDR_spec [OF 2(1)] 2(2) show ?case by simp
next
  case (3 s cs t r)
  from allocateIPNet_spec [OF 3(1,2), of ty] 3(3) have a: "pools_inv v msk g t" "distinct (map (slot_from 0 g) cs)" "stack_ok msk g r"
    "map snd r = cs" "stack_slots g r \<inter> slots_used s = {}" "slots_used t = slots_used s \<union> stack_slots g r" by simp_all
  have "slot_from 0 g p \<noteq> None" if "p \<in> set cs" for p
    using that a(3) unfolding a(4) [symmetric] stack_ok_def by auto
  with a Revert_spec [OF a(1,3)] stack_slots_of [OF a(4)] show ?case by auto
next
  case (4 s cs t e)
  from allocateIPNet_spec [OF 4(1,2), of ty] 4(3) show ?case by simp
next
  case (5 s cs)
  from releaseCIDRs_spec [OF 5(1,2)] 5(3) show ?case by (simp add: slots_of_def)
qed

section \<open>The invariant of the manager\<close>

definition books :: "(node_cidrs \<Rightarrow> prefix list) \<Rightarrow> (string \<rightharpoonup> node_cidrs) \<Rightarrow> string \<Rightarrow> prefix list" where
  "books sel N n = (case N n of None \<Rightarrow> [] | Some c \<Rightarrow> sel c)"

lemma books_upd [simp]:
  "books sel (N(n \<mapsto> c)) = (books sel N)(n := sel c)" "books sel (N(n := None)) = (books sel N)(n := [])"
  "books sel Map.empty = (\<lambda>_. [])" "N n = Some c \<Longrightarrow> books sel N n = sel c" "N n = None \<Longrightarrow> books sel N n = []"
  by (auto simp: books_def)

definition family_ok :: "bool \<Rightarrow> int \<Rightarrow> cidr_set list \<Rightarrow> cidr_set list \<Rightarrow> (string \<Rightarrow> prefix list) \<Rightarrow> bool" where
  "family_ok v msk g ss B \<longleftrightarrow> pools_inv v msk g ss \<and> ledger (slot_from 0 g) (slots_used ss) B \<and> (\<forall>n. list_all (fits msk) (B n))"

lemma family_okD:
  assumes "family_ok v msk g ss B"
  shows "pools_inv v msk g ss" "ledger (slot_from 0 g) (slots_used ss) B" "list_all (fits msk) (B n)"
  using assms by (auto simp: family_ok_def)

lemma family_ok_cong:
  "family_ok v msk g ss B \<Longrightarrow> pools_inv v msk g t \<Longrightarrow> slots_used t = slots_used ss \<Longrightarrow> family_ok v msk g t B"
  by (simp add: family_ok_def)

lemma family_ok_Nil: "family_ok v msk g ss B \<Longrightarrow> ss = [] \<longleftrightarrow> g = []"
  by (auto simp: family_ok_def pools_inv_def)

lemma Revert_Nil [simp]: "Revert [] ss = ss"
  by (simp add: Revert_def)

lemma family_next:
  assumes "family_ok v msk g ss B" "B n = []"
  shows "case allocateFirstFreeCIDR ss of
      (t, Inl e) \<Rightarrow> t = ss
    | (t, Inr (st, p)) \<Rightarrow> family_ok v msk g t (B(n := [p])) \<and> family_ok v msk g (Revert st t) B"
proof -
  note d = family_okD [OF assms(1)]
  obtain t r where a: "allocateFirstFreeCIDR ss = (t, r)" by (rule prod.exhaust)
  show ?thesis
  proof (cases r)
    case (Inl e)
    with a family.next_Inl [OF d(1)] show ?thesis by simp
  next
    case (Inr x)
    obtain st p where x: "x = (st, p)" by (cases x)
    note n = family.next_books [OF d(1,2) assms(2) a [unfolded Inr x]]
    have "family_ok v msk g t (B(n := [p]))" using n(1-3) d(3) by (simp add: family_ok_def)
    moreover have "family_ok v msk g (Revert st t) B" by (rule family_ok_cong [OF assms(1) n(4,5)])
    ultimately show ?thesis using a Inr x by simp
  qed
qed

lemma family_next_opt:
  assumes "family_ok v msk g ss B" "B n = []"
  shows "case next_family ss of
      (t, Inl e) \<Rightarrow> t = ss
    | (t, Inr (st, cs)) \<Rightarrow> family_ok v msk g t (B(n := cs)) \<and> family_ok v msk g (Revert st t) B \<and> (cs = [] \<longleftrightarrow> g = [])"
  using family_next [OF assms] assms family_ok_Nil [OF assms(1)] fun_upd_triv [of B n]
  by (cases "allocateFirstFreeCIDR ss") (auto simp: next_family_def split: sum.splits)

lemma family_reuse:
  assumes "family_ok v msk g ss B" "B n = []" "list_all (fits msk) cs"
  shows "case reuse_family ty ss cs of
      (t, Inl e) \<Rightarrow> family_ok v msk g t B
    | (t, Inr (st, cs')) \<Rightarrow> family_ok v msk g t (B(n := cs')) \<and> family_ok v msk g (Revert st t) B \<and> cs' \<noteq> []"
proof (cases "cs = []")
  case True
  with family_next [OF assms(1,2)] assms(1) show ?thesis by (auto simp: reuse_family_def split: sum.splits)
next
  case False
  note d = family_okD [OF assms(1)]
  obtain t r where a: "allocateIPNet ty ss cs = (t, r)" by (rule prod.exhaust)
  show ?thesis
  proof (cases r)
    case (Inl e)
    with family.occupy_Inl [OF d(1) assms(3)] a have "pools_inv v msk g t" "slots_used t = slots_used ss" by blast+
    with False a Inl family_ok_cong [OF assms(1)] show ?thesis by (simp add: reuse_family_def)
  next
    case (Inr st)
    note o = family.occupy_books [OF d(1,2) assms(2,3) a [unfolded Inr]]
    have "family_ok v msk g t (B(n := cs))" using o(1,2) d(3) assms(3) by (simp add: family_ok_def)
    moreover have "family_ok v msk g (Revert st t) B" by (rule family_ok_cong [OF assms(1) o(3,4)])
    ultimately show ?thesis using False a Inr by (simp add: reuse_family_def)
  qed
qed

lemma family_release:
  assumes "family_ok v msk g ss B" shows "family_ok v msk g (releaseCIDRs ss (B n)) (B(n := []))"
  using family.release_books [OF family_okD [OF assms]] family_okD(3) [OF assms] by (simp add: family_ok_def)

text \<open>Both families, and that with two families every node of the books has some CIDR.\<close>

definition dual_stack :: "'r podcidr_manager \<Rightarrow> bool" where
  "dual_stack m \<longleftrightarrow> pm_v4CIDRAllocators m \<noteq> [] \<and> pm_v6CIDRAllocators m \<noteq> []"

definition pm_core :: "int \<Rightarrow> int \<Rightarrow> cidr_set list \<Rightarrow> cidr_set list \<Rightarrow> 'r podcidr_manager \<Rightarrow> bool" where
  "pm_core m4 m6 g4 g6 m \<longleftrightarrow>
     family_ok False m4 g4 (pm_v4CIDRAllocators m) (books nc_v4 (pm_nodes m)) \<and>
     family_ok True m6 g6 (pm_v6CIDRAllocators m) (books nc_v6 (pm_nodes m)) \<and>
     (g4 \<noteq> [] \<and> g6 \<noteq> [] \<longrightarrow> (\<forall>n c. pm_nodes m n = Some c \<longrightarrow> nc_v4 c \<noteq> [] \<or> nc_v6 c \<noteq> []))"

text \<open>The operations on nodes change only the allocators and the books, and of the books only the given node's.\<close>

definition books_step :: "string \<Rightarrow> 'r podcidr_manager \<Rightarrow> 'r podcidr_manager \<Rightarrow> bool" where
  "books_step name m m' \<longleftrightarrow> (\<exists>ss4 ss6 N. m' = m\<lparr>pm_v4CIDRAllocators := ss4, pm_v6CIDRAllocators := ss6, pm_nodes := N\<rparr> \<and>
     (\<forall>n. n \<noteq> name \<longrightarrow> N n = pm_nodes m n))"

lemma books_stepI:
  assumes "m' = m\<lparr>pm_v4CIDRAllocators := pm_v4CIDRAllocators m', pm_v6CIDRAllocators := pm_v6CIDRAllocators m', pm_nodes := pm_nodes m'\<rparr>"
    and "\<And>n. n \<noteq> name \<Longrightarrow> pm_nodes m' n = pm_nodes m n"
  shows "books_step name m m'"
  unfolding books_step_def using assms by metis

lemma allocateNext_step: "books_step name m (fst (allocateNext name m))"
  by (rule books_stepI) (auto simp: allocateNext_def split: option.splits prod.splits sum.splits if_splits)

lemma reuse_second_step: "books_step name m (fst (reuse_second name has old st4 ss4 err4 a can6 v6 m))"
  by (rule books_stepI) (auto simp: reuse_second_def split: option.splits prod.splits sum.splits if_splits)

lemma reuse_allocate_step: "books_step name m (fst (reuse_allocate name has old can4 can6 v4 v6 m))"
proof -
  have "books_step name m (m\<lparr>pm_v4CIDRAllocators := ss\<rparr>)" for ss by (rule books_stepI) simp_all
  then show ?thesis by (auto simp: reuse_allocate_def reuse_second_step split: prod.splits sum.splits)
qed

lemma reuseIPNets_step: "books_step name m (fst (reuseIPNets name v4 v6 m))"
proof -
  have "books_step name m m" by (rule books_stepI) simp_all
  then show ?thesis using reuse_allocate_step by (auto simp: reuseIPNets_def split: option.splits)
qed

lemma pm_coreD:
  assumes "pm_core m4 m6 g4 g6 m"
  shows "family_ok False m4 g4 (pm_v4CIDRAllocators m) (books nc_v4 (pm_nodes m))"
    "family_ok True m6 g6 (pm_v6CIDRAllocators m) (books nc_v6 (pm_nodes m))"
    "g4 \<noteq> [] \<Longrightarrow> g6 \<noteq> [] \<Longrightarrow> pm_nodes m n = Some c \<Longrightarrow> nc_v4 c \<noteq> [] \<or> nc_v6 c \<noteq> []"
    "pm_v4CIDRAllocators m = [] \<longleftrightarrow> g4 = []" "pm_v6CIDRAllocators m = [] \<longleftrightarrow> g6 = []"
proof -
  show f: "family_ok False m4 g4 (pm_v4CIDRAllocators m) (books nc_v4 (pm_nodes m))"
    "family_ok True m6 g6 (pm_v6CIDRAllocators m) (books nc_v6 (pm_nodes m))"
    using assms by (simp_all add: pm_core_def)
  show "pm_v4CIDRAllocators m = [] \<longleftrightarrow> g4 = []" "pm_v6CIDRAllocators m = [] \<longleftrightarrow> g6 = []"
    by (rule family_ok_Nil [OF f(1)], rule family_ok_Nil [OF f(2)])
qed (use assms in \<open>simp add: pm_core_def\<close>)

lemma allocateNext_core:
  assumes "pm_core m4 m6 g4 g6 m"
  shows "pm_core m4 m6 g4 g6 (fst (allocateNext name m))"
proof (cases "pm_nodes m name")
  case None
  note d = pm_coreD [OF assms]
  have b: "books nc_v4 (pm_nodes m) name = []" "books nc_v6 (pm_nodes m) name = []" using None by simp_all
  note f4 = family_next_opt [OF d(1) b(1)] and f6 = family_next_opt [OF d(2) b(2)]
  obtain s4 r4 where n4: "next_family (pm_v4CIDRAllocators m) = (s4, r4)" by (rule prod.exhaust)
  obtain s6 r6 where n6: "next_family (pm_v6CIDRAllocators m) = (s6, r6)" by (rule prod.exhaust)
  show ?thesis
  proof (cases r4)
    case (Inl e)
    with f4 n4 None assms show ?thesis by (simp add: allocateNext_def)
  next
    case r4: (Inr x)
    obtain st c4 where x: "x = (st, c4)" by (cases x)
    have 4: "family_ok False m4 g4 s4 ((books nc_v4 (pm_nodes m))(name := c4))" "c4 = [] \<longleftrightarrow> g4 = []"
        "family_ok False m4 g4 (Revert st s4) (books nc_v4 (pm_nodes m))"
      using f4 n4 r4 x by simp_all
    show ?thesis
    proof (cases r6)
      case (Inl e)
      with f6 n6 n4 r4 x None 4(3) d(2,3) show ?thesis by (simp add: allocateNext_def pm_core_def)
    next
      case (Inr y)
      obtain st6 c6 where y: "y = (st6, c6)" by (cases y)
      have 6: "family_ok True m6 g6 s6 ((books nc_v6 (pm_nodes m))(name := c6))" "c6 = [] \<longleftrightarrow> g6 = []"
        using f6 n6 Inr y by simp_all
      show ?thesis
      proof (cases "c4 = [] \<and> c6 = []")
        case True
        then have "(books nc_v4 (pm_nodes m))(name := c4) = books nc_v4 (pm_nodes m)"
          "(books nc_v6 (pm_nodes m))(name := c6) = books nc_v6 (pm_nodes m)" using b by (simp_all add: fun_upd_idem)
        with True 4 6 n4 n6 r4 x Inr y None show ?thesis by (simp add: allocateNext_def pm_core_def)
      next
        case False
        with 4 6 n4 n6 r4 x Inr y None d(3) show ?thesis by (auto simp: allocateNext_def pm_core_def)
      qed
    qed
  qed
qed (use assms in \<open>simp add: allocateNext_def\<close>)

text \<open>
  The second half of \<open>reuseIPNets\<close>, from the state that the first half leaves: \<open>old\<close> holds what the first half
  allocated, which \<open>Revert\<close> takes back.
\<close>

lemma reuse_second_core:
  assumes "pm_core m4 m6 g4 g6 m"
    and "family_ok False m4 g4 ss4 ((books nc_v4 (pm_nodes m))(name := nc_v4 old))"
    and "family_ok False m4 g4 (Revert st4 ss4) (books nc_v4 (pm_nodes m))"
    and "nc_v6 old = books nc_v6 (pm_nodes m) name" "can6 \<Longrightarrow> nc_v6 old = []" "list_all (fits m6) v6"
    and "has \<Longrightarrow> can6 \<Longrightarrow> g6 \<noteq> [] \<Longrightarrow> pm_nodes m name = Some old"
    and "err4 \<noteq> None \<Longrightarrow> nc_v4 old = books nc_v4 (pm_nodes m) name"
    and "g4 \<noteq> [] \<Longrightarrow> g6 \<noteq> [] \<Longrightarrow> err4 = None \<or> \<not> can6 \<Longrightarrow> nc_v4 old \<noteq> [] \<or> nc_v6 old \<noteq> []"
  shows "pm_core m4 m6 g4 g6 (fst (reuse_second name has old st4 ss4 err4 a can6 v6 m))"
proof -
  note d = pm_coreD [OF assms(1)]
  have u6: "(books nc_v6 (pm_nodes m))(name := nc_v6 old) = books nc_v6 (pm_nodes m)" using assms(4) by (simp add: fun_upd_idem)
  show ?thesis
  proof (cases "can6 \<and> pm_v6CIDRAllocators m \<noteq> []")
    case False
    with assms(2,9) d(2,3,5) u6 show ?thesis by (auto simp: reuse_second_def pm_core_def)
  next
    case True
    then have c: "can6" "g6 \<noteq> []" using d(5) by simp_all
    have "books nc_v6 (pm_nodes m) name = []" using assms(4,5) c by simp
    note f6 = family_reuse [OF d(2) this assms(6), of V6Allocator]
    obtain s6 r6 where r: "reuse_family V6Allocator (pm_v6CIDRAllocators m) v6 = (s6, r6)" by (rule prod.exhaust)
    show ?thesis
    proof (cases r6)
      case (Inr x)
      obtain st cs where x: "x = (st, cs)" by (cases x)
      have "family_ok True m6 g6 s6 ((books nc_v6 (pm_nodes m))(name := cs))" "cs \<noteq> []" using f6 r Inr x by simp_all
      with True assms(2) d(3) r Inr x show ?thesis by (auto simp: reuse_second_def pm_core_def)
    next
      case (Inl e)
      then have s6: "family_ok True m6 g6 s6 (books nc_v6 (pm_nodes m))" using f6 r by simp
      show ?thesis
      proof (cases "is_ErrCIDRAllocated e")
        case False
        have "(if has then (pm_nodes m)(name \<mapsto> old) else pm_nodes m) = pm_nodes m" using assms(7) c by (auto simp: fun_upd_idem)
        with False True Inl r s6 assms(3) d(3) show ?thesis by (auto simp: reuse_second_def pm_core_def)
      next
        case dup: True
        show ?thesis
        proof (cases "err4 = None")
          case True
          with dup c Inl r s6 u6 assms(2,9) d(3) d(5) show ?thesis by (auto simp: reuse_second_def pm_core_def)
        next
          case False
          then have "(books nc_v4 (pm_nodes m))(name := nc_v4 old) = books nc_v4 (pm_nodes m)" using assms(8) by (simp add: fun_upd_idem)
          with False dup c Inl r s6 assms(2) d(3) d(5) show ?thesis by (auto simp: reuse_second_def pm_core_def)
        qed
      qed
    qed
  qed
qed

lemma reuse_allocate_core:
  assumes "pm_core m4 m6 g4 g6 m" "list_all (fits m4) v4" "list_all (fits m6) v6"
    and "nc_v4 old = books nc_v4 (pm_nodes m) name" "nc_v6 old = books nc_v6 (pm_nodes m) name"
    and "can4 \<Longrightarrow> nc_v4 old = []" "can6 \<Longrightarrow> nc_v6 old = []" "has \<Longrightarrow> pm_nodes m name = Some old"
    and "\<not> can4 \<or> \<not> can6 \<Longrightarrow> has"
  shows "pm_core m4 m6 g4 g6 (fst (reuse_allocate name has old can4 can6 v4 v6 m))"
proof -
  note d = pm_coreD [OF assms(1)]
  have u4: "(books nc_v4 (pm_nodes m))(name := nc_v4 old) = books nc_v4 (pm_nodes m)" using assms(4) by (simp add: fun_upd_idem)
  have ne: "nc_v4 old \<noteq> [] \<or> nc_v6 old \<noteq> []" if "g4 \<noteq> []" "g6 \<noteq> []" "has" using d(3) [OF that(1,2)] assms(8) that(3) by blast
  show ?thesis
  proof (cases "can4 \<and> pm_v4CIDRAllocators m \<noteq> []")
    case False
    have "pm_core m4 m6 g4 g6 (fst (reuse_second name has old [] (pm_v4CIDRAllocators m) None False can6 v6 m))"
    proof (rule reuse_second_core [OF assms(1) _ _ assms(5) assms(7) assms(3)])
      show "nc_v4 old \<noteq> [] \<or> nc_v6 old \<noteq> []" if "g4 \<noteq> []" "g6 \<noteq> []" using ne [OF that] assms(9) False d(4) that(1) by blast
    qed (use u4 d(1) assms(8) in simp_all)
    then show ?thesis unfolding reuse_allocate_def if_not_P [OF False] .
  next
    case True
    then have "books nc_v4 (pm_nodes m) name = []" using assms(4,6) by simp
    note f4 = family_reuse [OF d(1) this assms(2), of V4Allocator]
    have g4: "g4 \<noteq> []" using True d(4) by simp
    have h: False if "has" "can6" "g6 \<noteq> []" using ne [OF g4 that(3,1)] assms(6,7) True that(2) by simp
    obtain s4 r4 where r: "reuse_family V4Allocator (pm_v4CIDRAllocators m) v4 = (s4, r4)" by (rule prod.exhaust)
    show ?thesis
    proof (cases r4)
      case (Inl e)
      then have s4: "family_ok False m4 g4 s4 (books nc_v4 (pm_nodes m))" using f4 r by simp
      have "pm_core m4 m6 g4 g6 (fst (reuse_second name has old [] s4 (Some e) False can6 v6 m))"
      proof (rule reuse_second_core [OF assms(1) _ _ assms(5) assms(7) assms(3)])
        show "nc_v4 old \<noteq> [] \<or> nc_v6 old \<noteq> []" if "g4 \<noteq> []" "g6 \<noteq> []" "Some e = None \<or> \<not> can6"
          using ne [OF that(1,2)] assms(9) that(3) by blast
      qed (use u4 s4 h assms(4) in auto)
      then show ?thesis using True r Inl s4 d(2,3) by (simp add: reuse_allocate_def pm_core_def)
    next
      case (Inr x)
      obtain st cs where x: "x = (st, cs)" by (cases x)
      have s4: "family_ok False m4 g4 s4 ((books nc_v4 (pm_nodes m))(name := cs))" "family_ok False m4 g4 (Revert st s4) (books nc_v4 (pm_nodes m))"
        "cs \<noteq> []" using f4 r Inr x by simp_all
      have "pm_core m4 m6 g4 g6 (fst (reuse_second name has (old\<lparr>nc_v4 := cs\<rparr>) st s4 None True can6 v6 m))"
        by (rule reuse_second_core [OF assms(1) _ _ _ _ assms(3)]) (use assms(5,7) s4 h in auto)
      then show ?thesis using True r Inr x by (simp add: reuse_allocate_def)
    qed
  qed
qed

lemma reuseIPNets_core:
  assumes "pm_core m4 m6 g4 g6 m" "list_all (fits m4) v4" "list_all (fits m6) v6"
  shows "pm_core m4 m6 g4 g6 (fst (reuseIPNets name v4 v6 m))"
proof (cases "pm_nodes m name")
  case None
  have "pm_core m4 m6 g4 g6 (fst (reuse_allocate name False \<lparr>nc_v4 = [], nc_v6 = []\<rparr> True True v4 v6 m))"
    using None by (intro reuse_allocate_core [OF assms]) simp_all
  then show ?thesis using None assms(1) by (simp add: reuseIPNets_def)
next
  case (Some old)
  have "pm_core m4 m6 g4 g6 (fst (reuse_allocate name True old (nc_v4 old = [] \<and> pm_canAllocatePodCIDRs m)
      (nc_v6 old = [] \<and> pm_canAllocatePodCIDRs m) v4 v6 m))"
    using Some by (intro reuse_allocate_core [OF assms]) simp_all
  then show ?thesis using Some assms(1) by (simp add: reuseIPNets_def split: option.split)
qed

text \<open>
  The nodes that the CRD validation lets through, with CIDRs that are valid and no larger than a node CIDR of
  their family.
\<close>

definition node_ok :: "int \<Rightarrow> int \<Rightarrow> 'r CiliumNode \<Rightarrow> bool" where
  "node_ok m4 m6 cn \<longleftrightarrow> list_all (\<lambda>p. pfx_wf p \<and> (if addr_is4 (pfx_addr p) then m4 else m6) \<le> pfx_bits p) (cn_PodCIDRs cn)"

lemma masked_facts:
  assumes "pfx_wf p" shows "addr_is4 (pfx_addr (pfx_masked p)) = addr_is4 (pfx_addr p)" "pfx_bits (pfx_masked p) = pfx_bits p"
proof -
  have v: "pfx_valid p" "0 \<le> pfx_bits p" using assms pfx_bits_nonneg by (simp_all add: pfx_wf_def)
  then show "addr_is4 (pfx_addr (pfx_masked p)) = addr_is4 (pfx_addr p)" "pfx_bits (pfx_masked p) = pfx_bits p"
    using assms by (cases "pfx_addr p"; force simp: pfx_masked_def pfx_wf_def prefix_from_def pfx_bits_def)+
qed

lemma split_fits:
  assumes "node_ok m4 m6 cn"
  shows "list_all (fits m4) (nc_v4 (splitPodCIDRs (cn_PodCIDRs cn)))" "list_all (fits m6) (nc_v6 (splitPodCIDRs (cn_PodCIDRs cn)))"
  using assms by (auto simp: node_ok_def splitPodCIDRs_def list_all_iff fits_def masked_facts pfx_masked_is_masked split: if_splits)

text \<open>The rest of the invariant: the map of waiting nodes is there until \<open>Resync\<close>, and nothing has panicked.\<close>

definition pm_inv :: "int \<Rightarrow> int \<Rightarrow> cidr_set list \<Rightarrow> cidr_set list \<Rightarrow> 'r podcidr_manager \<Rightarrow> bool" where
  "pm_inv m4 m6 g4 g6 m \<longleftrightarrow> pm_core m4 m6 g4 g6 m \<and> \<not> pm_panicked m \<and>
     (pm_nodesToAllocate m = None \<longrightarrow> pm_canAllocatePodCIDRs m) \<and>
     (\<forall>w n cn. pm_nodesToAllocate m = Some w \<longrightarrow> w n = Some cn \<longrightarrow> node_ok m4 m6 cn \<and> cn_Name cn = n)"

lemma pm_invD:
  assumes "pm_inv m4 m6 g4 g6 m"
  shows "pm_core m4 m6 g4 g6 m" "\<not> pm_panicked m" "pm_nodesToAllocate m = None \<Longrightarrow> pm_canAllocatePodCIDRs m"
    "pm_nodesToAllocate m = Some w \<Longrightarrow> w n = Some cn \<Longrightarrow> node_ok m4 m6 cn \<and> cn_Name cn = n"
  using assms by (auto simp: pm_inv_def)

lemma books_step_inv:
  assumes "pm_inv m4 m6 g4 g6 m" "books_step name m m'" "pm_core m4 m6 g4 g6 m'"
  shows "pm_inv m4 m6 g4 g6 m'" "pm_canAllocatePodCIDRs m' = pm_canAllocatePodCIDRs m"
    "pm_nodesToAllocate m' = pm_nodesToAllocate m" "pm_ciliumNodesToK8s m' = pm_ciliumNodesToK8s m"
  using assms by (auto simp: books_step_def pm_inv_def)

lemma postpone_inv:
  assumes "pm_inv m4 m6 g4 g6 m" "node_ok m4 m6 node" "\<not> pm_canAllocatePodCIDRs m"
  shows "pm_inv m4 m6 g4 g6 (postpone node m)" "pm_canAllocatePodCIDRs (postpone node m) = pm_canAllocatePodCIDRs m"
proof -
  obtain w where w: "pm_nodesToAllocate m = Some w" using pm_invD(3) [OF assms(1)] assms(3) by (cases "pm_nodesToAllocate m") auto
  then show "pm_canAllocatePodCIDRs (postpone node m) = pm_canAllocatePodCIDRs m" by (simp add: postpone_def)
  show "pm_inv m4 m6 g4 g6 (postpone node m)"
    using pm_invD [OF assms(1)] assms(2) w by (simp add: pm_inv_def pm_core_def postpone_def)
qed

lemma syncNode_inv:
  "pm_inv m4 m6 g4 g6 (syncNode op cn m) = pm_inv m4 m6 g4 g6 m"
  "pm_canAllocatePodCIDRs (syncNode op cn m) = pm_canAllocatePodCIDRs m" "pm_nodes (syncNode op cn m) = pm_nodes m"
  "pm_v4CIDRAllocators (syncNode op cn m) = pm_v4CIDRAllocators m" "pm_v6CIDRAllocators (syncNode op cn m) = pm_v6CIDRAllocators m"
  by (simp_all add: syncNode_def trigger_def pm_inv_def pm_core_def)

lemma allocateNext_some: "allocateNext name m \<noteq> (m', None, a, None)"
  by (cases "pm_nodes m name") (auto simp: allocateNext_def split: prod.splits sum.splits if_splits)

lemma reuse_second_some: "reuse_second name has old st4 ss4 err4 a can6 v6 m \<noteq> (m', None, b, None)"
  by (auto simp: reuse_second_def split: prod.splits sum.splits if_splits)

lemma reuseIPNets_some: "reuseIPNets name v4 v6 m \<noteq> (m', None, b, None)"
  by (auto simp: reuseIPNets_def reuse_allocate_def reuse_second_some split: option.splits prod.splits sum.splits if_splits)

lemma allocateNode_inv:
  assumes "pm_inv m4 m6 g4 g6 m" "node_ok m4 m6 node"
  shows "pm_inv m4 m6 g4 g6 (fst (allocateNode node m)) \<and>
    pm_canAllocatePodCIDRs (fst (allocateNode node m)) = pm_canAllocatePodCIDRs m"
proof (cases "cn_PodCIDRs node = []")
  case True
  note p = postpone_inv [OF assms]
  obtain m' c a e where n: "allocateNext (cn_Name node) m = (m', c, a, e)" by (rule prod_cases4)
  have s: "pm_inv m4 m6 g4 g6 m'" "pm_canAllocatePodCIDRs m' = pm_canAllocatePodCIDRs m"
    using books_step_inv [OF assms(1) allocateNext_step [of "cn_Name node"] allocateNext_core [OF pm_invD(1) [OF assms(1)]]] n by simp_all
  show ?thesis
  proof (cases "pm_canAllocatePodCIDRs m")
    case False
    with True p show ?thesis by (simp add: allocateNode_def)
  next
    case can: True
    have "\<not> (e = None \<and> c = None)" using allocateNext_some [of "cn_Name node" m m' a] n by auto
    with True can n s show ?thesis by (auto simp: allocateNode_def split: option.splits)
  qed
next
  case False
  let ?c = "splitPodCIDRs (cn_PodCIDRs node)"
  obtain m' c a e where n: "reuseIPNets (cn_Name node) (nc_v4 ?c) (nc_v6 ?c) m = (m', c, a, e)" by (rule prod_cases4)
  note core = reuseIPNets_core [OF pm_invD(1) [OF assms(1)] split_fits [OF assms(2)], of "cn_Name node"]
  have s: "pm_inv m4 m6 g4 g6 m'" "pm_canAllocatePodCIDRs m' = pm_canAllocatePodCIDRs m"
    using books_step_inv [OF assms(1) reuseIPNets_step core] n by simp_all
  have c: "\<not> (e = None \<and> c = None)" using reuseIPNets_some [of "cn_Name node" "nc_v4 ?c" "nc_v6 ?c" m m' a] n by auto
  have "pm_inv m4 m6 g4 g6 (postpone node m') \<and> pm_canAllocatePodCIDRs (postpone node m') = pm_canAllocatePodCIDRs m"
    if "\<not> pm_canAllocatePodCIDRs m'" using postpone_inv [OF s(1) assms(2) that] s(2) by simp
  with False n s c show ?thesis by (auto simp: allocateNode_def Let_def split: option.splits bool.splits)
qed

lemma upsertLocked_inv:
  assumes "pm_inv m4 m6 g4 g6 m" "node_ok m4 m6 node"
  shows "pm_inv m4 m6 g4 g6 (upsertLocked node m)" "pm_canAllocatePodCIDRs (upsertLocked node m) = pm_canAllocatePodCIDRs m"
  using allocateNode_inv [OF assms]
  by (auto simp: upsertLocked_def syncNode_inv split: prod.split option.split)

lemma Delete_inv:
  assumes "pm_inv m4 m6 g4 g6 m" shows "pm_inv m4 m6 g4 g6 (Delete name m)"
proof -
  let ?m1 = "if \<not> pm_canAllocatePodCIDRs m then m\<lparr>pm_nodesToAllocate := map_option (\<lambda>w. w(name := None)) (pm_nodesToAllocate m)\<rparr> else m"
  have i: "pm_inv m4 m6 g4 g6 ?m1" using assms by (auto simp: pm_inv_def pm_core_def split: if_splits)
  show ?thesis
  proof (cases "pm_nodes m name")
    case None
    with i show ?thesis by (auto simp: Delete_def releaseIPNets_def Let_def)
  next
    case (Some c)
    note d = pm_coreD [OF pm_invD(1) [OF i]]
    have "pm_core m4 m6 g4 g6 (fst (releaseIPNets name ?m1))"
      using Some d(3) family_release [OF d(1), of name] family_release [OF d(2), of name]
      by (auto simp: releaseIPNets_def pm_core_def)
    with i Some show ?thesis
      by (auto simp: Delete_def releaseIPNets_def Let_def trigger_def pm_inv_def pm_core_def)
  qed
qed

lemma upsert_waiting_inv:
  assumes "pm_inv m4 m6 g4 g6 m" "\<And>n cn. w n = Some cn \<Longrightarrow> node_ok m4 m6 cn"
  shows "pm_inv m4 m6 g4 g6 (upsert_waiting w ns m) \<and> pm_canAllocatePodCIDRs (upsert_waiting w ns m) = pm_canAllocatePodCIDRs m"
  using assms(1)
proof (induction ns arbitrary: m)
  case (Cons n ns)
  then show ?case using upsertLocked_inv [OF Cons.prems assms(2)] by (cases "w n") auto
qed simp

lemma Resync_inv:
  assumes "pm_inv m4 m6 g4 g6 m" shows "pm_inv m4 m6 g4 g6 (Resync order m)" "pm_canAllocatePodCIDRs (Resync order m)"
proof -
  let ?w = "case pm_nodesToAllocate m of None \<Rightarrow> Map.empty | Some w \<Rightarrow> w" and ?m1 = "m\<lparr>pm_canAllocatePodCIDRs := True\<rparr>"
  have "pm_inv m4 m6 g4 g6 ?m1" using assms by (auto simp: pm_inv_def pm_core_def)
  moreover have "node_ok m4 m6 cn" if "?w n = Some cn" for n cn using that pm_invD(4) [OF assms] by (auto split: option.splits)
  ultimately have "pm_inv m4 m6 g4 g6 (upsert_waiting ?w order ?m1) \<and> pm_canAllocatePodCIDRs (upsert_waiting ?w order ?m1)"
    using upsert_waiting_inv [of m4 m6 g4 g6 ?m1 ?w order] by simp
  with assms show "pm_inv m4 m6 g4 g6 (Resync order m)" "pm_canAllocatePodCIDRs (Resync order m)"
    by (auto simp: Resync_def trigger_def pm_inv_def pm_core_def)
qed

section \<open>Histories\<close>

datatype ('k, 'r) pm_op =
    PmUpsert "'r CiliumNode"
  | PmDelete string
  | PmResync "string list"
  | PmSync "('k, 'r) node_client" "string list" 'k

text \<open>A run of the controller publishes the queue.\<close>

definition pm_sync :: "('k, 'r) node_client \<Rightarrow> string list \<Rightarrow> 'k \<Rightarrow> 'r podcidr_manager \<Rightarrow> 'r podcidr_manager" where
  "pm_sync api order k m =
     (case syncToK8s api order (pm_ciliumNodesToK8s m) None k of
        None \<Rightarrow> m\<lparr>pm_panicked := True\<rparr>
      | Some (_, q, _) \<Rightarrow> m\<lparr>pm_ciliumNodesToK8s := q\<rparr>)"

fun pm_exec :: "'r podcidr_manager \<Rightarrow> ('k, 'r) pm_op \<Rightarrow> 'r podcidr_manager" where
  "pm_exec m (PmUpsert node) = Upsert node m"
| "pm_exec m (PmDelete name) = Delete name m"
| "pm_exec m (PmResync order) = Resync order m"
| "pm_exec m (PmSync api order k) = pm_sync api order k m"

text \<open>Reading a node never conflicts: the API server reports conflicts of writes only.\<close>

definition reads_ok :: "('k, 'r) node_client \<Rightarrow> bool" where
  "reads_ok api \<longleftrightarrow> (\<forall>k n. snd (api_Get api k n) \<noteq> Inl AlreadyExists \<and> snd (api_Get api k n) \<noteq> Inl Conflict)"

fun pm_op_ok :: "int \<Rightarrow> int \<Rightarrow> ('k, 'r) pm_op \<Rightarrow> bool" where
  "pm_op_ok m4 m6 (PmUpsert node) = node_ok m4 m6 node"
| "pm_op_ok m4 m6 (PmSync api order k) = reads_ok api"
| "pm_op_ok m4 m6 _ = True"

lemma delete_no_conflict:
  assumes "reads_ok api" "sync_call api n K8sOpDelete k = (k', ko', err)"
  shows "err \<noteq> Some AlreadyExists" "err \<noteq> Some Conflict"
proof -
  obtain k1 r where g: "api_Get api k n = (k1, r)" by (rule prod.exhaust)
  have "r \<noteq> Inl AlreadyExists" "r \<noteq> Inl Conflict"
    using assms(1) [unfolded reads_ok_def, rule_format, of k n] g by simp_all
  then show "err \<noteq> Some AlreadyExists" "err \<noteq> Some Conflict"
    using assms(2) g by (auto simp: sync_call_def unless_NotFound_def error_of_def split: sum.splits if_splits)
qed

lemma sync_call_same_kind:
  assumes "sync_call api n ko k = (k', ko', err)"
  shows "ko' = K8sOpDelete \<longleftrightarrow> ko = K8sOpDelete"
  using assms by (auto simp: sync_call_def Let_def split: node_k8s_op.splits prod.splits sum.splits)

lemma syncToK8s_total:
  assumes "reads_ok api" shows "syncToK8s api order q retErr k \<noteq> None"
proof (induction order arbitrary: q retErr k)
  case (Cons n ns)
  show ?case
  proof (cases "q n")
    case (Some ko)
    obtain k' ko' err where c: "sync_call api n ko k = (k', ko', err)" by (rule prod_cases3)
    have "sync_conflict api ko' k' \<noteq> None" if "err = Some AlreadyExists \<or> err = Some Conflict"
    proof -
      have "ko' \<noteq> K8sOpDelete" using delete_no_conflict [OF assms, of n k k' ko' err] c sync_call_same_kind [OF c] that by auto
      then show ?thesis by (cases ko') (auto simp: sync_conflict_def split: prod.splits sum.splits)
    qed
    with Some c Cons.IH show ?thesis by (auto split: option.splits)
  qed (use Cons.IH in simp)
qed simp

lemma pm_exec_inv:
  assumes "pm_inv m4 m6 g4 g6 m" "pm_op_ok m4 m6 q" shows "pm_inv m4 m6 g4 g6 (pm_exec m q)"
proof (cases q)
  case (PmSync api order k)
  with assms(2) syncToK8s_total [of api order "pm_ciliumNodesToK8s m" None k] obtain k' q' e where
    "syncToK8s api order (pm_ciliumNodesToK8s m) None k = Some (k', q', e)" by auto
  with PmSync assms(1) show ?thesis by (simp add: pm_sync_def pm_inv_def pm_core_def)
qed (use assms upsertLocked_inv(1) Delete_inv Resync_inv(1) in \<open>auto simp: Upsert_def\<close>)

lemma pm_run_inv:
  "pm_inv m4 m6 g4 g6 m \<Longrightarrow> list_all (pm_op_ok m4 m6) ops \<Longrightarrow> pm_inv m4 m6 g4 g6 (foldl pm_exec m ops)"
  by (induction ops arbitrary: m) (simp_all add: pm_exec_inv)

text \<open>The state at start.\<close>

lemma NewCIDRSets_fresh:
  assumes "NewCIDRSets v msk ps acc = Inr ss" "list_all (\<lambda>s. cs_used s = 0 \<and> cs_reserved s = 0) acc"
  shows "list_all (\<lambda>s. cs_used s = 0 \<and> cs_reserved s = 0) ss"
  using assms
proof (induction ps arbitrary: acc)
  case (Cons p ps)
  have "cs_used s = 0 \<and> cs_reserved s = 0" if "NewCIDRSet p msk = Inr s" for s
    using that by (auto simp: NewCIDRSet_def Let_def split: if_splits)
  with Cons show ?case by (auto split: if_splits sum.splits)
qed simp

lemma fresh_family:
  assumes "sets_ok v msk ss" "list_all (\<lambda>s. cs_used s = 0 \<and> cs_reserved s = 0) ss"
  shows "family_ok v msk ss ss (\<lambda>_. [])"
proof -
  have "slots_used ss = {}" using assms(2) by (auto simp: slots_used_def list_all_length)
  moreover have "list_all2 cs_same ss ss" by (simp add: list_all2_refl)
  ultimately show ?thesis using assms(1) by (simp add: family_ok_def pools_inv_def ledger_def slots_of_def)
qed

definition good_pool :: "prefix list \<Rightarrow> int \<Rightarrow> bool" where
  "good_pool cidrs msk \<longleftrightarrow> list_all (\<lambda>p. good_cidr_config p msk) cidrs"

lemma init_family_ok:
  assumes "init_family ty en cidrs msk = Inr ss" "good_pool cidrs msk"
  shows "family_ok (ty = V6Allocator) msk ss ss (\<lambda>_. [])" "list_all (\<lambda>s. cs_reserved s = 0) ss" "ss = [] \<longleftrightarrow> \<not> en"
proof -
  have c: "NewCIDRSets (ty = V6Allocator) msk cidrs [] = Inr ss \<and> cidrs \<noteq> [] \<and> en \<or> ss = [] \<and> \<not> en"
    using assms(1) by (auto simp: init_family_def split: if_splits sum.splits)
  have s: "sets_ok (ty = V6Allocator) msk []" by (simp add: sets_ok_def)
  have l: "length ss = length cidrs" if "NewCIDRSets (ty = V6Allocator) msk cidrs [] = Inr ss"
    using NewCIDRSets_ok [OF that _ s] assms(2) by (metis good_pool_def append_Nil length_map list.map(1))
  from c NewCIDRSets_ok [OF _ _ s, of cidrs ss] NewCIDRSets_fresh [of "ty = V6Allocator" msk cidrs "[]" ss] assms(2) s
  have f: "sets_ok (ty = V6Allocator) msk ss" "list_all (\<lambda>s. cs_used s = 0 \<and> cs_reserved s = 0) ss"
    by (auto simp: good_pool_def)
  show "family_ok (ty = V6Allocator) msk ss ss (\<lambda>_. [])" by (rule fresh_family [OF f])
  show "list_all (\<lambda>s. cs_reserved s = 0) ss" using f(2) by (auto simp: list_all_iff)
  show "ss = [] \<longleftrightarrow> \<not> en" using c l by auto
qed

definition pm_configured :: "bool \<Rightarrow> prefix list \<Rightarrow> int \<Rightarrow> bool \<Rightarrow> prefix list \<Rightarrow> int \<Rightarrow> cidr_set list \<Rightarrow> cidr_set list \<Rightarrow> bool" where
  "pm_configured e4 c4 m4 e6 c6 m6 v4 v6 \<longleftrightarrow>
     Init e4 c4 m4 e6 c6 m6 = Inr (v4, v6) \<and> good_pool c4 m4 \<and> good_pool c6 m6"

lemma configured_inv:
  assumes "pm_configured e4 c4 m4 e6 c6 m6 v4 v6"
  shows "pm_inv m4 m6 v4 v6 (NewNodesPodCIDRManager v4 v6)" "list_all (\<lambda>s. cs_reserved s = 0) (v4 @ v6)"
    "v4 = [] \<longleftrightarrow> \<not> e4" "v6 = [] \<longleftrightarrow> \<not> e6"
proof -
  have i: "init_family V4Allocator e4 c4 m4 = Inr v4" "init_family V6Allocator e6 c6 m6 = Inr v6" "good_pool c4 m4" "good_pool c6 m6"
    using assms by (auto simp: pm_configured_def Init_def split: sum.splits)
  note f = init_family_ok [OF i(1,3)] init_family_ok [OF i(2,4)]
  show "pm_inv m4 m6 v4 v6 (NewNodesPodCIDRManager v4 v6)"
    using f by (simp add: pm_inv_def pm_core_def NewNodesPodCIDRManager_def)
  show "list_all (\<lambda>s. cs_reserved s = 0) (v4 @ v6)" "v4 = [] \<longleftrightarrow> \<not> e4" "v6 = [] \<longleftrightarrow> \<not> e6" using f by simp_all
qed

end
