(* ===== verification/Pod_CIDR_Properties.thy ===== *)
theory Pod_CIDR_Properties
  imports Pod_CIDR
begin

text \<open>
  The properties of the pod CIDR manager of \<open>Pod_CIDR\<close>, over all its histories: nodes never share an address and
  the allocators are exact, what a new node gets, that a restart recovers the books, and that the publication
  loses nothing; with their witnesses, and two histories in which the manager does not do what it means to.
\<close>

section \<open>No two nodes share an address\<close>

lemma slot_block:
  assumes "pools_inv v msk g ss" "fits msk p" "slot_from 0 g p = Some (k, i)"
  shows "k < length ss" "i < cs_maxCIDRs (ss ! k)" "pfx_contains p a \<Longrightarrow> pfx_contains (indexToCIDRBlock (ss ! k) i) a"
proof -
  have s: "slot_from 0 ss p = Some (k, i)" using assms(3) pool_slot [OF assms(1)] by simp
  note k = slot_0D [OF s] and d = pool_invD [OF assms(1) slot_0D(1) [OF s]]
  have f: "fits (cs_nodeMaskSize (ss ! k)) p" using assms(2) d(3) by simp
  show "k < length ss" "i < cs_maxCIDRs (ss ! k)" "pfx_contains p a \<Longrightarrow> pfx_contains (indexToCIDRBlock (ss ! k) i) a"
    using k fits_block [OF d(2) f k(2)] by simp_all
qed

lemma block_cluster:
  assumes "pools_inv v msk g ss" "k < length ss" "i < cs_maxCIDRs (ss ! k)" "pfx_contains (indexToCIDRBlock (ss ! k) i) a"
  shows "pfx_contains (cs_clusterPrefix (ss ! k)) a" "addr_is4 a = (\<not> v)"
proof -
  show c: "pfx_contains (cs_clusterPrefix (ss ! k)) a" using cs_block_contains [OF pool_invD(2) [OF assms(1,2)] assms(3)] assms(4) by simp
  have "same_family (pfx_addr (cs_clusterPrefix (ss ! k))) a" by (rule pfx_contains_same_family [OF c])
  moreover have "addr_is4 (pfx_addr (cs_clusterPrefix (ss ! k))) = (\<not> v)"
    using assms(1,2) by (simp add: pools_inv_def sets_ok_def list_all_length)
  ultimately show "addr_is4 a = (\<not> v)" by (cases "pfx_addr (cs_clusterPrefix (ss ! k))"; cases a) auto
qed

text \<open>Two different slots have no address in common.\<close>

lemma slot_unique:
  assumes "pools_inv v msk g ss" "k < length ss" "i < cs_maxCIDRs (ss ! k)" "j < length ss" "l < cs_maxCIDRs (ss ! j)"
    and "pfx_contains (indexToCIDRBlock (ss ! k) i) a" "pfx_contains (indexToCIDRBlock (ss ! j) l) a"
  shows "k = j \<and> i = l"
proof -
  note c = block_cluster(1) [OF assms(1,2,3,6)] block_cluster(1) [OF assms(1,4,5,7)]
  have dis: "pfx_disjoint (cs_clusterPrefix (ss ! x)) (cs_clusterPrefix (ss ! y))" if "x < y" "y < length ss" for x y
    using assms(1) that by (simp add: pools_inv_def sets_ok_def sorted_wrt_iff_nth_less)
  have "k = j" using c dis [of k j] dis [of j k] assms(2,4) by (cases k j rule: linorder_cases) (auto simp: pfx_disjoint_def)
  moreover from this have "i = l"
    using blocks_disjoint [OF pool_invD(2) [OF assms(1,2)] assms(3), of l] assms(5,6,7) by (auto simp: pfx_disjoint_def)
  ultimately show ?thesis by simp
qed

lemma family_exclusive:
  assumes "family_ok v msk g ss B" "p \<in> set (B n)" "q \<in> set (B n')" "pfx_contains p a" "pfx_contains q a"
  shows "n = n'" "addr_is4 a = (\<not> v)"
proof -
  note d = family_okD [OF assms(1)]
  have f: "fits msk p" "fits msk q" using d(3) assms(2,3) by (auto simp: list_all_iff)
  obtain k i j l where s: "slot_from 0 g p = Some (k, i)" "slot_from 0 g q = Some (j, l)"
    using ledgerD(1) [OF d(2)] assms(2,3) by (metis not_None_eq surj_pair)
  note p = slot_block [OF d(1) f(1) s(1)] and q = slot_block [OF d(1) f(2) s(2)]
  have "k = j \<and> i = l" using slot_unique [OF d(1) p(1,2) q(1,2) p(3) q(3)] assms(4,5) by simp
  then have "slots_of (slot_from 0 g) (B n) \<inter> slots_of (slot_from 0 g) (B n') \<noteq> {}"
    using s assms(2,3) by (auto simp: slots_of_def)
  then show "n = n'" using ledgerD(3) [OF d(2)] by blast
  show "addr_is4 a = (\<not> v)" by (rule block_cluster(2) [OF d(1) p(1,2) p(3) [OF assms(4)]])
qed

lemma slot_overlap:
  assumes "family_ok v msk g ss B" "k < length ss" "i < cs_maxCIDRs (ss ! k)" "p \<in> set (B n)"
    "pfx_contains p a" "pfx_contains (indexToCIDRBlock (ss ! k) i) a"
  shows "slot_from 0 g p = Some (k, i)"
proof -
  note d = family_okD [OF assms(1)]
  have f: "fits msk p" using d(3) assms(4) by (auto simp: list_all_iff)
  obtain j l where s: "slot_from 0 g p = Some (j, l)" using ledgerD(1) [OF d(2) assms(4)] by auto
  note b = slot_block [OF d(1) f s]
  from slot_unique [OF d(1) b(1,2) assms(2,3) b(3) [OF assms(5)] assms(6)] s show ?thesis by simp
qed

lemma family_exact:
  assumes "family_ok v msk g ss B" "k < length ss" "i < cs_maxCIDRs (ss ! k)"
  shows "bit (cs_used (ss ! k)) i \<longleftrightarrow> (\<exists>n. \<exists>p \<in> set (B n). \<not> pfx_disjoint p (indexToCIDRBlock (ss ! k) i))"
proof -
  note d = family_okD [OF assms(1)]
  have "bit (cs_used (ss ! k)) i \<longleftrightarrow> (k, i) \<in> slots_used ss" using assms(2) by (simp add: slots_used_def)
  also have "\<dots> \<longleftrightarrow> (\<exists>n. \<exists>p \<in> set (B n). slot_from 0 g p = Some (k, i))"
    unfolding ledgerD(4) [OF d(2)] by (simp add: slots_of_def)
  also have "\<dots> \<longleftrightarrow> (\<exists>n. \<exists>p \<in> set (B n). \<not> pfx_disjoint p (indexToCIDRBlock (ss ! k) i))"
  proof -
    have "slot_from 0 g p = Some (k, i) \<longleftrightarrow> \<not> pfx_disjoint p (indexToCIDRBlock (ss ! k) i)" if p: "p \<in> set (B n)" for n p
    proof
      have f: "fits msk p" using d(3) p by (auto simp: list_all_iff)
      then have "pfx_contains p (pfx_addr p)" by (intro pfx_contains_self) (simp_all add: fits_def)
      then show "\<not> pfx_disjoint p (indexToCIDRBlock (ss ! k) i)" if "slot_from 0 g p = Some (k, i)"
        using slot_block(3) [OF d(1) f that] by (auto simp: pfx_disjoint_def)
      show "slot_from 0 g p = Some (k, i)" if "\<not> pfx_disjoint p (indexToCIDRBlock (ss ! k) i)"
        using that slot_overlap [OF assms p] by (auto simp: pfx_disjoint_def)
    qed
    then show ?thesis by blast
  qed
  finally show ?thesis .
qed

text \<open>The CIDRs a node holds, and the allocators of both families.\<close>

definition node_pod_cidrs :: "'r podcidr_manager \<Rightarrow> string \<Rightarrow> prefix list" where
  "node_pod_cidrs m n = (case pm_nodes m n of None \<Rightarrow> [] | Some c \<Rightarrow> nc_v4 c @ nc_v6 c)"

lemma node_pod_cidrs_books: "set (node_pod_cidrs m n) = set (books nc_v4 (pm_nodes m) n) \<union> set (books nc_v6 (pm_nodes m) n)"
  by (cases "pm_nodes m n") (simp_all add: node_pod_cidrs_def)

lemma core_exclusive:
  assumes "pm_core m4 m6 g4 g6 m" "p \<in> set (node_pod_cidrs m n)" "q \<in> set (node_pod_cidrs m n')" "n \<noteq> n'"
  shows "pfx_disjoint p q"
proof (unfold pfx_disjoint_def, intro allI notI)
  fix a assume a: "pfx_contains p a \<and> pfx_contains q a"
  note d = pm_coreD [OF assms(1)]
  note f4 = family_exclusive [OF d(1)] and f6 = family_exclusive [OF d(2)]
  have 4: "addr_is4 a" if "r \<in> set (books nc_v4 (pm_nodes m) x)" "pfx_contains r a" for r x using f4(2) [OF that(1,1,2,2)] by simp
  have 6: "\<not> addr_is4 a" if "r \<in> set (books nc_v6 (pm_nodes m) x)" "pfx_contains r a" for r x using f6(2) [OF that(1,1,2,2)] by simp
  from assms(2,3) a 4 6 f4(1) [of p n q n' a] f6(1) [of p n q n' a] assms(4) show False
    unfolding node_pod_cidrs_books by blast
qed

lemma core_exact:
  assumes "pm_core m4 m6 g4 g6 m" "s \<in> set (pm_v4CIDRAllocators m @ pm_v6CIDRAllocators m)" "i < cs_maxCIDRs s"
  shows "bit (cs_used s) i \<longleftrightarrow> (\<exists>n. \<exists>p \<in> set (node_pod_cidrs m n). \<not> pfx_disjoint p (indexToCIDRBlock s i))"
proof -
  note d = pm_coreD [OF assms(1)]
  have other: "pfx_disjoint p (indexToCIDRBlock (ss ! k) i)"
    if "family_ok v msk g ss B" "k < length ss" "i < cs_maxCIDRs (ss ! k)" "family_ok v' msk' g' ss' B'" "p \<in> set (B' n)" "v' \<noteq> v"
    for v msk g ss B k v' msk' g' ss' B' p n
    using block_cluster(2) [OF family_okD(1) [OF that(1)] that(2,3)] family_exclusive(2) [OF that(4,5,5)] that(6)
    unfolding pfx_disjoint_def by blast
  from assms(2) consider k where "k < length (pm_v4CIDRAllocators m)" "s = pm_v4CIDRAllocators m ! k"
    | k where "k < length (pm_v6CIDRAllocators m)" "s = pm_v6CIDRAllocators m ! k" by (auto simp: in_set_conv_nth)
  then show ?thesis
  proof cases
    case 1
    have "pfx_disjoint p (indexToCIDRBlock s i)" if "p \<in> set (books nc_v6 (pm_nodes m) n)" for p n
      using other [OF d(1) 1(1) _ d(2) that] assms(3) 1(2) by simp
    with family_exact [OF d(1) 1(1)] assms(3) 1(2) show ?thesis unfolding node_pod_cidrs_books by blast
  next
    case 2
    have "pfx_disjoint p (indexToCIDRBlock s i)" if "p \<in> set (books nc_v4 (pm_nodes m) n)" for p n
      using other [OF d(2) 2(1) _ d(1) that] assms(3) 2(2) by simp
    with family_exact [OF d(2) 2(1)] assms(3) 2(2) show ?thesis unfolding node_pod_cidrs_books by blast
  qed
qed

text \<open>
  (C3) Whatever happens to the nodes, in whatever order they are added, changed, removed and published, before and
  after \<open>Resync\<close>: the manager never panics, two nodes never hold CIDRs with a common address, and the allocators
  are exact, that is a node CIDR is marked as used if and only if some node holds a CIDR inside it, so that no CIDR is
  lost by a failed or removed node. Nodes may come with CIDRs of their own, as long as these are no larger
  than a node CIDR.
\<close>

theorem podcidr_exclusive:
  assumes "pm_configured e4 c4 m4 e6 c6 m6 v4 v6" "list_all (pm_op_ok m4 m6) ops"
  defines "m \<equiv> foldl pm_exec (NewNodesPodCIDRManager v4 v6) ops"
  shows "\<not> pm_panicked m \<and>
    (\<forall>n n'. n \<noteq> n' \<longrightarrow> (\<forall>p \<in> set (node_pod_cidrs m n). \<forall>q \<in> set (node_pod_cidrs m n'). pfx_disjoint p q)) \<and>
    (\<forall>s \<in> set (pm_v4CIDRAllocators m @ pm_v6CIDRAllocators m). \<forall>i < cs_maxCIDRs s.
       bit (cs_used s) i \<longleftrightarrow> (\<exists>n. \<exists>p \<in> set (node_pod_cidrs m n). \<not> pfx_disjoint p (indexToCIDRBlock s i)))"
proof -
  have "pm_inv m4 m6 v4 v6 m" unfolding m_def by (rule pm_run_inv [OF configured_inv(1) [OF assms(1)] assms(2)])
  note i = pm_invD(1,2) [OF this]
  show ?thesis using i(2) core_exclusive [OF i(1)] core_exact [OF i(1)] by blast
qed

section \<open>A node without CIDRs\<close>

lemma slots_used_eq:
  assumes "pools_inv v msk g ss" "pools_inv v msk g t" "slots_used t = slots_used ss"
  shows "map cs_used t = map cs_used ss"
proof (rule nth_equalityI)
  show l: "length (map cs_used t) = length (map cs_used ss)" using assms(1,2) by (simp add: pools_inv_def list_all2_conv_all_nth)
  fix k assume "k < length (map cs_used t)"
  then have k: "k < length t" "k < length ss" using l by simp_all
  have "i \<in> bits_of (cs_used (t ! k)) \<longleftrightarrow> i \<in> bits_of (cs_used (ss ! k))" for i
    using assms(3) k by (auto simp: slots_used_def set_eq_iff)
  then have "cs_used (t ! k) = cs_used (ss ! k)" by (simp flip: bits_of_eq_iff add: set_eq_iff)
  with k show "map cs_used t ! k = map cs_used ss ! k" by simp
qed

lemma next_family_cases:
  assumes "pools_inv v msk g ss"
  shows "case next_family ss of
      (t, Inl e) \<Rightarrow> t = ss \<and> e = ErrAllocatorFull \<and> ss \<noteq> [] \<and> list_all cs_IsFull ss
    | (t, Inr (st, cs)) \<Rightarrow> map pfx_bits cs = (if ss = [] then [] else [msk]) \<and> (ss \<noteq> [] \<longrightarrow> \<not> list_all cs_IsFull ss) \<and>
        pools_inv v msk g (Revert st t) \<and> slots_used (Revert st t) = slots_used ss"
proof (cases "ss = []")
  case False
  obtain t r where a: "allocateFirstFreeCIDR ss = (t, r)" by (rule prod.exhaust)
  have "\<not> list_all cs_IsFull ss" if "r = Inr x" for x
    using a that first_free_None [of 0 ss] by (auto simp: allocateFirstFreeCIDR_def split: option.splits)
  then show ?thesis
    using allocateFirstFreeCIDR_spec [OF assms] family.next_Inr [OF assms, of t _ _] a False
    by (cases r) (auto simp: next_family_def)
qed (use assms in \<open>simp add: next_family_def\<close>)

definition publish_op :: "'r CiliumNode \<Rightarrow> 'r node_k8s_op" where
  "publish_op cn = (if cn_ResourceVersion cn = [] then K8sOpCreate cn else K8sOpUpdate cn)"

definition status_op :: "'r CiliumNode \<Rightarrow> 'r node_k8s_op" where
  "status_op cn = (if cn_ResourceVersion cn = [] then K8sOpCreate cn else K8sOpUpdateStatus cn)"

text \<open>
  (C18) A node that comes without CIDRs, once the manager may allocate. If the books have the node already, nothing changes in
  them and it is queued with the CIDRs they have for it and no error; these may be none (\<open>duplicate_cidr_stuck\<close>). For a
  node that the books do not have: if every enabled family has a free node CIDR, the node is given
  one of the configured size from each of them, and it is queued for publication with exactly these CIDRs and no error.
  Otherwise nothing is allocated, a first half that had succeeded included, and the node is queued with the error
  in its status.
\<close>

theorem new_node_gets_cidrs:
  assumes "pm_configured e4 c4 m4 e6 c6 m6 v4 v6" "list_all (pm_op_ok m4 m6) ops"
    and "m = foldl pm_exec (NewNodesPodCIDRManager v4 v6) ops" "pm_canAllocatePodCIDRs m" "cn_PodCIDRs node = []"
  defines "m' \<equiv> Upsert node m"
  shows "case pm_nodes m (cn_Name node) of
      Some c \<Rightarrow> pm_nodes m' = pm_nodes m \<and> pm_v4CIDRAllocators m' = pm_v4CIDRAllocators m \<and>
        pm_v6CIDRAllocators m' = pm_v6CIDRAllocators m \<and>
        pm_ciliumNodesToK8s m' (cn_Name node) = Some (publish_op (node\<lparr>cn_PodCIDRs := nc_v4 c @ nc_v6 c, cn_Error := None\<rparr>))
    | None \<Rightarrow>
        if (e4 \<or> e6) \<and> (e4 \<longrightarrow> \<not> list_all cs_IsFull (pm_v4CIDRAllocators m)) \<and> (e6 \<longrightarrow> \<not> list_all cs_IsFull (pm_v6CIDRAllocators m))
        then \<exists>c. pm_nodes m' = (pm_nodes m)(cn_Name node \<mapsto> c) \<and>
          map pfx_bits (nc_v4 c) = (if e4 then [m4] else []) \<and> map pfx_bits (nc_v6 c) = (if e6 then [m6] else []) \<and>
          pm_ciliumNodesToK8s m' (cn_Name node) = Some (publish_op (node\<lparr>cn_PodCIDRs := nc_v4 c @ nc_v6 c, cn_Error := None\<rparr>))
        else pm_nodes m' = pm_nodes m \<and> map cs_used (pm_v4CIDRAllocators m') = map cs_used (pm_v4CIDRAllocators m) \<and>
          map cs_used (pm_v6CIDRAllocators m') = map cs_used (pm_v6CIDRAllocators m) \<and>
          (\<exists>e. pm_ciliumNodesToK8s m' (cn_Name node) = Some (status_op (node\<lparr>cn_Error := Some e\<rparr>)))"
proof (cases "pm_nodes m (cn_Name node)")
  case (Some c)
  with assms(4,5) show ?thesis
    by (simp add: m'_def Upsert_def upsertLocked_def allocateNode_def allocateNext_def publish_cidrs_def syncNode_def trigger_def publish_op_def)
next
  case None
  note c = configured_inv [OF assms(1)]
  have "pm_inv m4 m6 v4 v6 m" unfolding assms(3) by (rule pm_run_inv [OF c(1) assms(2)])
  note d = pm_coreD [OF pm_invD(1) [OF this]]
  note p4 = family_okD(1) [OF d(1)] and p6 = family_okD(1) [OF d(2)]
  have e: "pm_v4CIDRAllocators m = [] \<longleftrightarrow> \<not> e4" "pm_v6CIDRAllocators m = [] \<longleftrightarrow> \<not> e6" using c(3,4) d(4,5) by simp_all
  obtain s4 r4 where n4: "next_family (pm_v4CIDRAllocators m) = (s4, r4)" by (rule prod.exhaust)
  obtain s6 r6 where n6: "next_family (pm_v6CIDRAllocators m) = (s6, r6)" by (rule prod.exhaust)
  note f4 = next_family_cases [OF p4, unfolded n4] and f6 = next_family_cases [OF p6, unfolded n6]
  note unf = m'_def Upsert_def upsertLocked_def allocateNode_def allocateNext_def report_error_def publish_cidrs_def Let_def
    syncNode_def trigger_def publish_op_def status_op_def
  show ?thesis
  proof (cases r4)
    case (Inl x)
    with f4 e have "s4 = pm_v4CIDRAllocators m" "e4" "list_all cs_IsFull (pm_v4CIDRAllocators m)" by simp_all
    with Inl n4 None assms(4,5) show ?thesis by (auto simp: unf)
  next
    case r4: (Inr x)
    obtain st k4 where x: "x = (st, k4)" by (cases x)
    have 4: "map pfx_bits k4 = (if e4 then [m4] else [])" "e4 \<Longrightarrow> \<not> list_all cs_IsFull (pm_v4CIDRAllocators m)"
        "map cs_used (Revert st s4) = map cs_used (pm_v4CIDRAllocators m)"
      using f4 r4 x e slots_used_eq [OF p4] by simp_all
    show ?thesis
    proof (cases r6)
      case (Inl y)
      with f6 e have "s6 = pm_v6CIDRAllocators m" "e6" "list_all cs_IsFull (pm_v6CIDRAllocators m)" by simp_all
      with Inl n4 n6 r4 x 4(3) None assms(4,5) show ?thesis by (auto simp: unf)
    next
      case (Inr y)
      obtain st6 k6 where y: "y = (st6, k6)" by (cases y)
      have 6: "map pfx_bits k6 = (if e6 then [m6] else [])" "e6 \<Longrightarrow> \<not> list_all cs_IsFull (pm_v6CIDRAllocators m)"
        using f6 Inr y e by simp_all
      show ?thesis
      proof (cases "e4 \<or> e6")
        case True
        then have "\<not> (k4 = [] \<and> k6 = [])" using 4(1) 6(1) by auto
        with True n4 n6 r4 x Inr y 4 6 None assms(4,5) show ?thesis by (auto simp: unf)
      next
        case False
        then have "k4 = []" "k6 = []" "s4 = []" "s6 = []" using 4(1) 6(1) e n4 n6 by (simp_all add: next_family_def)
        with False n4 n6 r4 x Inr y e None assms(4,5) show ?thesis by (auto simp: unf)
      qed
    qed
  qed
qed

section \<open>An operator that restarts\<close>

lemma occupy_first_ok:
  assumes "slot_from k ss c = Some (k + j, i)" "\<not> cs_IsFull (ss ! j)" "cs_IsAllocated (ss ! j) c = Inr False" "cs_Occupy (ss ! j) c = Inr t"
  shows "occupy_first c k ss err = Inr (ss[j := t], Some (k + j))"
  using assms
proof (induction ss arbitrary: k j err)
  case (Cons s ss)
  show ?case
  proof (cases "cs_InRange s c")
    case False
    with Cons.prems(1) have s: "slot_from (Suc k) ss c = Some (k + j, i)" by simp
    then obtain j' where j: "j = Suc j'" using slot_fromD [OF s] by (cases j) auto
    with False s Cons.prems(2-4) Cons.IH [of "Suc k" j'] show ?thesis by simp
  next
    case True
    with Cons.prems show ?thesis by auto
  qed
qed simp

text \<open>Free slots can be occupied, when nothing is reserved.\<close>

definition unreserved :: "cidr_set list \<Rightarrow> bool" where
  "unreserved g \<longleftrightarrow> list_all (\<lambda>s. cs_reserved s = 0) g"

lemma pool_occupy_ok:
  assumes "pools_inv v msk g ss" "unreserved g" "fits msk c" "slot_from 0 g c = Some (k, i)" "(k, i) \<notin> slots_used ss"
  obtains ss' where "occupy_first c 0 ss None = Inr (ss', Some k)"
proof -
  have s: "slot_from 0 ss c = Some (0 + k, i)" using assms(4) pool_slot [OF assms(1)] by simp
  note k = slot_0D [OF s [unfolded add_0]]
  note d = pool_invD [OF assms(1) k(1)]
  have f: "fits (cs_nodeMaskSize (ss ! k)) c" using assms(3) d(3) by simp
  have lg: "length g = length ss" using assms(1) by (simp add: pools_inv_def list_all2_conv_all_nth)
  have "cs_reserved (g ! k) = 0" using assms(2) k(1) lg by (simp add: unreserved_def list_all_length)
  then have "cs_reserved (ss ! k) = 0" using d(4) by (simp add: cs_same_def)
  then have i: "i \<notin> bits_of (cs_used (ss ! k))" "i \<notin> cs_taken (ss ! k)"
    using assms(5) k(1) by (simp_all add: slots_used_def in_cs_taken)
  moreover have "i < cs_maxCIDRs (ss ! k)" using fits_block(2) [OF d(2) f k(2)] k(3) by simp
  ultimately have "\<not> cs_IsFull (ss ! k)" using cs_full_iff [OF d(1)] by (auto simp: cs_IsFull_def)
  moreover obtain t where "cs_Occupy (ss ! k) c = Inr t" "cs_IsAllocated (ss ! k) c = Inr False"
    using cs_ops_fit [OF d(1) f k(2)] i(1) k(3) by metis
  ultimately show ?thesis using occupy_first_ok [OF s] that by simp
qed

lemma occupy_all_ok:
  assumes "pools_inv v msk g ss" "unreserved g" "ss \<noteq> []" "list_all (fits msk) cs" "\<And>c. c \<in> set cs \<Longrightarrow> slot_from 0 g c \<noteq> None"
    and "distinct (map (slot_from 0 g) cs)" "slots_of (slot_from 0 g) cs \<inter> slots_used ss = {}"
  shows "\<exists>ss' st'. occupy_all cs ss st = (ss', Inr st')"
  using assms
proof (induction cs arbitrary: ss st)
  case (Cons c cs)
  have f: "fits msk c" using Cons.prems(4) by simp
  obtain k i where s: "slot_from 0 g c = Some (k, i)" using Cons.prems(5) [of c] by auto
  then have "(k, i) \<notin> slots_used ss" using Cons.prems(7) by (auto simp: slots_of_def)
  then obtain ss' where o: "occupy_first c 0 ss None = Inr (ss', Some k)" by (rule pool_occupy_ok [OF Cons.prems(1,2) f s])
  obtain k' i' where p: "Some k = Some k'" "slot_from 0 g c = Some (k', i')" "pools_inv v msk g ss'" "slots_used ss' = insert (k', i') (slots_used ss)"
    by (rule pool_occupy [OF Cons.prems(1) f Cons.prems(3) o])
  have u: "slots_used ss' = insert (k, i) (slots_used ss)" using p(2,4) s by simp
  have ne: "ss' \<noteq> []" using p(3) Cons.prems(1,3) by (auto simp: pools_inv_def)
  have "slots_of (slot_from 0 g) cs \<inter> slots_used ss' = {}"
  proof -
    have "(k, i) \<notin> slots_of (slot_from 0 g) cs" using Cons.prems(6) s by (force simp: slots_of_def)
    moreover have "slots_of (slot_from 0 g) cs \<subseteq> slots_of (slot_from 0 g) (c # cs)" by (auto simp: slots_of_def)
    ultimately show ?thesis unfolding u using Cons.prems(7) by blast
  qed
  from Cons.IH [OF p(3) Cons.prems(2) ne _ _ _ this] Cons.prems(4-6) o show ?case by simp
qed simp

lemma masked_id: assumes "pfx_wf p" "pfx_is_masked p" shows "pfx_masked p = p"
proof -
  have b: "0 \<le> pfx_bits p" "pfx_valid p" using assms(1) pfx_bits_nonneg by (simp_all add: pfx_wf_def)
  have n: "nat (pfx_bits p + 1) = pfx_bits1 p" by (simp add: pfx_bits_def)
  have w: "x AND NOT (mask h) = x" if "unat (x :: 'a::len word) mod 2 ^ h = 0" for x h
  proof (rule word_unat_eq_iff [THEN iffD2])
    show "unat (x AND NOT (mask h)) = unat x" unfolding unat_and_not_mask using that by (simp add: minus_mod_eq_div_mult [symmetric])
  qed
  show ?thesis
    using assms b by (cases "pfx_addr p") (auto simp: pfx_masked_def pfx_wf_def prefix_from_def pfx_is_masked_def pfx_host_bits_def n w)
qed

text \<open>Taking over the CIDRs a node comes with, in each family that has allocators.\<close>

definition takes_over :: "cidr_set list \<Rightarrow> cidr_set list \<Rightarrow> prefix list \<Rightarrow> bool" where
  "takes_over g ss cs \<longleftrightarrow> (cs = [] \<longleftrightarrow> g = []) \<and> (\<forall>c \<in> set cs. slot_from 0 g c \<noteq> None) \<and>
     distinct (map (slot_from 0 g) cs) \<and> slots_of (slot_from 0 g) cs \<inter> slots_used ss = {}"

lemma reuse_family_ok:
  assumes "pools_inv v msk g ss" "unreserved g" "list_all (fits msk) cs" "takes_over g ss cs" "ss \<noteq> []"
  obtains ss' st where "reuse_family ty ss cs = (ss', Inr (st, cs))"
proof -
  have "g \<noteq> []" using assms(1,5) by (auto simp: pools_inv_def)
  then have "cs \<noteq> []" using assms(4) by (simp add: takes_over_def)
  moreover obtain ss' st where "occupy_all cs ss [] = (ss', Inr st)"
    using occupy_all_ok [OF assms(1,2,5,3), of "[]"] assms(4) by (auto simp: takes_over_def)
  ultimately show ?thesis using assms(5) that by (simp add: reuse_family_def allocateIPNet_def)
qed

lemma reuseIPNets_ok:
  assumes "pm_core m4 m6 g4 g6 m" "unreserved g4" "unreserved g6" "pm_nodes m name = None"
    and "list_all (fits m4) v4" "list_all (fits m6) v6" "takes_over g4 (pm_v4CIDRAllocators m) v4" "takes_over g6 (pm_v6CIDRAllocators m) v6"
  shows "pm_nodes (fst (reuseIPNets name v4 v6 m)) = (pm_nodes m)(name \<mapsto> \<lparr>nc_v4 = v4, nc_v6 = v6\<rparr>)"
proof -
  note d = pm_coreD [OF assms(1)]
  note p4 = family_okD(1) [OF d(1)] and p6 = family_okD(1) [OF d(2)]
  have e: "v4 = [] \<longleftrightarrow> pm_v4CIDRAllocators m = []" "v6 = [] \<longleftrightarrow> pm_v6CIDRAllocators m = []"
    using assms(7,8) d(4,5) by (simp_all add: takes_over_def)
  have second: "pm_nodes (fst (reuse_second name False old st4 ss4 None a True v6 m)) = (pm_nodes m)(name \<mapsto> old\<lparr>nc_v6 := v6\<rparr>)"
    if "nc_v6 old = []" for old st4 ss4 a
  proof (cases "pm_v6CIDRAllocators m = []")
    case True
    then have "old\<lparr>nc_v6 := v6\<rparr> = old" using e that by simp
    with True show ?thesis by (simp add: reuse_second_def)
  next
    case False
    obtain ss st where "reuse_family V6Allocator (pm_v6CIDRAllocators m) v6 = (ss, Inr (st, v6))"
      by (rule reuse_family_ok [OF p6 assms(3,6,8) False])
    with False show ?thesis by (simp add: reuse_second_def)
  qed
  show ?thesis
  proof (cases "pm_v4CIDRAllocators m = []")
    case True
    with e assms(4) second [of "\<lparr>nc_v4 = [], nc_v6 = []\<rparr>"] show ?thesis by (auto simp: reuseIPNets_def reuse_allocate_def)
  next
    case False
    obtain ss st where "reuse_family V4Allocator (pm_v4CIDRAllocators m) v4 = (ss, Inr (st, v4))"
      by (rule reuse_family_ok [OF p4 assms(2,5,7) False])
    with False e assms(4) second [of "\<lparr>nc_v4 = v4, nc_v6 = []\<rparr>"] show ?thesis by (auto simp: reuseIPNets_def reuse_allocate_def)
  qed
qed

lemma upsert_nodes:
  assumes "cn_PodCIDRs node \<noteq> []"
  shows "pm_nodes (upsertLocked node m) = pm_nodes (fst (reuseIPNets (cn_Name node)
    (nc_v4 (splitPodCIDRs (cn_PodCIDRs node))) (nc_v6 (splitPodCIDRs (cn_PodCIDRs node))) m))"
proof -
  let ?c = "splitPodCIDRs (cn_PodCIDRs node)"
  have p: "pm_nodes (postpone node m') = pm_nodes m'" for m' by (simp add: postpone_def split: option.split)
  obtain m' c a e where n: "reuseIPNets (cn_Name node) (nc_v4 ?c) (nc_v6 ?c) m = (m', c, a, e)" by (rule prod_cases4)
  have "pm_nodes (fst (allocateNode node m)) = pm_nodes m'"
    using assms n p by (auto simp: allocateNode_def Let_def split: option.splits bool.splits)
  moreover have "pm_nodes (upsertLocked node m) = pm_nodes (fst (allocateNode node m))"
    by (auto simp: upsertLocked_def syncNode_inv split: prod.split option.split)
  ultimately show ?thesis using n by simp
qed

lemma books_family:
  assumes "family_ok v msk g ss B" "p \<in> set (B n)" shows "fits msk p" "addr_is4 (pfx_addr p) = (\<not> v)"
proof -
  show f: "fits msk p" using family_okD(3) [OF assms(1)] assms(2) by (auto simp: list_all_iff)
  then have "pfx_contains p (pfx_addr p)" by (intro pfx_contains_self) (simp_all add: fits_def)
  then show "addr_is4 (pfx_addr p) = (\<not> v)" using family_exclusive(2) [OF assms(1,2,2)] by blast
qed

lemma split_books:
  assumes "pm_core m4 m6 g4 g6 m" "pm_nodes m n = Some c"
  shows "splitPodCIDRs (nc_v4 c @ nc_v6 c) = c" "cn_PodCIDRs x = nc_v4 c @ nc_v6 c \<Longrightarrow> node_ok m4 m6 x"
proof -
  note d = pm_coreD [OF assms(1)]
  have 4: "fits m4 p \<and> addr_is4 (pfx_addr p)" if "p \<in> set (nc_v4 c)" for p using books_family [OF d(1), of p n] assms(2) that by simp
  have 6: "fits m6 p \<and> \<not> addr_is4 (pfx_addr p)" if "p \<in> set (nc_v6 c)" for p using books_family [OF d(2), of p n] assms(2) that by simp
  have m: "map pfx_masked (nc_v4 c) = nc_v4 c" "map pfx_masked (nc_v6 c) = nc_v6 c"
    using 4 6 by (auto intro!: map_idI masked_id simp: fits_def)
  show "splitPodCIDRs (nc_v4 c @ nc_v6 c) = c"
    using 4 6 by (simp add: splitPodCIDRs_def m filter_True filter_False)
  show "cn_PodCIDRs x = nc_v4 c @ nc_v6 c \<Longrightarrow> node_ok m4 m6 x" using 4 6 by (auto simp: node_ok_def list_all_iff fits_def)
qed

lemma books_take_over:
  assumes "family_ok v msk g ss B" "family_ok v msk g t B'" "n \<notin> D" "\<And>x. B' x = (if x \<in> D then B x else [])" "B n = [] \<longleftrightarrow> g = []"
  shows "takes_over g t (B n)"
proof -
  note l = ledgerD [OF family_okD(2) [OF assms(1)]]
  have "slots_used t = (\<Union>x. slots_of (slot_from 0 g) (B' x))" by (rule ledgerD(4) [OF family_okD(2) [OF assms(2)]])
  moreover have "slots_of (slot_from 0 g) (B n) \<inter> slots_of (slot_from 0 g) (B' x) = {}" for x
    using l(3) [of n x] assms(3,4) by (auto simp: slots_of_def)
  ultimately have "slots_of (slot_from 0 g) (B n) \<inter> slots_used t = {}" by blast
  then show ?thesis using l(1,2) assms(5) by (simp add: takes_over_def)
qed

lemma books_only_enabled: "family_ok v msk g ss B \<Longrightarrow> g = [] \<Longrightarrow> B n = []"
  using ledgerD(1) [OF family_okD(2), of v msk g ss B _ n] by (cases "B n") auto

definition holds_all :: "bool \<Rightarrow> bool \<Rightarrow> 'r podcidr_manager \<Rightarrow> 'r CiliumNode \<Rightarrow> bool" where
  "holds_all e4 e6 m x \<longleftrightarrow> (case pm_nodes m (cn_Name x) of None \<Rightarrow> False
     | Some c \<Rightarrow> cn_PodCIDRs x = nc_v4 c @ nc_v6 c \<and> (e4 \<longrightarrow> nc_v4 c \<noteq> []) \<and> (e6 \<longrightarrow> nc_v6 c \<noteq> []))"

lemma restart_fold:
  assumes "pm_core m4 m6 v4 v6 m" "v4 = [] \<longleftrightarrow> \<not> e4" "v6 = [] \<longleftrightarrow> \<not> e6" "e4 \<or> e6" "unreserved v4" "unreserved v6"
    and "pm_inv m4 m6 v4 v6 r" "pm_nodes r = (\<lambda>n. if n \<in> D then pm_nodes m n else None)" "D \<inter> cn_Name ` set xs = {}"
    and "distinct (map cn_Name xs)" "list_all (holds_all e4 e6 m) xs"
  shows "pm_nodes (foldl (\<lambda>r x. Upsert x r) r xs) = (\<lambda>n. if n \<in> D \<union> cn_Name ` set xs then pm_nodes m n else None)"
  using assms(7-11)
proof (induction xs arbitrary: r D)
  case (Cons x xs)
  let ?n = "cn_Name x"
  obtain k where k: "pm_nodes m ?n = Some k" "cn_PodCIDRs x = nc_v4 k @ nc_v6 k" "e4 \<longrightarrow> nc_v4 k \<noteq> []" "e6 \<longrightarrow> nc_v6 k \<noteq> []"
    using Cons.prems(5) by (auto simp: holds_all_def split: option.splits)
  have ke: "\<lparr>nc_v4 = nc_v4 k, nc_v6 = nc_v6 k\<rparr> = k" by simp
  note s = split_books [OF assms(1) k(1)]
  note d = pm_coreD [OF assms(1)]
  note r = pm_coreD [OF pm_invD(1) [OF Cons.prems(1)]]
  have n: "?n \<notin> D" "pm_nodes r ?n = None" using Cons.prems(2,3) by auto
  have b: "books sel (pm_nodes r) y = (if y \<in> D then books sel (pm_nodes m) y else [])" for sel y
    unfolding Cons.prems(2) by (simp add: books_def)
  have kb: "books nc_v4 (pm_nodes m) ?n = nc_v4 k" "books nc_v6 (pm_nodes m) ?n = nc_v6 k" using k(1) by simp_all
  have en: "nc_v4 k = [] \<longleftrightarrow> v4 = []" "nc_v6 k = [] \<longleftrightarrow> v6 = []"
    using k(3,4) assms(2,3) books_only_enabled [OF d(1), of ?n] books_only_enabled [OF d(2), of ?n] kb by auto
  have t: "takes_over v4 (pm_v4CIDRAllocators r) (nc_v4 k)" "takes_over v6 (pm_v6CIDRAllocators r) (nc_v6 k)"
    using books_take_over [OF d(1) r(1) n(1) b] books_take_over [OF d(2) r(2) n(1) b] en kb by simp_all
  have f: "list_all (fits m4) (nc_v4 k)" "list_all (fits m6) (nc_v6 k)"
    using family_okD(3) [OF d(1), of ?n] family_okD(3) [OF d(2), of ?n] kb by simp_all
  have "cn_PodCIDRs x \<noteq> []" using k(2,3,4) assms(4) by auto
  from upsert_nodes [OF this, of r] reuseIPNets_ok [OF pm_invD(1) [OF Cons.prems(1)] assms(5,6) n(2) f t]
  have nodes: "pm_nodes (Upsert x r) = (pm_nodes r)(?n \<mapsto> k)" unfolding Upsert_def k(2) s(1) by (simp add: ke)
  have "pm_nodes (Upsert x r) = (\<lambda>y. if y \<in> insert ?n D then pm_nodes m y else None)"
    unfolding nodes Cons.prems(2) using k(1) by auto
  moreover have "pm_inv m4 m6 v4 v6 (Upsert x r)" unfolding Upsert_def by (rule upsertLocked_inv(1) [OF Cons.prems(1) s(2) [OF k(2)]])
  moreover have "insert ?n D \<inter> cn_Name ` set xs = {}" using Cons.prems(3,4) by auto
  ultimately show ?case using Cons.IH [of "Upsert x r" "insert ?n D"] Cons.prems(4,5) by simp
qed simp

text \<open>
  (C17) An operator that restarts recovers its books. Let a manager, after any history, hold CIDRs for some nodes, one or
  more of every enabled family each. A new manager with the same configuration that is given these nodes, as published,
  in any order and before \<open>Resync\<close>, gives each of them exactly the CIDRs it had.
\<close>

theorem restart_keeps_cidrs:
  assumes "pm_configured e4 c4 m4 e6 c6 m6 v4 v6" "e4 \<or> e6" "list_all (pm_op_ok m4 m6) ops"
    and "m = foldl pm_exec (NewNodesPodCIDRManager v4 v6) ops" "distinct (map cn_Name xs)"
    and "list_all (holds_all e4 e6 m) xs"
  shows "pm_nodes (foldl (\<lambda>r x. Upsert x r) (NewNodesPodCIDRManager v4 v6) xs) =
    (\<lambda>n. if n \<in> cn_Name ` set xs then pm_nodes m n else None)"
proof -
  note c = configured_inv [OF assms(1)]
  have i: "pm_inv m4 m6 v4 v6 m" unfolding assms(4) by (rule pm_run_inv [OF c(1) assms(3)])
  have un: "unreserved v4" "unreserved v6" using c(2) by (simp_all add: unreserved_def)
  from restart_fold [OF pm_invD(1) [OF i] c(3,4) assms(2) un c(1), of "{}"] assms(5,6)
  show ?thesis by (simp add: NewNodesPodCIDRManager_def)
qed

section \<open>Publication\<close>

text \<open>What an entry of the queue will publish: the CIDRs and the error; a deletion publishes nothing.\<close>

fun entry_spec :: "'r node_k8s_op \<Rightarrow> (prefix list \<times> podcidr_error option) option" where
  "entry_spec (K8sOpCreate cn) = Some (cn_PodCIDRs cn, cn_Error cn)"
| "entry_spec (K8sOpUpdate cn) = Some (cn_PodCIDRs cn, cn_Error cn)"
| "entry_spec (K8sOpUpdateStatus cn) = Some (cn_PodCIDRs cn, cn_Error cn)"
| "entry_spec K8sOpDelete = None"

text \<open>A write returns the object as it is stored.\<close>

definition writes_ok :: "('k, 'r) node_client \<Rightarrow> bool" where
  "writes_ok api \<longleftrightarrow> (\<forall>k cn k' u. api_Update api k cn = (k', Inr u) \<longrightarrow> cn_PodCIDRs u = cn_PodCIDRs cn)"

lemma sync_call_spec:
  assumes "writes_ok api" "sync_call api n ko k = (k', ko', err)" shows "entry_spec ko' = entry_spec ko"
proof (cases ko)
  case (K8sOpUpdate cn)
  obtain k1 r where u: "api_Update api k cn = (k1, r)" by (rule prod.exhaust)
  have "cn_PodCIDRs x = cn_PodCIDRs cn" if "r = Inr x" for x
    using assms(1) [unfolded writes_ok_def, rule_format, of k cn k1 x] u that by simp
  with K8sOpUpdate u assms(2) show ?thesis by (cases r) (auto simp: sync_call_def Let_def split: prod.splits)
qed (use assms(2) in \<open>auto simp: sync_call_def split: prod.splits\<close>)

lemma sync_conflict_spec: "sync_conflict api ko k = Some (k', ko') \<Longrightarrow> entry_spec ko' = entry_spec ko"
  by (cases ko) (auto simp: sync_conflict_def merge_conflict_def split: prod.splits sum.splits)

lemma syncToK8s_spec:
  assumes "writes_ok api" "syncToK8s api ns q ret k = Some (k', q', ret')" "distinct ns"
  shows "(\<forall>n. n \<notin> set ns \<longrightarrow> q' n = q n) \<and> (ret' = None \<longleftrightarrow> ret = None \<and> (\<forall>n \<in> set ns. q' n = None)) \<and>
    (\<forall>n ko'. q' n = Some ko' \<longrightarrow> (\<exists>ko. q n = Some ko \<and> entry_spec ko' = entry_spec ko))"
  using assms(2,3)
proof (induction ns arbitrary: q ret k)
  case (Cons n ns)
  have step: ?case
    if st: "syncToK8s api ns (q(n := x)) r1 k1 = Some (k', q', ret')" "r1 = None \<longleftrightarrow> ret = None \<and> x = None"
      and sp: "\<And>ko'. x = Some ko' \<Longrightarrow> \<exists>ko. q n = Some ko \<and> entry_spec ko' = entry_spec ko" for x r1 k1
  proof -
    have d: "distinct ns" "n \<notin> set ns" using Cons.prems(2) by simp_all
    note IH = Cons.IH [OF st(1) d(1)]
    have qn: "q' n = x" using IH d(2) by simp
    have "\<exists>ko. q y = Some ko \<and> entry_spec ko' = entry_spec ko" if y: "q' y = Some ko'" for y ko'
    proof (cases "y = n")
      case True
      with y qn sp [of ko'] show ?thesis by simp
    next
      case False
      with IH [THEN conjunct2, THEN conjunct2, rule_format, OF y] show ?thesis by simp
    qed
    moreover have "q' y = q y" if "y \<notin> set (n # ns)" for y using IH that by simp
    moreover have "ret' = None \<longleftrightarrow> ret = None \<and> (\<forall>y \<in> set (n # ns). q' y = None)"
      using IH [THEN conjunct2, THEN conjunct1] st(2) qn by auto
    ultimately show ?thesis by blast
  qed
  show ?case
  proof (cases "q n")
    case None
    then have "q(n := None) = q" by (simp add: fun_upd_idem)
    then show ?thesis using step [of None ret k] Cons.prems(1) None by simp
  next
    case (Some ko)
    obtain k1 ko1 err where c: "sync_call api n ko k = (k1, ko1, err)" by (rule prod_cases3)
    note s = sync_call_spec [OF assms(1) c]
    consider "err = None" | "err = Some AlreadyExists \<or> err = Some Conflict" | "err \<noteq> None" "\<not> (err = Some AlreadyExists \<or> err = Some Conflict)"
      by blast
    then show ?thesis
    proof cases
      case 1
      then show ?thesis using step [of None ret k1] Cons.prems(1) Some c by simp
    next
      case 2
      then obtain k2 ko2 where f: "sync_conflict api ko1 k1 = Some (k2, ko2)" "syncToK8s api ns (q(n \<mapsto> ko2)) err k2 = Some (k', q', ret')"
        using Cons.prems(1) Some c by (auto split: option.splits)
      show ?thesis using step [OF f(2)] 2 Some s sync_conflict_spec [OF f(1)] by auto
    next
      case 3
      then have "syncToK8s api ns (q(n \<mapsto> ko1)) err k1 = Some (k', q', ret')" using Cons.prems(1) Some c by (auto split: if_splits)
      then show ?thesis using step [of "Some ko1" err k1] 3(1) Some s by simp
    qed
  qed
qed simp

text \<open>
  The calls that a run makes, with their answers: the client with a log. It answers as the client does.
\<close>

datatype 'r api_call =
    CreateCall "'r CiliumNode" "(k8s_error, 'r CiliumNode) result"
  | UpdateCall "'r CiliumNode" "(k8s_error, 'r CiliumNode) result"
  | UpdateStatusCall "'r CiliumNode" "(k8s_error, 'r CiliumNode) result"
  | GetCall string "(k8s_error, 'r CiliumNode) result"

definition log_call :: "('k \<Rightarrow> 'a \<Rightarrow> 'k \<times> 'b) \<Rightarrow> ('a \<Rightarrow> 'b \<Rightarrow> 'c) \<Rightarrow> 'k \<times> 'c list \<Rightarrow> 'a \<Rightarrow> ('k \<times> 'c list) \<times> 'b" where
  "log_call f call s x = (case f (fst s) x of (k', r) \<Rightarrow> ((k', snd s @ [call x r]), r))"

definition log_api :: "('k, 'r) node_client \<Rightarrow> ('k \<times> 'r api_call list, 'r) node_client" where
  "log_api api = \<lparr>api_Create = log_call (api_Create api) CreateCall, api_Update = log_call (api_Update api) UpdateCall,
     api_UpdateStatus = log_call (api_UpdateStatus api) UpdateStatusCall, api_Get = log_call (api_Get api) GetCall\<rparr>"

text \<open>
  An entry is published by calls that the API server accepted. A node that is gone counts as published, and a
  deletion only looks whether the node is gone.
\<close>

definition ok_or_gone :: "(k8s_error, 'a) result \<Rightarrow> bool" where
  "ok_or_gone r \<longleftrightarrow> is_ok r \<or> r = Inl NotFound"

fun published :: "'r api_call list \<Rightarrow> string \<Rightarrow> 'r node_k8s_op \<Rightarrow> bool" where
  "published l n (K8sOpCreate cn) \<longleftrightarrow> (\<exists>r. CreateCall cn r \<in> set l \<and> is_ok r)"
| "published l n (K8sOpUpdate cn) \<longleftrightarrow>
     UpdateCall cn (Inl NotFound) \<in> set l \<or>
     (\<exists>u r. UpdateCall cn (Inr u) \<in> set l \<and> UpdateStatusCall (u\<lparr>cn_Error := cn_Error cn\<rparr>) r \<in> set l \<and> ok_or_gone r)"
| "published l n (K8sOpUpdateStatus cn) \<longleftrightarrow> (\<exists>r. UpdateStatusCall cn r \<in> set l \<and> ok_or_gone r)"
| "published l n K8sOpDelete \<longleftrightarrow> (\<exists>r. GetCall n r \<in> set l \<and> ok_or_gone r)"

text \<open>An entry stays because a call for it failed.\<close>

fun refused :: "'r api_call list \<Rightarrow> string \<Rightarrow> 'r node_k8s_op \<Rightarrow> bool" where
  "refused l n (K8sOpCreate cn) \<longleftrightarrow> (\<exists>r. CreateCall cn r \<in> set l \<and> \<not> is_ok r)"
| "refused l n (K8sOpUpdate cn) \<longleftrightarrow>
     (\<exists>r. UpdateCall cn r \<in> set l \<and> \<not> ok_or_gone r) \<or>
     (\<exists>u r. UpdateCall cn (Inr u) \<in> set l \<and> UpdateStatusCall (u\<lparr>cn_Error := cn_Error cn\<rparr>) r \<in> set l \<and> \<not> ok_or_gone r)"
| "refused l n (K8sOpUpdateStatus cn) \<longleftrightarrow> (\<exists>r. UpdateStatusCall cn r \<in> set l \<and> \<not> ok_or_gone r)"
| "refused l n K8sOpDelete \<longleftrightarrow> (\<exists>r. GetCall n r \<in> set l \<and> \<not> ok_or_gone r)"

lemma log_mono:
  assumes "set l \<subseteq> set l'"
  shows "published l n ko \<Longrightarrow> published l' n ko" "refused l n ko \<Longrightarrow> refused l' n ko"
  using assms by (cases ko; auto; blast)+

lemma unless_NotFound_None: "unless_NotFound (error_of r) = None \<longleftrightarrow> ok_or_gone r" "error_of r = None \<longleftrightarrow> is_ok r"
  by (cases r; simp add: unless_NotFound_def error_of_def ok_or_gone_def)+

lemma sync_call_log:
  assumes "sync_call api n ko k = (k', ko', err)"
  shows "\<exists>c. sync_call (log_api api) n ko (k, l) = ((k', l @ c), ko', err) \<and>
    (if err = None then published c n ko else refused c n ko)"
proof (cases ko)
  case (K8sOpUpdate cn)
  obtain k1 r where u: "api_Update api k cn = (k1, r)" by (rule prod.exhaust)
  show ?thesis
  proof (cases r)
    case (Inl e)
    with K8sOpUpdate u assms show ?thesis
      by (auto simp: sync_call_def log_api_def log_call_def unless_NotFound_def ok_or_gone_def)
  next
    case (Inr x)
    obtain k2 r2 where s: "api_UpdateStatus api k1 (x\<lparr>cn_Error := cn_Error cn\<rparr>) = (k2, r2)" by (rule prod.exhaust)
    with Inr K8sOpUpdate u assms unless_NotFound_None(1) [of r2] show ?thesis
      by (auto simp: sync_call_def log_api_def log_call_def Let_def)
  qed
next
  case (K8sOpCreate cn)
  with assms unless_NotFound_None(2) [of "snd (api_Create api k cn)"] show ?thesis
    by (auto simp: sync_call_def log_api_def log_call_def split: prod.splits)
next
  case (K8sOpUpdateStatus cn)
  with assms unless_NotFound_None(1) [of "snd (api_UpdateStatus api k cn)"] show ?thesis
    by (auto simp: sync_call_def log_api_def log_call_def split: prod.splits)
next
  case K8sOpDelete
  with assms unless_NotFound_None(1) [of "snd (api_Get api k n)"] show ?thesis
    by (auto simp: sync_call_def log_api_def log_call_def split: prod.splits)
qed

lemma sync_conflict_log:
  "sync_conflict api ko k = Some (k', ko') \<Longrightarrow> \<exists>c. sync_conflict (log_api api) ko (k, l) = Some ((k', l @ c), ko')"
  by (cases ko) (auto simp: sync_conflict_def log_api_def log_call_def split: prod.splits sum.splits)

lemma syncToK8s_log:
  assumes "syncToK8s api ns q ret k = Some (k', q', ret')" "distinct ns"
  shows "\<exists>c. syncToK8s (log_api api) ns q ret (k, l) = Some ((k', l @ c), q', ret') \<and>
    (\<forall>n \<in> set ns. \<forall>ko. q n = Some ko \<longrightarrow> (if q' n = None then published c n ko else refused c n ko))"
  using assms
proof (induction ns arbitrary: q ret k l)
  case (Cons n ns)
  have d: "distinct ns" "n \<notin> set ns" using Cons.prems(2) by simp_all
  have keeps: "q' n = q1 n" if "syncToK8s api ns q1 r1 k1 = Some (k', q', ret')" for q1 r1 k1
    using that d(2) by (induction ns arbitrary: q1 r1 k1) (auto split: option.splits prod.splits if_splits)
  show ?case
  proof (cases "q n")
    case None
    then have "syncToK8s api ns q ret k = Some (k', q', ret')" using Cons.prems(1) by simp
    from Cons.IH [OF this d(1), of l] None show ?thesis by auto
  next
    case (Some ko)
    obtain k1 ko1 err where c: "sync_call api n ko k = (k1, ko1, err)" by (rule prod_cases3)
    obtain cs where l: "sync_call (log_api api) n ko (k, l) = ((k1, l @ cs), ko1, err)"
      "if err = None then published cs n ko else refused cs n ko" using sync_call_log [OF c, of l] by blast
    obtain k2 x r2 cs2 where nxt: "syncToK8s api ns (q(n := x)) r2 k2 = Some (k', q', ret')" "x = None \<longleftrightarrow> err = None"
      "syncToK8s (log_api api) (n # ns) q ret (k, l) = syncToK8s (log_api api) ns (q(n := x)) r2 (k2, l @ cs @ cs2)"
    proof (cases "err = Some AlreadyExists \<or> err = Some Conflict")
      case True
      then obtain k2 ko2 where f: "sync_conflict api ko1 k1 = Some (k2, ko2)" "syncToK8s api ns (q(n \<mapsto> ko2)) err k2 = Some (k', q', ret')"
        using Cons.prems(1) Some c by (auto split: option.splits)
      moreover obtain cs2 where "sync_conflict (log_api api) ko1 (k1, l @ cs) = Some ((k2, (l @ cs) @ cs2), ko2)"
        using sync_conflict_log [OF f(1)] by blast
      ultimately show ?thesis using that [of "Some ko2" err k2 cs2] True Some l(1) by auto
    next
      case False
      show ?thesis
      proof (cases err)
        case None
        then show ?thesis using that [of None ret k1 "[]"] Cons.prems(1) Some c l(1) by simp
      next
        case (Some e)
        then show ?thesis using that [of "Some ko1" err k1 "[]"] False Cons.prems(1) \<open>q n = Some ko\<close> c l(1) by simp
      qed
    qed
    from Cons.IH [OF nxt(1) d(1), of "l @ cs @ cs2"] obtain cs3 where
      r: "syncToK8s (log_api api) ns (q(n := x)) r2 (k2, l @ cs @ cs2) = Some ((k', (l @ cs @ cs2) @ cs3), q', ret')"
      "\<forall>y \<in> set ns. \<forall>ko. (q(n := x)) y = Some ko \<longrightarrow> (if q' y = None then published cs3 y ko else refused cs3 y ko)" by blast
    let ?c = "cs @ cs2 @ cs3"
    have "if q' y = None then published ?c y ko' else refused ?c y ko'" if y: "y \<in> set (n # ns)" "q y = Some ko'" for y ko'
    proof (cases "y = n")
      case True
      with y(2) Some l(2) nxt(2) keeps [OF nxt(1)] log_mono [of cs ?c n ko] show ?thesis by (auto split: if_splits)
    next
      case False
      with r(2) [rule_format, of y ko'] y log_mono [of cs3 ?c y ko'] show ?thesis by (auto split: if_splits)
    qed
    with r(1) nxt(3) show ?thesis by (intro exI [of _ ?c]) simp
  qed
qed simp

text \<open>
  (C21) A run of the publication, for any client, whose calls and answers are logged; reading a node never answers with a
  conflict, and an update answers with the CIDRs it was given. The run never panics. It succeeds if and only if the queue is
  empty afterwards, so that the controller retries as long as something is left to publish. An entry that has left the queue was
  published: the API server has accepted the creation of the node, or the update and then the update of the status with the
  entry's error, or the update of the status alone, or has answered that the node is gone. An entry that is left had a
  call that failed, and is to publish the same CIDRs and the same error as before, also after a conflict with a
  concurrent change of the node.
\<close>

theorem publication_complete:
  assumes "reads_ok api" "writes_ok api" "distinct order" "dom q \<subseteq> set order"
  shows "\<exists>k' l q' err. syncToK8s api order q None k = Some (k', q', err) \<and>
    syncToK8s (log_api api) order q None (k, []) = Some ((k', l), q', err) \<and> (err = None \<longleftrightarrow> q' = Map.empty) \<and>
    (\<forall>n ko. q n = Some ko \<and> q' n = None \<longrightarrow> published l n ko) \<and>
    (\<forall>n ko'. q' n = Some ko' \<longrightarrow> (\<exists>ko. q n = Some ko \<and> refused l n ko \<and> entry_spec ko' = entry_spec ko))"
proof -
  obtain k' q' err where s: "syncToK8s api order q None k = Some (k', q', err)"
    using syncToK8s_total [OF assms(1), of order q None k] by auto
  note p = syncToK8s_spec [OF assms(2) s assms(3)]
  have "q' n = None" if "n \<notin> set order" for n using p assms(4) that by (auto simp: domIff)
  then have "q' = Map.empty \<longleftrightarrow> (\<forall>n \<in> set order. q' n = None)" by (metis ext)
  then have e: "err = None \<longleftrightarrow> q' = Map.empty" using p by simp
  obtain l where l: "syncToK8s (log_api api) order q None (k, []) = Some ((k', l), q', err)"
    "\<forall>n \<in> set order. \<forall>ko. q n = Some ko \<longrightarrow> (if q' n = None then published l n ko else refused l n ko)"
    using syncToK8s_log [OF s assms(3), of "[]"] by auto
  have pub: "if q' n = None then published l n ko else refused l n ko" if "q n = Some ko" for n ko
    using l(2) that assms(4) by blast
  have "\<forall>n ko. q n = Some ko \<and> q' n = None \<longrightarrow> published l n ko" by (auto dest: pub)
  moreover have "\<exists>ko. q n = Some ko \<and> refused l n ko \<and> entry_spec ko' = entry_spec ko" if q: "q' n = Some ko'" for n ko'
  proof -
    obtain ko where ko: "q n = Some ko" "entry_spec ko' = entry_spec ko" using p q by blast
    with pub [OF ko(1)] q show ?thesis by simp
  qed
  ultimately show ?thesis using s e l(1) by blast
qed

section \<open>A duplicate CIDR with one family\<close>

text \<open>
  A node that the books record without any CIDR is never given one: it is published without CIDRs and
  without an error, every time.
\<close>

lemma empty_entry_stuck:
  assumes "pm_canAllocatePodCIDRs m" "pm_nodes m (cn_Name node) = Some \<lparr>nc_v4 = [], nc_v6 = []\<rparr>" "cn_PodCIDRs node = []"
  shows "pm_nodes (Upsert node m) = pm_nodes m \<and> pm_v4CIDRAllocators (Upsert node m) = pm_v4CIDRAllocators m \<and>
    pm_ciliumNodesToK8s (Upsert node m) (cn_Name node) = Some (publish_op (node\<lparr>cn_Error := None\<rparr>))"
proof -
  have "node\<lparr>cn_PodCIDRs := [], cn_Error := None\<rparr> = node\<lparr>cn_Error := None\<rparr>" using assms(3) by (cases node) simp
  with assms show ?thesis
    by (simp add: Upsert_def upsertLocked_def allocateNode_def allocateNext_def publish_cidrs_def syncNode_def trigger_def publish_op_def)
qed

section \<open>Examples\<close>

definition ex_v4 :: "cidr_set list" where
  "ex_v4 = (case NewCIDRSets False 10 [example_cluster] [] of Inr ss \<Rightarrow> ss)"

definition ex_node :: "string \<Rightarrow> prefix list \<Rightarrow> unit CiliumNode" where
  "ex_node n ps = \<lparr>cn_Name = n, cn_ResourceVersion = ''1'', cn_OwnerReferences = [], cn_PodCIDRs = ps, cn_Error = None, cn_Rest = ()\<rparr>"

text \<open>Node b comes without CIDRs, node a with one of its own.\<close>

definition ex_ops :: "(unit, unit) pm_op list" where
  "ex_ops = [PmUpsert (ex_node ''b'' []), PmUpsert (ex_node ''a'' [prefix_from (V4 0x0A400000) 10]), PmResync [''b'']]"

definition ex_pm :: "unit podcidr_manager" where
  "ex_pm = foldl pm_exec (NewNodesPodCIDRManager ex_v4 []) ex_ops"

lemma ex_pm_configured: "pm_configured True [example_cluster] 10 False [] 0 ex_v4 []"
  by code_simp

lemma ex_ops_ok: "list_all (pm_op_ok 10 0) ex_ops"
proof -
  have "node_ok 10 0 (ex_node ''b'' [])" "node_ok 10 0 (ex_node ''a'' [prefix_from (V4 0x0A400000) 10])"
    by code_simp+
  then show ?thesis by (simp add: ex_ops_def)
qed

definition ex_view :: "unit podcidr_manager \<Rightarrow> node_cidrs option list \<times> bool \<times> bool" where
  "ex_view m = (map (pm_nodes m) [''a'', ''b'', ''d''], pm_canAllocatePodCIDRs m, list_all cs_IsFull (pm_v4CIDRAllocators m))"

lemma ex_pm_view:
  "ex_view ex_pm = ([Some \<lparr>nc_v4 = [prefix_from (V4 0x0A400000) 10], nc_v6 = []\<rparr>,
     Some \<lparr>nc_v4 = [prefix_from (V4 0x0A000000) 10], nc_v6 = []\<rparr>, None], True, False)"
  by code_simp

lemma ex_pm_facts:
  "pm_nodes ex_pm ''a'' = Some \<lparr>nc_v4 = [prefix_from (V4 0x0A400000) 10], nc_v6 = []\<rparr>"
  "pm_nodes ex_pm ''b'' = Some \<lparr>nc_v4 = [prefix_from (V4 0x0A000000) 10], nc_v6 = []\<rparr>"
  "pm_nodes ex_pm ''d'' = None" "pm_canAllocatePodCIDRs ex_pm" "\<not> list_all cs_IsFull (pm_v4CIDRAllocators ex_pm)"
  using ex_pm_view by (simp_all add: ex_view_def)

theorem podcidr_exclusive_witness:
  "pm_configured True [example_cluster] 10 False [] 0 ex_v4 [] \<and> list_all (pm_op_ok 10 0) ex_ops \<and>
   node_pod_cidrs ex_pm ''a'' = [prefix_from (V4 0x0A400000) 10] \<and> node_pod_cidrs ex_pm ''b'' = [prefix_from (V4 0x0A000000) 10] \<and>
   \<not> pm_panicked ex_pm \<and> pfx_disjoint (prefix_from (V4 0x0A400000) 10) (prefix_from (V4 0x0A000000) 10)"
proof -
  have c: "node_pod_cidrs ex_pm ''a'' = [prefix_from (V4 0x0A400000) 10]" "node_pod_cidrs ex_pm ''b'' = [prefix_from (V4 0x0A000000) 10]"
    using ex_pm_facts by (simp_all add: node_pod_cidrs_def)
  from podcidr_exclusive [OF ex_pm_configured ex_ops_ok] have "\<not> pm_panicked ex_pm"
    and d: "\<forall>n n'. n \<noteq> n' \<longrightarrow> (\<forall>p \<in> set (node_pod_cidrs ex_pm n). \<forall>q \<in> set (node_pod_cidrs ex_pm n'). pfx_disjoint p q)"
    unfolding ex_pm_def by blast+
  moreover from d [rule_format, of "''a''" "''b''"] c have "pfx_disjoint (prefix_from (V4 0x0A400000) 10) (prefix_from (V4 0x0A000000) 10)" by simp
  ultimately show ?thesis using ex_pm_configured ex_ops_ok c by blast
qed

theorem new_node_gets_cidrs_witness:
  "\<exists>c. pm_nodes (Upsert (ex_node ''d'' []) ex_pm) ''d'' = Some c \<and> map pfx_bits (nc_v4 c) = [10] \<and> nc_v6 c = [] \<and>
     pm_ciliumNodesToK8s (Upsert (ex_node ''d'' []) ex_pm) ''d'' = Some (K8sOpUpdate (ex_node ''d'' (nc_v4 c)))"
proof -
  have n: "pm_nodes ex_pm (cn_Name (ex_node ''d'' [])) = None" "cn_PodCIDRs (ex_node ''d'' []) = []"
    using ex_pm_facts(3) by (simp_all add: ex_node_def)
  from new_node_gets_cidrs [OF ex_pm_configured ex_ops_ok ex_pm_def ex_pm_facts(4) n(2)] n(1) ex_pm_facts(5)
  obtain c where "pm_nodes (Upsert (ex_node ''d'' []) ex_pm) = (pm_nodes ex_pm)(''d'' \<mapsto> c)"
      "map pfx_bits (nc_v4 c) = [10]" "nc_v6 c = []"
      "pm_ciliumNodesToK8s (Upsert (ex_node ''d'' []) ex_pm) ''d'' = Some (K8sOpUpdate (ex_node ''d'' (nc_v4 c)))"
    by (auto simp: ex_node_def publish_op_def)
  then show ?thesis by auto
qed

theorem restart_keeps_cidrs_witness:
  "pm_nodes (foldl (\<lambda>r x. Upsert x r) (NewNodesPodCIDRManager ex_v4 [])
      [ex_node ''a'' [prefix_from (V4 0x0A400000) 10], ex_node ''b'' [prefix_from (V4 0x0A000000) 10]]) ''b'' =
   Some \<lparr>nc_v4 = [prefix_from (V4 0x0A000000) 10], nc_v6 = []\<rparr>"
proof -
  let ?xs = "[ex_node ''a'' [prefix_from (V4 0x0A400000) 10], ex_node ''b'' [prefix_from (V4 0x0A000000) 10]]"
  have "distinct (map cn_Name ?xs)" "list_all (holds_all True False ex_pm) ?xs"
    using ex_pm_facts by (simp_all add: ex_node_def holds_all_def)
  from restart_keeps_cidrs [OF ex_pm_configured _ ex_ops_ok ex_pm_def this] ex_pm_facts(2) show ?thesis by (simp add: ex_node_def)
qed

text \<open>An API server that accepts creations, knows no other node and reports a conflict for every update.\<close>

definition ex_api :: "(unit, unit) node_client" where
  "ex_api = \<lparr>api_Create = (\<lambda>k cn. (k, Inr cn)), api_Update = (\<lambda>k cn. (k, Inl Conflict)),
     api_UpdateStatus = (\<lambda>k cn. (k, Inl NotFound)), api_Get = (\<lambda>k n. (k, Inl NotFound))\<rparr>"

theorem publication_complete_witness:
  "\<exists>k' l q' err. syncToK8s (log_api ex_api) [''a'', ''b''] [''a'' \<mapsto> K8sOpUpdate (ex_node ''a'' []), ''b'' \<mapsto> K8sOpCreate (ex_node ''b'' [])] None ((), []) =
       Some ((k', l), q', err) \<and> err = Some Conflict \<and> q' ''b'' = None \<and> published l ''b'' (K8sOpCreate (ex_node ''b'' [])) \<and>
     q' ''a'' \<noteq> None \<and> refused l ''a'' (K8sOpUpdate (ex_node ''a'' []))"
proof -
  let ?q = "[''a'' \<mapsto> K8sOpUpdate (ex_node ''a'' []), ''b'' \<mapsto> K8sOpCreate (ex_node ''b'' [])]"
  have h: "reads_ok ex_api" "writes_ok ex_api" "distinct [''a'', ''b'']" "dom ?q \<subseteq> set [''a'', ''b'']"
    by (auto simp: reads_ok_def writes_ok_def ex_api_def)
  obtain k' l q' err where s: "syncToK8s ex_api [''a'', ''b''] ?q None () = Some (k', q', err)"
    "syncToK8s (log_api ex_api) [''a'', ''b''] ?q None ((), []) = Some ((k', l), q', err)"
    "\<forall>n ko. ?q n = Some ko \<and> q' n = None \<longrightarrow> published l n ko"
    "\<forall>n ko'. q' n = Some ko' \<longrightarrow> (\<exists>ko. ?q n = Some ko \<and> refused l n ko \<and> entry_spec ko' = entry_spec ko)"
    using publication_complete [OF h, of "()"] by blast
  have e: "err = Some Conflict" "q' ''b'' = None" "q' ''a'' \<noteq> None"
    using s(1) by (auto simp: sync_call_def sync_conflict_def ex_api_def ex_node_def unless_NotFound_def error_of_def)
  then have "published l ''b'' (K8sOpCreate (ex_node ''b'' []))" using s(3) [rule_format, of "''b''"] by simp
  moreover from e(3) obtain ko' where "q' ''a'' = Some ko'" by blast
  then have "refused l ''a'' (K8sOpUpdate (ex_node ''a'' []))" using s(4) [rule_format, of "''a''" ko'] by auto
  ultimately show ?thesis using s(2) e by blast
qed

text \<open>
  In a cluster with one family, a node that comes with the CIDR of another is recorded without any CIDR; it is
  published without CIDRs, and when it comes back without any it gets none, although there are free ones.
\<close>

definition ex_dup :: "unit podcidr_manager" where
  "ex_dup = foldl pm_exec ex_pm [PmUpsert (ex_node ''d'' [prefix_from (V4 0x0A400000) 10]) :: (unit, unit) pm_op]"

theorem duplicate_cidr_stuck:
  "list_all (pm_op_ok 10 0) [PmUpsert (ex_node ''d'' [prefix_from (V4 0x0A400000) 10]) :: (unit, unit) pm_op] \<and>
   pm_nodes ex_dup ''d'' = Some \<lparr>nc_v4 = [], nc_v6 = []\<rparr> \<and> \<not> list_all cs_IsFull (pm_v4CIDRAllocators ex_dup) \<and>
   pm_ciliumNodesToK8s ex_dup ''d'' = Some (K8sOpUpdate ((ex_node ''d'' [])\<lparr>cn_Error := Some (ErrCIDRAllocated (prefix_from (V4 0x0A400000) 10))\<rparr>)) \<and>
   pm_nodes (Upsert (ex_node ''d'' []) ex_dup) ''d'' = Some \<lparr>nc_v4 = [], nc_v6 = []\<rparr> \<and>
   pm_ciliumNodesToK8s (Upsert (ex_node ''d'' []) ex_dup) ''d'' = Some (K8sOpUpdate (ex_node ''d'' []))"
proof -
  have "(\<lambda>m. (pm_nodes m ''d'', pm_canAllocatePodCIDRs m, list_all cs_IsFull (pm_v4CIDRAllocators m), pm_ciliumNodesToK8s m ''d'')) ex_dup =
    (Some \<lparr>nc_v4 = [], nc_v6 = []\<rparr>, True, False,
     Some (K8sOpUpdate ((ex_node ''d'' [])\<lparr>cn_Error := Some (ErrCIDRAllocated (prefix_from (V4 0x0A400000) 10))\<rparr>)))"
    by code_simp
  then have e: "pm_nodes ex_dup ''d'' = Some \<lparr>nc_v4 = [], nc_v6 = []\<rparr>" "pm_canAllocatePodCIDRs ex_dup"
    "\<not> list_all cs_IsFull (pm_v4CIDRAllocators ex_dup)"
    "pm_ciliumNodesToK8s ex_dup ''d'' = Some (K8sOpUpdate ((ex_node ''d'' [])\<lparr>cn_Error := Some (ErrCIDRAllocated (prefix_from (V4 0x0A400000) 10))\<rparr>))"
    by simp_all
  have "pm_nodes ex_dup (cn_Name (ex_node ''d'' [])) = Some \<lparr>nc_v4 = [], nc_v6 = []\<rparr>" "cn_PodCIDRs (ex_node ''d'' []) = []"
    using e(1) by (simp_all add: ex_node_def)
  note s = empty_entry_stuck [OF e(2) this]
  have "publish_op ((ex_node ''d'' [])\<lparr>cn_Error := None\<rparr>) = K8sOpUpdate (ex_node ''d'' [])" "cn_Name (ex_node ''d'' []) = ''d''"
    by (simp_all add: ex_node_def publish_op_def)
  moreover have "node_ok 10 0 (ex_node ''d'' [prefix_from (V4 0x0A400000) 10])" by code_simp
  ultimately show ?thesis using e s by simp
qed

text \<open>
  A CIDR larger than a node CIDR is taken over although part of it belongs to another node: \<open>IsAllocated\<close> asks
  whether all of it is allocated. Removing that node then frees the other's CIDR, which the next node gets.
\<close>

theorem large_cidr_shared:
  "map (node_pod_cidrs (foldl pm_exec (NewNodesPodCIDRManager ex_v4 [])
      [PmUpsert (ex_node ''a'' [prefix_from (V4 0x0A000000) 10]), PmUpsert (ex_node ''d'' [prefix_from (V4 0x0A000000) 9]),
       PmDelete ''d'', PmResync [], PmUpsert (ex_node ''e'' []) :: (unit, unit) pm_op])) [''a'', ''e''] =
     [[prefix_from (V4 0x0A000000) 10], [prefix_from (V4 0x0A000000) 10]]"
  by code_simp

end
