(* ===== verification/Multi_Pool.thy ===== *)
theory Multi_Pool
  imports Pod_CIDR "HOL-Library.AList"
begin

text \<open>
  The operator's multi-pool allocator: named pools of CIDRs from which nodes get as many CIDRs as their demand
  needs, and orphans, CIDRs that nodes keep after their pool has lost them. Sources: \<open>pool.go\<close>,
  \<open>pool_allocator.go\<close>, under \<open>operator/pkg/ipam/allocator/multipool\<close>. Every exported method runs under the allocator's mutex.
  A Go map that the code iterates over is an association list, iterated in its order; a set is a list without
  duplicates. A nil map or a nil allocator is \<open>None\<close>: writing to the one and calling the other panics.
\<close>

section \<open>The allocators of a pool\<close>

datatype mp_error =
    PoolEmpty
  | CIDRSetError cidr_error
  | CIDRAlreadyAllocated prefix
  | CIDRNotInPool prefix
  | ReleasedCIDRNotInPool prefix
  | NilPanic
  | CannotChangePool string
  | PoolDoesNotExist string
  | InvalidPoolCIDR prefix string
  | MarkedAsOrphan string prefix
  | AllocatorNotReady
  | LoopBoundReached

type_synonym alloc_slice = "cidr_set option list"

fun allocFirstFreeCIDR :: "alloc_slice \<Rightarrow> (mp_error, alloc_slice \<times> prefix) result" where
  "allocFirstFreeCIDR [] = Inl PoolEmpty"
| "allocFirstFreeCIDR (None # ss) = Inl NilPanic"
| "allocFirstFreeCIDR (Some s # ss) =
     (if cs_IsFull s then
        (case allocFirstFreeCIDR ss of Inl e \<Rightarrow> Inl e | Inr (ss', c) \<Rightarrow> Inr (Some s # ss', c))
      else case cs_AllocateNext s of Inl e \<Rightarrow> Inl (CIDRSetError e) | Inr (t, c) \<Rightarrow> Inr (Some t # ss, c))"

fun slice_occupyCIDR :: "alloc_slice \<Rightarrow> prefix \<Rightarrow> (mp_error, alloc_slice) result" where
  "slice_occupyCIDR [] c = Inl (CIDRNotInPool c)"
| "slice_occupyCIDR (None # ss) c = Inl NilPanic"
| "slice_occupyCIDR (Some s # ss) c =
     (if \<not> cs_InRange s c then
        (case slice_occupyCIDR ss c of Inl e \<Rightarrow> Inl e | Inr ss' \<Rightarrow> Inr (Some s # ss'))
      else case cs_IsAllocated s c of
             Inl e \<Rightarrow> Inl (CIDRSetError e)
           | Inr allocated \<Rightarrow>
               if allocated then Inl (CIDRAlreadyAllocated c)
               else case cs_Occupy s c of Inl e \<Rightarrow> Inl (CIDRSetError e) | Inr t \<Rightarrow> Inr (Some t # ss))"

fun slice_releaseCIDR :: "alloc_slice \<Rightarrow> prefix \<Rightarrow> (mp_error, alloc_slice) result" where
  "slice_releaseCIDR [] c = Inl (ReleasedCIDRNotInPool c)"
| "slice_releaseCIDR (None # ss) c = Inl NilPanic"
| "slice_releaseCIDR (Some s # ss) c =
     (if \<not> cs_InRange s c then
        (case slice_releaseCIDR ss c of Inl e \<Rightarrow> Inl e | Inr ss' \<Rightarrow> Inr (Some s # ss'))
      else case cs_IsAllocated s c of
             Inl e \<Rightarrow> Inl (CIDRSetError e)
           | Inr allocated \<Rightarrow>
               if \<not> allocated then Inr (Some s # ss)
               else case cs_Release s c of Inl e \<Rightarrow> Inl (CIDRSetError e) | Inr t \<Rightarrow> Inr (Some t # ss))"

text \<open>\<open>None\<close> for a nil allocator.\<close>

fun hasCIDR :: "alloc_slice \<Rightarrow> prefix \<Rightarrow> bool option" where
  "hasCIDR [] c = Some False"
| "hasCIDR (None # ss) c = None"
| "hasCIDR (Some s # ss) c = (if cs_IsClusterCIDR s c then Some True else hasCIDR ss c)"

fun containsCIDR :: "alloc_slice \<Rightarrow> prefix \<Rightarrow> bool option" where
  "containsCIDR [] c = Some False"
| "containsCIDR (None # ss) c = None"
| "containsCIDR (Some s # ss) c = (if cs_InRange s c then Some True else containsCIDR ss c)"

section \<open>State\<close>

record mp_pool =
  po_v4 :: alloc_slice
  po_v6 :: alloc_slice
  po_v4MaskSize :: int
  po_v6MaskSize :: int
  po_allowFirstIP :: bool
  po_allowLastIP :: bool

record mp_sets =
  st_v4 :: "prefix list option"
  st_v6 :: "prefix list option"
  st_allowFirstIP :: bool
  st_allowLastIP :: bool

type_synonym pool_to_cidrs = "(string \<times> mp_sets) list"

record pool_allocator =
  pa_ipv4Enabled :: bool
  pa_ipv6Enabled :: bool
  pa_pools :: "string \<rightharpoonup> mp_pool"
  pa_nodes :: "(string \<times> pool_to_cidrs) list"
  pa_orphans :: "(string \<times> pool_to_cidrs) list"
  pa_ready :: bool
  pa_panicked :: bool

definition NewPoolAllocator :: "bool \<Rightarrow> bool \<Rightarrow> pool_allocator" where
  "NewPoolAllocator enableIPv4 enableIPv6 =
     \<lparr>pa_ipv4Enabled = enableIPv4, pa_ipv6Enabled = enableIPv6, pa_pools = Map.empty, pa_nodes = [], pa_orphans = [],
      pa_ready = False, pa_panicked = False\<rparr>"

definition RestoreFinished :: "pool_allocator \<Rightarrow> pool_allocator" where
  "RestoreFinished p = p\<lparr>pa_ready := True\<rparr>"

definition panic :: "pool_allocator \<Rightarrow> pool_allocator" where
  "panic p = p\<lparr>pa_panicked := True\<rparr>"

text \<open>Reading and writing the nested maps. A missing entry reads as the zero value.\<close>

definition zero_sets :: mp_sets where
  "zero_sets = \<lparr>st_v4 = None, st_v6 = None, st_allowFirstIP = False, st_allowLastIP = False\<rparr>"

definition pools_of :: "(string \<times> pool_to_cidrs) list \<Rightarrow> string \<Rightarrow> pool_to_cidrs" where
  "pools_of M node = (case map_of M node of None \<Rightarrow> [] | Some ps \<Rightarrow> ps)"

definition sets_of :: "(string \<times> pool_to_cidrs) list \<Rightarrow> string \<Rightarrow> string \<Rightarrow> mp_sets" where
  "sets_of M node pool = (case map_of (pools_of M node) pool of None \<Rightarrow> zero_sets | Some s \<Rightarrow> s)"

definition put_sets :: "(string \<times> pool_to_cidrs) list \<Rightarrow> string \<Rightarrow> string \<Rightarrow> mp_sets \<Rightarrow> (string \<times> pool_to_cidrs) list" where
  "put_sets M node pool s = AList.update node (AList.update pool s (pools_of M node)) M"

definition elems :: "prefix list option \<Rightarrow> prefix list" where
  "elems x = (case x of None \<Rightarrow> [] | Some cs \<Rightarrow> cs)"

definition has_cidr :: "mp_sets \<Rightarrow> prefix \<Rightarrow> bool" where
  "has_cidr s c = (case pfx_addr c of V4 _ \<Rightarrow> c \<in> set (elems (st_v4 s)) | V6 _ _ \<Rightarrow> c \<in> set (elems (st_v6 s)) | _ \<Rightarrow> False)"

text \<open>\<open>None\<close> for a write to a nil map.\<close>

definition add_cidr :: "prefix \<Rightarrow> mp_sets \<Rightarrow> mp_sets option" where
  "add_cidr c s =
     (case pfx_addr c of
        V4 _ \<Rightarrow> (case st_v4 s of None \<Rightarrow> None | Some cs \<Rightarrow> Some (s\<lparr>st_v4 := Some (List.insert c cs)\<rparr>))
      | V6 _ _ \<Rightarrow> (case st_v6 s of None \<Rightarrow> None | Some cs \<Rightarrow> Some (s\<lparr>st_v6 := Some (List.insert c cs)\<rparr>))
      | _ \<Rightarrow> Some s)"

definition del_cidr :: "prefix \<Rightarrow> mp_sets \<Rightarrow> mp_sets" where
  "del_cidr c s =
     (case pfx_addr c of
        V4 _ \<Rightarrow> s\<lparr>st_v4 := map_option (removeAll c) (st_v4 s)\<rparr>
      | V6 _ _ \<Rightarrow> s\<lparr>st_v6 := map_option (removeAll c) (st_v6 s)\<rparr>
      | _ \<Rightarrow> s)"

definition no_cidrs :: "mp_sets \<Rightarrow> bool" where
  "no_cidrs s \<longleftrightarrow> elems (st_v4 s) = [] \<and> elems (st_v6 s) = []"

definition fresh_sets :: "bool \<Rightarrow> bool \<Rightarrow> mp_sets" where
  "fresh_sets allowFirst allowLast = \<lparr>st_v4 = Some [], st_v6 = Some [], st_allowFirstIP = allowFirst, st_allowLastIP = allowLast\<rparr>"

section \<open>Bookkeeping\<close>

definition isAllocated :: "pool_allocator \<Rightarrow> string \<Rightarrow> string \<Rightarrow> prefix \<Rightarrow> bool" where
  "isAllocated p node pool c = has_cidr (sets_of (pa_nodes p) node pool) c"

definition markAllocated :: "string \<Rightarrow> string \<Rightarrow> prefix \<Rightarrow> pool_allocator \<Rightarrow> pool_allocator" where
  "markAllocated node pool c p =
     (let s = (case map_of (pools_of (pa_nodes p) node) pool of
                 Some s \<Rightarrow> s
               | None \<Rightarrow> (case pa_pools p pool of
                            None \<Rightarrow> fresh_sets False False
                          | Some po \<Rightarrow> fresh_sets (po_allowFirstIP po) (po_allowLastIP po)))
      in case add_cidr c s of
           None \<Rightarrow> panic p
         | Some s' \<Rightarrow> p\<lparr>pa_nodes := put_sets (pa_nodes p) node pool s'\<rparr>)"

definition markReleased :: "string \<Rightarrow> string \<Rightarrow> prefix \<Rightarrow> pool_allocator \<Rightarrow> pool_allocator" where
  "markReleased node pool c p =
     (case map_of (pools_of (pa_nodes p) node) pool of
        None \<Rightarrow> p
      | Some s \<Rightarrow>
          (let s' = del_cidr c s in
           if no_cidrs s' then p\<lparr>pa_nodes := AList.update node (AList.delete pool (pools_of (pa_nodes p) node)) (pa_nodes p)\<rparr>
           else p\<lparr>pa_nodes := put_sets (pa_nodes p) node pool s'\<rparr>))"

definition isOrphan :: "pool_allocator \<Rightarrow> string \<Rightarrow> string \<Rightarrow> prefix \<Rightarrow> bool" where
  "isOrphan p node pool c = has_cidr (sets_of (pa_orphans p) node pool) c"

definition markOrphan :: "string \<Rightarrow> string \<Rightarrow> prefix \<Rightarrow> bool \<Rightarrow> bool \<Rightarrow> pool_allocator \<Rightarrow> pool_allocator" where
  "markOrphan node pool c allowFirst allowLast p =
     (let s = (case map_of (pools_of (pa_orphans p) node) pool of Some s \<Rightarrow> s | None \<Rightarrow> fresh_sets allowFirst allowLast)
      in case add_cidr c s of
           None \<Rightarrow> panic p
         | Some s' \<Rightarrow> p\<lparr>pa_orphans := put_sets (pa_orphans p) node pool s'\<rparr>)"

text \<open>A family without CIDRs is dropped, and with it its map.\<close>

definition cleanupOrphans :: "string \<Rightarrow> string \<Rightarrow> pool_allocator \<Rightarrow> pool_allocator" where
  "cleanupOrphans node pool p =
     (let s = sets_of (pa_orphans p) node pool in
      if no_cidrs s then
        (let ps = AList.delete pool (pools_of (pa_orphans p) node) in
         p\<lparr>pa_orphans := (if ps = [] then AList.delete node (pa_orphans p) else AList.update node ps (pa_orphans p))\<rparr>)
      else if elems (st_v4 s) = [] then p\<lparr>pa_orphans := put_sets (pa_orphans p) node pool (s\<lparr>st_v4 := None\<rparr>)\<rparr>
      else if elems (st_v6 s) = [] then p\<lparr>pa_orphans := put_sets (pa_orphans p) node pool (s\<lparr>st_v6 := None\<rparr>)\<rparr>
      else p)"

definition markReleasedOrphan :: "string \<Rightarrow> string \<Rightarrow> prefix \<Rightarrow> pool_allocator \<Rightarrow> pool_allocator" where
  "markReleasedOrphan node pool c p =
     (case map_of (pools_of (pa_orphans p) node) pool of
        None \<Rightarrow> p
      | Some s \<Rightarrow> cleanupOrphans node pool (p\<lparr>pa_orphans := put_sets (pa_orphans p) node pool (del_cidr c s)\<rparr>))"

section \<open>Allocation from a pool\<close>

text \<open>The pool of a family, by a flag that says IPv6.\<close>

definition pool_slice :: "bool \<Rightarrow> mp_pool \<Rightarrow> alloc_slice" where
  "pool_slice v6 po = (if v6 then po_v6 po else po_v4 po)"

definition set_slice :: "bool \<Rightarrow> alloc_slice \<Rightarrow> mp_pool \<Rightarrow> mp_pool" where
  "set_slice v6 ss po = (if v6 then po\<lparr>po_v6 := ss\<rparr> else po\<lparr>po_v4 := ss\<rparr>)"

definition store_pool :: "string \<Rightarrow> mp_pool \<Rightarrow> pool_allocator \<Rightarrow> pool_allocator" where
  "store_pool pool po p = p\<lparr>pa_pools := (pa_pools p)(pool \<mapsto> po)\<rparr>"

definition addrsInPrefix :: "prefix \<Rightarrow> bool \<Rightarrow> bool \<Rightarrow> int" where
  "addrsInPrefix c allowFirst allowLast =
     (if \<not> pfx_valid c then 0
      else let addrs = 2 ^ nat (int (addr_bitlen (pfx_addr c)) - pfx_bits c) :: int in
        if addrs \<le> 2 then addrs
        else max 0 (addrs - (if allowFirst then 0 else 1) - (if allowLast then 0 else 1)))"

definition availableAddrs :: "prefix list \<Rightarrow> bool \<Rightarrow> bool \<Rightarrow> int" where
  "availableAddrs cs allowFirst allowLast = sum_list (map (\<lambda>c. addrsInPrefix c allowFirst allowLast) cs)"

text \<open>A panic is recorded in the state, any other error returned.\<close>

definition fail :: "mp_error \<Rightarrow> pool_allocator \<Rightarrow> pool_allocator \<times> mp_error list" where
  "fail e p = (if e = NilPanic then panic p else p, [e])"

definition occupyCIDR :: "string \<Rightarrow> string \<Rightarrow> prefix \<Rightarrow> pool_allocator \<Rightarrow> pool_allocator \<times> mp_error list" where
  "occupyCIDR node pool c p =
     (if isAllocated p node pool c then (p, [])
      else case pa_pools p pool of
             None \<Rightarrow> (p, [PoolDoesNotExist pool])
           | Some po \<Rightarrow>
               (let v6 = (\<not> addr_is4 (pfx_addr c)) in
                case slice_occupyCIDR (pool_slice v6 po) c of
                  Inl e \<Rightarrow> fail e p
                | Inr ss \<Rightarrow> (markAllocated node pool c (store_pool pool (set_slice v6 ss po) p), [])))"

definition releaseCIDR :: "string \<Rightarrow> string \<Rightarrow> prefix \<Rightarrow> pool_allocator \<Rightarrow> pool_allocator \<times> mp_error list" where
  "releaseCIDR node pool c p =
     (if \<not> isAllocated p node pool c then (p, [])
      else case pa_pools p pool of
             None \<Rightarrow> (p, [PoolDoesNotExist pool])
           | Some po \<Rightarrow>
               (let v6 = (\<not> addr_is4 (pfx_addr c)) in
                case slice_releaseCIDR (pool_slice v6 po) c of
                  Inl e \<Rightarrow> fail e p
                | Inr ss \<Rightarrow> (markReleased node pool c (store_pool pool (set_slice v6 ss po) p), [])))"

definition releaseOrphanCIDR :: "string \<Rightarrow> string \<Rightarrow> prefix \<Rightarrow> pool_allocator \<Rightarrow> pool_allocator" where
  "releaseOrphanCIDR node pool c p = (if \<not> isOrphan p node pool c then p else markReleasedOrphan node pool c p)"

text \<open>
  The loop of \<open>allocateCIDRs\<close>. Every CIDR has at least one address, so that as many turns as addresses are
  wanted are enough.
\<close>

fun allocate_loop :: "nat \<Rightarrow> string \<Rightarrow> string \<Rightarrow> bool \<Rightarrow> int \<Rightarrow> pool_allocator \<Rightarrow> pool_allocator \<times> mp_error list" where
  "allocate_loop 0 node pool v6 toAllocate p = (if toAllocate \<le> 0 then (p, []) else (p, [LoopBoundReached]))"
| "allocate_loop (Suc n) node pool v6 toAllocate p =
     (if toAllocate \<le> 0 then (p, [])
      else case pa_pools p pool of
             None \<Rightarrow> (p, [PoolDoesNotExist pool])
           | Some po \<Rightarrow>
               (case allocFirstFreeCIDR (pool_slice v6 po) of
                  Inl e \<Rightarrow> fail e p
                | Inr (ss, c) \<Rightarrow>
                    allocate_loop n node pool v6 (toAllocate - addrsInPrefix c (po_allowFirstIP po) (po_allowLastIP po))
                      (markAllocated node pool c (store_pool pool (set_slice v6 ss po) p))))"

definition allocateCIDRs :: "string \<Rightarrow> string \<Rightarrow> bool \<Rightarrow> int \<Rightarrow> pool_allocator \<Rightarrow> pool_allocator \<times> mp_error list" where
  "allocateCIDRs node pool v6 toAllocate p =
     (if toAllocate \<le> 0 then (p, [])
      else if Option.is_none (pa_pools p pool) then (p, [PoolDoesNotExist pool])
      else allocate_loop (nat toAllocate) node pool v6 toAllocate p)"

text \<open>A loop whose errors are joined.\<close>

fun run_steps :: "('a \<Rightarrow> pool_allocator \<Rightarrow> pool_allocator \<times> mp_error list) \<Rightarrow> 'a list \<Rightarrow> pool_allocator \<Rightarrow>
    pool_allocator \<times> mp_error list" where
  "run_steps f [] p = (p, [])"
| "run_steps f (x # xs) p = (case f x p of (p1, e1) \<Rightarrow> (case run_steps f xs p1 of (p2, e2) \<Rightarrow> (p2, e1 @ e2)))"

section \<open>Nodes\<close>

definition retainCIDRs :: "string \<Rightarrow> prefix list \<Rightarrow> string \<Rightarrow> pool_allocator \<Rightarrow> pool_allocator \<times> mp_error list" where
  "retainCIDRs node retain pool p =
     (case run_steps (releaseCIDR node pool)
             (filter (\<lambda>c. c \<notin> set retain) (elems (st_v4 (sets_of (pa_nodes p) node pool)))) p of
        (p1, e1) \<Rightarrow>
          (case run_steps (releaseCIDR node pool)
                  (filter (\<lambda>c. c \<notin> set retain) (elems (st_v6 (sets_of (pa_nodes p1) node pool)))) p1 of
             (p2, e2) \<Rightarrow> (p2, e1 @ e2)))"

definition retainOrphanCIDRs :: "string \<Rightarrow> prefix list \<Rightarrow> string \<Rightarrow> pool_allocator \<Rightarrow> pool_allocator" where
  "retainOrphanCIDRs node retain pool p =
     (let p1 = fold (releaseOrphanCIDR node pool)
                 (filter (\<lambda>c. c \<notin> set retain) (elems (st_v4 (sets_of (pa_orphans p) node pool)))) p
      in fold (releaseOrphanCIDR node pool)
           (filter (\<lambda>c. c \<notin> set retain) (elems (st_v6 (sets_of (pa_orphans p1) node pool)))) p1)"

record pool_allocation =
  al_Pool :: string
  al_CIDRs :: "prefix list"
  al_AllowFirstIP :: bool
  al_AllowLastIP :: bool

record pool_request =
  rq_Pool :: string
  rq_IPv4Addrs :: int
  rq_IPv6Addrs :: int

text \<open>What the node has according to its resource: occupied in a pool that exists, an orphan otherwise.\<close>

definition occupy_step :: "string \<Rightarrow> pool_allocation \<Rightarrow> prefix \<Rightarrow> pool_allocator \<Rightarrow> pool_allocator \<times> mp_error list" where
  "occupy_step node a c p =
     (if \<not> pfx_valid c then (p, [InvalidPoolCIDR c (al_Pool a)])
      else if \<not> Option.is_none (pa_pools p (al_Pool a)) then occupyCIDR node (al_Pool a) c p
      else (markOrphan node (al_Pool a) c (al_AllowFirstIP a) (al_AllowLastIP a) p, [MarkedAsOrphan (al_Pool a) c]))"

definition allocated_set :: "pool_allocation list \<Rightarrow> string \<Rightarrow> prefix list" where
  "allocated_set as pool =
     (case map_of (rev (map (\<lambda>a. (al_Pool a, filter pfx_valid (al_CIDRs a))) as)) pool of None \<Rightarrow> [] | Some cs \<Rightarrow> cs)"

definition request_step :: "string \<Rightarrow> pool_request \<Rightarrow> pool_allocator \<Rightarrow> pool_allocator \<times> mp_error list" where
  "request_step node r p =
     (let s = sets_of (pa_nodes p) node (rq_Pool r);
          first = (case pa_pools p (rq_Pool r) of None \<Rightarrow> False | Some po \<Rightarrow> po_allowFirstIP po);
          last = (case pa_pools p (rq_Pool r) of None \<Rightarrow> False | Some po \<Rightarrow> po_allowLastIP po);
          (p1, e1) = (if pa_ipv4Enabled p
                      then allocateCIDRs node (rq_Pool r) False (rq_IPv4Addrs r - availableAddrs (elems (st_v4 s)) first last) p
                      else (p, []));
          (p2, e2) = (if pa_ipv6Enabled p
                      then allocateCIDRs node (rq_Pool r) True (rq_IPv6Addrs r - availableAddrs (elems (st_v6 s)) first last) p1
                      else (p1, []))
      in (p2, e1 @ e2))"

definition AllocateToNode :: "string \<Rightarrow> pool_allocation list \<Rightarrow> pool_request list \<Rightarrow> pool_allocator \<Rightarrow>
    pool_allocator \<times> mp_error list" where
  "AllocateToNode node as rs p =
     (let (p1, e1) = run_steps (\<lambda>a. run_steps (occupy_step node a) (al_CIDRs a)) as p;
          (p2, e2) = run_steps (\<lambda>pool. retainCIDRs node (allocated_set as pool) pool) (map fst (pools_of (pa_nodes p1) node)) p1;
          p3 = fold (\<lambda>pool. retainOrphanCIDRs node (allocated_set as pool) pool) (map fst (pools_of (pa_orphans p2) node)) p2
      in if \<not> pa_ready p3 then (p3, [AllocatorNotReady])
         else (case run_steps (request_step node) rs p3 of (p4, e4) \<Rightarrow> (p4, e1 @ e2 @ e4)))"

definition release_from :: "string \<Rightarrow> bool \<Rightarrow> prefix \<Rightarrow> pool_allocator \<Rightarrow> pool_allocator \<times> mp_error list" where
  "release_from pool v6 c p =
     (case pa_pools p pool of
        None \<Rightarrow> (p, [PoolDoesNotExist pool])
      | Some po \<Rightarrow>
          (case slice_releaseCIDR (pool_slice v6 po) c of
             Inl e \<Rightarrow> fail e p
           | Inr ss \<Rightarrow> (store_pool pool (set_slice v6 ss po) p, [])))"

definition release_pool :: "string \<times> mp_sets \<Rightarrow> pool_allocator \<Rightarrow> pool_allocator \<times> mp_error list" where
  "release_pool x p =
     (if Option.is_none (pa_pools p (fst x)) then (p, [PoolDoesNotExist (fst x)])
      else case run_steps (release_from (fst x) False) (elems (st_v4 (snd x))) p of
             (p1, e1) \<Rightarrow> (case run_steps (release_from (fst x) True) (elems (st_v6 (snd x))) p1 of (p2, e2) \<Rightarrow> (p2, e1 @ e2)))"

definition ReleaseNode :: "string \<Rightarrow> pool_allocator \<Rightarrow> pool_allocator \<times> mp_error list" where
  "ReleaseNode node p =
     (case run_steps release_pool (pools_of (pa_nodes p) node) p of
        (p1, e) \<Rightarrow> (p1\<lparr>pa_nodes := AList.delete node (pa_nodes p1)\<rparr>, e))"

section \<open>Pools\<close>

text \<open>The CIDRs a pool is configured with, each with its reserved ranges.\<close>

type_synonym pool_cidr_config = "prefix \<times> (addr \<times> addr) list"

definition family_elems :: "bool \<Rightarrow> mp_sets \<Rightarrow> prefix list" where
  "family_elems v6 s = elems (if v6 then st_v6 s else st_v4 s)"

definition del_family :: "bool \<Rightarrow> prefix \<Rightarrow> mp_sets \<Rightarrow> mp_sets" where
  "del_family v6 c s =
     (if v6 then s\<lparr>st_v6 := map_option (removeAll c) (st_v6 s)\<rparr> else s\<lparr>st_v4 := map_option (removeAll c) (st_v4 s)\<rparr>)"

text \<open>A deletion from the map of a family, if there is one.\<close>

definition forget :: "bool \<Rightarrow> string \<Rightarrow> string \<Rightarrow> prefix \<Rightarrow> (string \<times> pool_to_cidrs) list \<Rightarrow> (string \<times> pool_to_cidrs) list" where
  "forget v6 node pool c M =
     (case map_of (pools_of M node) pool of None \<Rightarrow> M | Some s \<Rightarrow> put_sets M node pool (del_family v6 c s))"

text \<open>A CIDR set goes: what nodes have of it becomes orphaned.\<close>

definition orphan_step :: "cidr_set \<Rightarrow> bool \<Rightarrow> string \<Rightarrow> string \<Rightarrow> mp_sets \<Rightarrow> prefix \<Rightarrow> pool_allocator \<Rightarrow>
    pool_allocator \<times> mp_error list" where
  "orphan_step old v6 node pool s c p =
     (if \<not> cs_InRange old c then (p, [])
      else case cs_IsAllocated old c of
             Inl e \<Rightarrow> (p, [CIDRSetError e])
           | Inr allocated \<Rightarrow>
               if \<not> allocated then (p, [])
               else (let p1 = markOrphan node pool c (st_allowFirstIP s) (st_allowLastIP s) p in
                     (p1\<lparr>pa_nodes := forget v6 node pool c (pa_nodes p1)\<rparr>, [])))"

definition drop_set :: "bool \<Rightarrow> cidr_set \<Rightarrow> pool_allocator \<Rightarrow> pool_allocator \<times> mp_error list" where
  "drop_set v6 old p =
     run_steps (\<lambda>(node, pools). run_steps (\<lambda>(pool, s). run_steps (orphan_step old v6 node pool s) (family_elems v6 s)) pools) (pa_nodes p) p"

definition is_kept :: "prefix list \<Rightarrow> cidr_set \<Rightarrow> bool" where
  "is_kept newCIDRs s \<longleftrightarrow> list_ex (cs_IsClusterCIDR s) newCIDRs"

fun somes :: "'a option list \<Rightarrow> 'a list" where
  "somes [] = []"
| "somes (None # xs) = somes xs"
| "somes (Some x # xs) = x # somes xs"

text \<open>
  The third component says how many allocators were kept, if the slice was changed at all: the slice is
  compacted in place, which whoever still holds the old one sees.
\<close>

definition updateCIDRSets :: "bool \<Rightarrow> alloc_slice \<Rightarrow> prefix list \<Rightarrow> int \<Rightarrow> pool_allocator \<Rightarrow>
    pool_allocator \<times> mp_error list \<times> alloc_slice \<times> nat option" where
  "updateCIDRSets v6 ss newCIDRs maskSize p =
     (if list_ex (\<lambda>c. Option.is_none (hasCIDR ss c)) newCIDRs then (panic p, [NilPanic], ss, None)
      else case NewCIDRSets v6 maskSize (filter (\<lambda>c. hasCIDR ss c = Some False) newCIDRs) [] of
             Inl e \<Rightarrow> (p, [CIDRSetError e], ss, None)
           | Inr new \<Rightarrow>
               (let kept = filter (is_kept newCIDRs) (somes ss) in
                case run_steps (drop_set v6) (filter (\<lambda>s. \<not> is_kept newCIDRs s) (somes ss)) p of
                  (p1, errs) \<Rightarrow> (p1, errs, map Some (kept @ new), Some (length kept))))"

text \<open>
  The old slice after the update: the allocators that were kept, then those appended in the same array, which
  happens when it has room, and nil.
\<close>

definition old_view :: "bool \<Rightarrow> alloc_slice \<Rightarrow> nat option \<Rightarrow> alloc_slice \<Rightarrow> alloc_slice" where
  "old_view room prev kept new =
     (case kept of
        None \<Rightarrow> prev
      | Some k \<Rightarrow> map (\<lambda>i. if i < k \<or> i < length new \<and> (room \<or> length new \<le> length prev) then new ! i else None) [0 ..< length prev])"

fun setReservedRanges :: "alloc_slice \<Rightarrow> pool_cidr_config list \<Rightarrow> alloc_slice \<times> mp_error list" where
  "setReservedRanges [] cfg = ([], [])"
| "setReservedRanges (None # ss) cfg = (None # ss, [NilPanic])"
| "setReservedRanges (Some s # ss) cfg =
     (case SetReservedRanges s (case map_of (rev cfg) (cs_clusterPrefix s) of None \<Rightarrow> [] | Some rs \<Rightarrow> rs) of
        Inl e \<Rightarrow> (Some s # ss, [CIDRSetError e])
      | Inr t \<Rightarrow> (case setReservedRanges ss cfg of (ss', es) \<Rightarrow> (Some t # ss', es)))"

definition unorphanCIDR :: "bool \<Rightarrow> string \<Rightarrow> string \<Rightarrow> prefix \<Rightarrow> pool_allocator \<Rightarrow> pool_allocator \<times> mp_error list" where
  "unorphanCIDR v6 node pool c p =
     (case occupyCIDR node pool c p of
        (p1, []) \<Rightarrow> (p1\<lparr>pa_orphans := forget v6 node pool c (pa_orphans p1)\<rparr>, [])
      | (p1, es) \<Rightarrow> (p1, es))"

definition reconcile_step :: "bool \<Rightarrow> alloc_slice \<Rightarrow> string \<Rightarrow> string \<Rightarrow> prefix \<Rightarrow> pool_allocator \<Rightarrow>
    pool_allocator \<times> mp_error list" where
  "reconcile_step v6 ss node pool c p =
     (case containsCIDR ss c of
        None \<Rightarrow> (panic p, [NilPanic])
      | Some False \<Rightarrow> (p, [])
      | Some True \<Rightarrow> unorphanCIDR v6 node pool c p)"

definition reconcileOrphanCIDRs :: "string \<Rightarrow> alloc_slice \<Rightarrow> alloc_slice \<Rightarrow> pool_allocator \<Rightarrow> pool_allocator \<times> mp_error list" where
  "reconcileOrphanCIDRs poolName v4 v6 p =
     run_steps (\<lambda>(node, pools) p0.
         case run_steps (\<lambda>(pool, s) p1.
                case run_steps (reconcile_step False v4 node pool) (elems (st_v4 s)) p1 of
                  (p2, e2) \<Rightarrow> (case run_steps (reconcile_step True v6 node pool) (elems (st_v6 s)) p2 of (p3, e3) \<Rightarrow> (p3, e2 @ e3)))
              pools p0 of
           (p4, e4) \<Rightarrow> (cleanupOrphans node poolName p4, e4))
       (pa_orphans p) p"

text \<open>An error leaves the pool registered as it was, with what has become of its slices.\<close>

definition keep_pool :: "string \<Rightarrow> mp_pool option \<Rightarrow> alloc_slice \<Rightarrow> alloc_slice \<Rightarrow> pool_allocator \<Rightarrow> pool_allocator" where
  "keep_pool name old ss4 ss6 p =
     (case old of None \<Rightarrow> p | Some po \<Rightarrow> store_pool name (po\<lparr>po_v4 := ss4, po_v6 := ss6\<rparr>) p)"

definition fail_all :: "mp_error list \<Rightarrow> pool_allocator \<Rightarrow> pool_allocator \<times> mp_error list" where
  "fail_all es p = (if NilPanic \<in> set es then panic p else p, es)"

definition UpsertPool :: "bool \<Rightarrow> string \<Rightarrow> pool_cidr_config list \<Rightarrow> int \<Rightarrow> pool_cidr_config list \<Rightarrow> int \<Rightarrow> bool \<Rightarrow> bool \<Rightarrow>
    pool_allocator \<Rightarrow> pool_allocator \<times> mp_error list" where
  "UpsertPool room name cfg4 mask4 cfg6 mask6 allowFirst allowLast p =
     (let old = pa_pools p name;
          prev4 = (case old of None \<Rightarrow> [] | Some po \<Rightarrow> po_v4 po);
          prev6 = (case old of None \<Rightarrow> [] | Some po \<Rightarrow> po_v6 po)
      in if (case old of None \<Rightarrow> False
             | Some po \<Rightarrow> mask4 \<noteq> po_v4MaskSize po \<or> mask6 \<noteq> po_v6MaskSize po \<or> allowFirst \<noteq> po_allowFirstIP po \<or>
                          allowLast \<noteq> po_allowLastIP po)
         then (p, [CannotChangePool name])
         else case updateCIDRSets False prev4 (map fst cfg4) mask4 p of
           (p1, e1, new4, k4) \<Rightarrow>
             if e1 \<noteq> [] then (keep_pool name old (old_view room prev4 k4 new4) prev6 p1, e1)
             else case updateCIDRSets True prev6 (map fst cfg6) mask6 p1 of
               (p2, e2, new6, k6) \<Rightarrow>
                 if e2 \<noteq> [] then (keep_pool name old (old_view room prev4 k4 new4) (old_view room prev6 k6 new6) p2, e2)
                 else case setReservedRanges new4 cfg4 of
                   (res4, e3) \<Rightarrow>
                     if e3 \<noteq> [] then fail_all e3 (keep_pool name old (old_view room prev4 k4 res4) (old_view room prev6 k6 new6) p2)
                     else case setReservedRanges new6 cfg6 of
                       (res6, e4) \<Rightarrow>
                         if e4 \<noteq> [] then fail_all e4 (keep_pool name old (old_view room prev4 k4 res4) (old_view room prev6 k6 res6) p2)
                         else reconcileOrphanCIDRs name res4 res6
                           (store_pool name
                              \<lparr>po_v4 = res4, po_v6 = res6, po_v4MaskSize = mask4, po_v6MaskSize = mask6,
                               po_allowFirstIP = allowFirst, po_allowLastIP = allowLast\<rparr> p2))"

definition orphan_pool :: "string \<Rightarrow> string \<times> pool_to_cidrs \<Rightarrow> pool_allocator \<Rightarrow> pool_allocator" where
  "orphan_pool poolName x p =
     (case map_of (snd x) poolName of
        None \<Rightarrow> p
      | Some s \<Rightarrow>
          (let p1 = p\<lparr>pa_nodes := AList.update (fst x) (AList.delete poolName (pools_of (pa_nodes p) (fst x))) (pa_nodes p)\<rparr>
           in fold (\<lambda>c. markOrphan (fst x) poolName c (st_allowFirstIP s) (st_allowLastIP s)) (elems (st_v4 s) @ elems (st_v6 s)) p1))"

definition DeletePool :: "string \<Rightarrow> pool_allocator \<Rightarrow> pool_allocator \<times> mp_error list" where
  "DeletePool poolName p =
     (if Option.is_none (pa_pools p poolName) then (p, [PoolDoesNotExist poolName])
      else (let p1 = fold (orphan_pool poolName) (pa_nodes p) p in (p1\<lparr>pa_pools := (pa_pools p1)(poolName := None)\<rparr>, [])))"

section \<open>What is published\<close>

text \<open>
  Sorting, by names (byte by byte) and by \<open>netip.Prefix.Compare\<close>: the family, the masked address, the length and
  the address.
\<close>

fun insert_by :: "('a \<Rightarrow> 'a \<Rightarrow> bool) \<Rightarrow> 'a \<Rightarrow> 'a list \<Rightarrow> 'a list" where
  "insert_by lt x [] = [x]"
| "insert_by lt x (y # ys) = (if lt y x then y # insert_by lt x ys else x # y # ys)"

definition sort_by :: "('a \<Rightarrow> 'a \<Rightarrow> bool) \<Rightarrow> 'a list \<Rightarrow> 'a list" where
  "sort_by lt xs = foldr (insert_by lt) xs []"

fun string_less :: "string \<Rightarrow> string \<Rightarrow> bool" where
  "string_less [] [] = False"
| "string_less [] (_ # _) = True"
| "string_less (_ # _) [] = False"
| "string_less (a # as) (b # bs) =
     (if (of_char a :: nat) < of_char b then True else if (of_char b :: nat) < of_char a then False else string_less as bs)"

definition addr_less :: "addr \<Rightarrow> addr \<Rightarrow> bool" where
  "addr_less a b \<longleftrightarrow> addr_bitlen a < addr_bitlen b \<or> addr_bitlen a = addr_bitlen b \<and> addr_val a < addr_val b"

definition prefix_less :: "prefix \<Rightarrow> prefix \<Rightarrow> bool" where
  "prefix_less c d =
     (let a = pfx_addr (pfx_masked c); b = pfx_addr (pfx_masked d) in
      if addr_less a b then True else if addr_less b a then False
      else if pfx_bits c < pfx_bits d then True else if pfx_bits d < pfx_bits c then False
      else addr_less (pfx_addr c) (pfx_addr d))"

definition CIDRSlice :: "prefix list \<Rightarrow> prefix list" where
  "CIDRSlice cs = sort_by prefix_less cs"

text \<open>A node's CIDRs and its orphans, pool by pool.\<close>

definition pool_entry :: "pool_allocator \<Rightarrow> string \<Rightarrow> string \<Rightarrow> pool_allocation" where
  "pool_entry p node pool =
     (let a = map_of (pools_of (pa_nodes p) node) pool;
          b = map_of (pools_of (pa_orphans p) node) pool;
          s = (case a of None \<Rightarrow> zero_sets | Some s \<Rightarrow> s);
          o' = (case b of None \<Rightarrow> zero_sets | Some s \<Rightarrow> s);
          f = (if \<not> Option.is_none b \<and> no_cidrs s then o' else s)
      in \<lparr>al_Pool = pool,
          al_CIDRs = CIDRSlice (fold List.insert (elems (st_v4 o')) (elems (st_v4 s))) @
                     CIDRSlice (fold List.insert (elems (st_v6 o')) (elems (st_v6 s))),
          al_AllowFirstIP = st_allowFirstIP f, al_AllowLastIP = st_allowLastIP f\<rparr>)"

definition AllocatedPools :: "pool_allocator \<Rightarrow> string \<Rightarrow> pool_allocation list" where
  "AllocatedPools p node =
     sort_by (\<lambda>x y. string_less (al_Pool x) (al_Pool y))
       (map (pool_entry p node) (remdups (map fst (pools_of (pa_nodes p) node) @ map fst (pools_of (pa_orphans p) node))))"

end
