(* ===== verification/Multi_Pool_Invariant.thy ===== *)
theory Multi_Pool_Invariant
  imports Multi_Pool
begin

text \<open>
  The invariant of the multi-pool allocator: the used bits of a pool's CIDR sets are the CIDRs that nodes hold of the
  pool, one holder for each, and every operation keeps this, errors included, unless it panics.
\<close>

section \<open>The allocators of a family and what nodes hold of them\<close>

definition same_range :: "cidr_set \<Rightarrow> cidr_set \<Rightarrow> bool" where
  "same_range s t \<longleftrightarrow> cs_clusterPrefix t = cs_clusterPrefix s \<and> cs_nodeMaskSize t = cs_nodeMaskSize s \<and>
     cs_maxCIDRs t = cs_maxCIDRs s"

lemma same_rangeD:
  assumes "same_range s t"
  shows "cs_blocks t c = cs_blocks s c" "cs_InRange t c = cs_InRange s c" "cs_clusterPrefix t = cs_clusterPrefix s"
    "cs_nodeMaskSize t = cs_nodeMaskSize s"
  using assms by (simp_all add: same_range_def cs_blocks_def cs_InRange_def indexToCIDRBlock_cong [of t s])

lemma cs_same_range: "cs_same s t \<Longrightarrow> same_range s t"
  by (simp add: cs_same_def same_range_def)

lemma held_disjoint:
  assumes "cs_geometry s" "fits (cs_nodeMaskSize s) c" "cs_InRange s c"
    and "cs_geometry t" "pfx_disjoint (cs_clusterPrefix s) (cs_clusterPrefix t)"
  shows "\<not> cs_InRange t c"
proof
  assume "cs_InRange t c"
  then consider "pfx_contains (cs_clusterPrefix t) (pfx_addr c)" | "pfx_contains c (pfx_addr (cs_clusterPrefix t))"
    by (auto simp: cs_InRange_def)
  then show False
  proof cases
    case 1
    with fits_block(1) [OF assms(1-3)] assms(5) show False by (auto simp: pfx_disjoint_def)
  next
    case 2
    let ?a = "pfx_addr (cs_clusterPrefix t)"
    have "pfx_contains (cs_clusterPrefix s) ?a"
      using fits_block(3) [OF assms(1-3) 2] cs_block_contains [OF assms(1) fits_block(2) [OF assms(1-3)]] by simp
    moreover have "pfx_contains (cs_clusterPrefix t) ?a" using assms(4) by (intro pfx_contains_self) (simp_all add: cs_geometry_def)
    ultimately show False using assms(5) by (auto simp: pfx_disjoint_def)
  qed
qed

lemma blocks_fit:
  assumes "cs_geometry s" "fits (cs_nodeMaskSize s) c"
  shows "cs_blocks s c = (if cs_InRange s c then {cs_index s (pfx_addr c)} else {})"
proof (cases "cs_InRange s c")
  case False
  have c: "pfx_wf c" "pfx_is_masked c" using assms(2) by (simp_all add: fits_def)
  have "pfx_disjoint (cs_clusterPrefix s) (pfx_masked c)"
    using not_InRange_disjoint [OF False] assms(1) c by (simp add: cs_geometry_def)
  then have "\<not> (pfx_contains (cs_clusterPrefix s) a \<and> pfx_contains c a)" for a
    using pfx_contains_masked [OF c(1)] by (simp add: pfx_disjoint_def)
  then show ?thesis using False by (auto simp: cs_blocks_eq [OF assms(1)])
qed (simp add: fits_block(4) [OF assms])

text \<open>
  The used bits of an allocator are those of the CIDRs that nodes hold of it, each bit of one of them.
\<close>

type_synonym holders = "(string \<times> prefix) set"

definition set_books :: "holders \<Rightarrow> cidr_set \<Rightarrow> bool" where
  "set_books H s \<longleftrightarrow> bits_of (cs_used s) = (\<Union>h \<in> H. cs_blocks s (snd h)) \<and>
     (\<forall>h \<in> H. \<forall>h' \<in> H. h \<noteq> h' \<longrightarrow> cs_blocks s (snd h) \<inter> cs_blocks s (snd h') = {})"

definition fam_sets :: "bool \<Rightarrow> int \<Rightarrow> prefix set \<Rightarrow> cidr_set list \<Rightarrow> bool" where
  "fam_sets v6 msk own ts \<longleftrightarrow>
     (\<forall>s \<in> set ts. cs_inv s \<and> cs_nodeMaskSize s = msk \<and> addr_is4 (pfx_addr (cs_clusterPrefix s)) = (\<not> v6) \<and> cs_clusterPrefix s \<in> own) \<and>
     distinct (map cs_clusterPrefix ts)"

definition fit_fam :: "bool \<Rightarrow> int \<Rightarrow> prefix \<Rightarrow> bool" where
  "fit_fam v6 msk c \<longleftrightarrow> fits msk c \<and> addr_is4 (pfx_addr c) = (\<not> v6)"

definition fam_ok :: "bool \<Rightarrow> int \<Rightarrow> prefix set \<Rightarrow> holders \<Rightarrow> cidr_set list \<Rightarrow> bool" where
  "fam_ok v6 msk own H ts \<longleftrightarrow> fam_sets v6 msk own ts \<and>
     (\<forall>h \<in> H. fit_fam v6 msk (snd h) \<and> (\<exists>s \<in> set ts. cs_InRange s (snd h))) \<and> (\<forall>s \<in> set ts. set_books H s)"

definition apart :: "prefix set \<Rightarrow> bool" where
  "apart own \<longleftrightarrow> (\<forall>q \<in> own. \<forall>r \<in> own. q \<noteq> r \<longrightarrow> pfx_disjoint q r)"

lemma fam_setsD:
  assumes "fam_sets v6 msk own ts" "s \<in> set ts"
  shows "cs_inv s" "cs_geometry s" "cs_nodeMaskSize s = msk" "addr_is4 (pfx_addr (cs_clusterPrefix s)) = (\<not> v6)"
    "cs_clusterPrefix s \<in> own"
  using assms cs_invD(1) by (auto simp: fam_sets_def)

lemma one_range:
  assumes "apart own" "cs_clusterPrefix s \<in> own" "cs_clusterPrefix t \<in> own" "cs_clusterPrefix s \<noteq> cs_clusterPrefix t"
    "cs_geometry s" "cs_geometry t" "fits (cs_nodeMaskSize s) c" "cs_InRange s c"
  shows "\<not> cs_InRange t c"
  using assms by (intro held_disjoint [of s c t]) (auto simp: apart_def)

lemma set_books_cong:
  assumes "set_books H s" "\<And>h. h \<in> H - H' \<union> (H' - H) \<Longrightarrow> cs_blocks s (snd h) = {}"
  shows "set_books H' s"
proof -
  have e: "cs_blocks s (snd h) = {}" if "h \<in> H \<and> h \<notin> H' \<or> h \<in> H' \<and> h \<notin> H" for h using that assms(2) [of h] by blast
  have "(\<Union>h \<in> H'. cs_blocks s (snd h)) = (\<Union>h \<in> H. cs_blocks s (snd h))" using e by blast
  moreover have "cs_blocks s (snd h) \<inter> cs_blocks s (snd h') = {}" if "h \<in> H'" "h' \<in> H'" "h \<noteq> h'" for h h'
    using that e [of h] e [of h'] assms(1) by (cases "h \<in> H"; cases "h' \<in> H") (auto simp: set_books_def)
  ultimately show ?thesis using assms(1) by (simp add: set_books_def)
qed

text \<open>One allocator changes, and with it what is held of it.\<close>

lemma fam_replace:
  assumes "apart own" "fam_ok v6 msk own H (xs @ s # ys)" "cs_inv t" "same_range s t" "set_books H' t"
    and "\<And>h. h \<in> H - H' \<union> (H' - H) \<Longrightarrow> fit_fam v6 msk (snd h) \<and> cs_InRange s (snd h)"
  shows "fam_ok v6 msk own H' (xs @ t # ys)"
proof -
  let ?ts = "xs @ s # ys"
  have f: "fam_sets v6 msk own ?ts" "\<And>h. h \<in> H \<Longrightarrow> fit_fam v6 msk (snd h) \<and> (\<exists>s \<in> set ?ts. cs_InRange s (snd h))"
    "\<And>u. u \<in> set ?ts \<Longrightarrow> set_books H u" using assms(2) unfolding fam_ok_def by blast+
  note r = same_rangeD [OF assms(4)] and d = fam_setsD [OF f(1)]
  have sets: "fam_sets v6 msk own (xs @ t # ys)" using f(1) assms(3) r(3,4) by (auto simp: fam_sets_def)
  have "set_books H' u" if u: "u \<in> set xs \<union> set ys" for u
  proof (rule set_books_cong [of H])
    have u': "u \<in> set ?ts" "cs_clusterPrefix s \<noteq> cs_clusterPrefix u" using u f(1) by (auto simp: fam_sets_def)
    show "set_books H u" by (rule f(3) [OF u'(1)])
    fix h assume h: "h \<in> H - H' \<union> (H' - H)"
    have "\<not> cs_InRange u (snd h)"
      using one_range [OF assms(1) _ _ u'(2), of "snd h"] d [of s] d [OF u'(1)] assms(6) [OF h] by (simp add: fit_fam_def)
    then show "cs_blocks u (snd h) = {}"
      using blocks_fit [of u "snd h"] d [OF u'(1)] assms(6) [OF h] by (simp add: fit_fam_def)
  qed
  moreover have "fit_fam v6 msk (snd h) \<and> (\<exists>s \<in> set (xs @ t # ys). cs_InRange s (snd h))" if "h \<in> H'" for h
    using f(2) [of h] assms(6) [of h] that r(2) [of "snd h"] by (cases "h \<in> H") auto
  ultimately show ?thesis using sets assms(5) by (auto simp: fam_ok_def)
qed

lemma fam_replace_insert:
  assumes "apart own" "fam_ok v6 msk own H (xs @ s # ys)" "cs_inv t" "same_range s t" "set_books (insert h H) t"
    "fit_fam v6 msk (snd h)" "cs_InRange s (snd h)"
  shows "fam_ok v6 msk own (insert h H) (xs @ t # ys)"
  by (rule fam_replace [OF assms(1-5)]) (use assms(6,7) in blast)

lemma fam_replace_remove:
  assumes "apart own" "fam_ok v6 msk own H (xs @ s # ys)" "cs_inv t" "same_range s t" "set_books (H - {h}) t"
    "fit_fam v6 msk (snd h)" "cs_InRange s (snd h)"
  shows "fam_ok v6 msk own (H - {h}) (xs @ t # ys)"
  by (rule fam_replace [OF assms(1-5)]) (use assms(6,7) in blast)

lemma books_insert:
  assumes "set_books H s" "same_range s t" "cs_blocks s (snd h) = {i}" "i \<notin> bits_of (cs_used s)"
    "bits_of (cs_used t) = insert i (bits_of (cs_used s))"
  shows "set_books (insert h H) t" "h \<notin> H"
proof -
  have b: "cs_blocks t c = cs_blocks s c" for c by (rule same_rangeD(1) [OF assms(2)])
  have n: "i \<notin> cs_blocks s (snd h')" if "h' \<in> H" for h' using that assms(1,4) by (auto simp: set_books_def)
  show "h \<notin> H" using n [of h] assms(3) by auto
  show "set_books (insert h H) t" using assms(1,3,5) n by (auto simp: set_books_def b)
qed

lemma books_remove:
  assumes "set_books H s" "same_range s t" "cs_blocks s (snd h) = {i}" "h \<in> H" "bits_of (cs_used t) = bits_of (cs_used s) - {i}"
  shows "set_books (H - {h}) t"
proof -
  have b: "cs_blocks t c = cs_blocks s c" for c by (rule same_rangeD(1) [OF assms(2)])
  have n: "i \<notin> cs_blocks s (snd h')" if "h' \<in> H - {h}" for h' using that assms(1,3,4) by (fastforce simp: set_books_def)
  have "(\<Union>h \<in> H. cs_blocks s (snd h)) - {i} = (\<Union>h \<in> H - {h}. cs_blocks s (snd h))" using n assms(3,4) by auto
  then show ?thesis using assms(1,5) by (simp add: set_books_def b)
qed

section \<open>Operations on a slice of allocators\<close>

lemma somes_at [simp]: "somes (map Some xs @ ys) = xs @ somes ys"
  by (induction xs) simp_all

lemma somes_map [simp]: "somes (map Some xs) = xs"
  using somes_at [of xs "[]"] by simp

lemma slice_occupy_at:
  assumes "slice_occupyCIDR ss c = Inr ss'"
  shows "\<exists>xs s t ys. ss = map Some xs @ Some s # ys \<and> ss' = map Some xs @ Some t # ys \<and> cs_InRange s c \<and>
    cs_IsAllocated s c = Inr False \<and> cs_Occupy s c = Inr t"
  using assms
proof (induction ss c arbitrary: ss' rule: slice_occupyCIDR.induct)
  case (3 s ss c)
  show ?case
  proof (cases "cs_InRange s c")
    case True
    with 3(2) obtain t where "ss' = Some t # ss" "cs_IsAllocated s c = Inr False" "cs_Occupy s c = Inr t"
      by (auto split: sum.splits if_splits)
    with True show ?thesis by (intro exI [of _ "[]"] exI [of _ s] exI [of _ t] exI [of _ ss]) simp
  next
    case False
    with 3(2) obtain ss1 where o: "slice_occupyCIDR ss c = Inr ss1" "ss' = Some s # ss1" by (auto split: sum.splits)
    from 3(1) [OF False o(1)] obtain xs s1 t ys where "ss = map Some xs @ Some s1 # ys \<and> ss1 = map Some xs @ Some t # ys \<and>
      cs_InRange s1 c \<and> cs_IsAllocated s1 c = Inr False \<and> cs_Occupy s1 c = Inr t" by blast
    with o(2) show ?thesis by (intro exI [of _ "s # xs"] exI [of _ s1] exI [of _ t] exI [of _ ys]) simp
  qed
qed simp_all

lemma slice_release_at:
  assumes "slice_releaseCIDR ss c = Inr ss'"
  shows "\<exists>xs s t ys. ss = map Some xs @ Some s # ys \<and> ss' = map Some xs @ Some t # ys \<and> cs_InRange s c \<and>
    (cs_IsAllocated s c = Inr False \<and> t = s \<or> cs_IsAllocated s c = Inr True \<and> cs_Release s c = Inr t)"
  using assms
proof (induction ss c arbitrary: ss' rule: slice_releaseCIDR.induct)
  case (3 s ss c)
  show ?case
  proof (cases "cs_InRange s c")
    case True
    with 3(2) obtain t where "ss' = Some t # ss"
      "cs_IsAllocated s c = Inr False \<and> t = s \<or> cs_IsAllocated s c = Inr True \<and> cs_Release s c = Inr t"
      by (auto split: sum.splits if_splits)
    with True show ?thesis by (intro exI [of _ "[]"] exI [of _ s] exI [of _ t] exI [of _ ss]) simp
  next
    case False
    with 3(2) obtain ss1 where o: "slice_releaseCIDR ss c = Inr ss1" "ss' = Some s # ss1" by (auto split: sum.splits)
    from 3(1) [OF False o(1)] obtain xs s1 t ys where "ss = map Some xs @ Some s1 # ys \<and> ss1 = map Some xs @ Some t # ys \<and>
      cs_InRange s1 c \<and> (cs_IsAllocated s1 c = Inr False \<and> t = s1 \<or> cs_IsAllocated s1 c = Inr True \<and> cs_Release s1 c = Inr t)" by blast
    with o(2) show ?thesis by (intro exI [of _ "s # xs"] exI [of _ s1] exI [of _ t] exI [of _ ys]) simp
  qed
qed simp_all

lemma first_free_at:
  assumes "allocFirstFreeCIDR ss = Inr (ss', c)"
  shows "\<exists>xs s t ys. ss = map Some xs @ Some s # ys \<and> ss' = map Some xs @ Some t # ys \<and> cs_AllocateNext s = Inr (t, c)"
  using assms
proof (induction ss arbitrary: ss' rule: allocFirstFreeCIDR.induct)
  case (3 s ss)
  show ?case
  proof (cases "cs_IsFull s")
    case True
    with 3(2) obtain ss1 where o: "allocFirstFreeCIDR ss = Inr (ss1, c)" "ss' = Some s # ss1" by (auto split: sum.splits)
    from 3(1) [OF True o(1)] obtain xs s1 t ys where "ss = map Some xs @ Some s1 # ys \<and> ss1 = map Some xs @ Some t # ys \<and>
      cs_AllocateNext s1 = Inr (t, c)" by blast
    with o(2) show ?thesis by (intro exI [of _ "s # xs"] exI [of _ s1] exI [of _ t] exI [of _ ys]) simp
  next
    case False
    with 3(2) obtain t where "ss' = Some t # ss" "cs_AllocateNext s = Inr (t, c)" by (auto split: sum.splits)
    then show ?thesis by (intro exI [of _ "[]"] exI [of _ s] exI [of _ t] exI [of _ ss]) simp
  qed
qed simp_all

lemma fam_occupy:
  assumes "apart own" "fam_ok v6 msk own H (somes ss)" "fit_fam v6 msk c" "slice_occupyCIDR ss c = Inr ss'"
  shows "fam_ok v6 msk own (insert (n, c) H) (somes ss')" "(n, c) \<notin> H"
proof -
  obtain xs s t ys where a: "ss = map Some xs @ Some s # ys" "ss' = map Some xs @ Some t # ys" "cs_InRange s c"
    "cs_IsAllocated s c = Inr False" "cs_Occupy s c = Inr t" using slice_occupy_at [OF assms(4)] by blast
  have f: "fam_ok v6 msk own H (xs @ s # somes ys)" using assms(2) a(1) by simp
  then have s: "cs_inv s" "cs_nodeMaskSize s = msk" "set_books H s" by (simp_all add: fam_ok_def fam_sets_def)
  have c: "fits (cs_nodeMaskSize s) c" using assms(3) s(2) by (simp add: fit_fam_def)
  let ?i = "cs_index s (pfx_addr c)"
  have t: "cs_inv t" "cs_same s t" "bits_of (cs_used t) = insert ?i (bits_of (cs_used s))" "?i \<notin> bits_of (cs_used s)"
    using cs_ops_fit [OF s(1) c a(3)] a(4,5) by (metis Inr_inject)+
  have b: "cs_blocks s (snd (n, c)) = {?i}" using fits_block(4) [OF cs_invD(1) [OF s(1)] c a(3)] by simp
  note r = cs_same_range [OF t(2)]
  show "(n, c) \<notin> H" by (rule books_insert(2) [OF s(3) r b t(4,3)])
  show "fam_ok v6 msk own (insert (n, c) H) (somes ss')"
    using fam_replace_insert [OF assms(1) f t(1) r books_insert(1) [OF s(3) r b t(4,3)]] assms(3) a(2,3) by simp
qed

lemma fam_release:
  assumes "apart own" "fam_ok v6 msk own H (somes ss)" "(n, c) \<in> H" "slice_releaseCIDR ss c = Inr ss'"
  shows "fam_ok v6 msk own (H - {(n, c)}) (somes ss')"
proof -
  obtain xs s t ys where a: "ss = map Some xs @ Some s # ys" "ss' = map Some xs @ Some t # ys" "cs_InRange s c"
    "cs_IsAllocated s c = Inr False \<and> t = s \<or> cs_IsAllocated s c = Inr True \<and> cs_Release s c = Inr t"
    using slice_release_at [OF assms(4)] by blast
  have f: "fam_ok v6 msk own H (xs @ s # somes ys)" using assms(2) a(1) by simp
  then have s: "cs_inv s" "cs_nodeMaskSize s = msk" "set_books H s" by (simp_all add: fam_ok_def fam_sets_def)
  have ff: "fit_fam v6 msk c" using f assms(3) by (auto simp: fam_ok_def)
  then have c: "fits (cs_nodeMaskSize s) c" using s(2) by (simp add: fit_fam_def)
  let ?i = "cs_index s (pfx_addr c)"
  have b: "cs_blocks s (snd (n, c)) = {?i}" using fits_block(4) [OF cs_invD(1) [OF s(1)] c a(3)] by simp
  then have u: "?i \<in> bits_of (cs_used s)" using s(3) assms(3) unfolding set_books_def by blast
  obtain t' where t': "cs_Release s c = Inr t'" "cs_inv t'" "cs_same s t'" "bits_of (cs_used t') = bits_of (cs_used s) - {?i}"
    "cs_IsAllocated s c = Inr (?i \<in> bits_of (cs_used s))" by (rule cs_ops_fit [OF s(1) c a(3)]) blast
  then have t: "t = t'" using a(4) u by auto
  note r = cs_same_range [OF t'(3)]
  show ?thesis
    using fam_replace_remove [OF assms(1) f t'(2) r books_remove [OF s(3) r b assms(3) t'(4)]] ff a(2,3) t by simp
qed

lemma release_total:
  assumes "fam_sets v6 msk own (somes ss)" "fits msk c" "\<exists>s \<in> set (somes ss). cs_InRange s c"
  shows "slice_releaseCIDR ss c = Inl NilPanic \<or> (\<exists>ss'. slice_releaseCIDR ss c = Inr ss')"
  using assms
proof (induction ss c rule: slice_releaseCIDR.induct)
  case (3 s ss c)
  have s: "cs_inv s" "cs_nodeMaskSize s = msk" "fam_sets v6 msk own (somes ss)" using 3(2) by (auto simp: fam_sets_def)
  show ?case
  proof (cases "cs_InRange s c")
    case True
    obtain t where "cs_Release s c = Inr t" "cs_IsAllocated s c = Inr (cs_index s (pfx_addr c) \<in> bits_of (cs_used s))"
      using cs_ops_fit [OF s(1) _ True] 3(3) s(2) by metis
    with True show ?thesis by simp
  next
    case False
    with 3(1) [OF False s(3) 3(3)] 3(4) show ?thesis by auto
  qed
qed simp_all

lemma fam_next:
  assumes "apart own" "fam_ok v6 msk own H (somes ss)" "allocFirstFreeCIDR ss = Inr (ss', c)"
  shows "fam_ok v6 msk own (insert (n, c) H) (somes ss')" "(n, c) \<notin> H" "fit_fam v6 msk c"
proof -
  obtain xs s t ys where a: "ss = map Some xs @ Some s # ys" "ss' = map Some xs @ Some t # ys" "cs_AllocateNext s = Inr (t, c)"
    using first_free_at [OF assms(3)] by blast
  have f: "fam_ok v6 msk own H (xs @ s # somes ys)" using assms(2) a(1) by simp
  then have s: "cs_inv s" "cs_nodeMaskSize s = msk" "set_books H s" "addr_is4 (pfx_addr (cs_clusterPrefix s)) = (\<not> v6)"
    by (simp_all add: fam_ok_def fam_sets_def)
  obtain i where i: "i < cs_maxCIDRs s" "i \<notin> cs_taken s" "c = indexToCIDRBlock s i" "cs_inv t" "cs_same s t"
    "bits_of (cs_used t) = insert i (bits_of (cs_used s))" by (rule cs_AllocateNext_Inr [OF s(1) a(3)])
  note g = cs_invD(1) [OF s(1)]
  note b = cs_block [OF g i(1)]
  have "addr_is4 (pfx_addr c) = (\<not> v6)"
    using b(5) s(4) unfolding i(3) by (cases "pfx_addr (cs_clusterPrefix s)"; cases "pfx_addr (indexToCIDRBlock s i)") auto
  then show ff: "fit_fam v6 msk c" using b(1,2,3) s(2) by (simp add: fit_fam_def fits_def i(3))
  have bl: "cs_blocks s (snd (n, c)) = {i}" using cs_blocks_block [OF g i(1)] i(3) by simp
  have u: "i \<notin> bits_of (cs_used s)" using i(2) by (simp add: cs_taken_def)
  note r = cs_same_range [OF i(5)]
  show "(n, c) \<notin> H" by (rule books_insert(2) [OF s(3) r bl u i(6)])
  show "fam_ok v6 msk own (insert (n, c) H) (somes ss')"
    using fam_replace_insert [OF assms(1) f i(4) r books_insert(1) [OF s(3) r bl u i(6)]] ff cs_block_InRange [OF g i(1)] a(2) i(3) by simp
qed

section \<open>What nodes hold\<close>

text \<open>A CIDR of a family, under a pool's name, of a node.\<close>

type_synonym item = "bool \<times> string \<times> string \<times> prefix"

definition items :: "(string \<times> pool_to_cidrs) list \<Rightarrow> item set" where
  "items M = {(w, q, n, c). c \<in> set (family_elems w (sets_of M n q))}"

definition section_of :: "item set \<Rightarrow> bool \<Rightarrow> string \<Rightarrow> holders" where
  "section_of H w q = {(n, c). (w, q, n, c) \<in> H}"

definition item_of :: "string \<Rightarrow> string \<Rightarrow> prefix \<Rightarrow> item" where
  "item_of n q c = (\<not> addr_is4 (pfx_addr c), q, n, c)"

definition sets_wf :: "mp_sets \<Rightarrow> bool" where
  "sets_wf s \<longleftrightarrow> (\<exists>a b. st_v4 s = Some a \<and> st_v6 s = Some b \<and> distinct a \<and> distinct b)"

definition maps_wf :: "(string \<times> pool_to_cidrs) list \<Rightarrow> bool" where
  "maps_wf M \<longleftrightarrow> distinct (map fst M) \<and> (\<forall>x \<in> set M. distinct (map fst (snd x)) \<and> (\<forall>y \<in> set (snd x). sets_wf (snd y)))"

lemma sets_of_put [simp]: "sets_of (put_sets M n q s) n' q' = (if n' = n \<and> q' = q then s else sets_of M n' q')"
  by (simp add: sets_of_def put_sets_def pools_of_def AList.update_conv')

lemma pools_of_update [simp]: "pools_of (AList.update n ps M) n' = (if n' = n then ps else pools_of M n')"
  by (simp add: pools_of_def AList.update_conv')

lemma pools_of_delete [simp]: "pools_of (AList.delete n M) n' = (if n' = n then [] else pools_of M n')"
  by (simp add: pools_of_def AList.delete_conv')

lemma sets_of_remove [simp]:
  "sets_of (AList.update n (AList.delete q (pools_of M n)) M) n' q' = (if n' = n \<and> q' = q then zero_sets else sets_of M n' q')"
  by (simp add: sets_of_def AList.delete_conv')

lemma sets_of_delete [simp]: "sets_of (AList.delete n M) n' q' = (if n' = n then zero_sets else sets_of M n' q')"
  by (simp add: sets_of_def)

lemma family_elems_zero [simp]: "family_elems w zero_sets = []"
  by (simp add: family_elems_def zero_sets_def elems_def)

lemma family_elems_fresh [simp]: "family_elems w (fresh_sets a b) = []"
  by (simp add: family_elems_def fresh_sets_def elems_def)

lemma set_update_subset: "set (AList.update k v al) \<subseteq> insert (k, v) (set al)"
  by (induction al) auto

lemma set_delete_subset: "set (AList.delete k al) \<subseteq> set al"
  by (auto simp: AList.delete_eq)

lemma pools_of_cases: "pools_of M n = [] \<or> (n, pools_of M n) \<in> set M"
  by (auto simp: pools_of_def split: option.split dest: map_of_SomeD)

lemma maps_wf_pools: "maps_wf M \<Longrightarrow> distinct (map fst (pools_of M n)) \<and> (\<forall>y \<in> set (pools_of M n). sets_wf (snd y))"
  using pools_of_cases [of M n] by (fastforce simp: maps_wf_def)

lemma maps_wf_update:
  assumes "maps_wf M" "distinct (map fst ps)" "\<And>y. y \<in> set ps \<Longrightarrow> sets_wf (snd y)"
  shows "maps_wf (AList.update n ps M)"
proof -
  have "distinct (map fst (snd x)) \<and> (\<forall>y \<in> set (snd x). sets_wf (snd y))" if "x \<in> set (AList.update n ps M)" for x
    using that set_update_subset [of n ps M] assms by (cases "x = (n, ps)") (auto simp: maps_wf_def)
  moreover have "distinct (map fst (AList.update n ps M))" using assms(1) by (simp add: maps_wf_def AList.distinct_update)
  ultimately show ?thesis unfolding maps_wf_def by blast
qed

lemma maps_wf_put:
  assumes "maps_wf M" "sets_wf s"
  shows "maps_wf (put_sets M n q s)"
  unfolding put_sets_def
proof (rule maps_wf_update [OF assms(1)])
  show "distinct (map fst (AList.update q s (pools_of M n)))" using maps_wf_pools [OF assms(1)] by (simp add: AList.distinct_update)
  show "sets_wf (snd y)" if "y \<in> set (AList.update q s (pools_of M n))" for y
    using that set_update_subset [of q s "pools_of M n"] maps_wf_pools [OF assms(1), of n] assms(2) by auto
qed

lemma maps_wf_remove: "maps_wf M \<Longrightarrow> maps_wf (AList.update n (AList.delete q (pools_of M n)) M)"
  using maps_wf_pools [of M n] set_delete_subset [of q "pools_of M n"]
  by (intro maps_wf_update) (auto simp: AList.distinct_delete)

lemma maps_wf_delete: "maps_wf M \<Longrightarrow> maps_wf (AList.delete n M)"
  using set_delete_subset [of n M] by (auto simp: maps_wf_def AList.distinct_delete)

lemma sets_of_wf: "maps_wf M \<Longrightarrow> map_of (pools_of M n) q = Some s \<Longrightarrow> sets_wf s"
  using maps_wf_pools [of M n] by (auto dest: map_of_SomeD)

text \<open>The entries of the maps are what a lookup finds.\<close>

lemma maps_wf_entry:
  assumes "maps_wf M" "(n, ps) \<in> set M"
  shows "pools_of M n = ps" "(q, s) \<in> set ps \<Longrightarrow> sets_of M n q = s"
proof -
  show p: "pools_of M n = ps" using assms by (simp add: pools_of_def maps_wf_def)
  show "(q, s) \<in> set ps \<Longrightarrow> sets_of M n q = s" using maps_wf_pools [OF assms(1), of n] p by (simp add: sets_of_def)
qed

lemma wf_family: "pfx_wf c \<Longrightarrow> (\<exists>a. pfx_addr c = V4 a) \<or> (\<exists>a z. pfx_addr c = V6 a z)"
  by (cases "pfx_addr c") (auto simp: pfx_wf_def)

lemma has_cidr_family: "pfx_wf c \<Longrightarrow> has_cidr s c \<longleftrightarrow> c \<in> set (family_elems (\<not> addr_is4 (pfx_addr c)) s)"
  using wf_family [of c] by (auto simp: has_cidr_def family_elems_def)

lemma isAllocated_item: "pfx_wf c \<Longrightarrow> isAllocated p n q c \<longleftrightarrow> item_of n q c \<in> items (pa_nodes p)"
  by (simp add: isAllocated_def has_cidr_family items_def item_of_def)

lemma add_cidr_wf:
  assumes "pfx_wf c" "sets_wf s"
  shows "\<exists>s'. add_cidr c s = Some s' \<and> sets_wf s' \<and>
    (\<forall>w. family_elems w s' = (if w = (\<not> addr_is4 (pfx_addr c)) then List.insert c (family_elems w s) else family_elems w s)) \<and>
    st_allowFirstIP s' = st_allowFirstIP s \<and> st_allowLastIP s' = st_allowLastIP s"
  using wf_family [OF assms(1)] assms(2) by (auto simp: add_cidr_def sets_wf_def family_elems_def elems_def)

lemma del_cidr_wf:
  assumes "pfx_wf c"
  shows "sets_wf s \<Longrightarrow> sets_wf (del_cidr c s)"
    "family_elems w (del_cidr c s) = (if w = (\<not> addr_is4 (pfx_addr c)) then removeAll c (family_elems w s) else family_elems w s)"
  using wf_family [OF assms]
  by (auto simp: del_cidr_def sets_wf_def family_elems_def elems_def distinct_removeAll split: option.splits)

lemma del_family_wf:
  "sets_wf s \<Longrightarrow> sets_wf (del_family v6 c s)"
  "family_elems w (del_family v6 c s) = (if w = v6 then removeAll c (family_elems w s) else family_elems w s)"
  by (auto simp: del_family_def sets_wf_def family_elems_def elems_def distinct_removeAll split: option.splits)

lemma no_cidrs_family: "no_cidrs s \<Longrightarrow> family_elems w s = []"
  by (simp add: no_cidrs_def family_elems_def)

lemma markAllocated_spec:
  assumes "maps_wf (pa_nodes p)" "pfx_wf c"
  obtains M where "markAllocated n q c p = p\<lparr>pa_nodes := M\<rparr>" "maps_wf M" "items M = insert (item_of n q c) (items (pa_nodes p))"
    "family_elems (\<not> addr_is4 (pfx_addr c)) (sets_of M n q) = List.insert c (family_elems (\<not> addr_is4 (pfx_addr c)) (sets_of (pa_nodes p) n q))"
    "\<And>w n' q'. (w, n', q') \<noteq> (\<not> addr_is4 (pfx_addr c), n, q) \<Longrightarrow> family_elems w (sets_of M n' q') = family_elems w (sets_of (pa_nodes p) n' q')"
proof -
  let ?M = "pa_nodes p" and ?w = "\<not> addr_is4 (pfx_addr c)"
  obtain s where s: "sets_wf s" "\<And>w. family_elems w s = family_elems w (sets_of ?M n q)"
    "markAllocated n q c p = (case add_cidr c s of None \<Rightarrow> panic p | Some s' \<Rightarrow> p\<lparr>pa_nodes := put_sets ?M n q s'\<rparr>)"
  proof (cases "map_of (pools_of ?M n) q")
    case None
    let ?s = "case pa_pools p q of None \<Rightarrow> fresh_sets False False | Some po \<Rightarrow> fresh_sets (po_allowFirstIP po) (po_allowLastIP po)"
    show ?thesis by (rule that [of ?s]) (use None in \<open>auto simp: markAllocated_def sets_of_def sets_wf_def fresh_sets_def
      family_elems_def elems_def zero_sets_def split: option.split\<close>)
  next
    case (Some s)
    show ?thesis by (rule that [of s]) (use Some sets_of_wf [OF assms(1) Some] in \<open>auto simp: markAllocated_def sets_of_def\<close>)
  qed
  obtain s' where s': "add_cidr c s = Some s'" "sets_wf s'"
    "\<And>w. family_elems w s' = (if w = ?w then List.insert c (family_elems w s) else family_elems w s)"
    using add_cidr_wf [OF assms(2) s(1)] by blast
  show ?thesis
  proof (rule that [of "put_sets ?M n q s'"])
    show "markAllocated n q c p = p\<lparr>pa_nodes := put_sets ?M n q s'\<rparr>" using s(3) s'(1) by simp
    show "maps_wf (put_sets ?M n q s')" by (rule maps_wf_put [OF assms(1) s'(2)])
    show "items (put_sets ?M n q s') = insert (item_of n q c) (items ?M)"
      using s(2) s'(3) by (auto simp: items_def item_of_def split: if_splits)
    show "family_elems ?w (sets_of (put_sets ?M n q s') n q) = List.insert c (family_elems ?w (sets_of ?M n q))"
      using s(2) s'(3) by simp
    show "family_elems w (sets_of (put_sets ?M n q s') n' q') = family_elems w (sets_of ?M n' q')"
      if "(w, n', q') \<noteq> (?w, n, q)" for w n' q' using that s(2) s'(3) by auto
  qed
qed

lemma items_remove:
  assumes "\<And>n' q'. (n', q') \<noteq> (n, q) \<Longrightarrow> sets_of M' n' q' = sets_of M n' q'"
    and "\<And>w. family_elems w (sets_of M' n q) = (if w = v6 then removeAll c (family_elems w (sets_of M n q)) else family_elems w (sets_of M n q))"
  shows "items M' = items M - {(v6, q, n, c)}"
proof (rule set_eqI)
  fix x :: item
  obtain w q' n' c' where x: "x = (w, q', n', c')" by (cases x)
  show "x \<in> items M' \<longleftrightarrow> x \<in> items M - {(v6, q, n, c)}"
    unfolding x using assms(1) [of n' q'] assms(2) [of w] by (cases "(n', q') = (n, q)") (auto simp: items_def)
qed

lemma markReleased_spec:
  assumes "maps_wf (pa_nodes p)" "pfx_wf c" "isAllocated p n q c"
  obtains M where "markReleased n q c p = p\<lparr>pa_nodes := M\<rparr>" "maps_wf M" "items M = items (pa_nodes p) - {item_of n q c}"
proof -
  let ?M = "pa_nodes p" and ?w = "\<not> addr_is4 (pfx_addr c)"
  obtain s where s: "map_of (pools_of ?M n) q = Some s"
    using assms(2,3) by (cases "map_of (pools_of ?M n) q") (auto simp: isAllocated_def has_cidr_family sets_of_def)
  then have so: "sets_of ?M n q = s" by (simp add: sets_of_def)
  note d = del_cidr_wf(1) [OF assms(2), of s] del_cidr_wf(2) [OF assms(2), of _ s]
  show ?thesis
  proof (cases "no_cidrs (del_cidr c s)")
    case True
    have "items (AList.update n (AList.delete q (pools_of ?M n)) ?M) = items ?M - {item_of n q c}"
      unfolding item_of_def
    proof (rule items_remove)
      fix w
      show "family_elems w (sets_of (AList.update n (AList.delete q (pools_of ?M n)) ?M) n q) =
        (if w = ?w then removeAll c (family_elems w (sets_of ?M n q)) else family_elems w (sets_of ?M n q))"
        unfolding so d(2) [symmetric] no_cidrs_family [OF True] by simp
    qed auto
    with True s maps_wf_remove [OF assms(1)] show ?thesis by (intro that) (auto simp: markReleased_def)
  next
    case False
    have "items (put_sets ?M n q (del_cidr c s)) = items ?M - {item_of n q c}"
      unfolding item_of_def by (rule items_remove) (auto simp: so d(2))
    with False s maps_wf_put [OF assms(1) d(1) [OF sets_of_wf [OF assms(1) s]]] show ?thesis
      by (intro that) (auto simp: markReleased_def Let_def)
  qed
qed

section \<open>The invariant\<close>

text \<open>
  A plan says which CIDRs a pool may have over time and its mask sizes. CIDRs of the plan do not overlap, within a
  pool and between pools.
\<close>

definition plan_ok :: "(string \<Rightarrow> prefix set) \<Rightarrow> bool" where
  "plan_ok own \<longleftrightarrow> (\<forall>P Q. \<forall>q \<in> own P. \<forall>r \<in> own Q. (P, q) \<noteq> (Q, r) \<longrightarrow> pfx_disjoint q r)"

lemma plan_apart: "plan_ok own \<Longrightarrow> apart (own P)"
  by (auto simp: plan_ok_def apart_def)

definition books_ok :: "(string \<Rightarrow> prefix set) \<Rightarrow> (bool \<Rightarrow> string \<Rightarrow> int) \<Rightarrow> item set \<Rightarrow> (string \<rightharpoonup> mp_pool) \<Rightarrow> bool" where
  "books_ok own msk H pools \<longleftrightarrow>
     (\<forall>q w. case pools q of
              None \<Rightarrow> section_of H w q = {}
            | Some po \<Rightarrow> fam_ok w (msk w q) (own q) (section_of H w q) (somes (pool_slice w po)))"

definition orphans_fit :: "(bool \<Rightarrow> string \<Rightarrow> int) \<Rightarrow> (string \<times> pool_to_cidrs) list \<Rightarrow> bool" where
  "orphans_fit msk M \<longleftrightarrow> (\<forall>x \<in> set M. \<forall>y \<in> set (snd x). \<forall>w. \<forall>c \<in> set (family_elems w (snd y)). fit_fam w (msk w (fst y)) c)"

definition mp_core :: "(string \<Rightarrow> prefix set) \<Rightarrow> (bool \<Rightarrow> string \<Rightarrow> int) \<Rightarrow> pool_allocator \<Rightarrow> bool" where
  "mp_core own msk p \<longleftrightarrow> maps_wf (pa_nodes p) \<and> orphans_fit msk (pa_orphans p) \<and> books_ok own msk (items (pa_nodes p)) (pa_pools p)"

lemma mp_coreD:
  assumes "mp_core own msk p"
  shows "maps_wf (pa_nodes p)" "orphans_fit msk (pa_orphans p)" "books_ok own msk (items (pa_nodes p)) (pa_pools p)"
  using assms by (simp_all add: mp_core_def)

lemma books_okD: "books_ok own msk H pools \<Longrightarrow> pools q = Some po \<Longrightarrow> fam_ok w (msk w q) (own q) (section_of H w q) (somes (pool_slice w po))"
  by (auto simp: books_ok_def dest: spec [of _ q])

lemma pool_slice_set [simp]: "pool_slice w (set_slice v6 ss po) = (if w = v6 then ss else pool_slice w po)"
  by (auto simp: pool_slice_def set_slice_def)

lemma books_store:
  assumes "books_ok own msk H pools" "pools q = Some po" "fam_ok v6 (msk v6 q) (own q) (section_of H' v6 q) (somes ss)"
    and "\<And>w q'. (w, q') \<noteq> (v6, q) \<Longrightarrow> section_of H' w q' = section_of H w q'"
  shows "books_ok own msk H' (pools(q \<mapsto> set_slice v6 ss po))"
  unfolding books_ok_def
proof (intro allI)
  fix q' w
  have b: "case pools q' of None \<Rightarrow> section_of H w q' = {}
      | Some po \<Rightarrow> fam_ok w (msk w q') (own q') (section_of H w q') (somes (pool_slice w po))"
    using assms(1) by (simp add: books_ok_def)
  show "case (pools(q \<mapsto> set_slice v6 ss po)) q' of None \<Rightarrow> section_of H' w q' = {}
      | Some po \<Rightarrow> fam_ok w (msk w q') (own q') (section_of H' w q') (somes (pool_slice w po))"
  proof (cases "(w, q') = (v6, q)")
    case True
    with assms(3) show ?thesis by simp
  next
    case False
    with b assms(2) assms(4) [OF False] show ?thesis by (cases "q' = q") (auto split: option.splits)
  qed
qed

lemma section_insert:
  "section_of (insert (w, q, n, c) H) w' q' = (if (w', q') = (w, q) then insert (n, c) (section_of H w' q') else section_of H w' q')"
  by (auto simp: section_of_def)

lemma section_remove:
  "section_of (H - {(w, q, n, c)}) w' q' = (if (w', q') = (w, q) then section_of H w' q' - {(n, c)} else section_of H w' q')"
  by (auto simp: section_of_def)

lemma in_section [simp]: "(n, c) \<in> section_of H w q \<longleftrightarrow> (w, q, n, c) \<in> H"
  by (simp add: section_of_def)

text \<open>Every CIDR a node holds fits its pool's mask.\<close>

lemma item_fits:
  assumes "books_ok own msk H pools" "(w, q, n, c) \<in> H"
  shows "fit_fam w (msk w q) c" "\<exists>po. pools q = Some po"
proof -
  have b: "case pools q of None \<Rightarrow> section_of H w q = {}
      | Some po \<Rightarrow> fam_ok w (msk w q) (own q) (section_of H w q) (somes (pool_slice w po))"
    using assms(1) by (simp add: books_ok_def)
  have i: "(n, c) \<in> section_of H w q" using assms(2) by simp
  with b show "\<exists>po. pools q = Some po" by (cases "pools q") auto
  from b i show "fit_fam w (msk w q) c"
    by (cases "pools q") (auto simp: fam_ok_def dest!: bspec [of _ _ "(n, c)"] simp del: in_section)
qed

lemma fit_fam_wf: "fit_fam w m c \<Longrightarrow> pfx_wf c \<and> w = (\<not> addr_is4 (pfx_addr c))"
  by (auto simp: fit_fam_def fits_def)

lemma fail_core: "mp_core own msk p \<Longrightarrow> mp_core own msk (fst (fail e p))"
  by (simp add: fail_def panic_def mp_core_def)

lemma store_pool_sel [simp]:
  "pa_nodes (store_pool q po p) = pa_nodes p" "pa_orphans (store_pool q po p) = pa_orphans p"
  "pa_pools (store_pool q po p) = (pa_pools p)(q \<mapsto> po)" "pa_panicked (store_pool q po p) = pa_panicked p"
  by (simp_all add: store_pool_def)

lemma mark_core:
  assumes "plan_ok own" "mp_core own msk p" "pa_pools p q = Some po" "fit_fam v6 (msk v6 q) c"
    "fam_ok v6 (msk v6 q) (own q) (insert (n, c) (section_of (items (pa_nodes p)) v6 q)) (somes ss)"
  shows "mp_core own msk (markAllocated n q c (store_pool q (set_slice v6 ss po) p))"
proof -
  let ?p = "store_pool q (set_slice v6 ss po) p"
  note d = mp_coreD [OF assms(2)] and w = fit_fam_wf [OF assms(4)]
  obtain M where m: "markAllocated n q c ?p = ?p\<lparr>pa_nodes := M\<rparr>" "maps_wf M" "items M = insert (item_of n q c) (items (pa_nodes ?p))"
    by (rule markAllocated_spec [of ?p c n q]) (use d(1) w in simp_all)
  have i: "items M = insert (v6, q, n, c) (items (pa_nodes p))" using m(3) w by (simp add: item_of_def)
  have "books_ok own msk (items M) ((pa_pools p)(q \<mapsto> set_slice v6 ss po))"
    by (rule books_store [OF d(3) assms(3)]) (use assms(5) in \<open>auto simp: i section_insert\<close>)
  with m d(2) show ?thesis by (simp add: mp_core_def)
qed

lemma occupyCIDR_core:
  assumes "plan_ok own" "mp_core own msk p" "fit_fam v6 (msk v6 q) c"
  shows "mp_core own msk (fst (occupyCIDR n q c p))"
proof -
  have w: "(\<not> addr_is4 (pfx_addr c)) = v6" using fit_fam_wf [OF assms(3)] by simp
  show ?thesis
  proof (cases "isAllocated p n q c \<or> pa_pools p q = None")
    case False
    then obtain po where po: "pa_pools p q = Some po" by auto
    show ?thesis
    proof (cases "slice_occupyCIDR (pool_slice v6 po) c")
      case (Inl e)
      with False po w fail_core [OF assms(2)] show ?thesis by (simp add: occupyCIDR_def Let_def)
    next
      case (Inr ss)
      from fam_occupy(1) [OF plan_apart [OF assms(1)] books_okD [OF mp_coreD(3) [OF assms(2)] po] assms(3) Inr]
      have "mp_core own msk (markAllocated n q c (store_pool q (set_slice v6 ss po) p))"
        by (rule mark_core [OF assms(1,2) po assms(3)])
      with False po w Inr show ?thesis by (simp add: occupyCIDR_def Let_def)
    qed
  qed (use assms(2) in \<open>auto simp: occupyCIDR_def\<close>)
qed

lemma releaseCIDR_core:
  assumes "plan_ok own" "mp_core own msk p" "pfx_wf c"
  shows "mp_core own msk (fst (releaseCIDR n q c p))"
proof (cases "isAllocated p n q c \<and> pa_pools p q \<noteq> None")
  case True
  then obtain po where po: "pa_pools p q = Some po" and al: "isAllocated p n q c" by auto
  let ?w = "\<not> addr_is4 (pfx_addr c)"
  have i: "(?w, q, n, c) \<in> items (pa_nodes p)" using al isAllocated_item [OF assms(3)] by (simp add: item_of_def)
  note d = mp_coreD [OF assms(2)]
  show ?thesis
  proof (cases "slice_releaseCIDR (pool_slice ?w po) c")
    case (Inl e)
    with al po fail_core [OF assms(2)] show ?thesis by (simp add: releaseCIDR_def Let_def)
  next
    case (Inr ss)
    let ?p = "store_pool q (set_slice ?w ss po) p"
    have f: "fam_ok ?w (msk ?w q) (own q) (section_of (items (pa_nodes p)) ?w q - {(n, c)}) (somes ss)"
      using fam_release [OF plan_apart [OF assms(1)] books_okD [OF d(3) po] _ Inr] i by simp
    obtain M where m: "markReleased n q c ?p = ?p\<lparr>pa_nodes := M\<rparr>" "maps_wf M" "items M = items (pa_nodes ?p) - {item_of n q c}"
      by (rule markReleased_spec [of ?p c n q]) (use d(1) assms(3) al in \<open>simp_all add: isAllocated_def\<close>)
    have im: "items M = items (pa_nodes p) - {(?w, q, n, c)}" using m(3) by (simp add: item_of_def)
    have "books_ok own msk (items M) ((pa_pools p)(q \<mapsto> set_slice ?w ss po))"
      by (rule books_store [OF d(3) po]) (use f in \<open>auto simp: im section_remove\<close>)
    with m d(2) al po Inr show ?thesis by (simp add: releaseCIDR_def Let_def mp_core_def)
  qed
qed (use assms(2) in \<open>auto simp: releaseCIDR_def\<close>)

lemma allocate_loop_core:
  assumes "plan_ok own" "mp_core own msk p"
  shows "mp_core own msk (fst (allocate_loop k n q v6 t p))"
  using assms(2)
proof (induction k n q v6 t p rule: allocate_loop.induct)
  case (2 k n q v6 t p)
  show ?case
  proof (cases "t \<le> 0 \<or> pa_pools p q = None")
    case False
    then obtain po where po: "pa_pools p q = Some po" by auto
    show ?thesis
    proof (cases "allocFirstFreeCIDR (pool_slice v6 po)")
      case (Inl e)
      with False po fail_core [OF 2(2)] show ?thesis by simp
    next
      case (Inr r)
      obtain ss c where r: "r = (ss, c)" by (cases r)
      note f = fam_next [OF plan_apart [OF assms(1)] books_okD [OF mp_coreD(3) [OF 2(2)] po] Inr [unfolded r]]
      have c: "mp_core own msk (markAllocated n q c (store_pool q (set_slice v6 ss po) p))"
        by (rule mark_core [OF assms(1) 2(2) po f(3) f(1)])
      from False have "\<not> t \<le> 0" by simp
      from 2(1) [OF this po Inr r [symmetric] c] False po Inr r show ?thesis by simp
    qed
  qed (use 2(2) in auto)
qed simp

lemma allocateCIDRs_core: "plan_ok own \<Longrightarrow> mp_core own msk p \<Longrightarrow> mp_core own msk (fst (allocateCIDRs n q v6 t p))"
  by (simp add: allocateCIDRs_def allocate_loop_core)

lemma run_steps_core:
  assumes "\<And>x p. x \<in> set xs \<Longrightarrow> I p \<Longrightarrow> I (fst (f x p))" "I p"
  shows "I (fst (run_steps f xs p))"
  using assms
proof (induction xs arbitrary: p)
  case (Cons x xs)
  obtain p1 e1 where 1: "f x p = (p1, e1)" by (cases "f x p")
  have "I p1" using Cons.prems(1) [of x p] Cons.prems(2) 1 by simp
  then have "I (fst (run_steps f xs p1))" using Cons.IH Cons.prems(1) by simp
  with 1 show ?case by (simp add: case_prod_beta)
qed simp

section \<open>Orphans\<close>

lemma orphans_update:
  assumes "orphans_fit msk M" "\<And>y w c. y \<in> set ps \<Longrightarrow> c \<in> set (family_elems w (snd y)) \<Longrightarrow> fit_fam w (msk w (fst y)) c"
  shows "orphans_fit msk (AList.update n ps M)"
  using set_update_subset [of n ps M] assms by (fastforce simp: orphans_fit_def)

lemma orphans_pools:
  assumes "orphans_fit msk M" "y \<in> set (pools_of M n)" "c \<in> set (family_elems w (snd y))"
  shows "fit_fam w (msk w (fst y)) c"
  using pools_of_cases [of M n] assms by (fastforce simp: orphans_fit_def)

lemma orphans_sets:
  assumes "orphans_fit msk M" "c \<in> set (family_elems w (sets_of M n q))"
  shows "fit_fam w (msk w q) c"
proof (cases "map_of (pools_of M n) q")
  case (Some s)
  with orphans_pools [OF assms(1) map_of_SomeD [OF Some]] assms(2) show ?thesis by (simp add: sets_of_def)
qed (use assms(2) in \<open>simp add: sets_of_def\<close>)

lemma orphans_put:
  assumes "orphans_fit msk M" "\<And>w c. c \<in> set (family_elems w s) \<Longrightarrow> fit_fam w (msk w q) c"
  shows "orphans_fit msk (put_sets M n q s)"
  unfolding put_sets_def
proof (rule orphans_update [OF assms(1)])
  fix y w c assume y: "y \<in> set (AList.update q s (pools_of M n))" "c \<in> set (family_elems w (snd y))"
  show "fit_fam w (msk w (fst y)) c"
    using y set_update_subset [of q s "pools_of M n"] assms(2) [of c w] orphans_pools [OF assms(1), of y n c w]
    by (cases "y = (q, s)") auto
qed

lemma orphans_remove:
  assumes "orphans_fit msk M" shows "orphans_fit msk (AList.update n (AList.delete q (pools_of M n)) M)"
  using orphans_pools [OF assms] set_delete_subset [of q "pools_of M n"] by (intro orphans_update [OF assms]) blast

lemma orphans_delete: "orphans_fit msk M \<Longrightarrow> orphans_fit msk (AList.delete n M)"
  using set_delete_subset [of n M] unfolding orphans_fit_def by blast

lemma add_cidr_elems:
  assumes "add_cidr c s = Some s'" "c' \<in> set (family_elems w s')"
  shows "c' \<in> set (family_elems w s) \<or> c' = c"
  using assms by (auto simp: add_cidr_def family_elems_def elems_def split: addr.splits option.splits if_splits)

lemma markOrphan_sel [simp]:
  "pa_nodes (markOrphan n q c a b p) = pa_nodes p" "pa_pools (markOrphan n q c a b p) = pa_pools p"
  by (simp_all add: markOrphan_def Let_def panic_def split: option.split)

lemma markOrphan_fit:
  assumes "orphans_fit msk (pa_orphans p)" "fit_fam v6 (msk v6 q) c"
  shows "orphans_fit msk (pa_orphans (markOrphan n q c a b p))"
proof -
  let ?s = "case map_of (pools_of (pa_orphans p) n) q of Some s \<Rightarrow> s | None \<Rightarrow> fresh_sets a b"
  have f: "fit_fam w (msk w q) c'" if "c' \<in> set (family_elems w ?s)" for w c'
    using that orphans_sets [OF assms(1), of c' w n q] by (simp add: sets_of_def split: option.splits)
  show ?thesis
  proof (cases "add_cidr c ?s")
    case (Some s')
    have "fit_fam w (msk w q) c'" if "c' \<in> set (family_elems w s')" for w c'
    proof (cases "c' \<in> set (family_elems w ?s)")
      case False
      have e: "c' = c" using add_cidr_elems [OF Some that] False by blast
      have "w = (\<not> addr_is4 (pfx_addr c))"
        using Some that False fit_fam_wf [OF assms(2)] wf_family [of c]
        by (auto simp: e add_cidr_def family_elems_def elems_def split: option.splits if_splits)
      with e assms(2) fit_fam_wf [OF assms(2)] show ?thesis by simp
    qed (rule f)
    then have "orphans_fit msk (put_sets (pa_orphans p) n q s')" by (rule orphans_put [OF assms(1)])
    with Some show ?thesis by (simp add: markOrphan_def Let_def)
  qed (use assms(1) in \<open>simp add: markOrphan_def Let_def panic_def\<close>)
qed

lemma markOrphan_core:
  "mp_core own msk p \<Longrightarrow> fit_fam v6 (msk v6 q) c \<Longrightarrow> mp_core own msk (markOrphan n q c a b p)"
  by (simp add: mp_core_def markOrphan_fit)

lemma orphans_core:
  assumes "mp_core own msk p" "orphans_fit msk M" shows "mp_core own msk (p\<lparr>pa_orphans := M\<rparr>)"
  using assms by (simp add: mp_core_def)

lemma cleanupOrphans_core:
  assumes "mp_core own msk p" shows "mp_core own msk (cleanupOrphans n q p)"
proof -
  let ?M = "pa_orphans p" and ?s = "sets_of (pa_orphans p) n q"
  note o = mp_coreD(2) [OF assms]
  have "orphans_fit msk (put_sets ?M n q (?s\<lparr>st_v4 := None\<rparr>))" "orphans_fit msk (put_sets ?M n q (?s\<lparr>st_v6 := None\<rparr>))"
    using orphans_sets [OF o, of _ _ n q] by (auto intro!: orphans_put [OF o] simp: family_elems_def elems_def split: if_splits)
  with assms show ?thesis
    by (auto simp: cleanupOrphans_def Let_def intro!: orphans_core orphans_delete [OF o] orphans_remove [OF o])
qed

lemma releaseOrphanCIDR_core:
  assumes "mp_core own msk p" shows "mp_core own msk (releaseOrphanCIDR n q c p)"
proof (cases "map_of (pools_of (pa_orphans p) n) q")
  case (Some s)
  note o = mp_coreD(2) [OF assms]
  have "set (family_elems w (del_cidr c s)) \<subseteq> set (family_elems w s)" for w
    by (cases "st_v4 s"; cases "st_v6 s") (auto simp: del_cidr_def family_elems_def elems_def split: addr.splits)
  then have "orphans_fit msk (put_sets (pa_orphans p) n q (del_cidr c s))"
    using orphans_sets [OF o, of _ _ n q] Some by (intro orphans_put [OF o]) (auto simp: sets_of_def)
  then have "mp_core own msk (cleanupOrphans n q (p\<lparr>pa_orphans := put_sets (pa_orphans p) n q (del_cidr c s)\<rparr>))"
    by (intro cleanupOrphans_core orphans_core [OF assms])
  with Some assms show ?thesis by (simp add: releaseOrphanCIDR_def markReleasedOrphan_def)
qed (use assms in \<open>simp add: releaseOrphanCIDR_def markReleasedOrphan_def\<close>)

section \<open>Operations on nodes\<close>

lemma retainCIDRs_core:
  assumes "plan_ok own" "mp_core own msk p"
  shows "mp_core own msk (fst (retainCIDRs n r q p))"
proof -
  have step: "mp_core own msk (fst (run_steps (releaseCIDR n q)
      (filter (\<lambda>c. c \<notin> set r) (family_elems v6 (sets_of (pa_nodes p1) n q))) p1))" if p1: "mp_core own msk p1" for p1 v6
  proof (rule run_steps_core [where I = "mp_core own msk"])
    fix c p' assume c: "c \<in> set (filter (\<lambda>c. c \<notin> set r) (family_elems v6 (sets_of (pa_nodes p1) n q)))" "mp_core own msk p'"
    then have "(v6, q, n, c) \<in> items (pa_nodes p1)" by (simp add: items_def)
    from fit_fam_wf [OF item_fits(1) [OF mp_coreD(3) [OF p1] this]] have "pfx_wf c" by simp
    then show "mp_core own msk (fst (releaseCIDR n q c p'))" by (rule releaseCIDR_core [OF assms(1) c(2)])
  qed (rule p1)
  note s4 = step [of _ False] and s6 = step [of _ True]
  show ?thesis
    using s4 [OF assms(2)] s6 by (simp add: retainCIDRs_def family_elems_def case_prod_beta)
qed

lemma fold_core:
  assumes "\<And>x p. x \<in> set xs \<Longrightarrow> I p \<Longrightarrow> I (f x p)" "I p"
  shows "I (fold f xs p)"
  using assms by (induction xs arbitrary: p) simp_all

lemma retainOrphanCIDRs_core:
  assumes "mp_core own msk p" shows "mp_core own msk (retainOrphanCIDRs n r q p)"
  unfolding retainOrphanCIDRs_def Let_def
  by (intro fold_core [where I = "mp_core own msk"] releaseOrphanCIDR_core assms)

definition allocation_fits :: "(bool \<Rightarrow> string \<Rightarrow> int) \<Rightarrow> pool_allocation \<Rightarrow> bool" where
  "allocation_fits msk a \<longleftrightarrow> list_all (\<lambda>c. pfx_valid c \<longrightarrow> fits (msk (\<not> addr_is4 (pfx_addr c)) (al_Pool a)) c) (al_CIDRs a)"

lemma occupy_step_core:
  assumes "plan_ok own" "mp_core own msk p" "allocation_fits msk a" "c \<in> set (al_CIDRs a)"
  shows "mp_core own msk (fst (occupy_step n a c p))"
proof (cases "pfx_valid c")
  case True
  then have "fit_fam (\<not> addr_is4 (pfx_addr c)) (msk (\<not> addr_is4 (pfx_addr c)) (al_Pool a)) c"
    using assms(3,4) by (auto simp: allocation_fits_def list_all_iff fit_fam_def)
  with occupyCIDR_core [OF assms(1,2) this] markOrphan_core [OF assms(2) this] True show ?thesis
    by (simp add: occupy_step_def)
qed (use assms(2) in \<open>simp add: occupy_step_def\<close>)

lemma request_step_core:
  assumes "plan_ok own" "mp_core own msk p" shows "mp_core own msk (fst (request_step n r p))"
proof -
  have "mp_core own msk (fst (if e then allocateCIDRs n q v6 t p1 else (p1, [])))" if "mp_core own msk p1" for e q v6 t p1
    using allocateCIDRs_core [OF assms(1) that] that by simp
  note step = this
  show ?thesis unfolding request_step_def Let_def case_prod_beta fst_conv by (intro step assms(2))
qed

lemma restore_core:
  assumes "plan_ok own" "mp_core own msk p" "list_all (allocation_fits msk) as"
  shows "mp_core own msk (fst (run_steps (\<lambda>a. run_steps (occupy_step n a) (al_CIDRs a)) as p))"
proof (rule run_steps_core [where I = "mp_core own msk"])
  fix a p' assume a: "a \<in> set as" "mp_core own msk p'"
  then have f: "allocation_fits msk a" using assms(3) by (simp add: list_all_iff)
  show "mp_core own msk (fst (run_steps (occupy_step n a) (al_CIDRs a) p'))"
    by (rule run_steps_core [where I = "mp_core own msk"]) (use occupy_step_core [OF assms(1) _ f] a(2) in auto)
qed (rule assms(2))

text \<open>The state in which the requests of a node are served, and the errors so far.\<close>

definition before_requests :: "string \<Rightarrow> pool_allocation list \<Rightarrow> pool_allocator \<Rightarrow> pool_allocator" where
  "before_requests n as p =
     (let p1 = fst (run_steps (\<lambda>a. run_steps (occupy_step n a) (al_CIDRs a)) as p);
          p2 = fst (run_steps (\<lambda>q. retainCIDRs n (allocated_set as q) q) (map fst (pools_of (pa_nodes p1) n)) p1)
      in fold (\<lambda>q. retainOrphanCIDRs n (allocated_set as q) q) (map fst (pools_of (pa_orphans p2) n)) p2)"

lemma AllocateToNode_eq:
  "fst (AllocateToNode n as rs p) =
     (let p3 = before_requests n as p in if pa_ready p3 then fst (run_steps (request_step n) rs p3) else p3)"
  by (simp add: AllocateToNode_def before_requests_def Let_def case_prod_beta)

lemma AllocateToNode_no_error:
  assumes "snd (AllocateToNode n as rs p) = []"
  shows "pa_ready (before_requests n as p)" "snd (run_steps (request_step n) rs (before_requests n as p)) = []"
  using assms by (auto simp: AllocateToNode_def before_requests_def Let_def case_prod_beta split: if_splits)

lemma before_requests_core:
  assumes "plan_ok own" "mp_core own msk p" "list_all (allocation_fits msk) as"
  shows "mp_core own msk (before_requests n as p)"
proof -
  let ?p1 = "fst (run_steps (\<lambda>a. run_steps (occupy_step n a) (al_CIDRs a)) as p)"
  have "mp_core own msk (fst (run_steps (\<lambda>q. retainCIDRs n (allocated_set as q) q) (map fst (pools_of (pa_nodes ?p1) n)) ?p1))"
    by (rule run_steps_core [where I = "mp_core own msk"]) (use retainCIDRs_core [OF assms(1)] restore_core [OF assms] in auto)
  then show ?thesis unfolding before_requests_def Let_def
    by (intro fold_core [where I = "mp_core own msk"] retainOrphanCIDRs_core)
qed

lemma AllocateToNode_core:
  assumes "plan_ok own" "mp_core own msk p" "list_all (allocation_fits msk) as"
  shows "mp_core own msk (fst (AllocateToNode n as rs p))"
  using before_requests_core [OF assms, of n] run_steps_core [where I = "mp_core own msk", of rs "request_step n"]
    request_step_core [OF assms(1)] by (simp add: AllocateToNode_eq Let_def)

section \<open>A node goes\<close>

text \<open>The CIDRs \<open>D\<close> have been given back.\<close>

definition released :: "(string \<Rightarrow> prefix set) \<Rightarrow> (bool \<Rightarrow> string \<Rightarrow> int) \<Rightarrow> pool_allocator \<Rightarrow> pool_allocator \<Rightarrow> item set \<Rightarrow> bool" where
  "released own msk p p' D \<longleftrightarrow> pa_nodes p' = pa_nodes p \<and> pa_orphans p' = pa_orphans p \<and> (pa_panicked p \<longrightarrow> pa_panicked p') \<and>
     (pa_panicked p' \<or> (\<forall>H. D \<subseteq> H \<longrightarrow> books_ok own msk H (pa_pools p) \<longrightarrow> books_ok own msk (H - D) (pa_pools p')))"

lemma released_trans:
  assumes "released own msk p p1 D1" "released own msk p1 p2 D2" "D1 \<inter> D2 = {}"
  shows "released own msk p p2 (D1 \<union> D2)"
proof -
  have "books_ok own msk (H - (D1 \<union> D2)) (pa_pools p2)"
    if "\<not> pa_panicked p2" "D1 \<union> D2 \<subseteq> H" "books_ok own msk H (pa_pools p)" for H
  proof -
    have "books_ok own msk (H - D1) (pa_pools p1)" using assms(1,2) that by (auto simp: released_def)
    moreover have "D2 \<subseteq> H - D1" using that(2) assms(3) by blast
    ultimately have "books_ok own msk (H - D1 - D2) (pa_pools p2)" using assms(2) that(1) by (auto simp: released_def)
    then show ?thesis by (simp add: Diff_eq Int_assoc)
  qed
  with assms(1,2) show ?thesis by (auto simp: released_def)
qed

lemma released_refl: "released own msk p p {}"
  by (simp add: released_def)

lemma run_steps_released:
  assumes "\<And>x p. x \<in> set xs \<Longrightarrow> released own msk p (fst (f x p)) (D x)" "distinct xs"
    "\<And>x y. x \<in> set xs \<Longrightarrow> y \<in> set xs \<Longrightarrow> x \<noteq> y \<Longrightarrow> D x \<inter> D y = {}"
  shows "released own msk p (fst (run_steps f xs p)) (\<Union>x \<in> set xs. D x)"
  using assms
proof (induction xs arbitrary: p)
  case (Cons x xs)
  have 1: "released own msk p (fst (f x p)) (D x)" using Cons.prems(1) by simp
  have 2: "released own msk (fst (f x p)) (fst (run_steps f xs (fst (f x p)))) (\<Union>x \<in> set xs. D x)"
    using Cons.IH Cons.prems by simp
  have "D x \<inter> (\<Union>x \<in> set xs. D x) = {}" using Cons.prems(2,3) by fastforce
  from released_trans [OF 1 2 this] show ?case by (simp add: case_prod_beta)
qed (simp add: released_refl)

lemma fam_heldD:
  assumes "fam_ok v6 m own H ts" "(n, c) \<in> H"
  shows "fit_fam v6 m c" "\<exists>s \<in> set ts. cs_InRange s c" "fam_sets v6 m own ts"
proof -
  have "\<forall>h \<in> H. fit_fam v6 m (snd h) \<and> (\<exists>s \<in> set ts. cs_InRange s (snd h))" using assms(1) by (simp add: fam_ok_def)
  from bspec [OF this assms(2)] show "fit_fam v6 m c" "\<exists>s \<in> set ts. cs_InRange s c" by simp_all
  show "fam_sets v6 m own ts" using assms(1) by (simp add: fam_ok_def)
qed

lemma release_from_released:
  assumes "plan_ok own"
  shows "released own msk p (fst (release_from q v6 c p)) {(v6, q, n, c)}"
proof -
  let ?p = "fst (release_from q v6 c p)"
  have "books_ok own msk (H - {(v6, q, n, c)}) (pa_pools ?p)"
    if np: "\<not> pa_panicked ?p" and i: "(v6, q, n, c) \<in> H" and b: "books_ok own msk H (pa_pools p)" for H
  proof -
    obtain po where po: "pa_pools p q = Some po" using item_fits(2) [OF b i] by blast
    note f = books_okD [OF b po, of v6]
    have "fit_fam v6 (msk v6 q) c" "\<exists>s \<in> set (somes (pool_slice v6 po)). cs_InRange s c" "fam_sets v6 (msk v6 q) (own q) (somes (pool_slice v6 po))"
      using fam_heldD [OF f, of n c] i by simp_all
    then have "slice_releaseCIDR (pool_slice v6 po) c = Inl NilPanic \<or> (\<exists>ss. slice_releaseCIDR (pool_slice v6 po) c = Inr ss)"
      by (intro release_total) (auto simp: fit_fam_def)
    then obtain ss where ss: "slice_releaseCIDR (pool_slice v6 po) c = Inr ss"
      using np po by (auto simp: release_from_def fail_def panic_def)
    have "fam_ok v6 (msk v6 q) (own q) (section_of H v6 q - {(n, c)}) (somes ss)"
      by (rule fam_release [OF plan_apart [OF assms] f _ ss]) (use i in simp)
    then have "books_ok own msk (H - {(v6, q, n, c)}) ((pa_pools p)(q \<mapsto> set_slice v6 ss po))"
      by (intro books_store [OF b po]) (auto simp: section_remove)
    with po ss show ?thesis by (simp add: release_from_def)
  qed
  moreover have "pa_nodes ?p = pa_nodes p \<and> pa_orphans ?p = pa_orphans p \<and> (pa_panicked p \<longrightarrow> pa_panicked ?p)"
    by (auto simp: release_from_def fail_def panic_def split: option.splits sum.splits)
  ultimately show ?thesis by (auto simp: released_def)
qed

definition entry_items :: "string \<Rightarrow> string \<times> mp_sets \<Rightarrow> item set" where
  "entry_items n x = {(w, q, n', c). q = fst x \<and> n' = n \<and> c \<in> set (family_elems w (snd x))}"

lemma release_family:
  assumes "plan_ok own" "distinct cs"
  shows "released own msk p (fst (run_steps (release_from q v6) cs p)) ((\<lambda>c. (v6, q, n, c)) ` set cs)"
proof -
  have "released own msk p (fst (run_steps (release_from q v6) cs p)) (\<Union>c \<in> set cs. {(v6, q, n, c)})"
    by (rule run_steps_released [OF release_from_released [OF assms(1)] assms(2)]) auto
  then show ?thesis by (simp add: UNION_singleton_eq_range)
qed

lemma release_pool_released:
  assumes "plan_ok own" "sets_wf (snd x)"
  shows "released own msk p (fst (release_pool x p)) (entry_items n x)"
proof (cases "pa_pools p (fst x)")
  case None
  have "entry_items n x = {}" if "entry_items n x \<subseteq> H" "books_ok own msk H (pa_pools p)" for H
    using that item_fits(2) [OF that(2)] None by (fastforce simp: entry_items_def)
  then have "books_ok own msk (H - entry_items n x) (pa_pools p)" if "entry_items n x \<subseteq> H" "books_ok own msk H (pa_pools p)" for H
    using that by (metis Diff_empty)
  with None show ?thesis by (simp add: release_pool_def released_def)
next
  case (Some po)
  let ?q = "fst x" and ?s = "snd x"
  have d: "distinct (elems (st_v4 ?s))" "distinct (elems (st_v6 ?s))" using assms(2) by (auto simp: sets_wf_def elems_def)
  have e: "(\<lambda>c. (False, ?q, n, c)) ` set (elems (st_v4 ?s)) \<union> (\<lambda>c. (True, ?q, n, c)) ` set (elems (st_v6 ?s)) = entry_items n x"
    by (auto simp: entry_items_def family_elems_def split: if_splits)
  let ?p1 = "fst (run_steps (release_from ?q False) (elems (st_v4 ?s)) p)"
  have "released own msk p (fst (run_steps (release_from ?q True) (elems (st_v6 ?s)) ?p1)) (entry_items n x)"
    unfolding e [symmetric]
    by (rule released_trans [OF release_family [OF assms(1) d(1)] release_family [OF assms(1) d(2)]]) auto
  with Some show ?thesis by (simp add: release_pool_def case_prod_beta)
qed

lemma entry_lookup:
  assumes "distinct (map fst ps)"
  shows "(\<exists>x \<in> set ps. fst x = q \<and> P (snd x)) \<longleftrightarrow> (\<exists>s. map_of ps q = Some s \<and> P s)"
  using assms by (force simp: map_of_eq_Some_iff)

lemma ReleaseNode_core:
  assumes "plan_ok own" "mp_core own msk p"
  shows "pa_panicked (fst (ReleaseNode n p)) \<or> mp_core own msk (fst (ReleaseNode n p))"
proof -
  let ?M = "pa_nodes p" and ?p = "fst (run_steps release_pool (pools_of (pa_nodes p) n) p)"
  let ?D = "\<Union>x \<in> set (pools_of ?M n). entry_items n x"
  note d = mp_coreD [OF assms(2)] and wf = maps_wf_pools [OF mp_coreD(1) [OF assms(2)], of n]
  have r: "released own msk p ?p ?D"
  proof (rule run_steps_released)
    show "released own msk p (fst (release_pool x p)) (entry_items n x)" if "x \<in> set (pools_of ?M n)" for x p
      by (rule release_pool_released [OF assms(1)]) (use that wf in blast)
    show "distinct (pools_of ?M n)" using wf by (simp add: distinct_map)
    show "entry_items n x \<inter> entry_items n y = {}" if "x \<in> set (pools_of ?M n)" "y \<in> set (pools_of ?M n)" "x \<noteq> y" for x y
      using that wf by (auto simp: entry_items_def distinct_map dest: inj_onD)
  qed
  have D: "?D = {(w, q, n', c). n' = n \<and> (w, q, n', c) \<in> items ?M}"
  proof -
    have "(\<exists>x \<in> set (pools_of ?M n). fst x = q \<and> c \<in> set (family_elems w (snd x))) \<longleftrightarrow> c \<in> set (family_elems w (sets_of ?M n q))" for w q c
      using entry_lookup [of "pools_of ?M n" q "\<lambda>s. c \<in> set (family_elems w s)"] wf
      by (cases "map_of (pools_of ?M n) q") (simp_all add: sets_of_def del: map_of_eq_Some_iff)
    then show ?thesis by (fastforce simp: entry_items_def items_def)
  qed
  then have i: "items (AList.delete n ?M) = items ?M - ?D" by (auto simp: items_def split: if_splits)
  have "pa_panicked ?p \<or> books_ok own msk (items ?M - ?D) (pa_pools ?p)" using r d(3) D by (auto simp: released_def)
  with r i d maps_wf_delete [OF d(1)] show ?thesis by (auto simp: ReleaseNode_def case_prod_beta released_def mp_core_def)
qed

section \<open>A pool goes\<close>

definition pool_fits :: "(bool \<Rightarrow> string \<Rightarrow> int) \<Rightarrow> string \<Rightarrow> (string \<times> pool_to_cidrs) list \<Rightarrow> bool" where
  "pool_fits msk q M \<longleftrightarrow> (\<forall>n w. \<forall>c \<in> set (family_elems w (sets_of M n q)). fit_fam w (msk w q) c)"

lemma orphan_all:
  assumes "orphans_fit msk (pa_orphans p)" "\<And>c. c \<in> set cs \<Longrightarrow> \<exists>w. fit_fam w (msk w q) c"
  shows "let p' = fold (\<lambda>c. markOrphan n q c a b) cs p
    in pa_nodes p' = pa_nodes p \<and> pa_pools p' = pa_pools p \<and> orphans_fit msk (pa_orphans p')"
  using assms
proof (induction cs arbitrary: p)
  case (Cons c cs)
  obtain w where "fit_fam w (msk w q) c" using Cons.prems(2) [of c] by auto
  from markOrphan_fit [where n = n and a = a and b = b, OF Cons.prems(1) this] Cons.prems(2)
    Cons.IH [of "markOrphan n q c a b p"] show ?case by simp
qed simp

lemma orphan_pool_spec:
  assumes "maps_wf (pa_nodes p)" "orphans_fit msk (pa_orphans p)" "pool_fits msk q (pa_nodes p)"
    "map_of (snd x) q = map_of (pools_of (pa_nodes p) (fst x)) q"
  shows "let p' = orphan_pool q x p in pa_pools p' = pa_pools p \<and> maps_wf (pa_nodes p') \<and> orphans_fit msk (pa_orphans p') \<and>
    pool_fits msk q (pa_nodes p') \<and> (\<forall>n. n \<noteq> fst x \<longrightarrow> pools_of (pa_nodes p') n = pools_of (pa_nodes p) n) \<and>
    (\<forall>n q'. sets_of (pa_nodes p') n q' = (if (n, q') = (fst x, q) then zero_sets else sets_of (pa_nodes p) n q'))"
proof (cases "map_of (snd x) q")
  case None
  then show ?thesis using assms by (auto simp: orphan_pool_def sets_of_def)
next
  case (Some s)
  let ?n = "fst x" and ?M = "AList.update (fst x) (AList.delete q (pools_of (pa_nodes p) (fst x))) (pa_nodes p)"
  have s: "sets_of (pa_nodes p) ?n q = s" using Some assms(4) by (simp add: sets_of_def)
  have "\<exists>w. fit_fam w (msk w q) c" if "c \<in> set (elems (st_v4 s) @ elems (st_v6 s))" for c
  proof -
    have "c \<in> set (family_elems False s) \<or> c \<in> set (family_elems True s)" using that by (auto simp: family_elems_def)
    with assms(3) s show ?thesis by (auto simp: pool_fits_def)
  qed
  from orphan_all [of msk "p\<lparr>pa_nodes := ?M\<rparr>" "elems (st_v4 s) @ elems (st_v6 s)" q ?n "st_allowFirstIP s" "st_allowLastIP s", OF _ this] assms(2) have
    o: "let p' = orphan_pool q x p in pa_nodes p' = ?M \<and> pa_pools p' = pa_pools p \<and> orphans_fit msk (pa_orphans p')"
    using Some by (simp add: orphan_pool_def Let_def del: fold_append)
  have "pool_fits msk q ?M" using assms(3) by (simp add: pool_fits_def)
  with o maps_wf_remove [OF assms(1)] show ?thesis by (simp add: Let_def)
qed

lemma orphan_pools_spec:
  assumes "maps_wf (pa_nodes p)" "orphans_fit msk (pa_orphans p)" "pool_fits msk q (pa_nodes p)" "distinct (map fst xs)"
    "\<And>x. x \<in> set xs \<Longrightarrow> map_of (snd x) q = map_of (pools_of (pa_nodes p) (fst x)) q"
  shows "let p' = fold (orphan_pool q) xs p in pa_pools p' = pa_pools p \<and> maps_wf (pa_nodes p') \<and> orphans_fit msk (pa_orphans p') \<and>
    (\<forall>n q'. sets_of (pa_nodes p') n q' = (if n \<in> fst ` set xs \<and> q' = q then zero_sets else sets_of (pa_nodes p) n q'))"
  using assms
proof (induction xs arbitrary: p)
  case (Cons x xs)
  let ?p = "orphan_pool q x p"
  note s = orphan_pool_spec [OF Cons.prems(1-3) Cons.prems(5) [of x, simplified], unfolded Let_def]
  have "map_of (snd y) q = map_of (pools_of (pa_nodes ?p) (fst y)) q" if "y \<in> set xs" for y
  proof -
    have "fst y \<noteq> fst x" using that Cons.prems(4) by (metis distinct.simps(2) image_eqI list.set_map list.simps(9))
    with s Cons.prems(5) [of y] that show ?thesis by simp
  qed
  with Cons.IH [of ?p] s Cons.prems(4) show ?case by (auto simp: Let_def)
qed simp

lemma DeletePool_core:
  assumes "mp_core own msk p"
  shows "mp_core own msk (fst (DeletePool q p))"
proof (cases "pa_pools p q")
  case (Some po)
  let ?M = "pa_nodes p" and ?p = "fold (orphan_pool q) (pa_nodes p) p"
  note d = mp_coreD [OF assms]
  have f: "pool_fits msk q ?M" using item_fits(1) [OF d(3)] by (auto simp: pool_fits_def items_def)
  have m: "map_of (snd x) q = map_of (pools_of ?M (fst x)) q" if "x \<in> set ?M" for x
    using maps_wf_entry(1) [OF d(1), of "fst x" "snd x"] that by simp
  have di: "distinct (map fst ?M)" using d(1) by (simp add: maps_wf_def)
  note s = orphan_pools_spec [OF d(1,2) f di m, unfolded Let_def]
  have out: "sets_of ?M n q = zero_sets" if "n \<notin> fst ` set ?M" for n
    using that by (simp add: sets_of_def pools_of_def map_of_eq_None_iff [symmetric])
  have sec: "section_of (items (pa_nodes ?p)) w q' = (if q' = q then {} else section_of (items ?M) w q')" for w q'
    using s out by (auto simp: section_of_def items_def)
  have "books_ok own msk (items (pa_nodes ?p)) ((pa_pools p)(q := None))"
    unfolding books_ok_def
  proof (intro allI)
    fix qa w
    have "case pa_pools p qa of None \<Rightarrow> section_of (items ?M) w qa = {}
        | Some po \<Rightarrow> fam_ok w (msk w qa) (own qa) (section_of (items ?M) w qa) (somes (pool_slice w po))"
      using d(3) by (simp add: books_ok_def)
    then show "case ((pa_pools p)(q := None)) qa of None \<Rightarrow> section_of (items (pa_nodes ?p)) w qa = {}
        | Some po \<Rightarrow> fam_ok w (msk w qa) (own qa) (section_of (items (pa_nodes ?p)) w qa) (somes (pool_slice w po))"
      by (cases "qa = q"; cases "pa_pools p qa") (simp_all add: sec)
  qed
  with Some s show ?thesis by (simp add: DeletePool_def Let_def mp_core_def)
qed (use assms in \<open>simp add: DeletePool_def\<close>)

section \<open>A pool is created or changed\<close>

text \<open>What nodes lose when allocators go.\<close>

definition dropped :: "(bool \<Rightarrow> string \<Rightarrow> int) \<Rightarrow> pool_allocator \<Rightarrow> pool_allocator \<times> mp_error list \<Rightarrow> item set \<Rightarrow> bool" where
  "dropped msk p r X \<longleftrightarrow> snd r = [] \<and> pa_pools (fst r) = pa_pools p \<and>
     (maps_wf (pa_nodes p) \<longrightarrow> orphans_fit msk (pa_orphans p) \<longrightarrow>
        maps_wf (pa_nodes (fst r)) \<and> orphans_fit msk (pa_orphans (fst r)) \<and> items (pa_nodes (fst r)) = items (pa_nodes p) - X)"

lemma run_steps_dropped:
  assumes "\<And>x p. x \<in> set xs \<Longrightarrow> dropped msk p (f x p) (X x)"
  shows "dropped msk p (run_steps f xs p) (\<Union>x \<in> set xs. X x)"
  using assms
proof (induction xs arbitrary: p)
  case (Cons x xs)
  obtain p1 e1 where 1: "f x p = (p1, e1)" by (cases "f x p")
  obtain p2 e2 where 2: "run_steps f xs p1 = (p2, e2)" by (cases "run_steps f xs p1")
  have "dropped msk p (p1, e1) (X x)" using Cons.prems [of x p] 1 by simp
  moreover have "dropped msk p1 (p2, e2) (\<Union>x \<in> set xs. X x)" using Cons.IH [of p1] Cons.prems 2 by simp
  ultimately show ?case using 1 2 by (auto simp: dropped_def)
qed (simp add: dropped_def)

lemma forget_items:
  assumes "maps_wf M" shows "maps_wf (forget v6 n q c M)" "items (forget v6 n q c M) = items M - {(v6, q, n, c)}"
proof -
  have "maps_wf (forget v6 n q c M) \<and> items (forget v6 n q c M) = items M - {(v6, q, n, c)}"
  proof (cases "map_of (pools_of M n) q")
    case None
    then show ?thesis using assms by (auto simp: forget_def items_def sets_of_def)
  next
    case (Some s)
    have so: "sets_of M n q = s" using Some by (simp add: sets_of_def)
    have "items (put_sets M n q (del_family v6 c s)) = items M - {(v6, q, n, c)}"
      by (rule items_remove) (auto simp: so del_family_wf(2))
    with Some maps_wf_put [OF assms del_family_wf(1) [OF sets_of_wf [OF assms Some]]] show ?thesis by (simp add: forget_def)
  qed
  then show "maps_wf (forget v6 n q c M)" "items (forget v6 n q c M) = items M - {(v6, q, n, c)}" by simp_all
qed

lemma forget_orphans: "orphans_fit msk M \<Longrightarrow> orphans_fit msk (forget v6 n q c M)"
  using orphans_sets [of msk M _ _ n q]
  by (cases "map_of (pools_of M n) q") (auto simp: forget_def sets_of_def del_family_wf(2) intro!: orphans_put split: if_splits)

lemma orphan_step_dropped:
  assumes "cs_InRange old c \<Longrightarrow> cs_IsAllocated old c = Inr True \<and> fit_fam v6 (msk v6 q) c"
  shows "dropped msk p (orphan_step old v6 n q s c p) (if cs_InRange old c then {(v6, q, n, c)} else {})"
proof (cases "cs_InRange old c")
  case True
  let ?p = "markOrphan n q c (st_allowFirstIP s) (st_allowLastIP s) p"
  have "orphans_fit msk (pa_orphans p) \<Longrightarrow> orphans_fit msk (pa_orphans ?p)"
    by (rule markOrphan_fit) (use assms True in auto)
  with True assms forget_items [of "pa_nodes p"] show ?thesis by (simp add: orphan_step_def Let_def dropped_def)
qed (simp add: orphan_step_def dropped_def)

definition in_range_items :: "bool \<Rightarrow> cidr_set \<Rightarrow> item set \<Rightarrow> item set" where
  "in_range_items v6 old H = {(w, q, n, c). w = v6 \<and> (w, q, n, c) \<in> H \<and> cs_InRange old c}"

text \<open>Every held CIDR that an allocator has in range is marked in it.\<close>

definition accounted :: "(bool \<Rightarrow> string \<Rightarrow> int) \<Rightarrow> bool \<Rightarrow> cidr_set \<Rightarrow> item set \<Rightarrow> bool" where
  "accounted msk v6 old H \<longleftrightarrow>
     (\<forall>q n c. (v6, q, n, c) \<in> H \<longrightarrow> cs_InRange old c \<longrightarrow> cs_IsAllocated old c = Inr True \<and> fit_fam v6 (msk v6 q) c)"

lemma drop_set_dropped:
  assumes "maps_wf (pa_nodes p)" "accounted msk v6 old (items (pa_nodes p))"
  shows "dropped msk p (drop_set v6 old p) (in_range_items v6 old (items (pa_nodes p)))"
proof -
  let ?M = "pa_nodes p"
  let ?X = "\<lambda>n q c. if cs_InRange old c then {(v6, q, n, c)} else {} :: item set"
  have acc: "cs_IsAllocated old c = Inr True \<and> fit_fam v6 (msk v6 q) c"
    if "(n, ps) \<in> set ?M" "(q, s) \<in> set ps" "c \<in> set (family_elems v6 s)" "cs_InRange old c" for n ps q s c
  proof -
    have "(v6, q, n, c) \<in> items ?M" using maps_wf_entry(2) [OF assms(1) that(1,2)] that(3) by (simp add: items_def)
    with assms(2) that(4) show ?thesis unfolding accounted_def by blast
  qed
  have "dropped msk p (drop_set v6 old p)
    (\<Union>x \<in> set ?M. \<Union>y \<in> set (snd x). \<Union>c \<in> set (family_elems v6 (snd y)). ?X (fst x) (fst y) c)"
    unfolding drop_set_def
  proof (rule run_steps_dropped)
    fix x p' assume x: "x \<in> set ?M"
    obtain n ps where n: "x = (n, ps)" by (cases x)
    have "dropped msk p' (run_steps (\<lambda>(q, s). run_steps (orphan_step old v6 n q s) (family_elems v6 s)) ps p')
      (\<Union>y \<in> set ps. \<Union>c \<in> set (family_elems v6 (snd y)). ?X n (fst y) c)"
    proof (rule run_steps_dropped)
      fix y p' assume y: "y \<in> set ps"
      obtain q s where q: "y = (q, s)" by (cases y)
      have "dropped msk p' (run_steps (orphan_step old v6 n q s) (family_elems v6 s) p') (\<Union>c \<in> set (family_elems v6 s). ?X n q c)"
      proof (rule run_steps_dropped)
        fix c p' assume c: "c \<in> set (family_elems v6 s)"
        show "dropped msk p' (orphan_step old v6 n q s c p') (?X n q c)"
          by (rule orphan_step_dropped) (rule acc [OF x [unfolded n] y [unfolded q] c])
      qed
      then show "dropped msk p' ((case y of (q, s) \<Rightarrow> run_steps (orphan_step old v6 n q s) (family_elems v6 s)) p')
        (\<Union>c \<in> set (family_elems v6 (snd y)). ?X n (fst y) c)" by (simp add: q)
    qed
    then show "dropped msk p' ((case x of (n, ps) \<Rightarrow> run_steps (\<lambda>(q, s). run_steps (orphan_step old v6 n q s) (family_elems v6 s)) ps) p')
      (\<Union>y \<in> set (snd x). \<Union>c \<in> set (family_elems v6 (snd y)). ?X (fst x) (fst y) c)" by (simp add: n)
  qed
  moreover have "(\<Union>x \<in> set ?M. \<Union>y \<in> set (snd x). \<Union>c \<in> set (family_elems v6 (snd y)). ?X (fst x) (fst y) c) =
      in_range_items v6 old (items ?M)" (is "?U = _")
  proof
    show "?U \<subseteq> in_range_items v6 old (items ?M)"
      using maps_wf_entry(2) [OF assms(1)] by (fastforce simp: in_range_items_def items_def split: if_splits)
    show "in_range_items v6 old (items ?M) \<subseteq> ?U"
    proof
      fix x assume "x \<in> in_range_items v6 old (items ?M)"
      then obtain q n c where x: "x = (v6, q, n, c)" "c \<in> set (family_elems v6 (sets_of ?M n q))" "cs_InRange old c"
        by (auto simp: in_range_items_def items_def)
      then obtain s where s: "map_of (pools_of ?M n) q = Some s" "sets_of ?M n q = s"
        by (cases "map_of (pools_of ?M n) q") (auto simp: sets_of_def)
      then have "(n, pools_of ?M n) \<in> set ?M" "(q, s) \<in> set (pools_of ?M n)"
        using pools_of_cases [of ?M n] by (auto dest: map_of_SomeD)
      with x s show "x \<in> ?U" by force
    qed
  qed
  ultimately show ?thesis by simp
qed

lemma drop_sets_dropped:
  assumes "maps_wf (pa_nodes p)" "orphans_fit msk (pa_orphans p)" "\<And>s. s \<in> set ds \<Longrightarrow> accounted msk v6 s (items (pa_nodes p))"
  shows "dropped msk p (run_steps (drop_set v6) ds p) (\<Union>s \<in> set ds. in_range_items v6 s (items (pa_nodes p)))"
  using assms
proof (induction ds arbitrary: p)
  case (Cons s ds)
  obtain p1 e1 where 1: "drop_set v6 s p = (p1, e1)" by (cases "drop_set v6 s p")
  obtain p2 e2 where 2: "run_steps (drop_set v6) ds p1 = (p2, e2)" by (cases "run_steps (drop_set v6) ds p1")
  have d: "dropped msk p (p1, e1) (in_range_items v6 s (items (pa_nodes p)))"
    using drop_set_dropped [OF Cons.prems(1), of msk v6 s] Cons.prems(3) 1 by simp
  then have p1: "maps_wf (pa_nodes p1)" "orphans_fit msk (pa_orphans p1)"
    "items (pa_nodes p1) = items (pa_nodes p) - in_range_items v6 s (items (pa_nodes p))"
    using Cons.prems(1,2) by (simp_all add: dropped_def)
  have "accounted msk v6 t (items (pa_nodes p1))" if "t \<in> set ds" for t
    using Cons.prems(3) [of t] that unfolding p1(3) accounted_def by auto
  from Cons.IH [OF p1(1,2) this] 2 have d2: "dropped msk p1 (p2, e2) (\<Union>s \<in> set ds. in_range_items v6 s (items (pa_nodes p1)))" by simp
  have "items (pa_nodes p1) - (\<Union>s \<in> set ds. in_range_items v6 s (items (pa_nodes p1))) =
    items (pa_nodes p) - (\<Union>s \<in> set (s # ds). in_range_items v6 s (items (pa_nodes p)))"
    unfolding p1(3) by (auto simp: in_range_items_def)
  with d d2 p1(1,2) 1 2 show ?case by (simp add: dropped_def)
qed (simp add: dropped_def)

text \<open>Allocators of the plan account for what nodes hold.\<close>

lemma books_accounted:
  assumes "plan_ok own" "books_ok own msk H G" "G name = Some po" "s \<in> set (somes (pool_slice v6 po))"
  shows "accounted msk v6 s H"
    "(w, q, n, c) \<in> H \<Longrightarrow> w = v6 \<Longrightarrow> cs_InRange s c \<Longrightarrow> q = name"
proof -
  note fs = books_okD [OF assms(2,3), of v6]
  have s: "cs_inv s" "cs_geometry s" "cs_nodeMaskSize s = msk v6 name" "cs_clusterPrefix s \<in> own name" "set_books (section_of H v6 name) s"
    using fs assms(4) fam_setsD [of v6 "msk v6 name" "own name" "somes (pool_slice v6 po)" s] by (auto simp: fam_ok_def)
  have q: "q = name" if i: "(v6, q, n, c) \<in> H" and r: "cs_InRange s c" for q n c
  proof (rule ccontr)
    assume ne: "q \<noteq> name"
    obtain po' where po': "G q = Some po'" using item_fits(2) [OF assms(2) i] by blast
    have "(n, c) \<in> section_of H v6 q" using i by simp
    note h = fam_heldD [OF books_okD [OF assms(2) po', of v6] this]
    obtain t where t: "t \<in> set (somes (pool_slice v6 po'))" "cs_InRange t c" using h(2) by blast
    note d = fam_setsD [OF h(3) t(1)]
    have "pfx_disjoint (cs_clusterPrefix t) (cs_clusterPrefix s)"
      using assms(1) d(5) s(4) ne unfolding plan_ok_def by (metis prod.inject)
    then show False using held_disjoint [of t c s] d h(1) t(2) s(2) r by (simp add: fit_fam_def)
  qed
  then show "(w, q, n, c) \<in> H \<Longrightarrow> w = v6 \<Longrightarrow> cs_InRange s c \<Longrightarrow> q = name" by blast
  show "accounted msk v6 s H" unfolding accounted_def
  proof (intro allI impI)
    fix q n c assume i: "(v6, q, n, c) \<in> H" and r: "cs_InRange s c"
    have qn: "q = name" by (rule q [OF i r])
    have f: "fit_fam v6 (msk v6 q) c" by (rule item_fits(1) [OF assms(2) i])
    then have ft: "fits (cs_nodeMaskSize s) c" using s(3) qn by (simp add: fit_fam_def)
    have "cs_blocks s c \<subseteq> bits_of (cs_used s)"
    proof -
      have "(n, c) \<in> section_of H v6 name" using i qn by simp
      then have "cs_blocks s (snd (n, c)) \<subseteq> bits_of (cs_used s)" using s(5) unfolding set_books_def by blast
      then show ?thesis by simp
    qed
    then have "cs_IsAllocated s c = Inr True"
      using cs_IsAllocated_spec [OF s(1) _ _ r] ft by (simp add: fits_def)
    with f show "cs_IsAllocated s c = Inr True \<and> fit_fam v6 (msk v6 q) c" by simp
  qed
qed

text \<open>The allocators after the update: those kept, and new ones of which nothing is used.\<close>

lemma fam_update:
  assumes "apart own" "fam_ok v6 m own H ts"
    and "\<And>s. s \<in> set new \<Longrightarrow> cs_inv s \<and> cs_nodeMaskSize s = m \<and> addr_is4 (pfx_addr (cs_clusterPrefix s)) = (\<not> v6) \<and>
      cs_clusterPrefix s \<in> own \<and> cs_clusterPrefix s \<notin> cs_clusterPrefix ` set ts \<and> cs_used s = 0"
    and "set (filter K ts) \<subseteq> set ts'" "set ts' \<subseteq> set (filter K ts) \<union> set new" "distinct (map cs_clusterPrefix ts')"
    and "H' = {h \<in> H. \<not> (\<exists>s \<in> set ts. \<not> K s \<and> cs_InRange s (snd h))}"
  shows "fam_ok v6 m own H' ts'"
proof -
  have f: "fam_sets v6 m own ts" "\<And>s. s \<in> set ts \<Longrightarrow> set_books H s" using assms(2) by (simp_all add: fam_ok_def)
  note d = fam_setsD [OF f(1)]
  have held: "fit_fam v6 m (snd h)" "\<exists>s \<in> set ts. cs_InRange s (snd h)" if "h \<in> H" for h
    using fam_heldD [OF assms(2), of "fst h" "snd h"] that by simp_all
  have ne: "cs_clusterPrefix s \<noteq> cs_clusterPrefix t" if "s \<in> set ts" "t \<in> set ts" "s \<noteq> t" for s t
    using that f(1) by (auto simp: fam_sets_def distinct_map dest: inj_onD)
  have blocks: "cs_blocks t (snd h) = {}"
    if "h \<in> H" "s \<in> set ts" "cs_InRange s (snd h)" "cs_inv t" "cs_nodeMaskSize t = m" "cs_clusterPrefix t \<in> own"
      "cs_clusterPrefix s \<noteq> cs_clusterPrefix t" for h s t
  proof -
    have ft: "fits m (snd h)" using held(1) [OF that(1)] by (simp add: fit_fam_def)
    have "\<not> cs_InRange t (snd h)"
      using one_range [OF assms(1) d(5) [OF that(2)] that(6,7) d(2) [OF that(2)] cs_invD(1) [OF that(4)]] d(3) [OF that(2)] ft that(3) by simp
    then show ?thesis using blocks_fit [OF cs_invD(1) [OF that(4)]] that(5) ft by simp
  qed
  have sets: "fam_sets v6 m own ts'" using f(1) assms(3,5,6) unfolding fam_sets_def by (auto dest!: subsetD)
  have "set_books H' t" if t: "t \<in> set ts'" for t
  proof (cases "t \<in> set (filter K ts)")
    case True
    show ?thesis
    proof (rule set_books_cong [OF f(2)])
      show "t \<in> set ts" using True by simp
      fix h assume "h \<in> H - H' \<union> (H' - H)"
      then obtain s where s: "h \<in> H" "s \<in> set ts" "\<not> K s" "cs_InRange s (snd h)" using assms(7) by auto
      then have "s \<noteq> t" using True by auto
      then show "cs_blocks t (snd h) = {}"
        using blocks [OF s(1,2,4)] ne [OF s(2)] d [of t] True by simp
    qed
  next
    case False
    then have n: "t \<in> set new" using assms(5) t by auto
    note a = assms(3) [OF n]
    have "cs_blocks t (snd h) = {}" if h: "h \<in> H'" for h
    proof -
      obtain s where s: "h \<in> H" "s \<in> set ts" "cs_InRange s (snd h)" using held(2) [of h] h assms(7) by blast
      then have "cs_clusterPrefix s \<noteq> cs_clusterPrefix t" using a by (metis image_eqI)
      then show ?thesis using blocks [OF s] a by simp
    qed
    then show ?thesis using a by (auto simp: set_books_def)
  qed
  moreover have "fit_fam v6 m (snd h) \<and> (\<exists>s \<in> set ts'. cs_InRange s (snd h))" if h: "h \<in> H'" for h
  proof -
    obtain s where s: "h \<in> H" "s \<in> set ts" "cs_InRange s (snd h)" using held(2) [of h] h assms(7) by blast
    then have "K s" using h assms(7) by auto
    with s(2) assms(4) have "s \<in> set ts'" by auto
    with s(3) held(1) [OF s(1)] show ?thesis by auto
  qed
  ultimately show ?thesis using sets by (simp add: fam_ok_def)
qed

lemma hasCIDR_False: "hasCIDR ss c = Some False \<Longrightarrow> c \<notin> cs_clusterPrefix ` set (somes ss)"
  by (induction ss c rule: hasCIDR.induct) (auto simp: cs_IsClusterCIDR_def split: if_splits)

lemma length_somes: "length (somes ss) \<le> length ss"
  by (induction ss rule: somes.induct) simp_all

definition cidr_planned :: "prefix set \<Rightarrow> int \<Rightarrow> prefix \<Rightarrow> bool" where
  "cidr_planned own m c \<longleftrightarrow> c \<in> own \<and> pfx_masked c = c \<and> good_cidr_config c m"

lemma self_disjoint_distinct:
  assumes "\<And>x. x \<in> set xs \<Longrightarrow> \<not> P (f x) (f x)" "sorted_wrt (\<lambda>x y. P (f x) (f y)) xs"
  shows "distinct (map f xs)"
  using assms
proof (induction xs)
  case (Cons x xs)
  have "f x \<noteq> f y" if "y \<in> set xs" for y
    using Cons.prems(1) [of x] Cons.prems(2) that by (metis list.set_intros(1) sorted_wrt.simps(2))
  with Cons show ?case by auto
qed simp

lemma new_sets:
  assumes "NewCIDRSets v6 m cs [] = Inr new" "list_all (cidr_planned own m) cs"
  shows "\<And>s. s \<in> set new \<Longrightarrow> cs_inv s \<and> cs_nodeMaskSize s = m \<and> addr_is4 (pfx_addr (cs_clusterPrefix s)) = (\<not> v6) \<and>
      cs_clusterPrefix s \<in> own \<and> cs_clusterPrefix s \<in> set cs \<and> cs_used s = 0"
    "distinct (map cs_clusterPrefix new)"
proof -
  have g: "list_all (\<lambda>c. good_cidr_config c m) cs" using assms(2) by (auto simp: list_all_iff cidr_planned_def)
  have o: "sets_ok v6 m new" "map cs_clusterPrefix new = map pfx_masked cs"
    using NewCIDRSets_ok [OF assms(1) g] by (simp_all add: sets_ok_def)
  have cs: "map pfx_masked cs = cs" using assms(2) by (auto simp: list_all_iff cidr_planned_def intro!: map_idI)
  have u: "list_all (\<lambda>s. cs_used s = 0 \<and> cs_reserved s = 0) new" by (rule NewCIDRSets_fresh [OF assms(1)]) simp
  show "cs_inv s \<and> cs_nodeMaskSize s = m \<and> addr_is4 (pfx_addr (cs_clusterPrefix s)) = (\<not> v6) \<and>
      cs_clusterPrefix s \<in> own \<and> cs_clusterPrefix s \<in> set cs \<and> cs_used s = 0" if s: "s \<in> set new" for s
  proof -
    have "cs_clusterPrefix s \<in> set (map cs_clusterPrefix new)" using s by simp
    then have c: "cs_clusterPrefix s \<in> set cs" unfolding o(2) cs .
    then have "cidr_planned own m (cs_clusterPrefix s)" using assms(2) unfolding list_all_iff by blast
    moreover have "cs_inv s \<and> cs_nodeMaskSize s = m \<and> addr_is4 (pfx_addr (cs_clusterPrefix s)) = (\<not> v6)"
      using o(1) s unfolding sets_ok_def list_all_iff by blast
    moreover have "cs_used s = 0" using u s unfolding list_all_iff by blast
    ultimately show ?thesis using c by (simp add: cidr_planned_def)
  qed
  have "\<not> pfx_disjoint (cs_clusterPrefix s) (cs_clusterPrefix s)" if "s \<in> set new" for s
    using that o(1) pfx_contains_self [of "cs_clusterPrefix s"]
    by (auto simp: sets_ok_def list_all_iff cs_inv_def cs_geometry_def pfx_disjoint_def)
  moreover have "sorted_wrt (\<lambda>s t. pfx_disjoint (cs_clusterPrefix s) (cs_clusterPrefix t)) new" using o(1) by (simp add: sets_ok_def)
  ultimately show "distinct (map cs_clusterPrefix new)"
    by (rule self_disjoint_distinct)
qed

lemma updateCIDRSets_spec:
  assumes "plan_ok own" "maps_wf (pa_nodes p)" "orphans_fit msk (pa_orphans p)" "books_ok own msk (items (pa_nodes p)) G"
    "G name = Some po" "\<And>c. c \<in> set cs \<Longrightarrow> cidr_planned (own name) (msk v6 name) c"
    "updateCIDRSets v6 (pool_slice v6 po) cs (msk v6 name) p = (p', es, new, k)" "es = []"
  obtains kept new' where "k = Some (length kept)" "length kept \<le> length (pool_slice v6 po)" "new = map Some (kept @ new')"
    "pa_pools p' = pa_pools p" "maps_wf (pa_nodes p')" "orphans_fit msk (pa_orphans p')"
    "\<And>w q. (w, q) \<noteq> (v6, name) \<Longrightarrow> section_of (items (pa_nodes p')) w q = section_of (items (pa_nodes p)) w q"
    "section_of (items (pa_nodes p')) v6 name \<subseteq> section_of (items (pa_nodes p)) v6 name"
    "\<And>m. length kept \<le> m \<Longrightarrow>
      fam_ok v6 (msk v6 name) (own name) (section_of (items (pa_nodes p')) v6 name) (take m (kept @ new'))"
proof -
  let ?ss = "pool_slice v6 po" and ?ts = "somes (pool_slice v6 po)" and ?M = "pa_nodes p"
  let ?alloc = "filter (\<lambda>c. hasCIDR ?ss c = Some False) cs" and ?K = "is_kept cs"
  let ?kept = "filter ?K ?ts" and ?drop = "filter (\<lambda>s. \<not> ?K s) ?ts"
  obtain new' where n: "NewCIDRSets v6 (msk v6 name) ?alloc [] = Inr new'"
    and r: "run_steps (drop_set v6) ?drop p = (p', es)" "new = map Some (?kept @ new')" "k = Some (length ?kept)"
    using assms(7,8) by (auto simp: updateCIDRSets_def Let_def split: if_splits sum.splits prod.splits)
  have X: "dropped msk p (p', es) (\<Union>s \<in> set ?drop. in_range_items v6 s (items ?M))"
    unfolding r(1) [symmetric]
    by (rule drop_sets_dropped [OF assms(2,3)]) (use books_accounted(1) [OF assms(1,4,5)] in auto)
  let ?X = "\<Union>s \<in> set ?drop. in_range_items v6 s (items ?M)" and ?M' = "pa_nodes p'"
  have p': "pa_pools p' = pa_pools p" "maps_wf ?M'" "orphans_fit msk (pa_orphans p')" "items ?M' = items ?M - ?X"
    using X assms(2,3) by (simp_all add: dropped_def)
  have name: "q = name" if "(w, q, n, c) \<in> ?X" for w q n c
    using that books_accounted(2) [OF assms(1,4,5)] by (auto simp: in_range_items_def)
  have fam: "w = v6" if "(w, q, n, c) \<in> ?X" for w q n c using that by (auto simp: in_range_items_def)
  have sec: "section_of (items ?M') w q = section_of (items ?M) w q" if "(w, q) \<noteq> (v6, name)" for w q
  proof -
    have "(w, q, n, c) \<notin> ?X" for n c using that name [of w q n c] fam [of w q n c] by blast
    then show ?thesis unfolding p'(4) section_of_def by blast
  qed
  have H': "section_of (items ?M') v6 name = {h \<in> section_of (items ?M) v6 name. \<not> (\<exists>s \<in> set ?ts. \<not> ?K s \<and> cs_InRange s (snd h))}"
    unfolding p'(4) by (auto simp: section_of_def in_range_items_def)
  have pl: "list_all (cidr_planned (own name) (msk v6 name)) ?alloc" using assms(6) by (simp add: list_all_iff)
  note ns = new_sets [OF n pl]
  have ts: "fam_sets v6 (msk v6 name) (own name) ?ts" using books_okD [OF assms(4,5)] by (simp add: fam_ok_def)
  have out: "cs_clusterPrefix s \<notin> cs_clusterPrefix ` set ?ts" if "s \<in> set new'" for s
    using ns(1) [OF that] hasCIDR_False [of ?ss] by auto
  have di: "distinct (map cs_clusterPrefix (?kept @ new'))"
  proof -
    have "distinct (map cs_clusterPrefix ?kept)" using ts by (simp add: fam_sets_def distinct_map_filter)
    moreover have "cs_clusterPrefix ` set ?kept \<inter> cs_clusterPrefix ` set new' = {}"
    proof -
      have "cs_clusterPrefix s \<notin> cs_clusterPrefix ` set ?kept" if "s \<in> set new'" for s
        using out [OF that] by auto
      then show ?thesis unfolding disjoint_iff by (metis imageE)
    qed
    ultimately show ?thesis using ns(2) by (simp only: map_append distinct_append set_map)
  qed
  show ?thesis
  proof (rule that [OF r(3) _ r(2) p'(1-3) sec])
    show "length ?kept \<le> length ?ss" using length_somes [of ?ss] length_filter_le [of ?K ?ts] by linarith
    show "section_of (items ?M') v6 name \<subseteq> section_of (items ?M) v6 name" unfolding H' by blast
    fix m assume m: "length ?kept \<le> m"
    show "fam_ok v6 (msk v6 name) (own name) (section_of (items ?M') v6 name) (take m (?kept @ new'))"
    proof (rule fam_update [OF plan_apart [OF assms(1)] books_okD [OF assms(4,5)] _ _ _ _ H'])
      show "cs_inv s \<and> cs_nodeMaskSize s = msk v6 name \<and> addr_is4 (pfx_addr (cs_clusterPrefix s)) = (\<not> v6) \<and>
        cs_clusterPrefix s \<in> own name \<and> cs_clusterPrefix s \<notin> cs_clusterPrefix ` set ?ts \<and> cs_used s = 0" if "s \<in> set new'" for s
        using ns(1) [OF that] out [OF that] by simp
      show "set ?kept \<subseteq> set (take m (?kept @ new'))" using m by simp
      show "set (take m (?kept @ new')) \<subseteq> set ?kept \<union> set new'" using set_take_subset [of m "?kept @ new'"] by simp
      show "distinct (map cs_clusterPrefix (take m (?kept @ new')))" using distinct_take [OF di, of m] by (simp add: take_map)
    qed
  qed
qed

lemma updateCIDRSets_error:
  assumes "maps_wf (pa_nodes p)" "orphans_fit msk (pa_orphans p)" "books_ok own msk (items (pa_nodes p)) G" "plan_ok own"
    "G name = Some po" "updateCIDRSets v6 (pool_slice v6 po) cs m p = (p', es, new, k)" "es \<noteq> []"
  shows "k = None \<and> (p' = p \<or> p' = panic p)"
proof -
  let ?ts = "somes (pool_slice v6 po)"
  have "dropped msk p (run_steps (drop_set v6) (filter (\<lambda>s. \<not> is_kept cs s) ?ts) p)
      (\<Union>s \<in> set (filter (\<lambda>s. \<not> is_kept cs s) ?ts). in_range_items v6 s (items (pa_nodes p)))"
    by (rule drop_sets_dropped [OF assms(1,2)]) (use books_accounted(1) [OF assms(4,3,5)] in auto)
  then show ?thesis using assms(6,7)
    by (auto simp: updateCIDRSets_def Let_def dropped_def split: if_splits sum.splits prod.splits)
qed

text \<open>The old slice keeps the allocators that the new one has first.\<close>

lemma somes_nil [simp]: "somes (map Some xs @ replicate j None) = xs"
  by (induction j) simp_all

lemma old_view_take:
  assumes "length kept \<le> length prev"
  shows "\<exists>m j. length kept \<le> m \<and> old_view room prev (Some (length kept)) (map Some (kept @ new)) = map Some (take m (kept @ new)) @ replicate j None"
proof -
  let ?L = "kept @ new" and ?b = "room \<or> length (kept @ new) \<le> length prev"
  let ?m = "if ?b then min (length ?L) (length prev) else length kept"
  have "old_view room prev (Some (length kept)) (map Some ?L) = map Some (take ?m ?L) @ replicate (length prev - ?m) None"
    using assms by (intro nth_equalityI) (auto simp: old_view_def nth_append)
  moreover have "length kept \<le> ?m" using assms by simp
  ultimately show ?thesis by blast
qed

definition same_used :: "cidr_set \<Rightarrow> cidr_set \<Rightarrow> bool" where
  "same_used s t \<longleftrightarrow> same_range s t \<and> cs_inv t \<and> cs_used t = cs_used s"

lemma fam_same:
  assumes "list_all2 same_used ts ts'" "fam_ok v6 m own H ts"
  shows "fam_ok v6 m own H ts'"
proof -
  have p: "map cs_clusterPrefix ts' = map cs_clusterPrefix ts"
    using assms(1) by (induction rule: list_all2_induct) (simp_all add: same_used_def same_range_def)
  have fwd: "\<exists>s \<in> set ts. same_used s t" if "t \<in> set ts'" for t
    using that assms(1) by (metis in_set_conv_nth list_all2_conv_all_nth)
  have bwd: "\<exists>t \<in> set ts'. same_used s t" if "s \<in> set ts" for s
    using that assms(1) by (metis in_set_conv_nth list_all2_conv_all_nth)
  have "fam_sets v6 m own ts'" unfolding fam_sets_def
  proof
    show "distinct (map cs_clusterPrefix ts')" using assms(2) p by (simp add: fam_ok_def fam_sets_def)
    show "\<forall>t \<in> set ts'. cs_inv t \<and> cs_nodeMaskSize t = m \<and> addr_is4 (pfx_addr (cs_clusterPrefix t)) = (\<not> v6) \<and> cs_clusterPrefix t \<in> own"
    proof
      fix t assume "t \<in> set ts'"
      then obtain s where "s \<in> set ts" "same_used s t" using fwd by blast
      with assms(2) same_rangeD(3,4) [of s t] show "cs_inv t \<and> cs_nodeMaskSize t = m \<and> addr_is4 (pfx_addr (cs_clusterPrefix t)) = (\<not> v6) \<and> cs_clusterPrefix t \<in> own"
        by (auto simp: same_used_def fam_ok_def fam_sets_def)
    qed
  qed
  moreover have "\<exists>t \<in> set ts'. cs_InRange t c" if in_s: "\<exists>s \<in> set ts. cs_InRange s c" for c
    using in_s bwd same_rangeD(2) unfolding same_used_def by metis
  moreover have "set_books H t" if t: "t \<in> set ts'" for t
  proof -
    obtain s where s: "s \<in> set ts" "same_used s t" using fwd [OF t] by blast
    then have "set_books H s" using assms(2) by (simp add: fam_ok_def)
    moreover have "cs_blocks t c = cs_blocks s c" for c using s(2) same_rangeD(1) by (simp add: same_used_def)
    ultimately show ?thesis using s(2) by (simp add: set_books_def same_used_def)
  qed
  ultimately show ?thesis using assms(2) by (simp add: fam_ok_def)
qed

definition config_ok :: "prefix set \<Rightarrow> int \<Rightarrow> pool_cidr_config list \<Rightarrow> bool" where
  "config_ok own m cfg \<longleftrightarrow>
     list_all (\<lambda>(c, rs). cidr_planned own m c \<and> list_all (\<lambda>(a, b). pfx_contains c a \<and> pfx_contains c b) rs) cfg"

lemma setReservedRanges_spec:
  assumes "\<And>s. s \<in> set ts \<Longrightarrow> cs_inv s" "config_ok own m cfg"
  shows "\<exists>ts'. setReservedRanges (map Some ts) cfg = (map Some ts', []) \<and> list_all2 same_used ts ts'"
  using assms(1)
proof (induction ts)
  case (Cons s ts)
  let ?rs = "case map_of (rev cfg) (cs_clusterPrefix s) of None \<Rightarrow> [] | Some rs \<Rightarrow> rs"
  have "(cs_clusterPrefix s, rs) \<in> set cfg" if "map_of (rev cfg) (cs_clusterPrefix s) = Some rs" for rs
    using map_of_SomeD [OF that] by simp
  then have "list_all (\<lambda>(a, b). pfx_contains (cs_clusterPrefix s) a \<and> pfx_contains (cs_clusterPrefix s) b) ?rs"
    using assms(2) by (fastforce simp: config_ok_def list_all_iff split: option.split)
  then obtain t where t: "SetReservedRanges s ?rs = Inr t" "cs_inv t" "cs_used t = cs_used s" "cs_clusterPrefix t = cs_clusterPrefix s"
    "cs_nodeMaskSize t = cs_nodeMaskSize s" "cs_maxCIDRs t = cs_maxCIDRs s"
    using SetReservedRanges_spec [of s ?rs] Cons.prems [of s] by (metis list.set_intros(1))
  obtain ts' where "setReservedRanges (map Some ts) cfg = (map Some ts', [])" "list_all2 same_used ts ts'"
    using Cons.IH Cons.prems by auto
  moreover have "same_used s t" using t by (simp add: same_used_def same_range_def)
  ultimately show ?case using t(1) by (intro exI [of _ "t # ts'"]) simp
qed simp

lemma books_set:
  assumes "books_ok own msk H G" "\<And>w q. q \<noteq> name \<Longrightarrow> section_of H' w q = section_of H w q"
    "\<And>w. fam_ok w (msk w name) (own name) (section_of H' w name) (somes (pool_slice w po))"
  shows "books_ok own msk H' (G(name \<mapsto> po))"
  unfolding books_ok_def
proof (intro allI)
  fix q w
  have "case G q of None \<Rightarrow> section_of H w q = {}
      | Some po \<Rightarrow> fam_ok w (msk w q) (own q) (section_of H w q) (somes (pool_slice w po))"
    using assms(1) by (simp add: books_ok_def)
  with assms(2) [of q w] assms(3) [of w]
  show "case (G(name \<mapsto> po)) q of None \<Rightarrow> section_of H' w q = {}
      | Some po \<Rightarrow> fam_ok w (msk w q) (own q) (section_of H' w q) (somes (pool_slice w po))"
    by (cases "q = name") (simp_all split: option.splits)
qed

lemma books_shrink:
  assumes "books_ok own msk H G" "G name = None" "\<And>w q. q \<noteq> name \<Longrightarrow> section_of H' w q = section_of H w q"
    "\<And>w. section_of H' w name \<subseteq> section_of H w name"
  shows "books_ok own msk H' G"
  unfolding books_ok_def
proof (intro allI)
  fix q w
  have "case G q of None \<Rightarrow> section_of H w q = {}
      | Some po \<Rightarrow> fam_ok w (msk w q) (own q) (section_of H w q) (somes (pool_slice w po))"
    using assms(1) by (simp add: books_ok_def)
  with assms(2) assms(3) [of q w] assms(4) [of w]
  show "case G q of None \<Rightarrow> section_of H' w q = {}
      | Some po \<Rightarrow> fam_ok w (msk w q) (own q) (section_of H' w q) (somes (pool_slice w po))"
    by (cases "q = name") (auto split: option.splits)
qed

lemma unorphanCIDR_core:
  assumes "plan_ok own" "mp_core own msk p" "fit_fam v6 (msk v6 q) c"
  shows "mp_core own msk (fst (unorphanCIDR v6 n q c p))"
proof -
  obtain p1 es where o: "occupyCIDR n q c p = (p1, es)" by (cases "occupyCIDR n q c p")
  have "mp_core own msk p1" using occupyCIDR_core [OF assms, of n] o by simp
  moreover from this have "mp_core own msk (p1\<lparr>pa_orphans := forget v6 n q c (pa_orphans p1)\<rparr>)"
    by (intro orphans_core forget_orphans mp_coreD(2))
  ultimately show ?thesis using o by (cases es) (simp_all add: unorphanCIDR_def)
qed

lemma reconcileOrphanCIDRs_core:
  assumes "plan_ok own" "mp_core own msk p"
  shows "mp_core own msk (fst (reconcileOrphanCIDRs name v4 v6 p))"
proof -
  have step: "mp_core own msk (fst (run_steps (reconcile_step w ss n q) cs p'))"
    if "mp_core own msk p'" and f: "\<And>c. c \<in> set cs \<Longrightarrow> fit_fam w (msk w q) c" for w ss n q cs p'
  proof (rule run_steps_core [where I = "mp_core own msk"])
    fix c p assume c: "c \<in> set cs" "mp_core own msk p"
    from c(2) have "mp_core own msk (panic p)" by (simp add: mp_core_def panic_def)
    with c(2) unorphanCIDR_core [OF assms(1) c(2) f [OF c(1)]] show "mp_core own msk (fst (reconcile_step w ss n q c p))"
      by (auto simp: reconcile_step_def split: option.split bool.split)
  qed (rule that(1))
  show ?thesis unfolding reconcileOrphanCIDRs_def
  proof (rule run_steps_core [where I = "mp_core own msk"])
    fix x p0 assume x: "x \<in> set (pa_orphans p)" "mp_core own msk p0"
    obtain n ps where n: "x = (n, ps)" by (cases x)
    let ?f = "\<lambda>(pool, s) p1. case run_steps (reconcile_step False v4 n pool) (elems (st_v4 s)) p1 of
        (p2, e2) \<Rightarrow> (case run_steps (reconcile_step True v6 n pool) (elems (st_v6 s)) p2 of (p3, e3) \<Rightarrow> (p3, e2 @ e3))"
    have "mp_core own msk (fst (run_steps ?f ps p0))"
    proof (rule run_steps_core [where I = "mp_core own msk"])
      fix y p1 assume y: "y \<in> set ps" "mp_core own msk p1"
      obtain q s where q: "y = (q, s)" by (cases y)
      have fit: "fit_fam w (msk w q) c" if "c \<in> set (family_elems w s)" for w c
        using mp_coreD(2) [OF assms(2)] x(1) y(1) that unfolding orphans_fit_def n q by fastforce
      have "mp_core own msk (fst (run_steps (reconcile_step False v4 n q) (elems (st_v4 s)) p1))"
        by (rule step [OF y(2)]) (use fit [of _ False] in \<open>simp add: family_elems_def\<close>)
      from step [OF this, of "elems (st_v6 s)" True] fit [of _ True]
      show "mp_core own msk (fst (?f y p1))" by (simp add: q case_prod_beta family_elems_def)
    qed (rule x(2))
    from cleanupOrphans_core [OF this]
    show "mp_core own msk (fst ((case x of (n, ps) \<Rightarrow> \<lambda>p0. case run_steps (\<lambda>(pool, s) p1.
        case run_steps (reconcile_step False v4 n pool) (elems (st_v4 s)) p1 of
        (p2, e2) \<Rightarrow> (case run_steps (reconcile_step True v6 n pool) (elems (st_v6 s)) p2 of (p3, e3) \<Rightarrow> (p3, e2 @ e3))) ps p0 of
        (p4, e4) \<Rightarrow> (cleanupOrphans n name p4, e4)) p0))"
      by (simp add: n case_prod_beta)
  qed (rule assms(2))
qed

lemma view_fam:
  assumes "k = Some (length kept)" "length kept \<le> length prev" "new = map Some (kept @ new')"
    "\<And>m. length kept \<le> m \<Longrightarrow> fam_ok v6 mm own H (take m (kept @ new'))"
  shows "fam_ok v6 mm own H (somes (old_view room prev k new))" "fam_ok v6 mm own H (kept @ new')"
proof -
  obtain m j where "length kept \<le> m" "old_view room prev k new = map Some (take m (kept @ new')) @ replicate j None"
    using old_view_take [OF assms(2), of room new'] assms(1,3) by auto
  with assms(4) [of m] show "fam_ok v6 mm own H (somes (old_view room prev k new))" by (simp only: somes_nil)
  show "fam_ok v6 mm own H (kept @ new')" using assms(4) [of "length (kept @ new')"] by simp
qed

lemma keep_pool_core:
  assumes "mp_core own msk p" "pa_pools p' = pa_pools p" "maps_wf (pa_nodes p')" "orphans_fit msk (pa_orphans p')"
    "\<And>w q. q \<noteq> name \<Longrightarrow> section_of (items (pa_nodes p')) w q = section_of (items (pa_nodes p)) w q"
    "\<And>w. section_of (items (pa_nodes p')) w name \<subseteq> section_of (items (pa_nodes p)) w name"
    "fam_ok False (msk False name) (own name) (section_of (items (pa_nodes p')) False name) (somes ss4)"
    "fam_ok True (msk True name) (own name) (section_of (items (pa_nodes p')) True name) (somes ss6)"
  shows "mp_core own msk (keep_pool name (pa_pools p name) ss4 ss6 p')"
proof (cases "pa_pools p name")
  case None
  from books_shrink [OF mp_coreD(3) [OF assms(1)] None assms(5,6)] assms(2-4) None
  show ?thesis by (simp add: keep_pool_def mp_core_def)
next
  case (Some po)
  let ?po = "po\<lparr>po_v4 := ss4, po_v6 := ss6\<rparr>"
  have "fam_ok w (msk w name) (own name) (section_of (items (pa_nodes p')) w name) (somes (pool_slice w ?po))" for w
    using assms(7,8) by (cases w) (simp_all add: pool_slice_def)
  from books_set [OF mp_coreD(3) [OF assms(1)] assms(5) this] assms(2-4) Some
  show ?thesis by (simp add: keep_pool_def mp_core_def)
qed

definition empty_pool :: mp_pool where
  "empty_pool = \<lparr>po_v4 = [], po_v6 = [], po_v4MaskSize = 0, po_v6MaskSize = 0, po_allowFirstIP = False, po_allowLastIP = False\<rparr>"

lemma books_none:
  assumes "books_ok own msk H G" "G name = None"
  shows "section_of H w name = {}"
proof -
  have "case G name of None \<Rightarrow> section_of H w name = {}
      | Some po \<Rightarrow> fam_ok w (msk w name) (own name) (section_of H w name) (somes (pool_slice w po))"
    using assms(1) by (simp add: books_ok_def)
  with assms(2) show ?thesis by simp
qed

lemma books_ghost:
  assumes "books_ok own msk H G"
  shows "books_ok own msk H (G(name \<mapsto> (case G name of None \<Rightarrow> empty_pool | Some po \<Rightarrow> po)))"
proof (cases "G name")
  case None
  then have "fam_ok w (msk w name) (own name) (section_of H w name) (somes (pool_slice w empty_pool))" for w
    using books_none [OF assms None, of w] by (simp add: fam_ok_def fam_sets_def pool_slice_def empty_pool_def)
  from books_set [OF assms _ this] None show ?thesis by simp
next
  case (Some po)
  then have "G(name \<mapsto> po) = G" by (simp add: fun_upd_idem)
  with assms Some show ?thesis by simp
qed

text \<open>The slices of both families have been updated.\<close>

definition updated :: "(string \<Rightarrow> prefix set) \<Rightarrow> (bool \<Rightarrow> string \<Rightarrow> int) \<Rightarrow> string \<Rightarrow> pool_allocator \<Rightarrow> pool_allocator \<Rightarrow> bool" where
  "updated own msk name p p' \<longleftrightarrow> pa_pools p' = pa_pools p \<and> maps_wf (pa_nodes p') \<and> orphans_fit msk (pa_orphans p') \<and>
     (\<forall>w q. q \<noteq> name \<longrightarrow> section_of (items (pa_nodes p')) w q = section_of (items (pa_nodes p)) w q) \<and>
     (\<forall>w. section_of (items (pa_nodes p')) w name \<subseteq> section_of (items (pa_nodes p)) w name)"

lemma updated_panic: "updated own msk name p p' \<Longrightarrow> updated own msk name p (panic p')"
  by (simp add: updated_def panic_def)

lemma keep_updated:
  assumes "mp_core own msk p" "updated own msk name p p'"
    "fam_ok False (msk False name) (own name) (section_of (items (pa_nodes p')) False name) (somes ss4)"
    "fam_ok True (msk True name) (own name) (section_of (items (pa_nodes p')) True name) (somes ss6)"
  shows "mp_core own msk (keep_pool name (pa_pools p name) ss4 ss6 p')"
  using keep_pool_core [OF assms(1) _ _ _ _ _ assms(3,4)] assms(2) by (simp add: updated_def)

definition upsert_ok :: "(string \<Rightarrow> prefix set) \<Rightarrow> (bool \<Rightarrow> string \<Rightarrow> int) \<Rightarrow> string \<Rightarrow>
    pool_cidr_config list \<Rightarrow> int \<Rightarrow> pool_cidr_config list \<Rightarrow> int \<Rightarrow> bool" where
  "upsert_ok own msk name cfg4 m4 cfg6 m6 \<longleftrightarrow> m4 = msk False name \<and> m6 = msk True name \<and>
     config_ok (own name) m4 cfg4 \<and> config_ok (own name) m6 cfg6"

lemma config_planned: "config_ok own m cfg \<Longrightarrow> list_all (cidr_planned own m) (map fst cfg)"
  by (auto simp: config_ok_def list_all_iff)

lemma fam_inv: "fam_ok v6 m own H ts \<Longrightarrow> s \<in> set ts \<Longrightarrow> cs_inv s"
  by (simp add: fam_ok_def fam_sets_def)

lemma store_upserted_core:
  assumes "mp_core own msk p" "updated own msk name p p'"
    "fam_ok False (msk False name) (own name) (section_of (items (pa_nodes p')) False name) ts4"
    "fam_ok True (msk True name) (own name) (section_of (items (pa_nodes p')) True name) ts6"
    "pool_slice False po = map Some ts4" "pool_slice True po = map Some ts6"
  shows "mp_core own msk (store_pool name po p')"
proof -
  have "fam_ok w (msk w name) (own name) (section_of (items (pa_nodes p')) w name) (somes (pool_slice w po))" for w
    using assms(3-6) by (cases w) simp_all
  from books_set [OF mp_coreD(3) [OF assms(1)] _ this] assms(2) show ?thesis by (simp add: mp_core_def updated_def)
qed

lemma updated_trans: "updated own msk name p p1 \<Longrightarrow> updated own msk name p1 p2 \<Longrightarrow> updated own msk name p p2"
  unfolding updated_def by (metis subset_trans)

text \<open>One family's slice, whether the update fails or not.\<close>

lemma slice_step:
  assumes "plan_ok own" "maps_wf (pa_nodes p)" "orphans_fit msk (pa_orphans p)" "books_ok own msk (items (pa_nodes p)) G"
    "G name = Some po" "list_all (cidr_planned (own name) (msk v6 name)) cs"
    "updateCIDRSets v6 (pool_slice v6 po) cs (msk v6 name) p = (p', es, new, k)"
  shows "updated own msk name p p'"
    "fam_ok v6 (msk v6 name) (own name) (section_of (items (pa_nodes p')) v6 name) (somes (old_view room (pool_slice v6 po) k new))"
    "w \<noteq> v6 \<Longrightarrow> section_of (items (pa_nodes p')) w name = section_of (items (pa_nodes p)) w name"
    "es = [] \<Longrightarrow> \<exists>ts. new = map Some ts \<and> fam_ok v6 (msk v6 name) (own name) (section_of (items (pa_nodes p')) v6 name) ts"
proof -
  let ?H = "items (pa_nodes p)" and ?H' = "items (pa_nodes p')"
  have "updated own msk name p p' \<and>
    fam_ok v6 (msk v6 name) (own name) (section_of ?H' v6 name) (somes (old_view room (pool_slice v6 po) k new)) \<and>
    (w \<noteq> v6 \<longrightarrow> section_of ?H' w name = section_of ?H w name) \<and>
    (es = [] \<longrightarrow> (\<exists>ts. new = map Some ts \<and> fam_ok v6 (msk v6 name) (own name) (section_of ?H' v6 name) ts))"
  proof (cases "es = []")
    case False
    have k: "k = None" "p' = p \<or> p' = panic p" using updateCIDRSets_error [OF assms(2-4,1,5,7) False] by simp_all
    have "updated own msk name p p" using assms(2,3) by (simp add: updated_def)
    with k updated_panic have "updated own msk name p p'" by auto
    moreover have "?H' = ?H" using k(2) by (auto simp: panic_def)
    ultimately show ?thesis using False k(1) books_okD [OF assms(4,5), of v6] by (simp add: old_view_def)
  next
    case True
    show ?thesis
    proof (rule updateCIDRSets_spec [OF assms(1-5) _ assms(7) True])
      show "cidr_planned (own name) (msk v6 name) c" if "c \<in> set cs" for c using assms(6) that by (simp add: list_all_iff)
      fix kept new'
      assume u: "k = Some (length kept)" "length kept \<le> length (pool_slice v6 po)" "new = map Some (kept @ new')"
        "pa_pools p' = pa_pools p" "maps_wf (pa_nodes p')" "orphans_fit msk (pa_orphans p')"
        "\<And>w q. (w, q) \<noteq> (v6, name) \<Longrightarrow> section_of ?H' w q = section_of ?H w q"
        "section_of ?H' v6 name \<subseteq> section_of ?H v6 name"
        "\<And>m. length kept \<le> m \<Longrightarrow> fam_ok v6 (msk v6 name) (own name) (section_of ?H' v6 name) (take m (kept @ new'))"
      have "section_of ?H' w q = section_of ?H w q" if "q \<noteq> name" for w q using u(7) [of w q] that by simp
      moreover have "section_of ?H' w name \<subseteq> section_of ?H w name" for w using u(8) u(7) [of w name] by (cases "w = v6") simp_all
      ultimately have "updated own msk name p p'" using u(4-6) by (simp add: updated_def)
      then show ?thesis using view_fam(1) [OF u(1-3,9), of room] view_fam(2) [OF u(1-3,9)] u(3) u(7) [of w name] by blast
    qed
  qed
  then show "updated own msk name p p'"
    "fam_ok v6 (msk v6 name) (own name) (section_of ?H' v6 name) (somes (old_view room (pool_slice v6 po) k new))"
    "w \<noteq> v6 \<Longrightarrow> section_of ?H' w name = section_of ?H w name"
    "es = [] \<Longrightarrow> \<exists>ts. new = map Some ts \<and> fam_ok v6 (msk v6 name) (own name) (section_of ?H' v6 name) ts"
    by blast+
qed

lemma reserve_fam:
  assumes "fam_ok v6 m own H ts" "config_ok own m cfg"
  shows "\<exists>ts'. setReservedRanges (map Some ts) cfg = (map Some ts', []) \<and> fam_ok v6 m own H ts'"
  using setReservedRanges_spec [OF fam_inv [OF assms(1)] assms(2)] fam_same [OF _ assms(1)] by blast

lemma upsert_done:
  assumes "plan_ok own" "mp_core own msk p" "updated own msk name p p2"
    "fam_ok False (msk False name) (own name) (section_of (items (pa_nodes p2)) False name) ts4"
    "fam_ok True (msk True name) (own name) (section_of (items (pa_nodes p2)) True name) ts6"
    "config_ok (own name) (msk False name) cfg4" "config_ok (own name) (msk True name) cfg6"
  shows "\<exists>r4 r6. setReservedRanges (map Some ts4) cfg4 = (map Some r4, []) \<and> setReservedRanges (map Some ts6) cfg6 = (map Some r6, []) \<and>
    mp_core own msk (fst (reconcileOrphanCIDRs name (map Some r4) (map Some r6)
      (store_pool name \<lparr>po_v4 = map Some r4, po_v6 = map Some r6, po_v4MaskSize = m4, po_v6MaskSize = m6,
         po_allowFirstIP = af, po_allowLastIP = al\<rparr> p2)))"
proof -
  obtain r4 r6 where r: "setReservedRanges (map Some ts4) cfg4 = (map Some r4, [])" "setReservedRanges (map Some ts6) cfg6 = (map Some r6, [])"
    "fam_ok False (msk False name) (own name) (section_of (items (pa_nodes p2)) False name) r4"
    "fam_ok True (msk True name) (own name) (section_of (items (pa_nodes p2)) True name) r6"
    using reserve_fam [OF assms(4,6)] reserve_fam [OF assms(5,7)] by blast
  have "mp_core own msk (store_pool name \<lparr>po_v4 = map Some r4, po_v6 = map Some r6, po_v4MaskSize = m4, po_v6MaskSize = m6,
      po_allowFirstIP = af, po_allowLastIP = al\<rparr> p2)"
    by (rule store_upserted_core [OF assms(2,3) r(3,4)]) (simp_all add: pool_slice_def)
  from reconcileOrphanCIDRs_core [OF assms(1) this] r(1,2) show ?thesis by blast
qed

lemma UpsertPool_core:
  assumes "plan_ok own" "mp_core own msk p" "upsert_ok own msk name cfg4 m4 cfg6 m6"
  shows "mp_core own msk (fst (UpsertPool room name cfg4 m4 cfg6 m6 af al p))"
proof -
  define po where "po = (case pa_pools p name of None \<Rightarrow> empty_pool | Some po \<Rightarrow> po)"
  let ?G = "(pa_pools p)(name \<mapsto> po)" and ?s4 = "pool_slice False po" and ?s6 = "pool_slice True po"
  have prev: "(case pa_pools p name of None \<Rightarrow> [] | Some po \<Rightarrow> po_v4 po) = ?s4" "(case pa_pools p name of None \<Rightarrow> [] | Some po \<Rightarrow> po_v6 po) = ?s6"
    by (simp_all add: po_def pool_slice_def empty_pool_def split: option.split)
  note d = mp_coreD [OF assms(2)]
  have m: "m4 = msk False name" "m6 = msk True name" and c4: "config_ok (own name) (msk False name) cfg4"
    and c6: "config_ok (own name) (msk True name) cfg6" using assms(3) by (auto simp: upsert_ok_def)
  have G: "books_ok own msk (items (pa_nodes p)) ?G" unfolding po_def by (rule books_ghost [OF d(3)])
  have Gn: "?G name = Some po" by simp
  obtain p1 e1 new4 k4 where u4: "updateCIDRSets False ?s4 (map fst cfg4) (msk False name) p = (p1, e1, new4, k4)" by (metis prod_cases4)
  note f4 = slice_step [OF assms(1) d(1,2) G Gn config_planned [OF c4] u4]
  let ?v4 = "old_view room ?s4 k4 new4"
  let ?po1 = "set_slice False ?v4 po"
  have p1: "maps_wf (pa_nodes p1)" "orphans_fit msk (pa_orphans p1)" using f4(1) by (simp_all add: updated_def)
  have "section_of (items (pa_nodes p1)) w q = section_of (items (pa_nodes p)) w q" if "(w, q) \<noteq> (False, name)" for w q
    using that f4(1) f4(3) [of w] by (cases "q = name") (auto simp: updated_def)
  from books_store [OF G Gn f4(2) this] have G1: "books_ok own msk (items (pa_nodes p1)) (?G(name \<mapsto> ?po1))" .
  have Gn1: "(?G(name \<mapsto> ?po1)) name = Some ?po1" by simp
  obtain p2 e2 new6 k6 where u6: "updateCIDRSets True (pool_slice True ?po1) (map fst cfg6) (msk True name) p1 = (p2, e2, new6, k6)"
    by (metis prod_cases4)
  note f6 = slice_step [OF assms(1) p1 G1 Gn1 config_planned [OF c6] u6]
  have s: "section_of (items (pa_nodes p2)) False name = section_of (items (pa_nodes p1)) False name" using f6(3) [of False] by simp
  consider "e1 \<noteq> []" | "e1 = []" "e2 \<noteq> []" | "e1 = []" "e2 = []" by blast
  then show ?thesis
  proof cases
    case 1
    have "fam_ok True (msk True name) (own name) (section_of (items (pa_nodes p1)) True name) (somes ?s6)"
      using f4(3) [of True] books_okD [OF G Gn, of True] by simp
    from keep_updated [OF assms(2) f4(1) f4(2) this] 1 u4 assms(2) show ?thesis
      unfolding UpsertPool_def Let_def prev m by (simp split: option.split)
  next
    case 2
    from keep_updated [OF assms(2) updated_trans [OF f4(1) f6(1)] _ f6(2)] f4(2) s 2 u4 u6 assms(2) show ?thesis
      unfolding UpsertPool_def Let_def prev m by (simp split: option.split)
  next
    case 3
    obtain ts4 ts6 where t: "new4 = map Some ts4" "new6 = map Some ts6"
      "fam_ok False (msk False name) (own name) (section_of (items (pa_nodes p2)) False name) ts4"
      "fam_ok True (msk True name) (own name) (section_of (items (pa_nodes p2)) True name) ts6"
      using f4(4) [OF 3(1)] f6(4) [OF 3(2)] s by auto
    obtain r4 r6 where "setReservedRanges (map Some ts4) cfg4 = (map Some r4, [])" "setReservedRanges (map Some ts6) cfg6 = (map Some r6, [])"
      "mp_core own msk (fst (reconcileOrphanCIDRs name (map Some r4) (map Some r6)
        (store_pool name \<lparr>po_v4 = map Some r4, po_v6 = map Some r6, po_v4MaskSize = m4, po_v6MaskSize = m6,
           po_allowFirstIP = af, po_allowLastIP = al\<rparr> p2)))"
      using upsert_done [OF assms(1,2) updated_trans [OF f4(1) f6(1)] t(3,4) c4 c6] by blast
    with 3 u4 u6 t(1,2) assms(2)
    show ?thesis unfolding UpsertPool_def Let_def prev m by (simp split: option.split)
  qed
qed

end
