(* ===== verification/Multi_Pool_Properties.thy ===== *)
theory Multi_Pool_Properties
  imports Multi_Pool_Invariant
begin

text \<open>
  Histories of the multi-pool allocator and its properties: exclusive use of CIDRs over every history, demand of nodes,
  and histories that show defects.
\<close>

section \<open>Histories\<close>

text \<open>
  The calls of the pool handler and of the node manager. A panic ends the operator, so that nothing happens
  after it.
\<close>

datatype mp_op =
    MpUpsertPool bool string "pool_cidr_config list" int "pool_cidr_config list" int bool bool
  | MpDeletePool string
  | MpAllocateToNode string "pool_allocation list" "pool_request list"
  | MpReleaseNode string
  | MpRestoreFinished

fun mp_call :: "pool_allocator \<Rightarrow> mp_op \<Rightarrow> pool_allocator" where
  "mp_call p (MpUpsertPool room name cfg4 m4 cfg6 m6 af al) = fst (UpsertPool room name cfg4 m4 cfg6 m6 af al p)"
| "mp_call p (MpDeletePool name) = fst (DeletePool name p)"
| "mp_call p (MpAllocateToNode n as rs) = fst (AllocateToNode n as rs p)"
| "mp_call p (MpReleaseNode n) = fst (ReleaseNode n p)"
| "mp_call p MpRestoreFinished = RestoreFinished p"

definition mp_exec :: "pool_allocator \<Rightarrow> mp_op \<Rightarrow> pool_allocator" where
  "mp_exec p q = (if pa_panicked p then p else mp_call p q)"

fun mp_op_ok :: "(string \<Rightarrow> prefix set) \<Rightarrow> (bool \<Rightarrow> string \<Rightarrow> int) \<Rightarrow> mp_op \<Rightarrow> bool" where
  "mp_op_ok own msk (MpUpsertPool room name cfg4 m4 cfg6 m6 af al) = upsert_ok own msk name cfg4 m4 cfg6 m6"
| "mp_op_ok own msk (MpAllocateToNode n as rs) = list_all (allocation_fits msk) as"
| "mp_op_ok own msk _ = True"

lemma mp_call_core:
  assumes "plan_ok own" "mp_core own msk p" "mp_op_ok own msk q"
  shows "pa_panicked (mp_call p q) \<or> mp_core own msk (mp_call p q)"
proof (cases q)
  case (MpUpsertPool room name cfg4 m4 cfg6 m6 af al)
  with UpsertPool_core [OF assms(1,2), of name cfg4 m4 cfg6 m6 room af al] assms(3) show ?thesis by simp
next
  case (MpDeletePool name)
  with DeletePool_core [OF assms(2), of name] show ?thesis by simp
next
  case (MpAllocateToNode n as rs)
  with AllocateToNode_core [OF assms(1,2), of as n rs] assms(3) show ?thesis by simp
next
  case (MpReleaseNode n)
  with ReleaseNode_core [OF assms(1,2), of n] show ?thesis by simp
next
  case MpRestoreFinished
  with assms(2) show ?thesis by (simp add: RestoreFinished_def mp_core_def)
qed

lemma mp_run_core:
  assumes "plan_ok own" "list_all (mp_op_ok own msk) ops" "pa_panicked p \<or> mp_core own msk p"
  shows "pa_panicked (foldl mp_exec p ops) \<or> mp_core own msk (foldl mp_exec p ops)"
  using assms(2,3)
proof (induction ops arbitrary: p)
  case (Cons q ops)
  have "pa_panicked (mp_exec p q) \<or> mp_core own msk (mp_exec p q)"
    using Cons.prems mp_call_core [OF assms(1), of msk p q] by (auto simp: mp_exec_def)
  with Cons.IH Cons.prems(1) show ?case by simp
qed simp

lemma new_core: "mp_core own msk (NewPoolAllocator e4 e6)"
  by (simp add: mp_core_def NewPoolAllocator_def maps_wf_def orphans_fit_def books_ok_def section_of_def items_def
    sets_of_def pools_of_def)

text \<open>The states that the operator reaches without a panic.\<close>

definition mp_reachable :: "(string \<Rightarrow> prefix set) \<Rightarrow> (bool \<Rightarrow> string \<Rightarrow> int) \<Rightarrow> pool_allocator \<Rightarrow> bool" where
  "mp_reachable own msk p \<longleftrightarrow> plan_ok own \<and> \<not> pa_panicked p \<and>
     (\<exists>e4 e6 ops. list_all (mp_op_ok own msk) ops \<and> p = foldl mp_exec (NewPoolAllocator e4 e6) ops)"

lemma mp_reachable_core: "mp_reachable own msk p \<Longrightarrow> plan_ok own \<and> mp_core own msk p"
  using mp_run_core [of own msk] new_core [of own msk] unfolding mp_reachable_def by blast

section \<open>What the books say\<close>

lemma allocated_item:
  assumes "isAllocated p n q c" shows "\<exists>w. (w, q, n, c) \<in> items (pa_nodes p)"
  using assms by (cases "pfx_addr c") (force simp: isAllocated_def has_cidr_def items_def family_elems_def)+

lemma item_allocated:
  assumes "mp_core own msk p" "(w, q, n, c) \<in> items (pa_nodes p)" shows "isAllocated p n q c"
proof -
  have "pfx_wf c" "w = (\<not> addr_is4 (pfx_addr c))"
    using fit_fam_wf [OF item_fits(1) [OF mp_coreD(3) [OF assms(1)] assms(2)]] by simp_all
  with assms(2) isAllocated_item [of c p n q] show ?thesis by (simp add: item_of_def)
qed

lemma held_inside:
  assumes "fits (cs_nodeMaskSize s) c" "cs_geometry s" "cs_InRange s c" "pfx_contains c a"
  shows "pfx_contains (cs_clusterPrefix s) a" "cs_index s a = cs_index s (pfx_addr c)"
  using fits_block(3) [OF assms(2,1,3,4)] cs_block_contains [OF assms(2) fits_block(2) [OF assms(2,1,3)]] by simp_all

lemma set_booksD:
  assumes "set_books H s" "h \<in> H" "h' \<in> H" "cs_blocks s (snd h) = cs_blocks s (snd h')" "cs_blocks s (snd h) \<noteq> {}"
  shows "h = h'"
proof (rule ccontr)
  assume "h \<noteq> h'"
  with assms(1-3) have "cs_blocks s (snd h) \<inter> cs_blocks s (snd h') = {}" unfolding set_books_def by blast
  with assms(4,5) show False by simp
qed

lemma items_disjoint:
  assumes "plan_ok own" "books_ok own msk H G" "(w, q, n, c) \<in> H" "(w', q', n', c') \<in> H" "(q, n, c) \<noteq> (q', n', c')"
  shows "pfx_disjoint c c'"
proof (unfold pfx_disjoint_def, intro allI notI)
  fix a assume a: "pfx_contains c a \<and> pfx_contains c' a"
  obtain po po' where po: "G q = Some po" "G q' = Some po'"
    using item_fits(2) [OF assms(2,3)] item_fits(2) [OF assms(2,4)] by blast
  have sec: "(n, c) \<in> section_of H w q" "(n', c') \<in> section_of H w' q'" using assms(3,4) by simp_all
  note b = books_okD [OF assms(2) po(1), of w] books_okD [OF assms(2) po(2), of w']
  note h = fam_heldD [OF b(1) sec(1)] and h' = fam_heldD [OF b(2) sec(2)]
  obtain s s' where s: "s \<in> set (somes (pool_slice w po))" "cs_InRange s c" and s': "s' \<in> set (somes (pool_slice w' po'))" "cs_InRange s' c'"
    using h(2) h'(2) by blast
  note d = fam_setsD [OF h(3) s(1)] and d' = fam_setsD [OF h'(3) s'(1)]
  have ft: "fits (cs_nodeMaskSize s) c" "fits (cs_nodeMaskSize s') c'" using h(1) h'(1) d(3) d'(3) by (simp_all add: fit_fam_def)
  note i = held_inside [OF ft(1) d(2) s(2)] held_inside [OF ft(2) d'(2) s'(2)]
  have eq: "(q, cs_clusterPrefix s) = (q', cs_clusterPrefix s')"
    using assms(1) d(5) d'(5) i(1,3) a unfolding plan_ok_def pfx_disjoint_def by blast
  then have w: "w = w'" using d(4) d'(4) by simp
  with eq po have pp: "po' = po" by simp
  have "inj_on cs_clusterPrefix (set (somes (pool_slice w po)))" using h(3) by (simp add: fam_sets_def distinct_map)
  from inj_onD [OF this] have "s' = s" using s(1) s'(1) eq pp w by simp
  then have "cs_index s (pfx_addr c) = cs_index s (pfx_addr c')" using i(2,4) a by metis
  then have "cs_blocks s c = cs_blocks s c'"
    using blocks_fit [OF d(2) ft(1)] blocks_fit [OF d'(2) ft(2)] s(2) s'(2) \<open>s' = s\<close> by simp
  then have e: "cs_blocks s (snd (n, c)) = cs_blocks s (snd (n', c'))" by simp
  have ne: "cs_blocks s (snd (n, c)) \<noteq> {}" using blocks_fit [OF d(2) ft(1)] s(2) by simp
  have "set_books (section_of H w q) s" using b(1) s(1) by (simp add: fam_ok_def)
  from set_booksD [OF this sec(1) _ e ne] have "(n, c) = (n', c')" using sec(2) eq w by simp
  with eq assms(5) show False by simp
qed

lemma somes_set: "Some s \<in> set ss \<Longrightarrow> s \<in> set (somes ss)"
  by (induction ss rule: somes.induct) auto

lemma same_family_items:
  assumes "books_ok own msk H G" "G q = Some po" "s \<in> set (somes (pool_slice v6 po))" "(w, q, n, c) \<in> H" "i \<in> cs_blocks s c"
  shows "w = v6"
proof -
  have "fam_sets v6 (msk v6 q) (own q) (somes (pool_slice v6 po))" using books_okD [OF assms(1,2), of v6] by (simp add: fam_ok_def)
  note d = fam_setsD [OF this assms(3)]
  have f: "fit_fam w (msk w q) c" by (rule item_fits(1) [OF assms(1,4)])
  then have c: "pfx_wf c" "pfx_is_masked c" by (simp_all add: fit_fam_def fits_def)
  obtain a where "pfx_contains c a" "pfx_contains (cs_clusterPrefix s) a"
    using assms(5) unfolding cs_blocks_eq [OF d(2)] by blast
  then have "same_family (pfx_addr c) a" "same_family (pfx_addr (cs_clusterPrefix s)) a"
    using pfx_contains_iff [OF c] cs_cluster_contains [OF d(2)] by simp_all
  then have "addr_is4 (pfx_addr c) = addr_is4 (pfx_addr (cs_clusterPrefix s))"
    by (cases "pfx_addr c"; cases a; cases "pfx_addr (cs_clusterPrefix s)") auto
  with d(4) f show ?thesis by (simp add: fit_fam_def)
qed

lemma allocated_disjoint:
  assumes "plan_ok own" "mp_core own msk p" "isAllocated p n q c" "isAllocated p n' q' c'" "(q, n, c) \<noteq> (q', n', c')"
  shows "pfx_disjoint c c'"
proof -
  obtain w w' where "(w, q, n, c) \<in> items (pa_nodes p)" "(w', q', n', c') \<in> items (pa_nodes p)"
    using allocated_item assms(3,4) by metis
  then show ?thesis using items_disjoint [OF assms(1) mp_coreD(3) [OF assms(2)]] assms(5) by blast
qed

text \<open>
  (C4) In every state the operator reaches, CIDRs that nodes hold of the pools do not overlap, and what a pool's
  allocator marks as used is what some node holds: no CIDR is handed out twice and none is lost. The CIDRs that
  pools are configured with over time are assumed not to overlap, within a pool and between pools, and the CIDRs
  that nodes claim to be no larger than the node CIDRs of their pool. An overlap between a configured CIDR and one
  that the pool already has is not rejected by the code.
\<close>

theorem multipool_exclusive:
  assumes "mp_reachable own msk p"
  shows "(\<forall>n q c n' q' c'. isAllocated p n q c \<and> isAllocated p n' q' c' \<and> (q, n, c) \<noteq> (q', n', c') \<longrightarrow> pfx_disjoint c c') \<and>
    (\<forall>q po v6 s i. pa_pools p q = Some po \<and> Some s \<in> set (pool_slice v6 po) \<longrightarrow>
       (bit (cs_used s) i \<longleftrightarrow> (\<exists>n c. isAllocated p n q c \<and> i \<in> cs_blocks s c)))"
proof (intro conjI allI impI)
  have c: "plan_ok own" "mp_core own msk p" using mp_reachable_core [OF assms] by simp_all
  fix n q c n' q' c'
  assume "isAllocated p n q c \<and> isAllocated p n' q' c' \<and> (q, n, c) \<noteq> (q', n', c')"
  then show "pfx_disjoint c c'" using allocated_disjoint [OF c] by blast
next
  have c: "mp_core own msk p" using mp_reachable_core [OF assms] by simp
  fix q po v6 s i assume s: "pa_pools p q = Some po \<and> Some s \<in> set (pool_slice v6 po)"
  then have t: "s \<in> set (somes (pool_slice v6 po))" by (simp add: somes_set)
  note b = books_okD [OF mp_coreD(3) [OF c] conjunct1 [OF s], of v6]
  then have u: "bits_of (cs_used s) = (\<Union>h \<in> section_of (items (pa_nodes p)) v6 q. cs_blocks s (snd h))"
    using t by (simp add: fam_ok_def set_books_def)
  show "bit (cs_used s) i \<longleftrightarrow> (\<exists>n c. isAllocated p n q c \<and> i \<in> cs_blocks s c)"
  proof
    assume "bit (cs_used s) i"
    then have "i \<in> (\<Union>h \<in> section_of (items (pa_nodes p)) v6 q. cs_blocks s (snd h))" unfolding u [symmetric] by (simp add: in_bits_of)
    then obtain n c' where "(v6, q, n, c') \<in> items (pa_nodes p)" "i \<in> cs_blocks s c'" by (auto simp: section_of_def)
    with item_allocated [OF c] show "\<exists>n c. isAllocated p n q c \<and> i \<in> cs_blocks s c" by blast
  next
    assume "\<exists>n c. isAllocated p n q c \<and> i \<in> cs_blocks s c"
    then obtain n c' w where i: "(w, q, n, c') \<in> items (pa_nodes p)" "i \<in> cs_blocks s c'" using allocated_item by metis
    have "w = v6" using same_family_items [OF mp_coreD(3) [OF c] conjunct1 [OF s] t i] .
    with i have "i \<in> (\<Union>h \<in> section_of (items (pa_nodes p)) v6 q. cs_blocks s (snd h))" by (force simp: section_of_def)
    then show "bit (cs_used s) i" unfolding u [symmetric] by (simp add: in_bits_of)
  qed
qed

section \<open>Demand\<close>

definition pool_flags :: "pool_allocator \<Rightarrow> string \<Rightarrow> bool \<times> bool" where
  "pool_flags p q = (case pa_pools p q of None \<Rightarrow> (False, False) | Some po \<Rightarrow> (po_allowFirstIP po, po_allowLastIP po))"

text \<open>Addresses that a node has of a pool, in CIDRs of a family.\<close>

definition node_addrs :: "pool_allocator \<Rightarrow> string \<Rightarrow> string \<Rightarrow> bool \<Rightarrow> int" where
  "node_addrs p n q v6 = availableAddrs (family_elems v6 (sets_of (pa_nodes p) n q)) (fst (pool_flags p q)) (snd (pool_flags p q))"

text \<open>Allocations only add CIDRs.\<close>

definition pa_grows :: "pool_allocator \<Rightarrow> pool_allocator \<Rightarrow> bool" where
  "pa_grows p p' \<longleftrightarrow> pool_flags p' = pool_flags p \<and> pa_ipv4Enabled p' = pa_ipv4Enabled p \<and> pa_ipv6Enabled p' = pa_ipv6Enabled p \<and>
     (\<forall>n q v6. node_addrs p n q v6 \<le> node_addrs p' n q v6)"

lemma pa_grows_refl [simp]: "pa_grows p p"
  by (simp add: pa_grows_def)

lemma pa_grows_trans: "pa_grows p p1 \<Longrightarrow> pa_grows p1 p2 \<Longrightarrow> pa_grows p p2"
  unfolding pa_grows_def by (metis order_trans)

lemma pa_grows_panic: "pa_grows p (panic p)"
  by (simp add: pa_grows_def node_addrs_def pool_flags_def panic_def fun_eq_iff)

lemma pa_grows_fail: "pa_grows p (fst (fail e p))"
  using pa_grows_panic by (simp add: fail_def)

lemma addrsInPrefix_bounds:
  shows "0 \<le> addrsInPrefix c f l" "pfx_wf c \<Longrightarrow> 1 \<le> addrsInPrefix c f l"
proof -
  have "(1 :: int) \<le> 2 ^ k" for k by simp
  then show "0 \<le> addrsInPrefix c f l" by (auto simp: addrsInPrefix_def Let_def)
  assume "pfx_wf c"
  then have v: "pfx_valid c" by (simp add: pfx_wf_def)
  show "1 \<le> addrsInPrefix c f l" using v by (simp add: addrsInPrefix_def Let_def)
qed

lemma mark_grows:
  fixes ss :: alloc_slice
  assumes "maps_wf (pa_nodes p)" "fit_fam v6 m c" "pa_pools p q = Some po" "c \<notin> set (family_elems v6 (sets_of (pa_nodes p) n q))"
  defines "p' \<equiv> markAllocated n q c (store_pool q (set_slice v6 ss po) p)"
  shows "pa_grows p p'" "node_addrs p' n q v6 = node_addrs p n q v6 + addrsInPrefix c (po_allowFirstIP po) (po_allowLastIP po)"
proof -
  let ?p = "store_pool q (set_slice v6 ss po) p"
  have w: "pfx_wf c" "(\<not> addr_is4 (pfx_addr c)) = v6" using fit_fam_wf [OF assms(2)] by simp_all
  obtain M where m: "p' = ?p\<lparr>pa_nodes := M\<rparr>"
    "family_elems v6 (sets_of M n q) = List.insert c (family_elems v6 (sets_of (pa_nodes p) n q))"
    "\<And>w n' q'. (w, n', q') \<noteq> (v6, n, q) \<Longrightarrow> family_elems w (sets_of M n' q') = family_elems w (sets_of (pa_nodes p) n' q')"
    using markAllocated_spec [of ?p c n q thesis] assms(1) w unfolding p'_def by auto
  have mn: "pa_nodes p' = M" using m(1) by simp
  have fl: "pool_flags p' = pool_flags p" using m(1) assms(3) by (auto simp: pool_flags_def fun_eq_iff set_slice_def)
  have f: "pool_flags p q = (po_allowFirstIP po, po_allowLastIP po)" using assms(3) by (simp add: pool_flags_def)
  show e: "node_addrs p' n q v6 = node_addrs p n q v6 + addrsInPrefix c (po_allowFirstIP po) (po_allowLastIP po)"
    unfolding node_addrs_def fl mn m(2) f using assms(4) by (simp add: availableAddrs_def)
  have "node_addrs p n' q' w' \<le> node_addrs p' n' q' w'" for n' q' w'
  proof (cases "(w', n', q') = (v6, n, q)")
    case True
    with e addrsInPrefix_bounds(1) [of c "po_allowFirstIP po" "po_allowLastIP po"] show ?thesis by simp
  next
    case False
    then show ?thesis unfolding node_addrs_def fl mn m(3) [OF False] by simp
  qed
  moreover have "pa_ipv4Enabled p' = pa_ipv4Enabled p" "pa_ipv6Enabled p' = pa_ipv6Enabled p" using m(1) by (simp_all add: store_pool_def)
  ultimately show "pa_grows p p'" using fl by (simp add: pa_grows_def)
qed

lemma markAllocated_pools: "pa_pools (markAllocated n q c p) = pa_pools p"
  by (auto simp: markAllocated_def Let_def panic_def split: option.split)

lemma first_free_error: "allocFirstFreeCIDR ss = Inl e \<Longrightarrow> e \<noteq> LoopBoundReached"
  by (induction ss arbitrary: e rule: allocFirstFreeCIDR.induct) (auto split: if_splits sum.splits)

lemma allocate_loop_demand:
  assumes "plan_ok own" "mp_core own msk p" "t \<le> int k" "pa_pools p q \<noteq> None"
  shows "LoopBoundReached \<notin> set (snd (allocate_loop k n q v6 t p)) \<and> pa_grows p (fst (allocate_loop k n q v6 t p)) \<and>
    (snd (allocate_loop k n q v6 t p) = [] \<longrightarrow> node_addrs p n q v6 + t \<le> node_addrs (fst (allocate_loop k n q v6 t p)) n q v6)"
  using assms(2-4)
proof (induction k arbitrary: t p)
  case (Suc k)
  obtain po where po: "pa_pools p q = Some po" using Suc.prems(3) by blast
  show ?case
  proof (cases "t \<le> 0")
    case False
    show ?thesis
    proof (cases "allocFirstFreeCIDR (pool_slice v6 po)")
      case (Inl e)
      have "e \<noteq> LoopBoundReached" using Inl first_free_error by metis
      with Inl False po pa_grows_fail [of p e] show ?thesis by (simp add: fail_def)
    next
      case (Inr r)
      obtain ss c where r: "r = (ss, c)" by (cases r)
      note f = fam_next [OF plan_apart [OF assms(1)] books_okD [OF mp_coreD(3) [OF Suc.prems(1)] po] Inr [unfolded r]]
      let ?p = "markAllocated n q c (store_pool q (set_slice v6 ss po) p)" and ?a = "addrsInPrefix c (po_allowFirstIP po) (po_allowLastIP po)"
      have c: "mp_core own msk ?p" by (rule mark_core [OF assms(1) Suc.prems(1) po f(3) f(1)])
      have nin: "c \<notin> set (family_elems v6 (sets_of (pa_nodes p) n q))" using f(2) [of n] by (simp add: items_def)
      note g = mark_grows [OF mp_coreD(1) [OF Suc.prems(1)] f(3) po nin, of ss]
      have a: "1 \<le> ?a" using addrsInPrefix_bounds(2) fit_fam_wf [OF f(3)] by blast
      have "pa_pools ?p q \<noteq> None" by (simp add: markAllocated_pools)
      from Suc.IH [OF c, of "t - ?a"] a Suc.prems(2) this
      have ih: "LoopBoundReached \<notin> set (snd (allocate_loop k n q v6 (t - ?a) ?p)) \<and> pa_grows ?p (fst (allocate_loop k n q v6 (t - ?a) ?p)) \<and>
        (snd (allocate_loop k n q v6 (t - ?a) ?p) = [] \<longrightarrow> node_addrs ?p n q v6 + (t - ?a) \<le> node_addrs (fst (allocate_loop k n q v6 (t - ?a) ?p)) n q v6)"
        by simp
      have eq: "allocate_loop (Suc k) n q v6 t p = allocate_loop k n q v6 (t - ?a) ?p" using False po Inr r by simp
      show ?thesis unfolding eq using ih pa_grows_trans [OF g(1)] g(2) by simp
    qed
  qed simp
qed simp

lemma allocateCIDRs_demand:
  fixes n q :: string and v6 :: bool and t :: int
  assumes "plan_ok own" "mp_core own msk p"
  defines "r \<equiv> allocateCIDRs n q v6 t p"
  shows "LoopBoundReached \<notin> set (snd r) \<and> pa_grows p (fst r) \<and> (snd r = [] \<longrightarrow> node_addrs p n q v6 + t \<le> node_addrs (fst r) n q v6)"
proof (cases "t \<le> 0 \<or> pa_pools p q = None")
  case False
  then have "r = allocate_loop (nat t) n q v6 t p" by (auto simp: r_def allocateCIDRs_def)
  with allocate_loop_demand [OF assms(1,2), of t "nat t" q n v6] False show ?thesis by simp
qed (auto simp: r_def allocateCIDRs_def)

definition demand_met :: "string \<Rightarrow> pool_allocator \<Rightarrow> pool_request \<Rightarrow> bool" where
  "demand_met n p r \<longleftrightarrow>
     (pa_ipv4Enabled p \<longrightarrow> rq_IPv4Addrs r \<le> node_addrs p n (rq_Pool r) False) \<and>
     (pa_ipv6Enabled p \<longrightarrow> rq_IPv6Addrs r \<le> node_addrs p n (rq_Pool r) True)"

lemma demand_grows: "demand_met n p r \<Longrightarrow> pa_grows p p' \<Longrightarrow> demand_met n p' r"
  unfolding demand_met_def pa_grows_def by (metis order_trans)

lemma request_step_demand:
  fixes n :: string and r :: pool_request
  assumes "plan_ok own" "mp_core own msk p"
  defines "x \<equiv> request_step n r p"
  shows "LoopBoundReached \<notin> set (snd x) \<and> pa_grows p (fst x) \<and> (snd x = [] \<longrightarrow> demand_met n (fst x) r)"
proof -
  let ?q = "rq_Pool r" and ?e4 = "pa_ipv4Enabled p" and ?e6 = "pa_ipv6Enabled p"
  let ?t4 = "rq_IPv4Addrs r - node_addrs p n ?q False" and ?t6 = "rq_IPv6Addrs r - node_addrs p n ?q True"
  define x1 where "x1 = (if ?e4 then allocateCIDRs n ?q False ?t4 p else (p, []))"
  define x2 where "x2 = (if ?e6 then allocateCIDRs n ?q True ?t6 (fst x1) else (fst x1, []))"
  have fl: "(case pa_pools p ?q of None \<Rightarrow> False | Some po \<Rightarrow> po_allowFirstIP po) = fst (pool_flags p ?q)"
    "(case pa_pools p ?q of None \<Rightarrow> False | Some po \<Rightarrow> po_allowLastIP po) = snd (pool_flags p ?q)"
    by (simp_all add: pool_flags_def split: option.split)
  have el: "elems (st_v4 s) = family_elems False s" "elems (st_v6 s) = family_elems True s" for s by (simp_all add: family_elems_def)
  have x: "x = (fst x2, snd x1 @ snd x2)"
    unfolding x_def request_step_def Let_def fl el node_addrs_def [symmetric]
    by (cases ?e4) (auto simp: x1_def x2_def case_prod_beta)
  have 1: "LoopBoundReached \<notin> set (snd x1) \<and> pa_grows p (fst x1) \<and> (snd x1 = [] \<longrightarrow> ?e4 \<longrightarrow> rq_IPv4Addrs r \<le> node_addrs (fst x1) n ?q False)"
    using allocateCIDRs_demand [OF assms(1,2), of n ?q False ?t4] by (auto simp: x1_def)
  have "mp_core own msk (fst x1)" using allocateCIDRs_core [OF assms(1,2)] assms(2) by (simp add: x1_def)
  from allocateCIDRs_demand [OF assms(1) this, of n ?q True ?t6]
  have 2: "LoopBoundReached \<notin> set (snd x2) \<and> pa_grows (fst x1) (fst x2) \<and>
      (snd x2 = [] \<longrightarrow> ?e6 \<longrightarrow> node_addrs (fst x1) n ?q True + ?t6 \<le> node_addrs (fst x2) n ?q True)"
    by (auto simp: x2_def)
  have g: "pa_grows p (fst x2)" using 1 2 pa_grows_trans by blast
  have "node_addrs p n ?q True \<le> node_addrs (fst x1) n ?q True" "node_addrs (fst x1) n ?q False \<le> node_addrs (fst x2) n ?q False"
    "pa_ipv4Enabled (fst x2) = ?e4" "pa_ipv6Enabled (fst x2) = ?e6" using 1 2 g by (simp_all add: pa_grows_def)
  with 1 2 g show ?thesis by (auto simp: x demand_met_def)
qed

lemma requests_demand:
  assumes "plan_ok own" "mp_core own msk p"
  shows "LoopBoundReached \<notin> set (snd (run_steps (request_step n) rs p)) \<and> pa_grows p (fst (run_steps (request_step n) rs p)) \<and>
    (snd (run_steps (request_step n) rs p) = [] \<longrightarrow> (\<forall>r \<in> set rs. demand_met n (fst (run_steps (request_step n) rs p)) r))"
  using assms(2)
proof (induction rs arbitrary: p)
  case (Cons r rs)
  obtain p1 e1 where 1: "request_step n r p = (p1, e1)" by (cases "request_step n r p")
  obtain p2 e2 where 2: "run_steps (request_step n) rs p1 = (p2, e2)" by (cases "run_steps (request_step n) rs p1")
  have c: "mp_core own msk p1" using request_step_core [OF assms(1) Cons.prems, of n r] 1 by simp
  from request_step_demand [OF assms(1) Cons.prems, of n r] Cons.IH [OF c] 1 2
  have "LoopBoundReached \<notin> set e1 \<and> pa_grows p p1 \<and> (e1 = [] \<longrightarrow> demand_met n p1 r)"
    "LoopBoundReached \<notin> set e2 \<and> pa_grows p1 p2 \<and> (e2 = [] \<longrightarrow> (\<forall>r \<in> set rs. demand_met n p2 r))" by simp_all
  then show ?case using 1 2 pa_grows_trans [of p p1 p2] demand_grows [of n p1 r p2] by auto
qed simp

text \<open>No other part of the operation has a loop with a bound.\<close>

lemma run_steps_errors:
  assumes "\<And>x p. x \<in> set xs \<Longrightarrow> e \<notin> set (snd (f x p))"
  shows "e \<notin> set (snd (run_steps f xs p))"
  using assms by (induction xs arbitrary: p) (auto simp: case_prod_beta)

lemma slice_occupy_error: "slice_occupyCIDR ss c \<noteq> Inl LoopBoundReached"
  by (induction ss c rule: slice_occupyCIDR.induct) (auto split: if_splits sum.splits)

lemma slice_release_error: "slice_releaseCIDR ss c \<noteq> Inl LoopBoundReached"
  by (induction ss c rule: slice_releaseCIDR.induct) (auto split: if_splits sum.splits)

lemma step_errors:
  "LoopBoundReached \<notin> set (snd (occupyCIDR n q c p))" "LoopBoundReached \<notin> set (snd (releaseCIDR n q c p))"
  by (auto simp: occupyCIDR_def releaseCIDR_def fail_def Let_def slice_occupy_error slice_release_error
    split: option.splits sum.splits if_splits)

lemma restore_errors:
  "LoopBoundReached \<notin> set (snd (run_steps (\<lambda>a. run_steps (occupy_step n a) (al_CIDRs a)) as p))"
  "LoopBoundReached \<notin> set (snd (run_steps (\<lambda>q. retainCIDRs n (f q) q) qs p))"
proof -
  have "LoopBoundReached \<notin> set (snd (occupy_step n a c p))" for a c p using step_errors(1) by (simp add: occupy_step_def)
  then show "LoopBoundReached \<notin> set (snd (run_steps (\<lambda>a. run_steps (occupy_step n a) (al_CIDRs a)) as p))" by (intro run_steps_errors)
  have "LoopBoundReached \<notin> set (snd (run_steps (releaseCIDR n q) cs p))" for q cs p by (intro run_steps_errors step_errors(2))
  then have "LoopBoundReached \<notin> set (snd (retainCIDRs n r q p))" for r q p by (auto simp: retainCIDRs_def case_prod_beta)
  then show "LoopBoundReached \<notin> set (snd (run_steps (\<lambda>q. retainCIDRs n (f q) q) qs p))" by (intro run_steps_errors)
qed

lemma AllocateToNode_errors:
  "set (snd (AllocateToNode n as rs p)) \<subseteq> insert AllocatorNotReady
     (set (snd (run_steps (\<lambda>a. run_steps (occupy_step n a) (al_CIDRs a)) as p)) \<union>
      set (snd (run_steps (\<lambda>q. retainCIDRs n (allocated_set as q) q)
        (map fst (pools_of (pa_nodes (fst (run_steps (\<lambda>a. run_steps (occupy_step n a) (al_CIDRs a)) as p))) n))
        (fst (run_steps (\<lambda>a. run_steps (occupy_step n a) (al_CIDRs a)) as p)))) \<union>
      set (snd (run_steps (request_step n) rs (before_requests n as p))))"
  by (auto simp: AllocateToNode_def before_requests_def Let_def case_prod_beta)

lemma AllocateToNode_demand:
  assumes "plan_ok own" "mp_core own msk p" "list_all (allocation_fits msk) as" "AllocateToNode n as rs p = (p', es)"
  shows "LoopBoundReached \<notin> set es" "es = [] \<Longrightarrow> \<forall>r \<in> set rs. demand_met n p' r"
proof -
  note d = requests_demand [OF assms(1) before_requests_core [OF assms(1-3), of n], of n rs]
  show "LoopBoundReached \<notin> set es" using AllocateToNode_errors [of n as rs p] restore_errors d assms(4) by auto
  show "\<forall>r \<in> set rs. demand_met n p' r" if "es = []"
    using AllocateToNode_no_error [of n as rs p] AllocateToNode_eq [of n as rs p] d assms(4) that by (simp add: Let_def)
qed

text \<open>
  (C19) In every state the operator reaches, the loop that allocates CIDRs to a node ends within as many turns as
  addresses are missing, and when the call returns no error, the node has of every pool it asked for at least as many
  usable addresses as it asked for, in each family that is enabled.
\<close>

theorem multipool_demand_met:
  assumes "mp_reachable own msk p" "list_all (allocation_fits msk) as" "AllocateToNode n as rs p = (p', es)"
  shows "LoopBoundReached \<notin> set es \<and> (es = [] \<longrightarrow> (\<forall>r \<in> set rs. demand_met n p' r))"
  using AllocateToNode_demand [OF _ _ assms(2,3)] mp_reachable_core [OF assms(1)] by blast

section \<open>Examples\<close>

definition ex_cidr :: "u32 \<Rightarrow> int \<Rightarrow> prefix" where
  "ex_cidr a b = prefix_from (V4 a) b"

definition ex_own :: "string \<Rightarrow> prefix set" where
  "ex_own q = (if q = ''a'' then {ex_cidr 0x0A000000 24} else {})"

definition ex_msk :: "bool \<Rightarrow> string \<Rightarrow> int" where
  "ex_msk v6 q = (if v6 then 64 else 26)"

definition ex_request :: "string \<Rightarrow> int \<Rightarrow> pool_request" where
  "ex_request q k = \<lparr>rq_Pool = q, rq_IPv4Addrs = k, rq_IPv6Addrs = 0\<rparr>"

definition ex_upsert :: "string \<Rightarrow> prefix list \<Rightarrow> mp_op" where
  "ex_upsert q cs = MpUpsertPool False q (map (\<lambda>c. (c, [])) cs) 26 [] 64 False False"

definition mp_ex_ops :: "mp_op list" where
  "mp_ex_ops = [ex_upsert ''a'' [ex_cidr 0x0A000000 24], MpRestoreFinished, MpAllocateToNode ''n1'' [] [ex_request ''a'' 100]]"

definition ex_run :: "mp_op list \<Rightarrow> pool_allocator" where
  "ex_run ops = foldl mp_exec (NewPoolAllocator True False) ops"

lemma ex_plan: "plan_ok ex_own"
  by (auto simp: plan_ok_def ex_own_def split: if_splits)

lemma mp_ex_ops_ok: "list_all (mp_op_ok ex_own ex_msk) mp_ex_ops"
  by code_simp

lemma ex_reachable:
  assumes "list_all (mp_op_ok ex_own ex_msk) ops" "\<not> pa_panicked (ex_run ops)"
  shows "mp_reachable ex_own ex_msk (ex_run ops)"
  unfolding mp_reachable_def using ex_plan assms ex_run_def by blast

lemma ex_facts: "\<not> pa_panicked (ex_run mp_ex_ops) \<and> isAllocated (ex_run mp_ex_ops) ''n1'' ''a'' (ex_cidr 0x0A000000 26) \<and>
    isAllocated (ex_run mp_ex_ops) ''n1'' ''a'' (ex_cidr 0x0A000040 26)"
  by code_simp

theorem multipool_exclusive_witness:
  "mp_reachable ex_own ex_msk (ex_run mp_ex_ops) \<and>
   isAllocated (ex_run mp_ex_ops) ''n1'' ''a'' (ex_cidr 0x0A000000 26) \<and> isAllocated (ex_run mp_ex_ops) ''n1'' ''a'' (ex_cidr 0x0A000040 26) \<and>
   pfx_disjoint (ex_cidr 0x0A000000 26) (ex_cidr 0x0A000040 26)"
proof -
  have r: "mp_reachable ex_own ex_msk (ex_run mp_ex_ops)" using ex_reachable mp_ex_ops_ok ex_facts by blast
  have "ex_cidr 0x0A000000 26 \<noteq> ex_cidr 0x0A000040 26" by code_simp
  then show ?thesis using multipool_exclusive [OF r] r ex_facts by blast
qed

text \<open>The node asks for more.\<close>

lemma ex_more: "(\<lambda>x. snd x = [] \<and> node_addrs (fst x) ''n1'' ''a'' False = 186)
    (AllocateToNode ''n1'' [\<lparr>al_Pool = ''a'', al_CIDRs = [ex_cidr 0x0A000000 26, ex_cidr 0x0A000040 26], al_AllowFirstIP = False, al_AllowLastIP = False\<rparr>]
      [ex_request ''a'' 150] (ex_run mp_ex_ops))"
  by code_simp

theorem multipool_demand_met_witness:
  "\<exists>p'. AllocateToNode ''n1'' [\<lparr>al_Pool = ''a'', al_CIDRs = [ex_cidr 0x0A000000 26, ex_cidr 0x0A000040 26], al_AllowFirstIP = False, al_AllowLastIP = False\<rparr>]
      [ex_request ''a'' 150] (ex_run mp_ex_ops) = (p', []) \<and> demand_met ''n1'' p' (ex_request ''a'' 150)"
proof -
  let ?as = "[\<lparr>al_Pool = ''a'', al_CIDRs = [ex_cidr 0x0A000000 26, ex_cidr 0x0A000040 26], al_AllowFirstIP = False, al_AllowLastIP = False\<rparr>]"
  have r: "mp_reachable ex_own ex_msk (ex_run mp_ex_ops)" using ex_reachable mp_ex_ops_ok ex_facts by blast
  have f: "list_all (allocation_fits ex_msk) ?as" by code_simp
  obtain p' es where p: "AllocateToNode ''n1'' ?as [ex_request ''a'' 150] (ex_run mp_ex_ops) = (p', es)" by (metis prod.exhaust)
  have "es = []" using ex_more p by simp
  then show ?thesis using multipool_demand_met [OF r f p] p by simp
qed

text \<open>
  A CIDR that moves from one pool to another while a node has it is handed out a second time: the pool is deleted,
  which makes the node's CIDRs orphans, and another pool with the same CIDR is created. The orphans are in the range of
  the new pool, but are looked for in the old one; the error is returned, the new pool is usable.
\<close>

definition moved_ops :: "mp_op list" where
  "moved_ops = mp_ex_ops @ [MpDeletePool ''a'', ex_upsert ''b'' [ex_cidr 0x0A000000 24], MpAllocateToNode ''n2'' [] [ex_request ''b'' 50]]"

lemma moved_cidr_handed_out_twice:
  "(\<lambda>p. \<not> pa_panicked p \<and> list_ex (\<lambda>a. ex_cidr 0x0A000000 26 \<in> set (al_CIDRs a)) (AllocatedPools p ''n1'') \<and>
      list_ex (\<lambda>a. ex_cidr 0x0A000000 26 \<in> set (al_CIDRs a)) (AllocatedPools p ''n2'')) (ex_run moved_ops)"
  by code_simp

text \<open>A CIDR that overlaps one that the pool has is accepted when it is added later, and two nodes get the same addresses.\<close>

definition overlap_ops :: "mp_op list" where
  "overlap_ops = [ex_upsert ''a'' [ex_cidr 0x0A000000 26], MpRestoreFinished, MpAllocateToNode ''n1'' [] [ex_request ''a'' 50],
     ex_upsert ''a'' [ex_cidr 0x0A000000 26, ex_cidr 0x0A000000 24], MpAllocateToNode ''n2'' [] [ex_request ''a'' 50]]"

lemma overlapping_cidr_accepted:
  "(\<lambda>p. isAllocated p ''n1'' ''a'' (ex_cidr 0x0A000000 26) \<and> isAllocated p ''n2'' ''a'' (ex_cidr 0x0A000000 26)) (ex_run overlap_ops)"
  by code_simp

text \<open>
  An update that fails for IPv6 has already dropped an IPv4 CIDR from the slice of the pool that stays registered, in
  which nil is left. The next update of a node that has a CIDR of it calls a method of nil.
\<close>

definition nil_ops :: "mp_op list" where
  "nil_ops = [ex_upsert ''a'' [ex_cidr 0x0A000000 24, ex_cidr 0x0A000100 24], MpRestoreFinished,
     MpAllocateToNode ''n1'' [] [ex_request ''a'' 50],
     MpUpsertPool False ''a'' [(ex_cidr 0x0A000100 24, [])] 26 [(ex_cidr 0x0A000200 24, [])] 64 False False,
     MpAllocateToNode ''n1'' [\<lparr>al_Pool = ''a'', al_CIDRs = [ex_cidr 0x0A000000 26], al_AllowFirstIP = False, al_AllowLastIP = False\<rparr>] []]"

lemma failed_update_then_panic: "\<not> pa_panicked (ex_run (butlast nil_ops)) \<and> pa_panicked (ex_run nil_ops)"
  by code_simp

text \<open>The orphans of a node that is gone are kept, and are occupied for it when the pool comes back.\<close>

definition gone_ops :: "mp_op list" where
  "gone_ops = mp_ex_ops @ [MpDeletePool ''a'', MpReleaseNode ''n1'', ex_upsert ''a'' [ex_cidr 0x0A000000 24]]"

lemma released_node_gets_cidrs: "isAllocated (ex_run gone_ops) ''n1'' ''a'' (ex_cidr 0x0A000000 26)"
  by code_simp

text \<open>
  A family of orphans that becomes empty loses its map, and the next orphan of that family is written to a nil map.
\<close>

definition ex_claim :: "prefix list \<Rightarrow> mp_op" where
  "ex_claim cs = MpAllocateToNode ''n1'' [\<lparr>al_Pool = ''x'', al_CIDRs = cs, al_AllowFirstIP = False, al_AllowLastIP = False\<rparr>] []"

definition orphan_ops :: "mp_op list" where
  "orphan_ops = [ex_claim [ex_cidr 0x0A000000 26, prefix_from (V6 0 []) 64], ex_claim [ex_cidr 0x0A000000 26],
     ex_claim [ex_cidr 0x0A000000 26, prefix_from (V6 0 []) 64]]"

lemma orphan_map_nil: "\<not> pa_panicked (ex_run (butlast orphan_ops)) \<and> pa_panicked (ex_run orphan_ops)"
  by code_simp

end
