(* ===== verification/Multi_Pool_Restore.thy ===== *)
theory Multi_Pool_Restore
  imports Multi_Pool_Properties
begin

text \<open>
  What the multi-pool operator publishes, and how it is recovered: a new operator is given the allocations of the nodes before
  \<open>RestoreFinished\<close>, marks them as used and adds nothing.
\<close>

section \<open>What is published\<close>

lemma set_insert_by [simp]: "set (insert_by lt x ys) = insert x (set ys)"
  by (induction ys) auto

lemma set_sort_by [simp]: "set (sort_by lt xs) = set xs"
  unfolding sort_by_def by (induction xs) simp_all

lemma set_fold_insert [simp]: "set (fold List.insert ys xs) = set xs \<union> set ys"
  by (induction ys arbitrary: xs) auto

lemma insert_by_sorted:
  assumes "transp lt" "sorted_wrt lt ys" "\<And>y. y \<in> set ys \<Longrightarrow> lt x y \<or> lt y x"
  shows "sorted_wrt lt (insert_by lt x ys)"
  using assms(2,3)
proof (induction ys)
  case (Cons y ys)
  show ?case
  proof (cases "lt y x")
    case True
    with Cons show ?thesis by simp
  next
    case False
    then have "lt x y" using Cons.prems(2) by auto
    with Cons.prems(1) False show ?thesis using transpD [OF assms(1), of x y] by auto
  qed
qed simp

lemma sort_by_sorted:
  assumes "transp lt" "\<And>x y. x \<in> set xs \<Longrightarrow> y \<in> set xs \<Longrightarrow> x \<noteq> y \<Longrightarrow> lt x y \<or> lt y x" "distinct xs"
  shows "sorted_wrt lt (sort_by lt xs)"
  using assms(2,3)
proof (induction xs)
  case (Cons x xs)
  have "sorted_wrt lt (sort_by lt xs)" using Cons by simp
  then have "sorted_wrt lt (insert_by lt x (sort_by lt xs))"
    by (rule insert_by_sorted [OF assms(1)]) (use Cons.prems in auto)
  then show ?case by (simp add: sort_by_def)
qed (simp add: sort_by_def)

lemma string_less_trans: "string_less a b \<Longrightarrow> string_less b c \<Longrightarrow> string_less a c"
  by (induction a b arbitrary: c rule: string_less.induct; case_tac c) (auto split: if_splits)

lemma string_less_linear: "a \<noteq> b \<Longrightarrow> string_less a b \<or> string_less b a"
  by (induction a b rule: string_less.induct) (auto simp: not_less_iff_gr_or_eq)

lemma string_less_irrefl [simp]: "\<not> string_less a a"
  by (induction a) simp_all

lemma entry_pool [simp]: "al_Pool (pool_entry p n q) = q"
  by (simp add: pool_entry_def Let_def)

lemma entry_cidrs:
  "c \<in> set (al_CIDRs (pool_entry p n q)) \<longleftrightarrow>
     (\<exists>w. (w, q, n, c) \<in> items (pa_nodes p) \<or> (w, q, n, c) \<in> items (pa_orphans p))"
  unfolding pool_entry_def Let_def items_def family_elems_def sets_of_def CIDRSlice_def ex_bool_eq
  by (auto split: if_splits)

lemma item_pool: "(w, q, n, c) \<in> items M \<Longrightarrow> q \<in> fst ` set (pools_of M n)"
  by (cases "map_of (pools_of M n) q") (auto simp: items_def sets_of_def dest: map_of_SomeD intro: rev_image_eqI)

lemma published_items:
  "(\<exists>a \<in> set (AllocatedPools p n). al_Pool a = q \<and> c \<in> set (al_CIDRs a)) \<longleftrightarrow>
     (\<exists>w. (w, q, n, c) \<in> items (pa_nodes p) \<or> (w, q, n, c) \<in> items (pa_orphans p))"
  using item_pool [of _ q n c "pa_nodes p"] item_pool [of _ q n c "pa_orphans p"]
  by (auto simp: AllocatedPools_def entry_cidrs)

lemma published_sorted: "sorted_wrt string_less (map al_Pool (AllocatedPools p n))"
proof -
  let ?lt = "\<lambda>x y. string_less (al_Pool x) (al_Pool y)"
  let ?xs = "map (pool_entry p n) (remdups (map fst (pools_of (pa_nodes p) n) @ map fst (pools_of (pa_orphans p) n)))"
  have "inj_on (pool_entry p n) A" for A by (rule inj_on_inverseI [of _ al_Pool]) simp
  then have "distinct ?xs" by (simp add: distinct_map)
  moreover have "?lt x y \<or> ?lt y x" if xy: "x \<in> set ?xs" "y \<in> set ?xs" "x \<noteq> y" for x y
  proof -
    have "x = pool_entry p n (al_Pool x)" "y = pool_entry p n (al_Pool y)" using xy(1,2) by auto
    then have "al_Pool x \<noteq> al_Pool y" using xy(3) by metis
    then show ?thesis by (rule string_less_linear)
  qed
  ultimately have "sorted_wrt ?lt (sort_by ?lt ?xs)" by (intro sort_by_sorted transpI) (blast intro: string_less_trans)+
  then show ?thesis by (simp add: AllocatedPools_def sorted_wrt_map)
qed

lemma sorted_strings_distinct: "sorted_wrt string_less xs \<Longrightarrow> distinct xs"
  by (induction xs) auto

lemmas published_distinct = sorted_strings_distinct [OF published_sorted]

lemma orphan_item:
  assumes "orphans_fit msk M"
  shows "(\<exists>w. (w, q, n, c) \<in> items M) \<longleftrightarrow> has_cidr (sets_of M n q) c"
proof
  assume "\<exists>w. (w, q, n, c) \<in> items M"
  then obtain w where w: "c \<in> set (family_elems w (sets_of M n q))" by (auto simp: items_def)
  note f = fit_fam_wf [OF orphans_sets [OF assms w]]
  then have "w = (\<not> addr_is4 (pfx_addr c))" by simp
  with f w has_cidr_family [of c] show "has_cidr (sets_of M n q) c" by simp
next
  assume "has_cidr (sets_of M n q) c"
  then show "\<exists>w. (w, q, n, c) \<in> items M"
    by (cases "pfx_addr c") (force simp: has_cidr_def items_def family_elems_def)+
qed

lemma published_held:
  assumes "mp_core own msk p"
  shows "(\<exists>a \<in> set (AllocatedPools p n). al_Pool a = q \<and> c \<in> set (al_CIDRs a)) \<longleftrightarrow> isAllocated p n q c \<or> isOrphan p n q c"
proof -
  have "(\<exists>w. (w, q, n, c) \<in> items (pa_nodes p)) \<longleftrightarrow> isAllocated p n q c"
    using item_allocated [OF assms] allocated_item by blast
  moreover have "(\<exists>w. (w, q, n, c) \<in> items (pa_orphans p)) \<longleftrightarrow> isOrphan p n q c"
    using orphan_item [OF mp_coreD(2) [OF assms], of q n c] by (simp add: isOrphan_def)
  ultimately show ?thesis using published_items [of p n q c] by blast
qed

text \<open>
  What the operator publishes for a node is, in every state it reaches, exactly the CIDRs the node holds of
  the pools and the ones that are orphaned, each under its pool, one entry for each pool and in the order of
  their names.
\<close>

theorem published_exact:
  assumes "mp_reachable own msk p"
  shows "((\<exists>a \<in> set (AllocatedPools p n). al_Pool a = q \<and> c \<in> set (al_CIDRs a)) \<longleftrightarrow> isAllocated p n q c \<or> isOrphan p n q c) \<and>
    sorted_wrt string_less (map al_Pool (AllocatedPools p n)) \<and> distinct (map al_Pool (AllocatedPools p n))"
  using published_held mp_reachable_core [OF assms] published_sorted published_distinct by blast

section \<open>Occupying again\<close>

definition slices_full :: "pool_allocator \<Rightarrow> bool" where
  "slices_full p \<longleftrightarrow> (\<forall>q po v6. pa_pools p q = Some po \<longrightarrow> None \<notin> set (pool_slice v6 po))"

definition same_pools :: "pool_allocator \<Rightarrow> pool_allocator \<Rightarrow> bool" where
  "same_pools p p' \<longleftrightarrow>
     (\<forall>q v6. rel_option (\<lambda>po po'. list_all2 same_range (somes (pool_slice v6 po)) (somes (pool_slice v6 po'))) (pa_pools p q) (pa_pools p' q))"

lemma slice_occupy_total:
  assumes "\<And>s. s \<in> set (somes ss) \<Longrightarrow> cs_inv s \<and> cs_nodeMaskSize s = msk \<and> cs_blocks s c \<inter> bits_of (cs_used s) = {}"
    "None \<notin> set ss" "fits msk c" "\<exists>s \<in> set (somes ss). cs_InRange s c"
  shows "\<exists>ss'. slice_occupyCIDR ss c = Inr ss'"
  using assms
proof (induction ss c rule: slice_occupyCIDR.induct)
  case (3 s ss c)
  have s: "cs_inv s" "cs_nodeMaskSize s = msk" "cs_blocks s c \<inter> bits_of (cs_used s) = {}" using 3(2) by simp_all
  show ?case
  proof (cases "cs_InRange s c")
    case True
    have c: "fits (cs_nodeMaskSize s) c" using 3(4) s(2) by simp
    have "cs_index s (pfx_addr c) \<notin> bits_of (cs_used s)" using s(3) fits_block(4) [OF cs_invD(1) [OF s(1)] c True] by simp
    moreover obtain t where "cs_Occupy s c = Inr t" "cs_IsAllocated s c = Inr (cs_index s (pfx_addr c) \<in> bits_of (cs_used s))"
      using cs_ops_fit [OF s(1) c True] by metis
    ultimately show ?thesis using True by simp
  next
    case False
    then have "\<exists>ss'. slice_occupyCIDR ss c = Inr ss'" using 3(1) [OF False] 3(2-5) by auto
    with False show ?thesis by auto
  qed
qed simp_all

lemma slice_occupy_same:
  assumes "slice_occupyCIDR ss c = Inr ss'" "fam_sets v6 msk own (somes ss)" "fits msk c"
  shows "list_all2 same_range (somes ss) (somes ss')" "None \<notin> set ss \<Longrightarrow> None \<notin> set ss'"
proof -
  obtain xs s t ys where a: "ss = map Some xs @ Some s # ys" "ss' = map Some xs @ Some t # ys" "cs_InRange s c" "cs_Occupy s c = Inr t"
    using slice_occupy_at [OF assms(1)] by blast
  then have s: "cs_inv s" "cs_nodeMaskSize s = msk" using assms(2) by (auto simp: fam_sets_def)
  obtain t' where "cs_Occupy s c = Inr t'" "cs_same s t'" by (rule cs_ops_fit [OF s(1) _ a(3)]) (use assms(3) s(2) in auto)
  then have "same_range s t" using a(4) cs_same_range by simp
  then show "list_all2 same_range (somes ss) (somes ss')"
    using a(1,2) by (auto simp: list_all2_append list.rel_refl same_range_def)
  show "None \<notin> set ss \<Longrightarrow> None \<notin> set ss'" using a by auto
qed

lemma markOrphan_spec:
  assumes "maps_wf (pa_orphans p)" "pfx_wf c"
  obtains M where "markOrphan n q c a b p = p\<lparr>pa_orphans := M\<rparr>" "maps_wf M" "items M = insert (item_of n q c) (items (pa_orphans p))"
proof -
  let ?M = "pa_orphans p" and ?w = "\<not> addr_is4 (pfx_addr c)"
  let ?s = "case map_of (pools_of ?M n) q of Some s \<Rightarrow> s | None \<Rightarrow> fresh_sets a b"
  have s: "sets_wf ?s" "family_elems w ?s = family_elems w (sets_of ?M n q)" for w
    using sets_of_wf [OF assms(1), of n q] by (auto simp: sets_of_def sets_wf_def fresh_sets_def family_elems_def elems_def
      zero_sets_def split: option.splits)
  obtain s' where s': "add_cidr c ?s = Some s'" "sets_wf s'"
    "\<And>w. family_elems w s' = (if w = ?w then List.insert c (family_elems w ?s) else family_elems w ?s)"
    using add_cidr_wf [OF assms(2) s(1)] by blast
  have "items (put_sets ?M n q s') = insert (item_of n q c) (items ?M)"
    using s(2) s'(3) by (auto simp: items_def item_of_def split: if_splits)
  with that [of "put_sets ?M n q s'"] s'(1) maps_wf_put [OF assms(1) s'(2)] show ?thesis by (simp add: markOrphan_def Let_def)
qed

text \<open>
  The claims \<open>D\<close> have been processed, starting from \<open>p0\<close>: those of pools that exist are held, the others are orphans.
\<close>

definition pool_known :: "pool_allocator \<Rightarrow> item \<Rightarrow> bool" where
  "pool_known p x = (case x of (w, q, n, c) \<Rightarrow> pa_pools p q \<noteq> None)"

definition restoring :: "(string \<Rightarrow> prefix set) \<Rightarrow> (bool \<Rightarrow> string \<Rightarrow> int) \<Rightarrow> pool_allocator \<Rightarrow> item set \<Rightarrow> pool_allocator \<Rightarrow> bool" where
  "restoring own msk p0 D p \<longleftrightarrow> mp_core own msk p \<and> \<not> pa_panicked p \<and> \<not> pa_ready p \<and> slices_full p \<and> same_pools p0 p \<and>
     maps_wf (pa_orphans p) \<and> items (pa_nodes p) = {x \<in> D. pool_known p0 x} \<and> items (pa_orphans p) = {x \<in> D. \<not> pool_known p0 x}"

definition claim_ok :: "(bool \<Rightarrow> string \<Rightarrow> int) \<Rightarrow> pool_allocator \<Rightarrow> item \<Rightarrow> bool" where
  "claim_ok msk p0 x = (case x of (w, q, n, c) \<Rightarrow> fit_fam w (msk w q) c \<and>
     (case pa_pools p0 q of None \<Rightarrow> True | Some po \<Rightarrow> \<exists>s \<in> set (somes (pool_slice w po)). cs_InRange s c))"

definition claims_apart :: "pool_allocator \<Rightarrow> item set \<Rightarrow> bool" where
  "claims_apart p0 D \<longleftrightarrow>
     (\<forall>w q n c n' c' po s. (w, q, n, c) \<in> D \<and> (w, q, n', c') \<in> D \<and> (n, c) \<noteq> (n', c') \<and> pa_pools p0 q = Some po \<and>
        s \<in> set (somes (pool_slice w po)) \<longrightarrow> cs_blocks s c \<inter> cs_blocks s c' = {})"

lemma same_range_trans: "same_range s t \<Longrightarrow> same_range t u \<Longrightarrow> same_range s u"
  by (simp add: same_range_def)

lemma same_pools_some:
  assumes "same_pools p0 p" "pa_pools p0 q = Some po0"
  obtains po where "pa_pools p q = Some po" "\<forall>v6. list_all2 same_range (somes (pool_slice v6 po0)) (somes (pool_slice v6 po))"
proof -
  have r: "rel_option (\<lambda>po po'. list_all2 same_range (somes (pool_slice v6 po)) (somes (pool_slice v6 po'))) (pa_pools p0 q) (pa_pools p q)" for v6
    using assms(1) by (simp add: same_pools_def)
  obtain po where po: "pa_pools p q = Some po" using r [of False] assms(2) by (cases "pa_pools p q") simp_all
  show ?thesis by (rule that [OF po]) (use r po assms(2) in simp)
qed

lemma same_pools_none:
  assumes "same_pools p0 p" shows "pa_pools p0 q = None \<longleftrightarrow> pa_pools p q = None"
proof -
  have "rel_option (\<lambda>po po'. list_all2 same_range (somes (pool_slice False po)) (somes (pool_slice False po'))) (pa_pools p0 q) (pa_pools p q)"
    using assms by (simp add: same_pools_def)
  then show ?thesis by (cases "pa_pools p0 q"; cases "pa_pools p q") simp_all
qed

lemma same_pools_store:
  assumes "same_pools p0 p" "pa_pools p q = Some po" "list_all2 same_range (somes (pool_slice v6 po)) (somes ss)"
    "pa_pools p' = (pa_pools p)(q \<mapsto> set_slice v6 ss po)"
  shows "same_pools p0 p'"
  unfolding same_pools_def
proof (intro allI)
  fix q' w
  let ?R = "\<lambda>po po'. list_all2 same_range (somes (pool_slice w po)) (somes (pool_slice w po'))"
  have r: "rel_option ?R (pa_pools p0 q') (pa_pools p q')" using assms(1) by (simp add: same_pools_def)
  show "rel_option ?R (pa_pools p0 q') (pa_pools p' q')"
  proof (cases "q' = q")
    case True
    then obtain po0 where po0: "pa_pools p0 q = Some po0" "?R po0 po" using r assms(2) by (cases "pa_pools p0 q") auto
    have "?R po0 (set_slice v6 ss po)"
      using po0(2) assms(3) list_all2_trans [of same_range same_range same_range, OF same_range_trans] by auto
    with True po0(1) assms(4) show ?thesis by simp
  qed (use r assms(4) in simp)
qed

lemma list_all2_in: "list_all2 R xs ys \<Longrightarrow> y \<in> set ys \<Longrightarrow> \<exists>x \<in> set xs. R x y"
  by (induction rule: list_all2_induct) auto

lemma list_all2_in': "list_all2 R xs ys \<Longrightarrow> x \<in> set xs \<Longrightarrow> \<exists>y \<in> set ys. R x y"
  by (induction rule: list_all2_induct) auto

lemma occupy_claim:
  assumes "plan_ok own" "restoring own msk p0 D p" "claim_ok msk p0 (w, q, n, c)" "claims_apart p0 (insert (w, q, n, c) D)"
    "pa_pools p0 q = Some po0"
  shows "restoring own msk p0 (insert (w, q, n, c) D) (fst (occupyCIDR n q c p))"
proof -
  note r = assms(2) [unfolded restoring_def]
  then have core: "mp_core own msk p" and nodes: "items (pa_nodes p) = {x \<in> D. pool_known p0 x}"
    and same: "same_pools p0 p" and full: "slices_full p" by simp_all
  have fit: "fit_fam w (msk w q) c" and rng: "\<exists>s \<in> set (somes (pool_slice w po0)). cs_InRange s c"
    using assms(3,5) by (simp_all add: claim_ok_def)
  have wf: "pfx_wf c" "(\<not> addr_is4 (pfx_addr c)) = w" using fit_fam_wf [OF fit] by simp_all
  have known: "pool_known p0 (w, q, n, c)" using assms(5) by (simp add: pool_known_def)
  obtain po where po: "pa_pools p q = Some po" "\<forall>v6. list_all2 same_range (somes (pool_slice v6 po0)) (somes (pool_slice v6 po))"
    by (rule same_pools_some [OF same assms(5)])
  note rel = spec [OF po(2), of w]
  have core': "mp_core own msk (fst (occupyCIDR n q c p))" by (rule occupyCIDR_core [OF assms(1) core fit])
  show ?thesis
  proof (cases "(w, q, n, c) \<in> items (pa_nodes p)")
    case True
    then have "isAllocated p n q c" using isAllocated_item [OF wf(1)] wf(2) by (simp add: item_of_def)
    moreover have "insert (w, q, n, c) D = D" using True nodes by auto
    ultimately show ?thesis using assms(2) by (simp add: occupyCIDR_def)
  next
    case False
    note b = books_okD [OF mp_coreD(3) [OF core] po(1), of w]
    then have sets: "fam_sets w (msk w q) (own q) (somes (pool_slice w po))" by (simp add: fam_ok_def)
    have free: "cs_inv s \<and> cs_nodeMaskSize s = msk w q \<and> cs_blocks s c \<inter> bits_of (cs_used s) = {}" if s: "s \<in> set (somes (pool_slice w po))" for s
    proof -
      obtain s0 where s0: "s0 \<in> set (somes (pool_slice w po0))" "same_range s0 s" using list_all2_in [OF rel s] by blast
      have "cs_blocks s c \<inter> cs_blocks s c' = {}" if "(w, q, n', c') \<in> items (pa_nodes p)" for n' c'
      proof -
        have "(w, q, n', c') \<in> D" "(n, c) \<noteq> (n', c')" using that nodes False by auto
        then have "cs_blocks s0 c \<inter> cs_blocks s0 c' = {}" using assms(4,5) s0(1) unfolding claims_apart_def by blast
        then show ?thesis using same_rangeD(1) [OF s0(2)] by simp
      qed
      moreover have "bits_of (cs_used s) = (\<Union>h \<in> section_of (items (pa_nodes p)) w q. cs_blocks s (snd h))"
        using b s by (simp add: fam_ok_def set_books_def)
      ultimately show ?thesis using fam_setsD [OF sets s] by fastforce
    qed
    obtain s0 s where "s0 \<in> set (somes (pool_slice w po0))" "cs_InRange s0 c" "s \<in> set (somes (pool_slice w po))" "same_range s0 s"
      using rng list_all2_in' [OF rel] by blast
    then have "\<exists>s \<in> set (somes (pool_slice w po)). cs_InRange s c" using same_rangeD(2) by blast
    then obtain ss where ss: "slice_occupyCIDR (pool_slice w po) c = Inr ss"
      using slice_occupy_total [OF free] full po(1) fit unfolding slices_full_def fit_fam_def by blast
    note t = slice_occupy_same [OF ss sets] 
    let ?p = "store_pool q (set_slice w ss po) p"
    obtain M where m: "markAllocated n q c ?p = ?p\<lparr>pa_nodes := M\<rparr>" "items M = insert (item_of n q c) (items (pa_nodes ?p))"
      by (rule markAllocated_spec [of ?p c n q]) (use mp_coreD(1) [OF core] wf(1) in simp_all)
    have "\<not> isAllocated p n q c" using False isAllocated_item [OF wf(1)] wf(2) by (simp add: item_of_def)
    then have e: "fst (occupyCIDR n q c p) = ?p\<lparr>pa_nodes := M\<rparr>" using po(1) ss wf(2) m(1) by (simp add: occupyCIDR_def Let_def)
    have "same_pools p0 (?p\<lparr>pa_nodes := M\<rparr>)"
      by (rule same_pools_store [OF same po(1) t(1)]) (use fit in \<open>simp_all add: fit_fam_def\<close>)
    moreover have "slices_full (?p\<lparr>pa_nodes := M\<rparr>)"
      using full t(2) po(1) fit unfolding slices_full_def fit_fam_def by auto
    moreover have "items M = {x \<in> insert (w, q, n, c) D. pool_known p0 x}" using m(2) wf(2) nodes known by (auto simp: item_of_def)
    ultimately show ?thesis using r core' known unfolding e by (auto simp: restoring_def store_pool_def)
  qed
qed

lemma orphan_claim:
  assumes "restoring own msk p0 D p" "claim_ok msk p0 (w, q, n, c)" "pa_pools p0 q = None"
  shows "restoring own msk p0 (insert (w, q, n, c) D) (markOrphan n q c a b p)"
proof -
  note r = assms(1) [unfolded restoring_def]
  have fit: "fit_fam w (msk w q) c" using assms(2) by (simp add: claim_ok_def)
  have wf: "pfx_wf c" "(\<not> addr_is4 (pfx_addr c)) = w" using fit_fam_wf [OF fit] by simp_all
  have known: "\<not> pool_known p0 (w, q, n, c)" using assms(3) by (simp add: pool_known_def)
  have core: "mp_core own msk (markOrphan n q c a b p)" using r fit by (intro markOrphan_core [where ?v6.0 = w]) simp_all
  obtain M where m: "markOrphan n q c a b p = p\<lparr>pa_orphans := M\<rparr>" "maps_wf M" "items M = insert (item_of n q c) (items (pa_orphans p))"
    by (rule markOrphan_spec [of p c n q a b]) (use r wf in simp_all)
  have "items M = {x \<in> insert (w, q, n, c) D. \<not> pool_known p0 x}" using m(3) wf(2) r known by (auto simp: item_of_def)
  moreover have "slices_full (p\<lparr>pa_orphans := M\<rparr>)" "same_pools p0 (p\<lparr>pa_orphans := M\<rparr>)"
    using r by (simp_all add: slices_full_def same_pools_def)
  ultimately show ?thesis using r core m(2) known unfolding m(1) by (auto simp: restoring_def)
qed

lemma occupy_step_claim:
  assumes "plan_ok own" "restoring own msk p0 D p" "claim_ok msk p0 (item_of n (al_Pool a) c)"
    "claims_apart p0 (insert (item_of n (al_Pool a) c) D)"
  shows "restoring own msk p0 (insert (item_of n (al_Pool a) c) D) (fst (occupy_step n a c p))"
proof -
  have "pfx_valid c" using assms(3) by (simp add: claim_ok_def item_of_def fit_fam_def fits_def pfx_wf_def)
  moreover have "pa_pools p (al_Pool a) = None \<longleftrightarrow> pa_pools p0 (al_Pool a) = None"
    using same_pools_none [of p0 p] assms(2) by (simp add: restoring_def)
  ultimately show ?thesis
    using occupy_claim [OF assms(1,2) assms(3,4) [unfolded item_of_def]] orphan_claim [OF assms(2) assms(3) [unfolded item_of_def]]
    by (cases "pa_pools p0 (al_Pool a)") (auto simp: occupy_step_def item_of_def)
qed

section \<open>Restoring the nodes\<close>

definition claims_ok :: "(bool \<Rightarrow> string \<Rightarrow> int) \<Rightarrow> pool_allocator \<Rightarrow> item set \<Rightarrow> bool" where
  "claims_ok msk p0 T \<longleftrightarrow> (\<forall>x \<in> T. claim_ok msk p0 x) \<and> claims_apart p0 T"

definition claim_items :: "string \<Rightarrow> pool_allocation list \<Rightarrow> item set" where
  "claim_items n as = (\<Union>a \<in> set as. item_of n (al_Pool a) ` set (al_CIDRs a))"

lemma claims_okD:
  assumes "claims_ok msk p0 T" "x \<in> T" "D \<subseteq> T"
  shows "claim_ok msk p0 x" "claims_apart p0 (insert x D)"
proof -
  show "claim_ok msk p0 x" using assms(1,2) by (simp add: claims_ok_def)
  have "insert x D \<subseteq> T" "claims_apart p0 T" using assms by (simp_all add: claims_ok_def)
  then show "claims_apart p0 (insert x D)" unfolding claims_apart_def by (meson subsetD)
qed

lemma restore_cidrs:
  assumes "plan_ok own" "claims_ok msk p0 T" "restoring own msk p0 D p" "D \<subseteq> T" "item_of n (al_Pool a) ` set cs \<subseteq> T"
  shows "restoring own msk p0 (D \<union> item_of n (al_Pool a) ` set cs) (fst (run_steps (occupy_step n a) cs p))"
  using assms(3-5)
proof (induction cs arbitrary: D p)
  case (Cons c cs)
  let ?x = "item_of n (al_Pool a) c"
  have x: "?x \<in> T" using Cons.prems(3) by simp
  have s: "restoring own msk p0 (insert ?x D) (fst (occupy_step n a c p))"
    by (rule occupy_step_claim [OF assms(1) Cons.prems(1) claims_okD [OF assms(2) x Cons.prems(2)]])
  from Cons.IH [OF s] Cons.prems(2,3)
  have "restoring own msk p0 (insert ?x D \<union> item_of n (al_Pool a) ` set cs) (fst (run_steps (occupy_step n a) cs (fst (occupy_step n a c p))))"
    by simp
  then show ?case by (simp add: case_prod_beta)
qed simp

lemma restore_allocations:
  assumes "plan_ok own" "claims_ok msk p0 T" "restoring own msk p0 D p" "D \<subseteq> T" "claim_items n as \<subseteq> T"
  shows "restoring own msk p0 (D \<union> claim_items n as) (fst (run_steps (\<lambda>a. run_steps (occupy_step n a) (al_CIDRs a)) as p))"
  using assms(3-5)
proof (induction as arbitrary: D p)
  case (Cons a as)
  let ?X = "item_of n (al_Pool a) ` set (al_CIDRs a)"
  have x: "?X \<subseteq> T" "claim_items n as \<subseteq> T" using Cons.prems(3) by (simp_all add: claim_items_def)
  have s: "restoring own msk p0 (D \<union> ?X) (fst (run_steps (occupy_step n a) (al_CIDRs a) p))"
    by (rule restore_cidrs [OF assms(1,2) Cons.prems(1,2) x(1)])
  have "D \<union> ?X \<subseteq> T" using Cons.prems(2) x(1) by simp
  from Cons.IH [OF s this x(2)]
  show ?case by (simp add: case_prod_beta claim_items_def Un_assoc)
qed (simp add: claim_items_def)

lemma claimed_retained:
  assumes "claims_ok msk p0 T" "claim_items n as \<subseteq> T" "distinct (map al_Pool as)" "(w, q, n, c) \<in> claim_items n as"
  shows "c \<in> set (allocated_set as q)"
proof -
  obtain a where a: "a \<in> set as" "al_Pool a = q" "c \<in> set (al_CIDRs a)" using assms(4) by (auto simp: claim_items_def item_of_def)
  have "claim_ok msk p0 (w, q, n, c)" using claims_okD(1) [OF assms(1), of _ "{}"] assms(2,4) by blast
  then have "pfx_valid c" by (simp add: claim_ok_def fit_fam_def fits_def pfx_wf_def)
  moreover have "map_of (rev (map (\<lambda>a. (al_Pool a, filter pfx_valid (al_CIDRs a))) as)) q = Some (filter pfx_valid (al_CIDRs a))"
    using a assms(3) by (intro map_of_is_SomeI) (auto simp: rev_map [symmetric] comp_def)
  ultimately show ?thesis using a(3) by (simp add: allocated_set_def)
qed

lemma run_steps_nothing: "(\<And>x. x \<in> set xs \<Longrightarrow> f x p = (p, [])) \<Longrightarrow> run_steps f xs p = (p, [])"
  by (induction xs) simp_all

lemma fold_nothing: "(\<And>x. x \<in> set xs \<Longrightarrow> f x p = p) \<Longrightarrow> fold f xs p = p"
  by (induction xs) simp_all

lemma retain_nothing:
  assumes "\<And>w q c. (w, q, n, c) \<in> items (pa_nodes p) \<Longrightarrow> c \<in> set (r q)"
    and "\<And>w q c. (w, q, n, c) \<in> items (pa_orphans p) \<Longrightarrow> c \<in> set (r q)"
  shows "retainCIDRs n (r q) q p = (p, [])" "retainOrphanCIDRs n (r q) q p = p"
proof -
  have e: "filter (\<lambda>c. c \<notin> set (r q)) (elems (st_v4 (sets_of M n q))) = []" "filter (\<lambda>c. c \<notin> set (r q)) (elems (st_v6 (sets_of M n q))) = []"
    if "\<And>w c. (w, q, n, c) \<in> items M \<Longrightarrow> c \<in> set (r q)" for M
    using that [of False] that [of True] by (simp_all add: items_def family_elems_def filter_empty_conv)
  show "retainCIDRs n (r q) q p = (p, [])" using e [of "pa_nodes p"] assms(1) by (simp add: retainCIDRs_def)
  show "retainOrphanCIDRs n (r q) q p = p" using e [of "pa_orphans p"] assms(2) by (simp add: retainOrphanCIDRs_def)
qed

lemma restore_node:
  assumes "plan_ok own" "claims_ok msk p0 T" "restoring own msk p0 D p" "D \<subseteq> T" "claim_items n as \<subseteq> T" "distinct (map al_Pool as)"
    and "\<And>w q c. (w, q, n, c) \<in> D \<Longrightarrow> (w, q, n, c) \<in> claim_items n as"
  shows "restoring own msk p0 (D \<union> claim_items n as) (fst (AllocateToNode n as rs p))"
proof -
  let ?p1 = "fst (run_steps (\<lambda>a. run_steps (occupy_step n a) (al_CIDRs a)) as p)" and ?r = "allocated_set as"
  note r = restore_allocations [OF assms(1-5)]
  then have i: "items (pa_nodes ?p1) \<subseteq> D \<union> claim_items n as" "items (pa_orphans ?p1) \<subseteq> D \<union> claim_items n as" "\<not> pa_ready ?p1"
    by (auto simp: restoring_def)
  have c: "c \<in> set (?r q)" if "(w, q, n, c) \<in> D \<union> claim_items n as" for w q c
    using claimed_retained [OF assms(2,5,6), of w q c] that assms(7) [of w q c] by blast
  have k: "retainCIDRs n (?r q) q ?p1 = (?p1, [])" "retainOrphanCIDRs n (?r q) q ?p1 = ?p1" for q
    by (rule retain_nothing [where r = ?r]; use c i in blast)+
  have "before_requests n as p = ?p1"
    unfolding before_requests_def Let_def by (simp add: run_steps_nothing k fold_nothing)
  then show ?thesis using r i(3) by (simp add: AllocateToNode_eq)
qed

definition restore_nodes :: "(string \<Rightarrow> pool_allocation list) \<Rightarrow> (string \<Rightarrow> pool_request list) \<Rightarrow> string list \<Rightarrow> pool_allocator \<Rightarrow> pool_allocator" where
  "restore_nodes as rs ns p = fold (\<lambda>n p. fst (AllocateToNode n (as n) (rs n) p)) ns p"

lemma claim_items_node: "(w, q, n', c) \<in> claim_items n as \<Longrightarrow> n' = n"
  by (auto simp: claim_items_def item_of_def)

lemma restore_nodes_claims:
  assumes "plan_ok own" "claims_ok msk p0 T" "restoring own msk p0 (\<Union>n \<in> N. claim_items n (as n)) p"
    "(\<Union>n \<in> N \<union> set ns. claim_items n (as n)) \<subseteq> T" "\<And>n. n \<in> set ns \<Longrightarrow> distinct (map al_Pool (as n))"
  shows "restoring own msk p0 (\<Union>n \<in> N \<union> set ns. claim_items n (as n)) (restore_nodes as rs ns p)"
  using assms(3-5)
proof (induction ns arbitrary: N p)
  case (Cons n ns)
  let ?D = "\<Union>n \<in> N. claim_items n (as n)"
  have t: "?D \<subseteq> T" "claim_items n (as n) \<subseteq> T" using Cons.prems(2) by auto
  have o: "(w, q, n, c) \<in> claim_items n (as n)" if "(w, q, n, c) \<in> ?D" for w q c
  proof -
    obtain m where "m \<in> N" "(w, q, n, c) \<in> claim_items m (as m)" using \<open>(w, q, n, c) \<in> ?D\<close> by blast
    with claim_items_node show ?thesis by metis
  qed
  have "restoring own msk p0 (?D \<union> claim_items n (as n)) (fst (AllocateToNode n (as n) (rs n) p))"
    by (rule restore_node [OF assms(1,2) Cons.prems(1) t _ o]) (use Cons.prems(3) in simp)
  then have "restoring own msk p0 (\<Union>m \<in> insert n N. claim_items m (as m)) (fst (AllocateToNode n (as n) (rs n) p))"
    by (simp add: Un_commute)
  from Cons.IH [OF this] Cons.prems(2,3) show ?case by (simp add: restore_nodes_def)
qed (simp add: restore_nodes_def)

text \<open>A new operator that knows its pools and no node.\<close>

definition started :: "(string \<Rightarrow> prefix set) \<Rightarrow> (bool \<Rightarrow> string \<Rightarrow> int) \<Rightarrow> pool_allocator \<Rightarrow> bool" where
  "started own msk p \<longleftrightarrow> mp_reachable own msk p \<and> pa_nodes p = [] \<and> pa_orphans p = [] \<and> \<not> pa_ready p \<and> slices_full p"

lemma started_restoring:
  assumes "started own msk p0" shows "restoring own msk p0 {} p0"
proof -
  have "same_pools p0 p0"
    by (simp add: same_pools_def option.rel_refl list.rel_refl same_range_def)
  moreover have "mp_core own msk p0" "\<not> pa_panicked p0"
    using assms mp_reachable_core by (auto simp: started_def mp_reachable_def)
  ultimately show ?thesis using assms by (simp add: restoring_def started_def items_def sets_of_def pools_of_def maps_wf_def)
qed

text \<open>After the nodes with these claims have been given to a new operator it holds exactly them.\<close>

lemma restored_exact:
  fixes rs :: "string \<Rightarrow> pool_request list"
  assumes "started own msk p0" "claims_ok msk p0 (\<Union>n \<in> set ns. claim_items n (as n))" "\<And>n. n \<in> set ns \<Longrightarrow> distinct (map al_Pool (as n))"
  defines "p \<equiv> restore_nodes as rs ns p0" and "T \<equiv> \<Union>n \<in> set ns. claim_items n (as n)"
  shows "\<not> pa_panicked p" "isAllocated p n q c \<longleftrightarrow> item_of n q c \<in> T \<and> pa_pools p0 q \<noteq> None"
    "isOrphan p n q c \<longleftrightarrow> item_of n q c \<in> T \<and> pa_pools p0 q = None"
proof -
  have pl: "plan_ok own" using assms(1) mp_reachable_core by (auto simp: started_def)
  have r: "restoring own msk p0 T p"
    using restore_nodes_claims [OF pl assms(2), where N = "{}" and as = as and ns = ns and rs = rs] started_restoring [OF assms(1)] assms(3)
    unfolding p_def T_def by simp
  then show "\<not> pa_panicked p" by (simp add: restoring_def)
  have core: "mp_core own msk p" and i: "items (pa_nodes p) = {x \<in> T. pool_known p0 x}" "items (pa_orphans p) = {x \<in> T. \<not> pool_known p0 x}"
    using r by (simp_all add: restoring_def)
  have w: "w = (\<not> addr_is4 (pfx_addr c))" if "(w, q, n, c) \<in> T" for w
    using that by (auto simp: T_def claim_items_def item_of_def)
  have a: "isAllocated p n q c \<longleftrightarrow> (\<exists>w. (w, q, n, c) \<in> items (pa_nodes p))" using item_allocated [OF core] allocated_item by blast
  show "isAllocated p n q c \<longleftrightarrow> item_of n q c \<in> T \<and> pa_pools p0 q \<noteq> None"
    unfolding a i using w by (auto simp: pool_known_def item_of_def)
  have o: "isOrphan p n q c \<longleftrightarrow> (\<exists>w. (w, q, n, c) \<in> items (pa_orphans p))"
    using orphan_item [OF mp_coreD(2) [OF core], of q n c] by (simp add: isOrphan_def)
  show "isOrphan p n q c \<longleftrightarrow> item_of n q c \<in> T \<and> pa_pools p0 q = None"
    unfolding o i using w by (auto simp: pool_known_def item_of_def)
qed

lemma held_item:
  assumes "mp_core own msk p"
  shows "isAllocated p n q c \<longleftrightarrow> item_of n q c \<in> items (pa_nodes p)" "isOrphan p n q c \<longleftrightarrow> item_of n q c \<in> items (pa_orphans p)"
proof -
  note d = mp_coreD [OF assms]
  have w: "w = (\<not> addr_is4 (pfx_addr c))" if "(w, q, n, c) \<in> items (pa_nodes p) \<or> (w, q, n, c) \<in> items (pa_orphans p)" for w
  proof -
    have "fit_fam w (msk w q) c" using that item_fits(1) [OF d(3), of w q n c] orphans_sets [OF d(2), of c w n q] by (auto simp: items_def)
    then show ?thesis using fit_fam_wf by blast
  qed
  have "isAllocated p n q c \<longleftrightarrow> (\<exists>w. (w, q, n, c) \<in> items (pa_nodes p))" using item_allocated [OF assms] allocated_item by blast
  then show "isAllocated p n q c \<longleftrightarrow> item_of n q c \<in> items (pa_nodes p)" using w unfolding item_of_def by blast
  have "isOrphan p n q c \<longleftrightarrow> (\<exists>w. (w, q, n, c) \<in> items (pa_orphans p))"
    using orphan_item [OF d(2), of q n c] by (simp add: isOrphan_def)
  then show "isOrphan p n q c \<longleftrightarrow> item_of n q c \<in> items (pa_orphans p)" using w unfolding item_of_def by blast
qed

text \<open>The claims that a state publishes are ones a new operator with the same pools can satisfy.\<close>

definition orphans_gone :: "pool_allocator \<Rightarrow> bool" where
  "orphans_gone p \<longleftrightarrow> (\<forall>n q c. isOrphan p n q c \<longrightarrow> pa_pools p q = None)"

lemma published_claims:
  assumes "mp_core own msk p" "orphans_gone p"
  shows "item_of n q c \<in> claim_items n (AllocatedPools p n) \<longleftrightarrow>
    item_of n q c \<in> (if pa_pools p q = None then items (pa_orphans p) else items (pa_nodes p))"
proof -
  note h = held_item [OF assms(1), of n q c]
  have o: "pa_pools p q = None" if "item_of n q c \<in> items (pa_orphans p)" using that h(2) assms(2) unfolding orphans_gone_def by blast
  have a: "pa_pools p q \<noteq> None" if "item_of n q c \<in> items (pa_nodes p)"
    using item_fits(2) [OF mp_coreD(3) [OF assms(1)] that [unfolded item_of_def]] by simp
  have "item_of n q c \<in> claim_items n (AllocatedPools p n) \<longleftrightarrow> (\<exists>a \<in> set (AllocatedPools p n). al_Pool a = q \<and> c \<in> set (al_CIDRs a))"
    by (auto simp: claim_items_def item_of_def)
  also have "\<dots> \<longleftrightarrow> isAllocated p n q c \<or> isOrphan p n q c" by (rule published_held [OF assms(1)])
  finally show ?thesis using h o a by auto
qed

lemma claim_items_family: "(w, q, n', c) \<in> claim_items n as \<Longrightarrow> (w, q, n', c) = item_of n q c"
  by (auto simp: claim_items_def item_of_def)

lemma published_claim:
  assumes "mp_core own msk p" "orphans_gone p" "(w, q, n, c) \<in> (\<Union>n \<in> N. claim_items n (AllocatedPools p n))"
  shows "(w, q, n, c) \<in> (if pa_pools p q = None then items (pa_orphans p) else items (pa_nodes p))"
proof -
  obtain m where m: "(w, q, n, c) \<in> claim_items m (AllocatedPools p m)" using assms(3) by blast
  note f = claim_items_family [OF m]
  then have "m = n" by (simp add: item_of_def)
  with m f published_claims [OF assms(1,2), of n q c] show ?thesis by simp
qed

lemma published_claims_ok:
  assumes "mp_core own msk p" "orphans_gone p" "same_pools p p0"
  shows "claims_ok msk p0 (\<Union>n \<in> N. claim_items n (AllocatedPools p n))"
  unfolding claims_ok_def
proof (intro conjI ballI)
  let ?T = "\<Union>n \<in> N. claim_items n (AllocatedPools p n)"
  note d = mp_coreD [OF assms(1)]
  fix x assume x: "x \<in> ?T"
  obtain w q n c where e: "x = (w, q, n, c)" by (cases x)
  note t = published_claim [OF assms(1,2) x [unfolded e]]
  show "claim_ok msk p0 x"
  proof (cases "pa_pools p q")
    case None
    then have "fit_fam w (msk w q) c" using t orphans_sets [OF d(2), of c w n q] by (simp add: items_def)
    with None same_pools_none [OF assms(3), of q] show ?thesis by (simp add: claim_ok_def e)
  next
    case (Some po)
    obtain po0 where po0: "pa_pools p0 q = Some po0" "\<forall>v6. list_all2 same_range (somes (pool_slice v6 po)) (somes (pool_slice v6 po0))"
      by (rule same_pools_some [OF assms(3) Some])
    have "(n, c) \<in> section_of (items (pa_nodes p)) w q" using t Some by simp
    note h = fam_heldD [OF books_okD [OF d(3) Some, of w] this]
    obtain s s0 where "cs_InRange s c" "s0 \<in> set (somes (pool_slice w po0))" "same_range s s0"
      using h(2) list_all2_in' [OF spec [OF po0(2), of w]] by blast
    then have "\<exists>s0 \<in> set (somes (pool_slice w po0)). cs_InRange s0 c" using same_rangeD(2) by blast
    with h(1) po0(1) show ?thesis by (simp add: claim_ok_def e)
  qed
next
  let ?T = "\<Union>n \<in> N. claim_items n (AllocatedPools p n)"
  note d = mp_coreD [OF assms(1)]
  show "claims_apart p0 ?T" unfolding claims_apart_def
  proof (intro allI impI)
    fix w q n c n' c' po0 s0
    assume h: "(w, q, n, c) \<in> ?T \<and> (w, q, n', c') \<in> ?T \<and> (n, c) \<noteq> (n', c') \<and> pa_pools p0 q = Some po0 \<and> s0 \<in> set (somes (pool_slice w po0))"
    have "pa_pools p q \<noteq> None" using h same_pools_none [OF assms(3), of q] by simp
    then obtain po where po: "pa_pools p q = Some po" by blast
    have i: "(m, b) \<in> section_of (items (pa_nodes p)) w q" if "(w, q, m, b) \<in> ?T" for m b
      using published_claim [OF assms(1,2) that] po by simp
    obtain po1 where po1: "pa_pools p0 q = Some po1" "\<forall>v6. list_all2 same_range (somes (pool_slice v6 po)) (somes (pool_slice v6 po1))"
      by (rule same_pools_some [OF assms(3) po])
    obtain s where s: "s \<in> set (somes (pool_slice w po))" "same_range s s0"
      using list_all2_in [OF spec [OF po1(2), of w]] h po1(1) by auto
    have "set_books (section_of (items (pa_nodes p)) w q) s" using books_okD [OF d(3) po, of w] s(1) by (simp add: fam_ok_def)
    then have "cs_blocks s (snd (n, c)) \<inter> cs_blocks s (snd (n', c')) = {}" using i [of n c] i [of n' c'] h unfolding set_books_def by blast
    then show "cs_blocks s0 c \<inter> cs_blocks s0 c' = {}" using same_rangeD(1) [OF s(2)] by simp
  qed
qed

text \<open>
  (C8) A restart of the multi-pool operator: a new operator that knows the same pools and is given what the old one has
  published for the nodes, in any order and before \<open>RestoreFinished\<close>, does not panic and then holds exactly the CIDRs
  for exactly the nodes as the old one, and has the same orphans. The orphans of the old one have to belong to pools that
  are gone: orphans of a pool that still exists, from which only their CIDR was removed, are lost.
\<close>

theorem multipool_restart:
  fixes rs :: "string \<Rightarrow> pool_request list"
  assumes "mp_reachable own msk p" "started own msk p0" "same_pools p p0" "orphans_gone p"
    "\<forall>n. n \<notin> set ns \<longrightarrow> AllocatedPools p n = []"
  defines "p' \<equiv> restore_nodes (AllocatedPools p) rs ns p0"
  shows "\<not> pa_panicked p' \<and> (\<forall>n q c. isAllocated p' n q c = isAllocated p n q c) \<and> (\<forall>n q c. isOrphan p' n q c = isOrphan p n q c)"
proof -
  have core: "mp_core own msk p" using mp_reachable_core [OF assms(1)] by simp
  note r = restored_exact [OF assms(2) published_claims_ok [OF core assms(4,3)] published_distinct, where ns = ns and rs = rs, folded p'_def]
  have T: "item_of n q c \<in> (\<Union>n \<in> set ns. claim_items n (AllocatedPools p n)) \<longleftrightarrow> item_of n q c \<in> claim_items n (AllocatedPools p n)" for n q c
  proof
    assume "item_of n q c \<in> (\<Union>n \<in> set ns. claim_items n (AllocatedPools p n))"
    then obtain m where "item_of n q c \<in> claim_items m (AllocatedPools p m)" by blast
    moreover from this have "n = m" using claim_items_node unfolding item_of_def by blast
    ultimately show "item_of n q c \<in> claim_items n (AllocatedPools p n)" by simp
  next
    assume i: "item_of n q c \<in> claim_items n (AllocatedPools p n)"
    then have "n \<in> set ns" using assms(5) by (auto simp: claim_items_def)
    with i show "item_of n q c \<in> (\<Union>n \<in> set ns. claim_items n (AllocatedPools p n))" by blast
  qed
  have "isAllocated p' n q c = isAllocated p n q c \<and> isOrphan p' n q c = isOrphan p n q c" for n q c
  proof -
    note h = held_item [OF core, of n q c] and k = same_pools_none [OF assms(3), of q]
    have "isOrphan p n q c \<longrightarrow> pa_pools p q = None" using assms(4) unfolding orphans_gone_def by blast
    moreover have "isAllocated p n q c \<longrightarrow> pa_pools p q \<noteq> None"
      using item_fits(2) [OF mp_coreD(3) [OF core], of "\<not> addr_is4 (pfx_addr c)" q n c] h(1) by (auto simp: item_of_def)
    ultimately show ?thesis unfolding r(2,3) T published_claims [OF core assms(4)] h using k h by auto
  qed
  with r(1) show ?thesis by blast
qed

section \<open>Which pools there are\<close>

lemma occupyCIDR_dom [simp]: "dom (pa_pools (fst (occupyCIDR n q c p))) = dom (pa_pools p)"
  by (auto simp: occupyCIDR_def fail_def panic_def Let_def markAllocated_pools split: option.split sum.split)

lemma markReleased_pools: "pa_pools (markReleased n q c p) = pa_pools p"
  by (auto simp: markReleased_def Let_def split: option.split)

lemma releaseCIDR_dom [simp]: "dom (pa_pools (fst (releaseCIDR n q c p))) = dom (pa_pools p)"
  by (auto simp: releaseCIDR_def fail_def panic_def Let_def markReleased_pools split: option.split sum.split)

lemma releaseOrphanCIDR_pools [simp]: "pa_pools (releaseOrphanCIDR n q c p) = pa_pools p"
  by (auto simp: releaseOrphanCIDR_def markReleasedOrphan_def cleanupOrphans_def Let_def split: option.split)

lemma run_steps_dom:
  assumes "\<And>x p. dom (pa_pools (fst (f x p))) = dom (pa_pools p)"
  shows "dom (pa_pools (fst (run_steps f xs p))) = dom (pa_pools p)"
  by (rule run_steps_core [where I = "\<lambda>p'. dom (pa_pools p') = dom (pa_pools p)"]) (simp_all add: assms)

lemma occupy_step_dom [simp]: "dom (pa_pools (fst (occupy_step n a c p))) = dom (pa_pools p)"
  by (simp add: occupy_step_def)

lemma retainCIDRs_dom [simp]: "dom (pa_pools (fst (retainCIDRs n r q p))) = dom (pa_pools p)"
  by (simp add: retainCIDRs_def case_prod_beta run_steps_dom)

lemma retainOrphanCIDRs_dom [simp]: "pa_pools (retainOrphanCIDRs n r q p) = pa_pools p"
proof -
  have "pa_pools (fold (releaseOrphanCIDR n q) cs p) = pa_pools p" for cs p
    by (rule fold_core [where I = "\<lambda>p'. pa_pools p' = pa_pools p"]) simp_all
  then show ?thesis by (simp add: retainOrphanCIDRs_def Let_def)
qed

lemma allocate_loop_dom [simp]: "dom (pa_pools (fst (allocate_loop k n q v6 t p))) = dom (pa_pools p)"
proof (induction k arbitrary: t p)
  case (Suc k)
  show ?case by (auto simp: Suc.IH markAllocated_pools fail_def panic_def split: option.split sum.split if_splits)
qed simp

lemma request_step_dom [simp]: "dom (pa_pools (fst (request_step n r p))) = dom (pa_pools p)"
proof -
  have "dom (pa_pools (fst (if e then allocateCIDRs n q v6 t p1 else (p1, [])))) = dom (pa_pools p1)" for e q v6 t p1
    by (simp add: allocateCIDRs_def)
  then show ?thesis unfolding request_step_def Let_def case_prod_beta fst_conv by simp
qed

lemma AllocateToNode_dom: "dom (pa_pools (fst (AllocateToNode n as rs p))) = dom (pa_pools p)"
proof -
  have f: "pa_pools (fold (\<lambda>q. retainOrphanCIDRs n (r q) q) qs p1) = pa_pools p1" for r qs p1
    by (rule fold_core [where I = "\<lambda>p'. pa_pools p' = pa_pools p1"]) simp_all
  have "dom (pa_pools (before_requests n as p)) = dom (pa_pools p)"
    unfolding before_requests_def Let_def f by (simp add: run_steps_dom)
  then show ?thesis by (simp add: AllocateToNode_eq Let_def run_steps_dom)
qed

lemma UpsertPool_dom:
  assumes "pa_nodes p = []" "pa_orphans p = []"
  shows "dom (pa_pools (fst (UpsertPool room name cfg4 m4 cfg6 m6 af al p))) \<subseteq> insert name (dom (pa_pools p))"
proof -
  have d: "run_steps (drop_set v6) ss p1 = (p1, [])" if "pa_nodes p1 = []" for v6 ss p1
    using that by (induction ss) (simp_all add: drop_set_def)
  have u: "fst (updateCIDRSets v6 ss cs m p1) = p1 \<or> fst (updateCIDRSets v6 ss cs m p1) = panic p1" if "pa_nodes p1 = []" for v6 ss cs m p1
    using d [OF that] by (auto simp: updateCIDRSets_def Let_def split: sum.split)
  obtain p1 e1 new4 k4 where 1: "updateCIDRSets False (case pa_pools p name of None \<Rightarrow> [] | Some po \<Rightarrow> po_v4 po) (map fst cfg4) m4 p = (p1, e1, new4, k4)"
    by (metis prod_cases4)
  obtain p2 e2 new6 k6 where 2: "updateCIDRSets True (case pa_pools p name of None \<Rightarrow> [] | Some po \<Rightarrow> po_v6 po) (map fst cfg6) m6 p1 = (p2, e2, new6, k6)"
    by (metis prod_cases4)
  have n1: "p1 = p \<or> p1 = panic p" using u [OF assms(1)] 1 by (metis fst_conv)
  then have "pa_nodes p1 = []" using assms(1) by (auto simp: panic_def)
  from u [OF this] have n2: "p2 = p1 \<or> p2 = panic p1" using 2 by (metis fst_conv)
  have pp: "pa_pools p1 = pa_pools p" "pa_pools p2 = pa_pools p" "pa_orphans p2 = []" using n1 n2 assms by (auto simp: panic_def)
  have fa: "pa_pools (fst (fail_all es p')) = pa_pools p'" for es p' by (simp add: fail_all_def panic_def)
  show ?thesis
    unfolding UpsertPool_def Let_def 1 prod.case 2
    by (auto simp: fa pp keep_pool_def reconcileOrphanCIDRs_def split: option.splits prod.splits if_splits)
qed
section \<open>The shape of pools\<close>

definition set_shape :: "cidr_set \<Rightarrow> prefix \<times> int \<times> nat" where
  "set_shape s = (cs_clusterPrefix s, cs_nodeMaskSize s, cs_maxCIDRs s)"

definition pool_shape :: "pool_allocator \<Rightarrow> string \<Rightarrow> bool \<Rightarrow> (prefix \<times> int \<times> nat) option list option" where
  "pool_shape p q v6 = map_option (\<lambda>po. map (map_option set_shape) (pool_slice v6 po)) (pa_pools p q)"

lemma same_shape: "map set_shape ss = map set_shape ts \<Longrightarrow> list_all2 same_range ss ts"
  by (induction ss arbitrary: ts) (auto simp: set_shape_def same_range_def Cons_eq_map_conv)

lemma shape_somes:
  assumes "map (map_option f) ss = map Some xs" shows "map f (somes ss) = xs" "None \<notin> set ss"
  using assms by (induction ss arbitrary: xs rule: somes.induct) (auto simp: Cons_eq_map_conv)

lemma pool_shape_somes:
  assumes "pool_shape p q v6 = Some (map Some xs)" "pa_pools p q = Some po"
  shows "map set_shape (somes (pool_slice v6 po)) = xs" "None \<notin> set (pool_slice v6 po)"
  using shape_somes [of set_shape "pool_slice v6 po" xs] assms by (simp_all add: pool_shape_def)

lemma shape_full:
  assumes "dom (pa_pools p) \<subseteq> {q}" "\<And>v6. pool_shape p q v6 = Some (map Some (xs v6))"
  shows "slices_full p"
  unfolding slices_full_def
proof (intro allI impI)
  fix q' po v6 assume "pa_pools p q' = Some po"
  with assms(1) have "pa_pools p q = Some po" by (cases "q' = q") auto
  from pool_shape_somes(2) [OF assms(2) this] show "None \<notin> set (pool_slice v6 po)" .
qed

lemma shape_same_pools:
  assumes "dom (pa_pools p) \<subseteq> {q}" "dom (pa_pools p') \<subseteq> {q}"
    "\<And>v6. pool_shape p q v6 = Some (map Some (xs v6))" "\<And>v6. pool_shape p' q v6 = Some (map Some (xs v6))"
  shows "same_pools p p'"
  unfolding same_pools_def
proof (intro allI)
  fix q' v6
  obtain po where po: "pa_pools p q = Some po" using assms(3) [of False] by (auto simp: pool_shape_def)
  obtain po' where po': "pa_pools p' q = Some po'" using assms(4) [of False] by (auto simp: pool_shape_def)
  have "list_all2 same_range (somes (pool_slice v6 po)) (somes (pool_slice v6 po'))"
    using pool_shape_somes(1) [OF assms(3) po] pool_shape_somes(1) [OF assms(4) po'] by (intro same_shape) simp
  moreover have "pa_pools p q' = None" "pa_pools p' q' = None" if "q' \<noteq> q" using assms(1,2) that by auto
  ultimately show "rel_option (\<lambda>po po'. list_all2 same_range (somes (pool_slice v6 po)) (somes (pool_slice v6 po'))) (pa_pools p q') (pa_pools p' q')"
    using po po' by (cases "q' = q") simp_all
qed

section \<open>Examples\<close>

definition ex_started :: pool_allocator where
  "ex_started = ex_run [ex_upsert ''a'' [ex_cidr 0x0A000000 24]]"

lemma ex_pools:
  "pa_nodes ex_started = [] \<and> pa_orphans ex_started = [] \<and> \<not> pa_ready ex_started \<and> \<not> pa_panicked ex_started"
  "map fst (pa_nodes (ex_run mp_ex_ops)) = [''n1''] \<and> pa_orphans (ex_run mp_ex_ops) = []"
  by code_simp+

theorem published_exact_witness:
  "\<exists>a \<in> set (AllocatedPools (ex_run mp_ex_ops) ''n1''). al_Pool a = ''a'' \<and> ex_cidr 0x0A000040 26 \<in> set (al_CIDRs a)"
proof -
  have "mp_reachable ex_own ex_msk (ex_run mp_ex_ops)" using ex_reachable mp_ex_ops_ok ex_facts by blast
  from published_exact [OF this, of "''n1''" "''a''" "ex_cidr 0x0A000040 26"] ex_facts show ?thesis by blast
qed

text \<open>
  A CIDR is removed from a pool while a node has it, and is kept as an orphan and published. A new operator does not
  find it in the pool and forgets it, so that it is not published any more.
\<close>

definition shrink_ops :: "mp_op list" where
  "shrink_ops = [ex_upsert ''a'' [ex_cidr 0x0A000000 24, ex_cidr 0x0A000100 24], MpRestoreFinished,
     MpAllocateToNode ''n1'' [] [ex_request ''a'' 50], ex_upsert ''a'' [ex_cidr 0x0A000100 24]]"

lemma restart_forgets_orphans:
  "(\<lambda>p. list_ex (\<lambda>a. ex_cidr 0x0A000000 26 \<in> set (al_CIDRs a)) (AllocatedPools p ''n1'') \<and>
     AllocatedPools (restore_nodes (AllocatedPools p) (\<lambda>n. []) [''n1''] (ex_run [ex_upsert ''a'' [ex_cidr 0x0A000100 24]])) ''n1'' = [])
   (ex_run shrink_ops)"
  by code_simp

lemma ex_dom: "dom (pa_pools ex_started) \<subseteq> {''a''}" "dom (pa_pools (ex_run mp_ex_ops)) \<subseteq> {''a''}"
proof -
  let ?p = "NewPoolAllocator True False"
  have e: "mp_exec ?p (ex_upsert ''a'' cs) = fst (UpsertPool False ''a'' (map (\<lambda>c. (c, [])) cs) 26 [] 64 False False ?p)" for cs
    by (simp add: mp_exec_def NewPoolAllocator_def ex_upsert_def)
  have u: "dom (pa_pools (mp_exec ?p (ex_upsert ''a'' cs))) \<subseteq> {''a''}" for cs
    unfolding e using UpsertPool_dom [of ?p] by (simp add: NewPoolAllocator_def)
  then show "dom (pa_pools ex_started) \<subseteq> {''a''}" by (simp add: ex_started_def ex_run_def)
  have "dom (pa_pools (mp_exec (mp_exec p MpRestoreFinished) (MpAllocateToNode n as rs))) = dom (pa_pools p)" for p n as rs
    by (simp add: mp_exec_def RestoreFinished_def AllocateToNode_dom)
  then show "dom (pa_pools (ex_run mp_ex_ops)) \<subseteq> {''a''}" using u by (simp add: ex_run_def mp_ex_ops_def)
qed

lemma ex_shape:
  "pool_shape ex_started ''a'' False = Some [Some (ex_cidr 0x0A000000 24, 26, 4)]" "pool_shape ex_started ''a'' True = Some []"
  "pool_shape (ex_run mp_ex_ops) ''a'' False = Some [Some (ex_cidr 0x0A000000 24, 26, 4)]" "pool_shape (ex_run mp_ex_ops) ''a'' True = Some []"
  by code_simp+

lemma ex_same: "same_pools (ex_run mp_ex_ops) ex_started" "slices_full ex_started"
proof -
  let ?xs = "\<lambda>v6. if v6 then [] else [(ex_cidr 0x0A000000 24, 26 :: int, 4 :: nat)]"
  have x: "pool_shape ex_started ''a'' v6 = Some (map Some (?xs v6))" "pool_shape (ex_run mp_ex_ops) ''a'' v6 = Some (map Some (?xs v6))" for v6
    using ex_shape by (cases v6; simp)+
  show "same_pools (ex_run mp_ex_ops) ex_started" by (rule shape_same_pools [OF ex_dom(2,1) x(2,1)])
  show "slices_full ex_started" by (rule shape_full [OF ex_dom(1) x(1)])
qed

theorem multipool_restart_witness:
  "isAllocated (ex_run mp_ex_ops) ''n1'' ''a'' (ex_cidr 0x0A000000 26) \<and>
   isAllocated (restore_nodes (AllocatedPools (ex_run mp_ex_ops)) (\<lambda>n. []) [''n1''] ex_started) ''n1'' ''a'' (ex_cidr 0x0A000000 26)"
proof -
  have r: "mp_reachable ex_own ex_msk (ex_run mp_ex_ops)" using ex_reachable mp_ex_ops_ok ex_facts by blast
  have "list_all (mp_op_ok ex_own ex_msk) [ex_upsert ''a'' [ex_cidr 0x0A000000 24]]" by code_simp
  then have "mp_reachable ex_own ex_msk ex_started" using ex_reachable ex_pools(1) by (simp add: ex_started_def)
  then have s: "started ex_own ex_msk ex_started" using ex_pools(1) ex_same(2) by (simp add: started_def)
  have "\<not> has_cidr zero_sets c" for c by (cases "pfx_addr c") (simp_all add: has_cidr_def zero_sets_def elems_def)
  then have g: "orphans_gone (ex_run mp_ex_ops)" using ex_pools(2) by (simp add: orphans_gone_def isOrphan_def sets_of_def pools_of_def)
  have "n \<notin> set [''n1''] \<Longrightarrow> AllocatedPools (ex_run mp_ex_ops) n = []" for n
    using ex_pools(2) by (auto simp: AllocatedPools_def pools_of_def sort_by_def map_of_eq_None_iff split: option.splits)
  then have n: "\<forall>n. n \<notin> set [''n1''] \<longrightarrow> AllocatedPools (ex_run mp_ex_ops) n = []" by blast
  from multipool_restart [OF r s ex_same(1) g n, of "\<lambda>n. []"] ex_facts show ?thesis by blast
qed

end
