(* ===== verification/Multi_Pool_Nodes.thy ===== *)
theory Multi_Pool_Nodes
  imports Multi_Pool_Properties
begin

text \<open>
  The multi-pool operator over the nodes of the cluster: \<open>node_handler.go\<close> and the migration from cluster-pool in
  \<open>multipool.go\<close>, under \<open>operator/pkg/ipam/allocator/multipool\<close>. The Kubernetes client is an argument that
  acts on its own state \<open>'k\<close>; the text of an error is a function of the errors. A panic ends the operator: nothing is
  written after it. Resources come from the API server, where an empty list and an absent one are the same, as here.
\<close>

section \<open>The node handler\<close>

record 'r pool_node =
  mn_name :: string
  mn_version :: 'r
  mn_podCIDRs :: "prefix list"
  mn_requested :: "pool_request list"
  mn_allocated :: "pool_allocation list"
  mn_error :: string

record ('k, 'r) pool_client =
  pc_Get :: "string \<Rightarrow> 'k \<Rightarrow> 'k \<times> (k8s_error, 'r pool_node) result"
  pc_Update :: "'r pool_node \<Rightarrow> 'k \<Rightarrow> 'k \<times> k8s_error option"
  pc_UpdateStatus :: "'r pool_node \<Rightarrow> 'k \<Rightarrow> 'k \<times> k8s_error option"

text \<open>A controller: the resource of its closure, and whether it has to be read again. Keyed by the node's name.\<close>

record 'r node_handler =
  nh_poolManager :: pool_allocator
  nh_pending :: "(string \<times> 'r pool_node) list"
  nh_restoreFinished :: bool
  nh_controllers :: "string \<rightharpoonup> 'r pool_node \<times> bool"

definition NewNodeHandler :: "pool_allocator \<Rightarrow> 'r node_handler" where
  "NewNodeHandler p = \<lparr>nh_poolManager = p, nh_pending = [], nh_restoreFinished = False, nh_controllers = Map.empty\<rparr>"

definition createUpsertController :: "'r pool_node \<Rightarrow> 'r node_handler \<Rightarrow> 'r node_handler" where
  "createUpsertController node h = h\<lparr>nh_controllers := (nh_controllers h)(mn_name node \<mapsto> (node, False))\<rparr>"

definition nh_Upsert :: "'r pool_node \<Rightarrow> 'r node_handler \<Rightarrow> 'r node_handler" where
  "nh_Upsert node h =
     (if \<not> nh_restoreFinished h then
        h\<lparr>nh_pending := AList.update (mn_name node) node (nh_pending h),
          nh_poolManager := fst (AllocateToNode (mn_name node) (mn_allocated node) (mn_requested node) (nh_poolManager h))\<rparr>
      else createUpsertController node h)"

definition nh_Delete :: "string \<Rightarrow> 'r node_handler \<Rightarrow> 'r node_handler" where
  "nh_Delete name h =
     h\<lparr>nh_poolManager := fst (ReleaseNode name (nh_poolManager h)), nh_pending := AList.delete name (nh_pending h),
       nh_controllers := (nh_controllers h)(name := None)\<rparr>"

definition nh_Resync :: "'r node_handler \<Rightarrow> 'r node_handler" where
  "nh_Resync h =
     (let h1 = fold (\<lambda>x. createUpsertController (snd x)) (nh_pending h) (h\<lparr>nh_poolManager := RestoreFinished (nh_poolManager h)\<rparr>)
      in h1\<lparr>nh_restoreFinished := True, nh_pending := []\<rparr>)"

text \<open>One run of a controller, after the resource has been read again if that was due.\<close>

datatype controller_error = AllocationFailed "mp_error list" | UpdateFailed k8s_error | UpdateStatusFailed k8s_error | GetFailed k8s_error

definition controller_write :: "bool \<Rightarrow> ('r pool_node \<Rightarrow> 'k \<Rightarrow> 'k \<times> k8s_error option) \<Rightarrow> 'r pool_node \<Rightarrow> 'k \<Rightarrow> 'k \<times> k8s_error option" where
  "controller_write due call node k = (if due then call node k else (k, None))"

definition new_resource :: "(mp_error list \<Rightarrow> string) \<Rightarrow> 'r pool_node \<Rightarrow> pool_allocator \<Rightarrow> mp_error list \<Rightarrow> 'r pool_node" where
  "new_resource render node p es =
     node\<lparr>mn_error := (if es = [] then [] else render es), mn_allocated := AllocatedPools p (mn_name node)\<rparr>"

definition controller_publish :: "('k, 'r) pool_client \<Rightarrow> 'r pool_node \<Rightarrow> 'r pool_node \<Rightarrow> 'k \<Rightarrow> 'k \<times> controller_error list \<times> bool" where
  "controller_publish api node new k =
     (case controller_write (mn_allocated new \<noteq> mn_allocated node) (pc_Update api) new k of
        (k1, e1) \<Rightarrow>
          (case controller_write (mn_error new \<noteq> mn_error node \<and> e1 \<noteq> Some Conflict) (pc_UpdateStatus api) new k1 of
             (k2, e2) \<Rightarrow>
               (k2, (case e1 of None \<Rightarrow> [] | Some e \<Rightarrow> [UpdateFailed e]) @ (case e2 of None \<Rightarrow> [] | Some e \<Rightarrow> [UpdateStatusFailed e]),
                e1 = Some Conflict \<or> e2 = Some Conflict)))"

definition controller_allocate :: "('k, 'r) pool_client \<Rightarrow> (mp_error list \<Rightarrow> string) \<Rightarrow> 'r pool_node \<Rightarrow> pool_allocator \<Rightarrow> 'k \<Rightarrow>
    pool_allocator \<times> 'k \<times> controller_error list \<times> bool" where
  "controller_allocate api render node p k =
     (case AllocateToNode (mn_name node) (mn_allocated node) (mn_requested node) p of
        (p', es) \<Rightarrow>
          if pa_panicked p' then (p', k, [], False)
          else (case controller_publish api node (new_resource render node p' es) k of
             (k', ws, refetch) \<Rightarrow> (p', k', (if es = [] then [] else [AllocationFailed es]) @ ws, refetch)))"

definition DoFunc :: "('k, 'r) pool_client \<Rightarrow> (mp_error list \<Rightarrow> string) \<Rightarrow> string \<Rightarrow> 'r node_handler \<Rightarrow> 'k \<Rightarrow>
    'r node_handler \<times> 'k \<times> controller_error list" where
  "DoFunc api render name h k =
     (case nh_controllers h name of
        None \<Rightarrow> (h, k, [])
      | Some (node, refetch) \<Rightarrow>
          (case (if refetch then pc_Get api (mn_name node) k else (k, Inr node)) of
             (k1, Inl e) \<Rightarrow> (h, k1, [GetFailed e])
           | (k1, Inr node1) \<Rightarrow>
               (case controller_allocate api render node1 (nh_poolManager h) k1 of
                  (p', k2, es, refetch') \<Rightarrow>
                    (h\<lparr>nh_poolManager := p', nh_controllers := (nh_controllers h)(name \<mapsto> (node1, refetch'))\<rparr>, k2, es))))"

section \<open>Migration from cluster-pool\<close>

text \<open>
  \<open>updateNodeWithRetries\<close>: at most ten attempts of \<open>wait.ExponentialBackoffWithContext\<close>. \<open>read i\<close> is what the store
  answers at the attempt \<open>i\<close> (\<open>Inr None\<close>: no such node), \<open>cancelled i\<close> whether the context has ended before it. The
  update function returns whether it is done, whether it met a conflict, and its error.
\<close>

datatype migration_error = StoreError | UpdateNodeError k8s_error

type_synonym ('k, 'r) update_func = "'r pool_node \<Rightarrow> 'k \<Rightarrow> 'k \<times> bool \<times> bool \<times> migration_error option"

fun retry_update :: "nat \<Rightarrow> nat \<Rightarrow> (nat \<Rightarrow> (migration_error, 'r pool_node option) result) \<Rightarrow> (nat \<Rightarrow> bool) \<Rightarrow> ('k, 'r) update_func \<Rightarrow>
    'r pool_node option \<Rightarrow> bool \<Rightarrow> migration_error option \<Rightarrow> 'k \<Rightarrow> 'k \<times> migration_error option" where
  "retry_update 0 i read cancelled f node conflict updateErr k = (k, updateErr)"
| "retry_update (Suc n) i read cancelled f node conflict updateErr k =
     (if cancelled i then (k, None)
      else case read i of
             Inl e \<Rightarrow> (k, updateErr)
           | Inr None \<Rightarrow> (k, None)
           | Inr (Some updNode) \<Rightarrow>
               if conflict \<and> (case node of None \<Rightarrow> False | Some x \<Rightarrow> mn_version x = mn_version updNode)
               then retry_update n (Suc i) read cancelled f node conflict updateErr k
               else (case f updNode k of
                       (k', done, conflict', err) \<Rightarrow>
                         if \<not> done then retry_update n (Suc i) read cancelled f (Some updNode) conflict' err k'
                         else (k', err)))"

definition updateNodeWithRetries :: "(nat \<Rightarrow> (migration_error, 'r pool_node option) result) \<Rightarrow> (nat \<Rightarrow> bool) \<Rightarrow> ('k, 'r) update_func \<Rightarrow> 'k \<Rightarrow>
    'k \<times> migration_error option" where
  "updateNodeWithRetries read cancelled f k = retry_update 10 0 read cancelled f None False None k"

definition update_answer :: "k8s_error option \<Rightarrow> bool \<times> bool \<times> migration_error option" where
  "update_answer e =
     (case e of
        None \<Rightarrow> (True, False, None)
      | Some Conflict \<Rightarrow> (False, True, Some (UpdateNodeError Conflict))
      | Some NotFound \<Rightarrow> (True, False, None)
      | Some x \<Rightarrow> (False, False, Some (UpdateNodeError x)))"

definition migrated :: "string \<Rightarrow> 'r pool_node \<Rightarrow> 'r pool_node" where
  "migrated pool node =
     node\<lparr>mn_requested := [], mn_allocated := [\<lparr>al_Pool = pool, al_CIDRs = mn_podCIDRs node, al_AllowFirstIP = False, al_AllowLastIP = False\<rparr>],
          mn_podCIDRs := []\<rparr>"

definition migrate_update :: "('k, 'r) pool_client \<Rightarrow> string \<Rightarrow> ('k, 'r) update_func" where
  "migrate_update api pool node k =
     (if mn_podCIDRs node = [] then (k, True, False, None)
      else case pc_Update api (migrated pool node) k of (k', e) \<Rightarrow> (k', update_answer e))"

definition migrateNode :: "(nat \<Rightarrow> (migration_error, 'r pool_node option) result) \<Rightarrow> (nat \<Rightarrow> bool) \<Rightarrow> ('k, 'r) pool_client \<Rightarrow> string \<Rightarrow> 'k \<Rightarrow>
    'k \<times> migration_error option" where
  "migrateNode read cancelled api pool k = updateNodeWithRetries read cancelled (migrate_update api pool) k"

definition status_update :: "('k, 'r) pool_client \<Rightarrow> string \<Rightarrow> ('k, 'r) update_func" where
  "status_update api msg node k =
     (if mn_error node = msg then (k, True, False, None)
      else case pc_UpdateStatus api (node\<lparr>mn_error := msg\<rparr>) k of (k', e) \<Rightarrow> (k', update_answer e))"

definition updateStatusForFailure :: "(nat \<Rightarrow> (migration_error, 'r pool_node option) result) \<Rightarrow> (nat \<Rightarrow> bool) \<Rightarrow> ('k, 'r) pool_client \<Rightarrow>
    string \<Rightarrow> 'k \<Rightarrow> 'k \<times> migration_error option" where
  "updateStatusForFailure read cancelled api msg k = updateNodeWithRetries read cancelled (status_update api msg) k"

end
