(* ===== verification/Pool_Handler.thy ===== *)
theory Pool_Handler
  imports Multi_Pool_Invariant Netip_Parse
begin

text \<open>
  From the text of a pool to the multi-pool allocator: \<open>pool_handler.go\<close> under
  \<open>operator/pkg/ipam/allocator/multipool\<close>. Go's \<open>netip.ParsePrefix\<close>, \<open>strconv.ParseUint\<close> for eight bits,
  \<open>strconv.ParseBool\<close> and the functions of \<open>strings\<close> are modelled with it; texts of errors are left out.
\<close>

section \<open>Texts\<close>

fun split_at :: "char \<Rightarrow> string \<Rightarrow> string list" where
  "split_at sep [] = [[]]"
| "split_at sep (c # cs) =
     (if c = sep then [] # split_at sep cs
      else case split_at sep cs of [] \<Rightarrow> [[c]] | f # fs \<Rightarrow> (c # f) # fs)"

definition strings_Cut :: "string \<Rightarrow> char \<Rightarrow> (string \<times> string) option" where
  "strings_Cut s sep = (if sep \<in> set s then Some (takeWhile (\<lambda>c. c \<noteq> sep) s, tl (dropWhile (\<lambda>c. c \<noteq> sep) s)) else None)"

definition digits_value :: "string \<Rightarrow> nat" where
  "digits_value s = foldl (\<lambda>n c. n * 10 + digit_value c) 0 s"

definition ParseUint8 :: "string \<Rightarrow> nat option" where
  "ParseUint8 s = (if s \<noteq> [] \<and> list_all is_digit s \<and> digits_value s < 256 then Some (digits_value s) else None)"

definition ParseBool :: "string \<Rightarrow> bool option" where
  "ParseBool s =
     (if s \<in> set [''1'', ''t'', ''T'', ''TRUE'', ''true'', ''True''] then Some True
      else if s \<in> set [''0'', ''f'', ''F'', ''FALSE'', ''false'', ''False''] then Some False
      else None)"

text \<open>The length is behind the last slash: digits without a leading zero, and no zone in front.\<close>

definition ParsePrefix :: "string \<Rightarrow> prefix option" where
  "ParsePrefix s =
     (if CHR ''/'' \<notin> set s then None
      else let bitsStr = rev (takeWhile (\<lambda>c. c \<noteq> CHR ''/'') (rev s));
               ip = rev (tl (dropWhile (\<lambda>c. c \<noteq> CHR ''/'') (rev s))) in
        case ParseAddr ip of
          None \<Rightarrow> None
        | Some a \<Rightarrow>
            if addr_has_zone a then None
            else if bitsStr = [] \<or> \<not> list_all is_digit bitsStr \<or> length bitsStr > 1 \<and> hd bitsStr = CHR ''0'' then None
            else if digits_value bitsStr > addr_bitlen a then None
            else Some (prefix_from a (int (digits_value bitsStr))))"

section \<open>The specification of a pool\<close>

record reserved_range =
  rr_Start :: string
  rr_End :: string

record ip_pool_spec =
  is_CIDRs :: "prefix list"
  is_MaskSize :: nat
  is_Pool :: "(prefix \<times> reserved_range list) list"

record parsed_pool_spec =
  pp_IPv4 :: "ip_pool_spec option"
  pp_IPv6 :: "ip_pool_spec option"
  pp_AllowFirstIP :: bool
  pp_AllowLastIP :: bool

datatype spec_error =
    NoKeyDelimiter string
  | InvalidSpecValue string

text \<open>What the loop over the fields has read.\<close>

record spec_state =
  sp_v4 :: "prefix list"
  sp_m4 :: nat
  sp_v6 :: "prefix list"
  sp_m6 :: nat
  sp_first :: bool
  sp_last :: bool

fun parse_cidrs :: "string list \<Rightarrow> prefix list option" where
  "parse_cidrs [] = Some []"
| "parse_cidrs (s # ss) =
     (case ParsePrefix s of
        None \<Rightarrow> None
      | Some c \<Rightarrow> (case parse_cidrs ss of None \<Rightarrow> None | Some cs \<Rightarrow> Some (c # cs)))"

definition spec_field :: "string \<Rightarrow> string \<Rightarrow> spec_state \<Rightarrow> spec_state option" where
  "spec_field key val st =
     (if key = ''ipv4-cidrs'' then map_option (\<lambda>cs. st\<lparr>sp_v4 := sp_v4 st @ cs\<rparr>) (parse_cidrs (split_at CHR '','' val))
      else if key = ''ipv4-mask-size'' then map_option (\<lambda>k. st\<lparr>sp_m4 := k\<rparr>) (ParseUint8 val)
      else if key = ''ipv6-cidrs'' then map_option (\<lambda>cs. st\<lparr>sp_v6 := sp_v6 st @ cs\<rparr>) (parse_cidrs (split_at CHR '','' val))
      else if key = ''ipv6-mask-size'' then map_option (\<lambda>k. st\<lparr>sp_m6 := k\<rparr>) (ParseUint8 val)
      else if key = ''allow-first-ip'' then map_option (\<lambda>b. st\<lparr>sp_first := b\<rparr>) (ParseBool val)
      else if key = ''allow-last-ip'' then map_option (\<lambda>b. st\<lparr>sp_last := b\<rparr>) (ParseBool val)
      else Some st)"

fun spec_fields :: "string list \<Rightarrow> spec_state \<Rightarrow> (spec_error, spec_state) result" where
  "spec_fields [] st = Inr st"
| "spec_fields (f # fs) st =
     (case strings_Cut f CHR '':'' of
        None \<Rightarrow> Inl (NoKeyDelimiter f)
      | Some (key, val) \<Rightarrow>
          (case spec_field key val st of None \<Rightarrow> Inl (InvalidSpecValue key) | Some st' \<Rightarrow> spec_fields fs st'))"

definition family_spec :: "prefix list \<Rightarrow> nat \<Rightarrow> ip_pool_spec option" where
  "family_spec cs k = (if cs = [] then None else Some \<lparr>is_CIDRs = cs, is_MaskSize = k, is_Pool = []\<rparr>)"

definition ParsePoolSpec :: "string \<Rightarrow> (spec_error, parsed_pool_spec) result" where
  "ParsePoolSpec s =
     (case spec_fields (filter (\<lambda>f. f \<noteq> []) (split_at CHR '';'' (filter (\<lambda>c. c \<noteq> CHR '' '') s)))
             \<lparr>sp_v4 = [], sp_m4 = 0, sp_v6 = [], sp_m6 = 0, sp_first = False, sp_last = False\<rparr> of
        Inl e \<Rightarrow> Inl e
      | Inr st \<Rightarrow> Inr \<lparr>pp_IPv4 = family_spec (sp_v4 st) (sp_m4 st), pp_IPv6 = family_spec (sp_v6 st) (sp_m6 st),
                       pp_AllowFirstIP = sp_first st, pp_AllowLastIP = sp_last st\<rparr>)"

section \<open>Into the allocator\<close>

datatype range_config_error =
    InvalidRangeStart string
  | InvalidRangeEnd string
  | InvalidReservedRange addr addr
  | ReservedRangeOutside addr addr

text \<open>\<open>netipx.IPRangeFrom\<close> drops zones; the range is valid when both ends are of one family and in order.\<close>

definition iprange_valid :: "addr \<Rightarrow> addr \<Rightarrow> bool" where
  "iprange_valid a b = (case (a, b) of (V4 x, V4 y) \<Rightarrow> x \<le> y | (V6 x _, V6 y _) \<Rightarrow> x \<le> y | _ \<Rightarrow> False)"

fun parseReservedRanges :: "prefix \<Rightarrow> reserved_range list \<Rightarrow> (range_config_error, (addr \<times> addr) list) result" where
  "parseReservedRanges c [] = Inr []"
| "parseReservedRanges c (r # rs) =
     (case ParseAddr (rr_Start r) of
        None \<Rightarrow> Inl (InvalidRangeStart (rr_Start r))
      | Some a \<Rightarrow>
          (case ParseAddr (rr_End r) of
             None \<Rightarrow> Inl (InvalidRangeEnd (rr_End r))
           | Some b \<Rightarrow>
               if \<not> iprange_valid a b then Inl (InvalidReservedRange a b)
               else if \<not> pfx_contains c a \<or> \<not> pfx_contains c b then Inl (ReservedRangeOutside a b)
               else case parseReservedRanges c rs of Inl e \<Rightarrow> Inl e | Inr rs' \<Rightarrow> Inr ((a, b) # rs')))"

fun build_configs :: "prefix list \<Rightarrow> (prefix \<rightharpoonup> reserved_range list) \<Rightarrow> (range_config_error, pool_cidr_config list) result" where
  "build_configs [] cfg = Inr []"
| "build_configs (c # cs) cfg =
     (case parseReservedRanges (pfx_masked c) (case cfg c of None \<Rightarrow> [] | Some rs \<Rightarrow> rs) of
        Inl e \<Rightarrow> Inl e
      | Inr rs \<Rightarrow> (case build_configs cs cfg of Inl e \<Rightarrow> Inl e | Inr xs \<Rightarrow> Inr ((pfx_masked c, rs) # xs)))"

definition buildPoolCIDRConfigs :: "prefix list \<Rightarrow> (prefix \<times> reserved_range list) list \<Rightarrow>
    (range_config_error, pool_cidr_config list) result" where
  "buildPoolCIDRConfigs cidrs pool = build_configs cidrs (map_of (rev pool))"

definition spec_configs :: "ip_pool_spec option \<Rightarrow> (range_config_error, pool_cidr_config list \<times> int) result" where
  "spec_configs sp =
     (case sp of
        None \<Rightarrow> Inr ([], 0)
      | Some s \<Rightarrow> (case buildPoolCIDRConfigs (is_CIDRs s) (is_Pool s) of Inl e \<Rightarrow> Inl e | Inr xs \<Rightarrow> Inr (xs, int (is_MaskSize s))))"

definition handler_UpsertPool :: "bool \<Rightarrow> string \<Rightarrow> ip_pool_spec option \<Rightarrow> ip_pool_spec option \<Rightarrow> bool \<Rightarrow> bool \<Rightarrow> pool_allocator \<Rightarrow>
    pool_allocator \<times> (range_config_error, mp_error list) result" where
  "handler_UpsertPool room name v4 v6 allowFirst allowLast p =
     (case spec_configs v4 of
        Inl e \<Rightarrow> (p, Inl e)
      | Inr (cfg4, m4) \<Rightarrow>
          (case spec_configs v6 of
             Inl e \<Rightarrow> (p, Inl e)
           | Inr (cfg6, m6) \<Rightarrow>
               (case UpsertPool room name cfg4 m4 cfg6 m6 allowFirst allowLast p of (p', es) \<Rightarrow> (p', Inr es))))"

text \<open>What the handler passes on is a configuration as the allocator needs it.\<close>

lemma reserved_inside:
  "parseReservedRanges c rs = Inr xs \<Longrightarrow> list_all (\<lambda>(a, b). pfx_contains c a \<and> pfx_contains c b) xs"
  by (induction c rs arbitrary: xs rule: parseReservedRanges.induct) (auto split: option.splits if_splits sum.splits)

lemma masked_idem: "pfx_wf c \<Longrightarrow> pfx_masked (pfx_masked c) = pfx_masked c"
  by (cases "pfx_addr c")
    (auto simp: pfx_masked_def pfx_wf_def pfx_valid_def prefix_from_def pfx_bits_def bit_eq_iff bit_simps intro!: bit_word_eqI)

lemma build_configs_planned:
  assumes "build_configs cs cfg = Inr xs" "list_all (\<lambda>c. pfx_masked c \<in> own \<and> good_cidr_config c m) cs"
  shows "config_ok own m xs"
  using assms
proof (induction cs arbitrary: xs)
  case (Cons c cs)
  obtain rs ys where r: "parseReservedRanges (pfx_masked c) (case cfg c of None \<Rightarrow> [] | Some rs \<Rightarrow> rs) = Inr rs"
    "build_configs cs cfg = Inr ys" "xs = (pfx_masked c, rs) # ys"
    using Cons.prems(1) by (auto split: sum.splits)
  have c: "pfx_masked c \<in> own" "pfx_wf c" "pfx_bits c \<le> m" "m - pfx_bits c < 32"
    using Cons.prems(2) by (simp_all add: good_cidr_config_def)
  have "pfx_bits (pfx_masked c) = pfx_bits c"
    using c(2) pfx_bits_nonneg [OF c(2)] by (cases "pfx_addr c"; simp add: pfx_masked_def pfx_wf_def prefix_from_def pfx_bits_def)
  then have "cidr_planned own m (pfx_masked c)"
    using c masked_idem [OF c(2)] pfx_masked_wf [OF c(2)] by (simp add: cidr_planned_def good_cidr_config_def)
  with Cons.IH [OF r(2)] Cons.prems(2) reserved_inside [OF r(1)] r(3) show ?case by (simp add: config_ok_def)
qed (simp add: config_ok_def)

lemma ex_ParsePoolSpec:
  "ParsePoolSpec ''ipv4-cidrs:10.0.0.0/16, 10.1.0.0/16; ipv4-mask-size:24;allow-first-ip:true;'' =
     Inr \<lparr>pp_IPv4 = Some \<lparr>is_CIDRs = [prefix_from (V4 0x0A000000) 16, prefix_from (V4 0x0A010000) 16], is_MaskSize = 24, is_Pool = []\<rparr>,
          pp_IPv6 = None, pp_AllowFirstIP = True, pp_AllowLastIP = False\<rparr> \<and>
   ParsePoolSpec ''ipv4-cidrs:10.0.0.0/016'' = Inl (InvalidSpecValue ''ipv4-cidrs'') \<and>
   ParsePoolSpec ''ipv4-mask-size:256'' = Inl (InvalidSpecValue ''ipv4-mask-size'') \<and>
   ParsePoolSpec ''ipv4-cidrs'' = Inl (NoKeyDelimiter ''ipv4-cidrs'')"
  by code_simp

end
