(* ===== verification/Multi_Pool_Operator.thy ===== *)
theory Multi_Pool_Operator
  imports Multi_Pool_Restore Multi_Pool_Nodes Pool_Handler
begin

text \<open>
  The multi-pool operator as a whole: events of pools and nodes and runs of the nodes' controllers, in any order and
  with any answers of the API server.
\<close>

section \<open>Histories\<close>

datatype 'r operator_op =
    PoolUpserted bool string "ip_pool_spec option" "ip_pool_spec option" bool bool
  | PoolDeleted string
  | NodeUpserted "'r pool_node"
  | NodeDeleted string
  | NodesSynced
  | ControllerRun string

fun operator_step :: "('k, 'r) pool_client \<Rightarrow> (mp_error list \<Rightarrow> string) \<Rightarrow> 'r operator_op \<Rightarrow> 'r node_handler \<times> 'k \<Rightarrow> 'r node_handler \<times> 'k" where
  "operator_step api render (PoolUpserted room name v4 v6 af al) (h, k) =
     (h\<lparr>nh_poolManager := fst (handler_UpsertPool room name v4 v6 af al (nh_poolManager h))\<rparr>, k)"
| "operator_step api render (PoolDeleted name) (h, k) = (h\<lparr>nh_poolManager := fst (DeletePool name (nh_poolManager h))\<rparr>, k)"
| "operator_step api render (NodeUpserted node) (h, k) = (nh_Upsert node h, k)"
| "operator_step api render (NodeDeleted name) (h, k) = (nh_Delete name h, k)"
| "operator_step api render NodesSynced (h, k) = (nh_Resync h, k)"
| "operator_step api render (ControllerRun name) (h, k) = (case DoFunc api render name h k of (h', k', es) \<Rightarrow> (h', k'))"

text \<open>Specifications of pools follow the plan; nodes claim CIDRs no larger than the pool's node CIDRs.\<close>

definition spec_planned :: "prefix set \<Rightarrow> int \<Rightarrow> ip_pool_spec option \<Rightarrow> bool" where
  "spec_planned own m sp =
     (case sp of
        None \<Rightarrow> m = 0
      | Some s \<Rightarrow> int (is_MaskSize s) = m \<and> list_all (\<lambda>c. pfx_masked c \<in> own \<and> good_cidr_config c m) (is_CIDRs s))"

definition node_fits :: "(bool \<Rightarrow> string \<Rightarrow> int) \<Rightarrow> 'r pool_node \<Rightarrow> bool" where
  "node_fits msk node \<longleftrightarrow> list_all (allocation_fits msk) (mn_allocated node)"

fun operator_op_ok :: "(string \<Rightarrow> prefix set) \<Rightarrow> (bool \<Rightarrow> string \<Rightarrow> int) \<Rightarrow> 'r operator_op \<Rightarrow> bool" where
  "operator_op_ok own msk (PoolUpserted room name v4 v6 af al) \<longleftrightarrow>
     spec_planned (own name) (msk False name) v4 \<and> spec_planned (own name) (msk True name) v6"
| "operator_op_ok own msk (NodeUpserted node) = node_fits msk node"
| "operator_op_ok own msk _ = True"

definition answers_fit :: "(bool \<Rightarrow> string \<Rightarrow> int) \<Rightarrow> ('k, 'r) pool_client \<Rightarrow> 'k \<Rightarrow> bool" where
  "answers_fit msk api k \<longleftrightarrow> (\<forall>name k' node. pc_Get api name k = (k', Inr node) \<longrightarrow> node_fits msk node)"

text \<open>
  The states the operator reaches without a panic. The API server may be in any state at each step, others write to
  it as well.
\<close>

inductive operator_reachable :: "(string \<Rightarrow> prefix set) \<Rightarrow> (bool \<Rightarrow> string \<Rightarrow> int) \<Rightarrow> ('k, 'r) pool_client \<Rightarrow> (mp_error list \<Rightarrow> string) \<Rightarrow>
    'r node_handler \<Rightarrow> bool" for own msk api render where
  operator_started: "plan_ok own \<Longrightarrow> operator_reachable own msk api render (NewNodeHandler (NewPoolAllocator e4 e6))"
| operator_stepped: "operator_reachable own msk api render h \<Longrightarrow> operator_op_ok own msk q \<Longrightarrow> answers_fit msk api k \<Longrightarrow>
     operator_step api render q (h, k) = (h', k') \<Longrightarrow> \<not> pa_panicked (nh_poolManager h') \<Longrightarrow> operator_reachable own msk api render h'"

text \<open>The resources in the hands of the handler fit as well.\<close>

definition handler_fits :: "(bool \<Rightarrow> string \<Rightarrow> int) \<Rightarrow> 'r node_handler \<Rightarrow> bool" where
  "handler_fits msk h \<longleftrightarrow> (\<forall>x \<in> set (nh_pending h). node_fits msk (snd x)) \<and>
     (\<forall>name node b. nh_controllers h name = Some (node, b) \<longrightarrow> node_fits msk node)"

definition operator_inv :: "(string \<Rightarrow> prefix set) \<Rightarrow> (bool \<Rightarrow> string \<Rightarrow> int) \<Rightarrow> 'r node_handler \<Rightarrow> bool" where
  "operator_inv own msk h \<longleftrightarrow> handler_fits msk h \<and> (pa_panicked (nh_poolManager h) \<or> mp_reachable own msk (nh_poolManager h))"

section \<open>The invariant\<close>

lemma mp_reachable_step:
  assumes "mp_reachable own msk p" "mp_op_ok own msk q"
  shows "pa_panicked (mp_call p q) \<or> mp_reachable own msk (mp_call p q)"
proof -
  obtain e4 e6 ops where o: "plan_ok own" "\<not> pa_panicked p" "list_all (mp_op_ok own msk) ops" "p = foldl mp_exec (NewPoolAllocator e4 e6) ops"
    using assms(1) by (auto simp: mp_reachable_def)
  then have "mp_call p q = foldl mp_exec (NewPoolAllocator e4 e6) (ops @ [q])" by (simp add: mp_exec_def)
  moreover have "list_all (mp_op_ok own msk) (ops @ [q])" using o(3) assms(2) by simp
  ultimately show ?thesis using o(1) unfolding mp_reachable_def by blast
qed

lemma spec_configs_planned:
  assumes "spec_planned own m sp" "spec_configs sp = Inr (cfg, m')"
  shows "m' = m \<and> config_ok own m cfg"
proof (cases sp)
  case None
  with assms show ?thesis by (simp add: spec_planned_def spec_configs_def config_ok_def)
next
  case (Some s)
  then obtain xs where "buildPoolCIDRConfigs (is_CIDRs s) (is_Pool s) = Inr xs" "cfg = xs" "m' = int (is_MaskSize s)"
    using assms(2) by (auto simp: spec_configs_def split: sum.splits)
  then show ?thesis using build_configs_planned [of "is_CIDRs s" _ xs own m] assms(1) Some
    by (simp add: spec_planned_def buildPoolCIDRConfigs_def)
qed

lemma handler_UpsertPool_reachable:
  fixes room af al :: bool
  assumes "mp_reachable own msk p" "spec_planned (own name) (msk False name) v4" "spec_planned (own name) (msk True name) v6"
  defines "p' \<equiv> fst (handler_UpsertPool room name v4 v6 af al p)"
  shows "pa_panicked p' \<or> mp_reachable own msk p'"
proof (cases "spec_configs v4")
  case (Inr x)
  obtain cfg4 m4 where x: "x = (cfg4, m4)" by (cases x)
  show ?thesis
  proof (cases "spec_configs v6")
    case (Inr y)
    obtain cfg6 m6 where y: "y = (cfg6, m6)" by (cases y)
    have "mp_op_ok own msk (MpUpsertPool room name cfg4 m4 cfg6 m6 af al)"
      using spec_configs_planned [OF assms(2)] spec_configs_planned [OF assms(3)] \<open>spec_configs v4 = Inr x\<close> Inr x y
      by (simp add: upsert_ok_def)
    from mp_reachable_step [OF assms(1) this] show ?thesis
      using \<open>spec_configs v4 = Inr x\<close> Inr x y by (simp add: p'_def handler_UpsertPool_def case_prod_beta)
  qed (use assms(1) Inr x in \<open>simp add: p'_def handler_UpsertPool_def\<close>)
qed (use assms(1) in \<open>simp add: p'_def handler_UpsertPool_def\<close>)

lemma create_controllers:
  "nh_poolManager (fold (\<lambda>x. createUpsertController (snd x)) xs h) = nh_poolManager h"
  "nh_pending (fold (\<lambda>x. createUpsertController (snd x)) xs h) = nh_pending h"
  by (induction xs arbitrary: h) (simp_all add: createUpsertController_def)

lemma create_controllers_fit:
  assumes "handler_fits msk h" "\<And>x. x \<in> set xs \<Longrightarrow> node_fits msk (snd x)"
  shows "handler_fits msk (fold (\<lambda>x. createUpsertController (snd x)) xs h)"
  using assms
proof (induction xs arbitrary: h)
  case (Cons x xs)
  have "handler_fits msk (createUpsertController (snd x) h)"
    using Cons.prems by (auto simp: handler_fits_def createUpsertController_def split: if_splits)
  with Cons show ?case by simp
qed simp

lemma update_pending: "x \<in> set (AList.update k v xs) \<Longrightarrow> x = (k, v) \<or> x \<in> set xs"
  using set_update_subset by fastforce

lemma DoFunc_cases:
  assumes "DoFunc api render name h k = (h', k', es)" "nh_controllers h name = Some (node, refetch)"
  obtains (get_failed) e where "refetch" "pc_Get api (mn_name node) k = (k', Inl e)" "h' = h" "es = [GetFailed e]"
  | (ran) k1 node1 refetch' where "(if refetch then pc_Get api (mn_name node) k else (k, Inr node)) = (k1, Inr node1)"
      "controller_allocate api render node1 (nh_poolManager h) k1 = (nh_poolManager h', k', es, refetch')"
      "h' = h\<lparr>nh_poolManager := nh_poolManager h', nh_controllers := (nh_controllers h)(name \<mapsto> (node1, refetch'))\<rparr>"
proof -
  obtain k1 r where g: "(if refetch then pc_Get api (mn_name node) k else (k, Inr node)) = (k1, r)" by (metis prod.exhaust)
  show ?thesis
  proof (cases r)
    case (Inl e)
    with assms g get_failed show ?thesis by (auto simp: DoFunc_def split: if_splits)
  next
    case (Inr node1)
    obtain p' k2 es' rf where a: "controller_allocate api render node1 (nh_poolManager h) k1 = (p', k2, es', rf)" by (metis prod_cases4)
    with assms g Inr have "h' = h\<lparr>nh_poolManager := p', nh_controllers := (nh_controllers h)(name \<mapsto> (node1, rf))\<rparr>" "k' = k2" "es = es'"
      by (simp_all add: DoFunc_def)
    with ran [of k1 node1 rf] g Inr a show ?thesis by simp
  qed
qed

lemma controller_allocate_manager:
  "fst (controller_allocate api render node p k) = fst (AllocateToNode (mn_name node) (mn_allocated node) (mn_requested node) p)"
  by (simp add: controller_allocate_def case_prod_beta)

lemma DoFunc_inv:
  assumes "operator_inv own msk h" "\<not> pa_panicked (nh_poolManager h)" "answers_fit msk api k" "DoFunc api render name h k = (h', k', es)"
  shows "operator_inv own msk h'"
proof (cases "nh_controllers h name")
  case None
  with assms(1,4) show ?thesis by (simp add: DoFunc_def)
next
  case (Some c)
  obtain node rf where c: "c = (node, rf)" by (cases c)
  have f: "handler_fits msk h" and r: "mp_reachable own msk (nh_poolManager h)" using assms(1,2) by (simp_all add: operator_inv_def)
  from assms(4) Some [unfolded c] show ?thesis
  proof (cases rule: DoFunc_cases)
    case (get_failed e)
    with assms(1) show ?thesis by simp
  next
    case (ran k1 node1 rf')
    have n: "node_fits msk node1"
    proof (cases rf)
      case True
      with ran(1) assms(3) show ?thesis unfolding answers_fit_def by simp
    next
      case False
      with ran(1) Some c f show ?thesis unfolding handler_fits_def by auto
    qed
    have "mp_op_ok own msk (MpAllocateToNode (mn_name node1) (mn_allocated node1) (mn_requested node1))" using n by (simp add: node_fits_def)
    from mp_reachable_step [OF r this] have "pa_panicked (nh_poolManager h') \<or> mp_reachable own msk (nh_poolManager h')"
      using controller_allocate_manager [of api render node1 "nh_poolManager h" k1] ran(2) by simp
    moreover have "handler_fits msk h'" by (subst ran(3)) (use f n in \<open>auto simp: handler_fits_def\<close>)
    ultimately show ?thesis by (simp add: operator_inv_def)
  qed
qed

lemma operator_step_inv:
  assumes "operator_inv own msk h" "\<not> pa_panicked (nh_poolManager h)" "answers_fit msk api k" "operator_op_ok own msk q"
  shows "operator_inv own msk (fst (operator_step api render q (h, k)))"
proof -
  have f: "handler_fits msk h" and r: "mp_reachable own msk (nh_poolManager h)" using assms(1,2) by (simp_all add: operator_inv_def)
  note step = mp_reachable_step [OF r]
  show ?thesis
  proof (cases q)
    case (PoolUpserted room name v4 v6 af al)
    with handler_UpsertPool_reachable [OF r, of name v4 v6 room af al] f assms(4) show ?thesis by (simp add: operator_inv_def handler_fits_def)
  next
    case (PoolDeleted name)
    with step [of "MpDeletePool name"] f show ?thesis by (simp add: operator_inv_def handler_fits_def)
  next
    case (NodeUpserted node)
    then have n: "node_fits msk node" using assms(4) by simp
    have "node_fits msk (snd x)" if "x \<in> set (AList.update (mn_name node) node (nh_pending h))" for x
      using update_pending [OF that] f n by (auto simp: handler_fits_def)
    then have "handler_fits msk (nh_Upsert node h)"
      using f n by (auto simp: nh_Upsert_def createUpsertController_def handler_fits_def split: if_splits)
    moreover have "pa_panicked (nh_poolManager (nh_Upsert node h)) \<or> mp_reachable own msk (nh_poolManager (nh_Upsert node h))"
      using step [of "MpAllocateToNode (mn_name node) (mn_allocated node) (mn_requested node)"] n r
      by (simp add: nh_Upsert_def createUpsertController_def node_fits_def)
    ultimately show ?thesis using NodeUpserted by (simp add: operator_inv_def)
  next
    case (NodeDeleted name)
    have "handler_fits msk (nh_Delete name h)"
      using f set_delete_subset [of name "nh_pending h"] by (auto simp: handler_fits_def nh_Delete_def split: if_splits)
    with NodeDeleted step [of "MpReleaseNode name"] show ?thesis by (simp add: operator_inv_def nh_Delete_def)
  next
    case NodesSynced
    let ?h = "fold (\<lambda>x. createUpsertController (snd x)) (nh_pending h) (h\<lparr>nh_poolManager := RestoreFinished (nh_poolManager h)\<rparr>)"
    have "handler_fits msk ?h" by (rule create_controllers_fit) (use f in \<open>auto simp: handler_fits_def\<close>)
    then have "handler_fits msk (nh_Resync h)" by (simp add: nh_Resync_def Let_def handler_fits_def)
    moreover have "nh_poolManager (nh_Resync h) = RestoreFinished (nh_poolManager h)" by (simp add: nh_Resync_def Let_def create_controllers)
    ultimately show ?thesis using NodesSynced step [of MpRestoreFinished] by (simp add: operator_inv_def)
  next
    case (ControllerRun name)
    obtain h' k' es where d: "DoFunc api render name h k = (h', k', es)" by (metis prod_cases3)
    with DoFunc_inv [OF assms(1-3) d] ControllerRun show ?thesis by simp
  qed
qed

lemma operator_start: "plan_ok own \<Longrightarrow> operator_inv own msk (NewNodeHandler (NewPoolAllocator e4 e6))"
proof -
  assume "plan_ok own"
  moreover have "NewPoolAllocator e4 e6 = foldl mp_exec (NewPoolAllocator e4 e6) []" by simp
  moreover have "\<not> pa_panicked (NewPoolAllocator e4 e6)" by (simp add: NewPoolAllocator_def)
  ultimately have "mp_reachable own msk (NewPoolAllocator e4 e6)" unfolding mp_reachable_def by (metis list.pred_inject(1))
  then show ?thesis by (simp add: operator_inv_def handler_fits_def NewNodeHandler_def)
qed

lemma operator_reachable_inv:
  assumes "operator_reachable own msk api render h" shows "mp_reachable own msk (nh_poolManager h)" "handler_fits msk h"
proof -
  have "\<not> pa_panicked (nh_poolManager h) \<and> operator_inv own msk h"
    using assms
  proof induction
    case (operator_started e4 e6)
    with operator_start show ?case by (simp add: NewNodeHandler_def NewPoolAllocator_def)
  next
    case (operator_stepped h q k h' k')
    with operator_step_inv [of own msk h api k q render] show ?case by simp
  qed
  then show "mp_reachable own msk (nh_poolManager h)" "handler_fits msk h" by (auto simp: operator_inv_def)
qed

section \<open>A run of a controller\<close>

text \<open>
  What the API server does with the calls, as far as it matters: an update that succeeds stores what it was given, the
  status is stored apart. \<open>view\<close> reads the allocations of a node from the state of the server.
\<close>

definition stores_nodes :: "('k, 'r) pool_client \<Rightarrow> ('k \<Rightarrow> string \<Rightarrow> pool_allocation list) \<Rightarrow> bool" where
  "stores_nodes api view \<longleftrightarrow>
     (\<forall>node k k'. pc_Update api node k = (k', None) \<longrightarrow> view k' (mn_name node) = mn_allocated node) \<and>
     (\<forall>node k. view (fst (pc_UpdateStatus api node k)) = view k)"

lemma publish_no_error:
  assumes "controller_publish api node new k = (k', [], refetch)" "stores_nodes api view" "mn_name new = mn_name node"
    "view k (mn_name node) = mn_allocated node"
  shows "view k' (mn_name node) = mn_allocated new"
proof -
  obtain k1 e1 where 1: "controller_write (mn_allocated new \<noteq> mn_allocated node) (pc_Update api) new k = (k1, e1)" by (metis prod.exhaust)
  obtain k2 e2 where 2: "controller_write (mn_error new \<noteq> mn_error node \<and> e1 \<noteq> Some Conflict) (pc_UpdateStatus api) new k1 = (k2, e2)"
    by (metis prod.exhaust)
  have e: "e1 = None" "k' = k2" using assms(1) 1 2 by (auto simp: controller_publish_def split: option.splits)
  have "view k1 (mn_name node) = mn_allocated new"
  proof (cases "mn_allocated new = mn_allocated node")
    case True
    with 1 assms(4) show ?thesis by (simp add: controller_write_def)
  next
    case False
    then have "pc_Update api new k = (k1, None)" using 1 e(1) by (simp add: controller_write_def)
    then show ?thesis using assms(2,3) unfolding stores_nodes_def by metis
  qed
  moreover have "view k2 = view k1"
    using 2 assms(2) unfolding stores_nodes_def controller_write_def by (metis fst_conv)
  ultimately show ?thesis using e(2) by simp
qed

lemma controller_allocate_no_error:
  assumes "controller_allocate api render node p k = (p', k', [], refetch)" "\<not> pa_panicked p'"
  shows "AllocateToNode (mn_name node) (mn_allocated node) (mn_requested node) p = (p', [])"
    "controller_publish api node (new_resource render node p' []) k = (k', [], refetch)"
proof -
  obtain p1 es where 1: "AllocateToNode (mn_name node) (mn_allocated node) (mn_requested node) p = (p1, es)" by (metis prod.exhaust)
  obtain k1 ws rf where 2: "controller_publish api node (new_resource render node p1 es) k = (k1, ws, rf)" by (metis prod_cases3)
  have "p1 = p' \<and> k1 = k' \<and> es = [] \<and> ws = [] \<and> rf = refetch"
    using assms 1 2 by (cases "pa_panicked p1"; cases "es = []") (simp_all add: controller_allocate_def)
  with 1 2 show "AllocateToNode (mn_name node) (mn_allocated node) (mn_requested node) p = (p', [])"
    "controller_publish api node (new_resource render node p' []) k = (k', [], refetch)" by simp_all
qed

text \<open>
  (C5) In every state that the operator reaches, whatever events came in whatever order and whatever the API server
  answered, a run of a node's controller that works on the current resource and returns no error leaves the node with all
  the addresses it asked for, and the API server with exactly the CIDRs that the operator's books have for
  the node; none of those the node holds has an address in common with what another node holds.
\<close>

theorem controller_run_complete:
  assumes "operator_reachable own msk api render h" "stores_nodes api view" "nh_controllers h name = Some (node, False)"
    "view k (mn_name node) = mn_allocated node" "DoFunc api render name h k = (h', k', [])" "\<not> pa_panicked (nh_poolManager h')"
  defines "p \<equiv> nh_poolManager h'" and "n \<equiv> mn_name node"
  shows "(\<forall>r \<in> set (mn_requested node). demand_met n p r) \<and>
    (\<forall>q c. (\<exists>a \<in> set (view k' n). al_Pool a = q \<and> c \<in> set (al_CIDRs a)) \<longleftrightarrow> isAllocated p n q c \<or> isOrphan p n q c) \<and>
    (\<forall>q c n' q' c'. n' \<noteq> n \<and> isAllocated p n q c \<and> isAllocated p n' q' c' \<longrightarrow> pfx_disjoint c c')"
proof -
  note i = operator_reachable_inv [OF assms(1)]
  have fits: "list_all (allocation_fits msk) (mn_allocated node)" using i(2) assms(3) unfolding handler_fits_def node_fits_def by blast
  obtain rf where a: "controller_allocate api render node (nh_poolManager h) k = (p, k', [], rf)"
    using assms(5,3) by (cases rule: DoFunc_cases) (auto simp: p_def)
  note e = controller_allocate_no_error [OF a assms(6) [folded p_def]]
  have r: "mp_reachable own msk p"
    using mp_reachable_step [OF i(1), of "MpAllocateToNode n (mn_allocated node) (mn_requested node)"] fits e(1) assms(6)
    by (simp add: n_def p_def)
  then have c: "plan_ok own" "mp_core own msk p" using mp_reachable_core by blast+
  have "\<forall>r \<in> set (mn_requested node). demand_met n p r"
    using AllocateToNode_demand(2) [OF _ _ fits e(1)] mp_reachable_core [OF i(1)] unfolding n_def by blast
  moreover have "view k' n = AllocatedPools p n"
    using publish_no_error [OF e(2) assms(2) _ assms(4)] by (simp add: n_def new_resource_def)
  ultimately show ?thesis using published_held [OF c(2)] allocated_disjoint [OF c] by auto
qed

section \<open>Examples\<close>

text \<open>
  An API server with optimistic concurrency: an update of another version than the stored one is a conflict. The
  answers to some updates get lost on the way, which the client sees as an error.
\<close>

record ex_server =
  sv_nodes :: "(string \<times> nat pool_node) list"
  sv_lost :: "bool list"

definition ex_update :: "(nat pool_node \<Rightarrow> nat pool_node \<Rightarrow> nat pool_node) \<Rightarrow> nat pool_node \<Rightarrow> ex_server \<Rightarrow> ex_server \<times> k8s_error option" where
  "ex_update f node k =
     (case map_of (sv_nodes k) (mn_name node) of
        None \<Rightarrow> (k, Some NotFound)
      | Some x \<Rightarrow>
          if mn_version x \<noteq> mn_version node then (k, Some Conflict)
          else (k\<lparr>sv_nodes := AList.update (mn_name node) ((f x node)\<lparr>mn_version := Suc (mn_version x)\<rparr>) (sv_nodes k), sv_lost := tl (sv_lost k)\<rparr>,
                if sv_lost k \<noteq> [] \<and> hd (sv_lost k) then Some OtherError else None))"

definition ex_client :: "(ex_server, nat) pool_client" where
  "ex_client = \<lparr>pc_Get = \<lambda>name k. (k, case map_of (sv_nodes k) name of None \<Rightarrow> Inl NotFound | Some x \<Rightarrow> Inr x),
     pc_Update = ex_update (\<lambda>x node. node\<lparr>mn_error := mn_error x\<rparr>),
     pc_UpdateStatus = ex_update (\<lambda>x node. x\<lparr>mn_error := mn_error node\<rparr>)\<rparr>"

definition ex_allocations :: "ex_server \<Rightarrow> string \<Rightarrow> pool_allocation list" where
  "ex_allocations k n = (case map_of (sv_nodes k) n of None \<Rightarrow> [] | Some x \<Rightarrow> mn_allocated x)"

definition ex_pool_node :: "string \<Rightarrow> nat pool_node" where
  "ex_pool_node n = \<lparr>mn_name = n, mn_version = 1, mn_podCIDRs = [], mn_requested = [ex_request ''a'' 50], mn_allocated = [], mn_error = []\<rparr>"

definition ex_spec :: "prefix list \<Rightarrow> ip_pool_spec option" where
  "ex_spec cs = Some \<lparr>is_CIDRs = cs, is_MaskSize = 26, is_Pool = []\<rparr>"

definition ex_operator :: "nat operator_op list \<Rightarrow> bool list \<Rightarrow> nat node_handler \<times> ex_server" where
  "ex_operator ops lost = foldl (\<lambda>x q. operator_step ex_client (\<lambda>es. ''failed'') q x) (NewNodeHandler (NewPoolAllocator True False),
     \<lparr>sv_nodes = [(''n1'', ex_pool_node ''n1''), (''n2'', ex_pool_node ''n2'')], sv_lost = lost\<rparr>) ops"

definition ex_start :: "int \<Rightarrow> nat operator_op list" where
  "ex_start b = [PoolUpserted False ''a'' (ex_spec [ex_cidr 0x0A000000 b]) None False False,
     NodeUpserted (ex_pool_node ''n1''), NodeUpserted (ex_pool_node ''n2''), NodesSynced]"

definition ex_mask :: "bool \<Rightarrow> string \<Rightarrow> int" where
  "ex_mask v6 q = (if v6 then 0 else 26)"

definition ex_handler :: "nat \<Rightarrow> nat node_handler" where
  "ex_handler i = fst (ex_operator (take i (ex_start 24)) [])"

definition ex_state :: ex_server where
  "ex_state = \<lparr>sv_nodes = [(''n1'', ex_pool_node ''n1''), (''n2'', ex_pool_node ''n2'')], sv_lost = []\<rparr>"

lemma ex_events:
  "list_all (operator_op_ok ex_own ex_mask) (ex_start 24) \<and>
   list_all (\<lambda>i. \<not> pa_panicked (nh_poolManager (ex_handler i))) [1, 2, 3, 4] \<and>
   list_all (\<lambda>i. snd (ex_operator (take i (ex_start 24)) []) = ex_state) [0, 1, 2, 3]"
  by code_simp

lemma ex_answers_fit: "answers_fit ex_mask ex_client ex_state"
  by (auto simp: answers_fit_def ex_client_def ex_state_def ex_pool_node_def node_fits_def split: if_splits option.splits)

lemma ex_handler_reachable: "operator_reachable ex_own ex_mask ex_client (\<lambda>es. ''failed'') (ex_handler 4)"
proof -
  let ?R = "operator_reachable ex_own ex_mask ex_client (\<lambda>es. ''failed'')"
  have nxt: "?R (ex_handler (Suc i))" if "?R (ex_handler i)" "i < 4" for i
  proof (rule operator_stepped [OF that(1), of "ex_start 24 ! i" ex_state _ "snd (ex_operator (take (Suc i) (ex_start 24)) [])"])
    have i: "i < length (ex_start 24)" "i \<in> set [0, 1, 2, 3 :: nat]" "Suc i \<in> set [1, 2, 3, 4 :: nat]" using that(2) by (auto simp: ex_start_def)
    show "operator_op_ok ex_own ex_mask (ex_start 24 ! i)" using ex_events i(1) by (auto simp: list_all_length)
    show "\<not> pa_panicked (nh_poolManager (ex_handler (Suc i)))" using ex_events i(3) unfolding list_all_iff by blast
    have "snd (ex_operator (take i (ex_start 24)) []) = ex_state" using ex_events i(2) unfolding list_all_iff by blast
    then have "ex_operator (take i (ex_start 24)) [] = (ex_handler i, ex_state)" by (simp add: ex_handler_def prod_eq_iff)
    then show "operator_step ex_client (\<lambda>es. ''failed'') (ex_start 24 ! i) (ex_handler i, ex_state) =
        (ex_handler (Suc i), snd (ex_operator (take (Suc i) (ex_start 24)) []))"
      using i(1) by (simp add: ex_handler_def ex_operator_def take_Suc_conv_app_nth)
  qed (rule ex_answers_fit)
  have "?R (ex_handler 0)" using operator_started [OF ex_plan] by (simp add: ex_handler_def ex_operator_def)
  from nxt [OF nxt [OF nxt [OF nxt [OF this]]]] show ?thesis by (simp add: numeral_eq_Suc)
qed

lemma ex_stores: "stores_nodes ex_client ex_allocations"
  by (auto simp: stores_nodes_def ex_client_def ex_update_def ex_allocations_def update_conv' fun_eq_iff split: option.splits if_splits)

definition ex_done :: "nat node_handler \<times> ex_server \<times> controller_error list" where
  "ex_done = DoFunc ex_client (\<lambda>es. ''failed'') ''n1'' (ex_handler 4) ex_state"

lemma ex_done_facts:
  "nh_controllers (ex_handler 4) ''n1'' = Some (ex_pool_node ''n1'', False) \<and> snd (snd ex_done) = [] \<and>
   \<not> pa_panicked (nh_poolManager (fst ex_done))"
  by code_simp

theorem controller_run_complete_witness:
  "demand_met ''n1'' (nh_poolManager (fst ex_done)) (ex_request ''a'' 50) \<and>
   ((\<exists>a \<in> set (ex_allocations (fst (snd ex_done)) ''n1''). al_Pool a = ''a'' \<and> ex_cidr 0x0A000000 26 \<in> set (al_CIDRs a)) \<longleftrightarrow>
     isAllocated (nh_poolManager (fst ex_done)) ''n1'' ''a'' (ex_cidr 0x0A000000 26) \<or>
     isOrphan (nh_poolManager (fst ex_done)) ''n1'' ''a'' (ex_cidr 0x0A000000 26))"
proof -
  have d: "DoFunc ex_client (\<lambda>es. ''failed'') ''n1'' (ex_handler 4) ex_state = (fst ex_done, fst (snd ex_done), [])"
    using ex_done_facts by (simp add: ex_done_def prod_eq_iff)
  have v: "ex_allocations ex_state (mn_name (ex_pool_node ''n1'')) = mn_allocated (ex_pool_node ''n1'')"
    by (simp add: ex_allocations_def ex_state_def ex_pool_node_def)
  have n: "mn_name (ex_pool_node ''n1'') = ''n1''" "mn_requested (ex_pool_node ''n1'') = [ex_request ''a'' 50]"
    by (simp_all add: ex_pool_node_def)
  from controller_run_complete [OF ex_handler_reachable ex_stores conjunct1 [OF ex_done_facts] v d] ex_done_facts
  show ?thesis unfolding n by simp
qed

text \<open>
  The answer to the update of the first node gets lost. The controller tries again with the resource it had, in which the
  node has no CIDRs: those it was given are released, and given to the second node before the conflict is noticed and the resource
  is read again. The API server then has the same CIDR for both nodes.
\<close>

lemma lost_answer_publishes_twice:
  "(\<lambda>x. list_ex (\<lambda>a. ex_cidr 0x0A000000 26 \<in> set (al_CIDRs a)) (ex_allocations (snd x) ''n1'') \<and>
        list_ex (\<lambda>a. ex_cidr 0x0A000000 26 \<in> set (al_CIDRs a)) (ex_allocations (snd x) ''n2''))
   (ex_operator (ex_start 25 @ [ControllerRun ''n1'', ControllerRun ''n1'', ControllerRun ''n2'']) [True])"
  by code_simp

end
