(* ===== verification/Multi_Pool_Migration.thy ===== *)
theory Multi_Pool_Migration
  imports Multi_Pool_Operator Pod_CIDR_Properties
begin

text \<open>
  The migration from cluster-pool to multi-pool: what a run of it says about a node, and that the pod CIDRs of the nodes
  are claims that a new multi-pool operator can satisfy.
\<close>

section \<open>One node\<close>

lemma retry_outcome:
  assumes "\<And>nd k k' d c e. f nd k = (k', d, c, e) \<Longrightarrow> (d \<longleftrightarrow> e = None)"
    and "retry_update n i read cancelled f node conflict err k = (k', None)" "0 < n \<or> err \<noteq> None" "conflict \<longrightarrow> err \<noteq> None"
    and "\<forall>j \<in> {i ..< i + n}. \<not> cancelled j \<and> (\<exists>x. read j = Inr x)"
  shows "\<exists>j \<in> {i ..< i + n}. read j = Inr None \<or> (\<exists>nd k1 c. read j = Inr (Some nd) \<and> f nd k1 = (k', True, c, None))"
  using assms(2-5)
proof (induction n arbitrary: i node conflict err k)
  case (Suc n)
  have later: "\<exists>j \<in> {i ..< i + Suc n}. P j" if "\<exists>j \<in> {Suc i ..< Suc i + n}. P j" for P using that by auto
  have c: "\<not> cancelled i" and rest: "\<forall>j \<in> {Suc i ..< Suc i + n}. \<not> cancelled j \<and> (\<exists>x. read j = Inr x)" using Suc.prems(4) by auto
  have "i \<in> {i ..< i + Suc n}" by simp
  then obtain x where x: "read i = Inr x" using Suc.prems(4) by blast
  show ?case
  proof (cases x)
    case None
    with x show ?thesis by force
  next
    case (Some nd)
    show ?thesis
    proof (cases "conflict \<and> (case node of None \<Rightarrow> False | Some x \<Rightarrow> mn_version x = mn_version nd)")
      case True
      then have "retry_update n (Suc i) read cancelled f node conflict err k = (k', None)" using Suc.prems(1) c x Some by simp
      from Suc.IH [OF this _ Suc.prems(3) rest] True Suc.prems(3) show ?thesis by (intro later) blast
    next
      case False
      obtain k1 d cf e where f: "f nd k = (k1, d, cf, e)" by (metis prod_cases4)
      show ?thesis
      proof (cases d)
        case True
        then have "k' = k1" "e = None" using Suc.prems(1) c x Some False f by simp_all
        with True f x Some show ?thesis by force
      next
        case d: False
        then have "retry_update n (Suc i) read cancelled f (Some nd) cf e k1 = (k', None)" using Suc.prems(1) c x Some False f by simp
        moreover have "e \<noteq> None" using assms(1) [OF f] d by simp
        ultimately show ?thesis using Suc.IH [OF _ _ _ rest] by (intro later) blast
      qed
    qed
  qed
qed simp

lemma update_answer_done: "update_answer e = (d, c, x) \<Longrightarrow> d \<longleftrightarrow> x = None"
  by (auto simp: update_answer_def split: option.splits k8s_error.splits)

lemma migrate_update_done: "migrate_update api pool nd k = (k', d, c, e) \<Longrightarrow> d \<longleftrightarrow> e = None"
  by (auto simp: migrate_update_def split: if_splits prod.splits dest: update_answer_done)

text \<open>
  (C20) When the migration of a node returns without error, and neither the context has ended nor the store has
  failed, then at one of its ten attempts the node was gone, or it had no pod CIDRs to move, or the last call
  of the API server was an update, which moves all its pod CIDRs to the pool, and it succeeded or found the node gone.
\<close>

theorem migration_outcome:
  assumes "migrateNode read cancelled api pool k = (k', None)" "\<forall>i < 10. \<not> cancelled i \<and> (\<exists>x. read i = Inr x)"
  shows "\<exists>i < 10. read i = Inr None \<or> (\<exists>node. read i = Inr (Some node) \<and>
    (mn_podCIDRs node = [] \<or> (\<exists>k1 e. pc_Update api (migrated pool node) k1 = (k', e) \<and> (e = None \<or> e = Some NotFound))))"
proof -
  have "\<exists>j \<in> {0 ..< 0 + 10}. read j = Inr None \<or> (\<exists>nd k1 c. read j = Inr (Some nd) \<and> migrate_update api pool nd k1 = (k', True, c, None))"
    by (rule retry_outcome [OF migrate_update_done]) (use assms in \<open>auto simp: migrateNode_def updateNodeWithRetries_def\<close>)
  then obtain j where "j \<in> {0 ..< 0 + 10}" and
    j: "read j = Inr None \<or> (\<exists>nd k1 c. read j = Inr (Some nd) \<and> migrate_update api pool nd k1 = (k', True, c, None))" by blast
  then have "j < 10" by simp
  have m: "mn_podCIDRs nd = [] \<or> (\<exists>k1 e. pc_Update api (migrated pool nd) k1 = (k', e) \<and> (e = None \<or> e = Some NotFound))"
    if u: "migrate_update api pool nd k1 = (k', True, c, None)" for nd k1 c
  proof (cases "mn_podCIDRs nd = []")
    case False
    obtain k2 e where e: "pc_Update api (migrated pool nd) k1 = (k2, e)" by (metis prod.exhaust)
    with False u have "k2 = k'" "update_answer e = (True, c, None)" by (simp_all add: migrate_update_def)
    moreover from this have "e = None \<or> e = Some NotFound" by (auto simp: update_answer_def split: option.splits k8s_error.splits)
    ultimately show ?thesis using e by blast
  qed simp
  with j \<open>j < 10\<close> show ?thesis by blast
qed

text \<open>A store that fails at the first attempt is reported as success, and nothing was written.\<close>

lemma store_error_swallowed:
  assumes "\<not> cancelled 0" "read 0 = Inl e" shows "migrateNode read cancelled api pool k = (k, None)"
  using assms by (simp add: migrateNode_def updateNodeWithRetries_def numeral_eq_Suc)

section \<open>All nodes\<close>

text \<open>The pool has the CIDRs and the node masks of the cluster-pool configuration.\<close>

definition migration_pool :: "(bool \<Rightarrow> string \<Rightarrow> int) \<Rightarrow> string \<Rightarrow> int \<Rightarrow> int \<Rightarrow> cidr_set list \<Rightarrow> cidr_set list \<Rightarrow> pool_allocator \<Rightarrow> bool" where
  "migration_pool msk d m4 m6 v4s v6s p0 \<longleftrightarrow> msk False d = m4 \<and> msk True d = m6 \<and>
     (\<exists>po. pa_pools p0 d = Some po \<and> list_all2 same_range v4s (somes (pool_slice False po)) \<and> list_all2 same_range v6s (somes (pool_slice True po)))"

definition after_migration :: "string \<Rightarrow> 'r pool_node \<Rightarrow> 'r pool_node" where
  "after_migration d node = (if mn_podCIDRs node = [] then node else migrated d node)"

lemma family_claim:
  assumes "family_ok v msk g ss B" "list_all2 same_range g ts" "c \<in> set (B n)"
  shows "fit_fam v msk c" "\<exists>s \<in> set ts. cs_InRange s c"
proof -
  note d = family_okD [OF assms(1)]
  show "fit_fam v msk c" using books_family [OF assms(1,3)] by (simp add: fit_fam_def)
  obtain k i where s: "slot_from 0 g c = Some (k, i)" using ledgerD(1) [OF d(2) assms(3)] by auto
  have "cs_InRange (g ! k) c" "k < length g" using slot_0D [OF s] by simp_all
  then show "\<exists>s \<in> set ts. cs_InRange s c"
    using list_all2_nthD [OF assms(2)] same_rangeD(2) [of "g ! k" "ts ! k"] list_all2_lengthD [OF assms(2)] nth_mem [of k ts] by metis
qed

lemma family_claims_apart:
  assumes "family_ok v msk g ss B" "list_all2 same_range g ts" "c \<in> set (B n)" "c' \<in> set (B n')" "(n, c) \<noteq> (n', c')" "s \<in> set ts"
  shows "cs_blocks s c \<inter> cs_blocks s c' = {}"
proof (rule ccontr)
  note d = family_okD [OF assms(1)]
  obtain k where k: "k < length ts" "s = ts ! k" using assms(6) by (auto simp: in_set_conv_nth)
  have l: "length ts = length g" "length ss = length g"
    using list_all2_lengthD [OF assms(2)] d(1) list_all2_lengthD [of cs_same g ss] by (simp_all add: pools_inv_def)
  have "same_range (g ! k) s" using list_all2_nthD2 [OF assms(2) k(1)] k(2) by simp
  moreover have "same_range (g ! k) (ss ! k)" using pool_invD(4) [OF d(1)] k(1) l cs_same_range by simp
  ultimately have b: "cs_blocks s x = cs_blocks (ss ! k) x" for x using same_rangeD(1) by metis
  assume "cs_blocks s c \<inter> cs_blocks s c' \<noteq> {}"
  then obtain i a a' where i: "i < cs_maxCIDRs (ss ! k)" "pfx_contains c a" "pfx_contains (indexToCIDRBlock (ss ! k) i) a"
    "pfx_contains c' a'" "pfx_contains (indexToCIDRBlock (ss ! k) i) a'" unfolding b by (auto simp: cs_blocks_def)
  have kl: "k < length ss" using k(1) l by simp
  note s = slot_overlap [OF assms(1) kl i(1) assms(3) i(2,3)] slot_overlap [OF assms(1) kl i(1) assms(4) i(4,5)]
  have "n = n'" using ledgerD(3) [OF d(2), of n n'] s assms(3,4) by (auto simp: slots_of_def)
  moreover from this have "c = c'" using ledgerD(2) [OF d(2), of n] s assms(3,4) by (auto simp: distinct_map inj_on_def)
  ultimately show False using assms(5) by simp
qed

text \<open>The pod CIDRs of a cluster-pool operator, claimed by the migrated nodes, fit the pool.\<close>

lemma migration_claims:
  assumes "pm_core m4 m6 v4s v6s m" "migration_pool msk d m4 m6 v4s v6s p0"
    "\<forall>n \<in> N. mn_podCIDRs (node n) = node_pod_cidrs m n \<and> mn_allocated (node n) = []"
  defines "as \<equiv> \<lambda>n. mn_allocated (after_migration d (node n))"
  shows "item_of n q c \<in> (\<Union>n \<in> N. claim_items n (as n)) \<longleftrightarrow> n \<in> N \<and> q = d \<and> c \<in> set (node_pod_cidrs m n)"
    and "claims_ok msk p0 (\<Union>n \<in> N. claim_items n (as n))"
proof -
  note f = pm_coreD(1,2) [OF assms(1)]
  obtain po where po: "pa_pools p0 d = Some po" "list_all2 same_range v4s (somes (pool_slice False po))"
    "list_all2 same_range v6s (somes (pool_slice True po))" "msk False d = m4" "msk True d = m6"
    using assms(2) by (auto simp: migration_pool_def)
  have b: "c \<in> set (node_pod_cidrs m n) \<and> w = (\<not> addr_is4 (pfx_addr c)) \<longleftrightarrow>
      c \<in> set (if w then books nc_v6 (pm_nodes m) n else books nc_v4 (pm_nodes m) n)" for w n c
    using books_family(2) [OF f(1), of c n] books_family(2) [OF f(2), of c n] unfolding node_pod_cidrs_books by auto
  have one: "(w, q, n, c) \<in> claim_items n' (as n') \<longleftrightarrow> n' = n \<and> q = d \<and> c \<in> set (node_pod_cidrs m n) \<and> w = (\<not> addr_is4 (pfx_addr c))"
    if "n' \<in> N" for w q n c n'
    using bspec [OF assms(3) that] by (auto simp: as_def after_migration_def migrated_def claim_items_def item_of_def)
  show "item_of n q c \<in> (\<Union>n \<in> N. claim_items n (as n)) \<longleftrightarrow> n \<in> N \<and> q = d \<and> c \<in> set (node_pod_cidrs m n)"
    unfolding item_of_def using one [of _ "\<not> addr_is4 (pfx_addr c)" q n c] by blast
  have items: "(w, q, n, c) \<in> (\<Union>n \<in> N. claim_items n (as n)) \<longleftrightarrow>
      n \<in> N \<and> q = d \<and> c \<in> set (if w then books nc_v6 (pm_nodes m) n else books nc_v4 (pm_nodes m) n)" for w q n c
    unfolding b [symmetric] using one [of _ w q n c] by blast
  have ok: "claim_ok msk p0 (w, q, n, c)" if "(w, q, n, c) \<in> (\<Union>n \<in> N. claim_items n (as n))" for w q n c
    using that [unfolded items] family_claim [OF f(1) po(2), of c n] family_claim [OF f(2) po(3), of c n] po(1,4,5)
    by (cases w) (simp_all add: claim_ok_def)
  have "claim_ok msk p0 x" if "x \<in> (\<Union>n \<in> N. claim_items n (as n))" for x
    using ok [of "fst x" "fst (snd x)" "fst (snd (snd x))" "snd (snd (snd x))"] that by simp
  moreover have "claims_apart p0 (\<Union>n \<in> N. claim_items n (as n))" unfolding claims_apart_def items
  proof (intro allI impI)
    fix w q n c n' c' po' s
    assume h: "(n \<in> N \<and> q = d \<and> c \<in> set (if w then books nc_v6 (pm_nodes m) n else books nc_v4 (pm_nodes m) n)) \<and>
      (n' \<in> N \<and> q = d \<and> c' \<in> set (if w then books nc_v6 (pm_nodes m) n' else books nc_v4 (pm_nodes m) n')) \<and>
      (n, c) \<noteq> (n', c') \<and> pa_pools p0 q = Some po' \<and> s \<in> set (somes (pool_slice w po'))"
    then have "po' = po" using po(1) by auto
    with h family_claims_apart [OF f(1) po(2), of c n c' n' s] family_claims_apart [OF f(2) po(3), of c n c' n' s]
    show "cs_blocks s c \<inter> cs_blocks s c' = {}" by (cases w) simp_all
  qed
  ultimately show "claims_ok msk p0 (\<Union>n \<in> N. claim_items n (as n))" unfolding claims_ok_def by blast
qed

lemma migrated_distinct: "mn_allocated node = [] \<Longrightarrow> distinct (map al_Pool (mn_allocated (after_migration d node)))"
  by (simp add: after_migration_def migrated_def)

section \<open>Examples\<close>

definition ex_old_node :: "string \<Rightarrow> nat pool_node" where
  "ex_old_node n = \<lparr>mn_name = n, mn_version = 1, mn_podCIDRs = node_pod_cidrs ex_pm n, mn_requested = [], mn_allocated = [], mn_error = []\<rparr>"

definition ex_migration :: "ex_server \<times> migration_error option" where
  "ex_migration = migrateNode (\<lambda>i. Inr (Some (ex_old_node ''a''))) (\<lambda>i. False) ex_client ''default'' \<lparr>sv_nodes = [(''a'', ex_old_node ''a'')], sv_lost = []\<rparr>"

lemma ex_migration_ok: "snd ex_migration = None \<and> mn_podCIDRs (ex_old_node ''a'') \<noteq> []"
  by code_simp

theorem migration_outcome_witness:
  "\<exists>k1 e. pc_Update ex_client (migrated ''default'' (ex_old_node ''a'')) k1 = (fst ex_migration, e) \<and> (e = None \<or> e = Some NotFound)"
proof -
  have "migrateNode (\<lambda>i. Inr (Some (ex_old_node ''a''))) (\<lambda>i. False) ex_client ''default'' \<lparr>sv_nodes = [(''a'', ex_old_node ''a'')], sv_lost = []\<rparr> =
      (fst ex_migration, None)" using ex_migration_ok by (simp add: ex_migration_def prod_eq_iff)
  from migration_outcome [OF this] ex_migration_ok show ?thesis by auto
qed

definition ex_default_own :: "string \<Rightarrow> prefix set" where
  "ex_default_own q = (if q = ''default'' then {example_cluster} else {})"

definition ex_default_mask :: "bool \<Rightarrow> string \<Rightarrow> int" where
  "ex_default_mask v6 q = (if v6 then 0 else 10)"

definition ex_default_op :: mp_op where
  "ex_default_op = MpUpsertPool False ''default'' [(example_cluster, [])] 10 [] 0 False False"

definition ex_default :: pool_allocator where
  "ex_default = foldl mp_exec (NewPoolAllocator True False) [ex_default_op]"

lemma ex_default_facts:
  "mp_op_ok ex_default_own ex_default_mask ex_default_op \<and> \<not> pa_panicked ex_default \<and> pa_nodes ex_default = [] \<and> pa_orphans ex_default = [] \<and>
   \<not> pa_ready ex_default \<and> pool_shape ex_default ''default'' False = Some [Some (example_cluster, 10, 4)] \<and>
   pool_shape ex_default ''default'' True = Some [] \<and> map set_shape ex_v4 = [(example_cluster, 10, 4)]"
  by code_simp

lemma ex_default_started: "started ex_default_own ex_default_mask ex_default"
proof -
  let ?p = "NewPoolAllocator True False"
  have "plan_ok ex_default_own" by (auto simp: plan_ok_def ex_default_own_def split: if_splits)
  then have r: "mp_reachable ex_default_own ex_default_mask ex_default"
    unfolding mp_reachable_def using ex_default_facts ex_default_def by (metis list.pred_inject)
  have "dom (pa_pools ex_default) \<subseteq> {''default''}"
    using UpsertPool_dom [of ?p False "''default''" "[(example_cluster, [])]" 10 "[]" 0 False False]
    by (simp add: ex_default_def ex_default_op_def mp_exec_def NewPoolAllocator_def)
  then have "slices_full ex_default"
    by (rule shape_full [where xs = "\<lambda>v6. if v6 then [] else [(example_cluster, 10, 4)]"]) (use ex_default_facts in \<open>case_tac v6; simp\<close>)
  with r ex_default_facts show ?thesis by (simp add: started_def)
qed

lemma ex_default_pool: "migration_pool ex_default_mask ''default'' 10 0 ex_v4 [] ex_default"
proof -
  obtain po where po: "pa_pools ex_default ''default'' = Some po" using ex_default_facts by (auto simp: pool_shape_def)
  note s = pool_shape_somes(1) [OF _ po]
  have "list_all2 same_range ex_v4 (somes (pool_slice False po))"
    using s [of False "[(example_cluster, 10, 4)]"] ex_default_facts by (intro same_shape) simp
  moreover have "list_all2 same_range [] (somes (pool_slice True po))"
    using s [of True "[]"] ex_default_facts by (intro same_shape) simp
  ultimately show ?thesis using po by (simp add: migration_pool_def ex_default_mask_def)
qed

end
