(* ===== verification/Spec2Isabelle.thy ===== *)
theory Spec2Isabelle
  imports IPAM_Properties Local_Keys CIDR_Set Watchdog Managed_Nodes Api_Server Hash_Alloc Stz_Datapath Pod_CIDR_Properties
    Multi_Pool_Migration
begin

text \<open>
  A verification library for Constellation, a fork of Cilium in which one agent serves several nodes. It follows
  an address from the operator to the packet: the operator gives every node its pod CIDRs, the agent's address manager
  hands out single addresses of them to pods, several nodes at once in this fork, and the fork's datapath wakes pods that
  were scaled to zero when a packet for their address arrives. Around that path it covers the allocators of identifiers and
  identities, the discovery of managed nodes, the watchdog that deletes pods without endpoint, and the choice of an API server.

  \<^bold>\<open>Parts and theories.\<close> Paths are under \<open>src/\<close>; a definition has the name of the function it translates where
  Isabelle allows it, with a prefix (\<open>rg_\<close>, \<open>ms_\<close>, \<open>cs_\<close>, \<open>ba_\<close>, \<open>lks_\<close>, \<open>wd_\<close>, \<open>nw_\<close>) where several types have a
  method of that name.
  \<^item> \<open>Prelude\<close>: results, machine words, facts on bits and words. \<open>Netip\<close>, \<open>Netip_Parse\<close>: what the program uses of Go's
    \<open>net/netip\<close>, addresses with zones and prefixes, and the parsing of addresses.
  \<^item> \<open>Alloc_Bitmap\<close>: \<open>pkg/ipam/service/allocator/bitmap.go\<close>, a bitmap (a big integer) with a random or a contiguous scan.
    \<open>IP_Range\<close>: \<open>pkg/ipam/service/ipallocator/allocator.go\<close>, the addresses of a CIDR over such a bitmap.
  \<^item> \<open>Scope_Allocators\<close>: \<open>pkg/ipam/hostscope.go\<close>, \<open>managed_scope.go\<close>, \<open>noop_allocator.go\<close>. The managed-scope allocator
    is the fork's: one sub-allocator per node, shared by pointer, so a store of sub-allocators with indices.
  \<^item> \<open>Scale_To_Zero\<close>: \<open>pkg/maps/constellationstz\<close>, the two BPF maps seen from the agent. \<open>Stz_Datapath\<close>:
    \<open>bpf/lib/constellation_stz.h\<close>, the hook on the packet path.
  \<^item> \<open>IPAM_Core\<close>, \<open>IPAM_Properties\<close>: \<open>pkg/ipam/allocator.go\<close>, \<open>ipam.go\<close>, \<open>types.go\<close>. The record \<open>ipam\<close> has the fields of
    \<open>IPAM\<close>: the allocators of both families, the owners, the exclusions, the expiration timers.
  \<^item> \<open>CIDR_Set\<close>: \<open>pkg/ipam/cidrset/cidr_set.go\<close> and \<open>cidralloc.go\<close>, the node CIDRs of a cluster CIDR. \<open>Pod_CIDR\<close>,
    \<open>Pod_CIDR_Properties\<close>: \<open>operator/pkg/ipam/allocator/podcidr/podcidr.go\<close>, \<open>clusterpool.go\<close> and \<open>pkg/revert\<close>, the
    operator's manager: its books (\<open>pm_nodes\<close>), the nodes that wait for \<open>Resync\<close>, the queue for Kubernetes.
  \<^item> \<open>Multi_Pool\<close>, \<open>Multi_Pool_Invariant\<close>, \<open>Multi_Pool_Properties\<close>: \<open>operator/pkg/ipam/allocator/multipool/pool.go\<close> and
    \<open>pool_allocator.go\<close>, the operator's other mode, in which nodes draw CIDRs from named pools that come, change and go. The
    record \<open>pool_allocator\<close> has the fields of \<open>PoolAllocator\<close>; the slices of a pool are lists with \<open>None\<close> for nil, as
    the code can leave nil allocators in them. \<open>Multi_Pool_Restore\<close>: what is published for a node, and restarts.
    \<open>Pool_Handler\<close>: \<open>pool_handler.go\<close>, the texts and specifications of pools. \<open>Multi_Pool_Nodes\<close>: \<open>node_handler.go\<close>
    and the migration from cluster-pool in \<open>multipool.go\<close>. \<open>Multi_Pool_Operator\<close>: all of them together, as an
    inductive predicate of the states the operator reaches. \<open>Multi_Pool_Migration\<close>: the migration of nodes.
  \<^item> \<open>ID_Pool\<close>: \<open>pkg/idpool\<close>. \<open>Local_Keys\<close>: \<open>pkg/identity/basicallocator\<close> and \<open>pkg/allocator/localkeys.go\<close>.
    \<open>Hash_Alloc\<close>: \<open>pkg/ipalloc\<close>, whose free blocks are linked objects in a heap, modelled as a store with pointers.
  \<^item> \<open>Managed_Nodes\<close>: discovery, the node watcher, the copy of addresses to managed nodes and the instance paths
    (\<open>pkg/node/types/managed.go\<close>, \<open>pkg/k8s/tables/nodewatcher.go\<close>, \<open>pkg/nodediscovery/managed.go\<close>,
    \<open>pkg/defaults/instance.go\<close>). \<open>Watchdog\<close>: \<open>pkg/podendpointwatchdog\<close>. \<open>Api_Server\<close>: \<open>pkg/k8s/client\<close>.
  \<^item> This theory: the properties that span components.

  \<^bold>\<open>Conventions.\<close> A Go function with an error returns a sum, \<open>Inl\<close> the error; a panic the code can reach is an
  error value or a flag, and is proved not to occur where that is the claim. A method under a mutex is one step, so an
  interleaving is a list of steps and a property of all interleavings a property of all lists. (\<open>addManagedNodeCIDR\<close> takes
  the mutex of its allocator alone, and is taken as a step as well.) The answers of the API
  server, the clock, random numbers, the iteration order of Go maps, kernel calls that may fail and code outside the
  repository are arguments. Integers that may wrap are words.

  \<^bold>\<open>Interfaces.\<close> \<open>offset_allocator\<close> is the contract of the bitmap that the ranges rely on; \<open>ip_allocator\<close> that of the
  Go interface \<open>Allocator\<close>, met by the host-scope and managed-scope allocators and by the choice among them, on which IPAM
  relies; \<open>cidr_pool\<close> that of the CIDR sets of one family, met by the operations of the manager on either family, on
  which its books rely.

  \<^bold>\<open>What is shown.\<close>
  \<^item> The address manager: no address is handed out twice without a release in between (also across timers and joining
    nodes), allocators stay well formed and every address in use has an owner, a failing dual-stack request keeps nothing,
    a stopped timer is harmless, what each operation does and returns.
  \<^item> The operator: nodes never hold overlapping CIDRs and the allocators are exact; what a node without CIDRs gets;
    a restart recovers the books; what leaves the queue has been published, as the log of
    the calls shows, and the rest is kept. One CIDR set: \<open>AllocateNext\<close>, \<open>Occupy\<close>, \<open>Release\<close>, reserved ranges.
  \<^item> The multi-pool operator: under a plan of disjoint pool CIDRs, nodes never hold overlapping CIDRs and the allocators
    are exact through pools that appear, change and are deleted; a controller's run without error meets every request and
    leaves the API server with exactly the operator's books for the node; a restart recovers the books, a migration keeps
    every node's CIDRs. Histories that break this outside the stated conditions, or end in a panic, are evaluated
    in the same theories.
  \<^item> Together: the operator's books satisfy what an agent's configuration needs; an address that is handed out has no
    scale-to-zero trigger left, whatever happens later; how a joining node reaches the address manager.
  \<^item> The others refine abstract specifications: the ID pool its state table, the basic allocator a set, the local keys a
    map with reference counts, the hash allocator a map from addresses to values; the node watcher follows its events.
  \<^item> The fork's services: which IPv4 packets the scale-to-zero hook drops; what the watchdog deletes and when; how discovery ends;
    what is written to managed nodes; the configured API servers are kept through every fail-over.

  \<^bold>\<open>Bounds.\<close> The retry loop of \<open>allocateNextFamily\<close> runs while it meets excluded addresses; \<open>next_loop\<close> has as fuel the
  number of free addresses plus one, and as every turn takes one it never runs out, which \<open>AllocateNextFamily_correct\<close>
  states. The scans over bitmaps and CIDRs are bounded by their size in the source. The search of the hash allocator has the
  bound of a million steps of the source. The loop that allocates CIDRs of a pool has as fuel the number of missing addresses,
  each turn adds at least one, and \<open>multipool_demand_met\<close> states that it is enough. The migration of a node makes at most
  ten attempts, as in the source. Discovery makes at most sixty attempts, as in the source. CIDR sets are
  configured with masks that number fewer than \<open>2 ^ 32\<close> node CIDRs.

  \<^bold>\<open>Not modelled.\<close> The rest of the BPF programs, the loader and everything that is system calls; the policy engine,
  proxies, identities in the key-value store, cluster mesh, load balancing, BGP, encryption, Hubble and the command line tools,
  which the fork takes over from Cilium unchanged and which do not take part in giving out addresses; the cloud IPAM modes,
  which are calls to cloud APIs; the agent's side of multi-pool and its CRD mode; generated clients and informers. Logging, metrics and tracing are left out of all
  functions, except where reading a metric can panic.
\<close>

section \<open>From the operator to the agent's allocators\<close>

text \<open>Every sub-allocator serves the CIDR that its node announces; the local node's the configured one.\<close>

definition subs_from :: "(string \<Rightarrow> prefix list option) \<Rightarrow> string \<Rightarrow> prefix \<Rightarrow> managed_scope \<Rightarrow> bool" where
  "subs_from get l v4 m \<longleftrightarrow> (\<forall>i \<in> set (ms_subs m). i < length (ms_store m) \<and>
     (if sub_nodeName (ms_store m ! i) = l then sub_allocCIDR (ms_store m ! i) = v4
      else Option.bind (get (sub_nodeName (ms_store m ! i))) ciliumNodeIPv4CIDR = Some (sub_allocCIDR (ms_store m ! i))))"

lemma subs_from_add:
  assumes "subs_from get l v4 m" "if n = l then p = v4 else Option.bind (get n) ciliumNodeIPv4CIDR = Some p"
  shows "subs_from get l v4 (ms_addCIDR m n (Some p))"
  using assms by (auto simp: subs_from_def ms_addCIDR_def Let_def nth_append)

lemma subs_from_fetch: "subs_from get l v4 m \<Longrightarrow> subs_from get l v4 (ms_fetch_nodes get l names m)"
proof (induction names arbitrary: m)
  case (Cons n names)
  then show ?case using subs_from_add [of get l v4 m n] by (auto split: option.splits)
qed simp

lemma subs_from_new: "subs_from get l v4 (newManagedScopeAllocator get l names (Some v4))"
  unfolding newManagedScopeAllocator_def Let_def
  by (intro subs_from_fetch subs_from_add) (auto simp: subs_from_def)

text \<open>The CiliumNodes as the agents read them, once the operator's queue is published.\<close>

definition announced :: "'r podcidr_manager \<Rightarrow> string \<Rightarrow> prefix list option" where
  "announced m n = map_option (\<lambda>c. nc_v4 c @ nc_v6 c) (pm_nodes m n)"

lemma announced_cidr:
  "Option.bind (announced m n) ciliumNodeIPv4CIDR = Some q \<Longrightarrow> q \<in> set (node_pod_cidrs m n) \<and> addr_is4 (pfx_addr q)"
  by (cases "pm_nodes m n") (auto simp: announced_def node_pod_cidrs_def dest: ciliumNodeIPv4CIDR_Some)

lemma announced_good_setup:
  assumes "pm_core m4 m6 g4 g6 m" "pfx_wf v6CIDR" "\<not> addr_is4 (pfx_addr v6CIDR)" "distinct managed"
    and "Option.bind (announced m localName) ciliumNodeIPv4CIDR = Some v4CIDR"
  shows "good_setup (announced m) localName managed v4CIDR v6CIDR"
proof -
  have wf: "pfx_wf q" if "q \<in> set (node_pod_cidrs m n)" for n q
    using that books_family(1) [OF pm_coreD(1) [OF assms(1)]] books_family(1) [OF pm_coreD(2) [OF assms(1)]]
    unfolding node_pod_cidrs_books fits_def by blast
  have wf': "pfx_wf q" if an: "announced m n = Some ps" "q \<in> set ps" for n ps q
  proof -
    obtain k where "pm_nodes m n = Some k" "ps = nc_v4 k @ nc_v6 k" using an(1) by (auto simp: announced_def)
    then show ?thesis using an(2) wf [of q n] by (simp add: node_pod_cidrs_def)
  qed
  note v4 = announced_cidr [OF assms(5)]
  let ?m = "newManagedScopeAllocator (announced m) localName managed (Some v4CIDR)"
  have w4: "pfx_wf v4CIDR" using wf [of v4CIDR localName] v4 by simp
  have inv: "ms_inv ?m" using newManagedScopeAllocator_inv [OF assms(4) w4 wf'] by simp
  have sub: "sub_allocCIDR (ms_store ?m ! i) \<in> set (node_pod_cidrs m (sub_nodeName (ms_store ?m ! i)))"
    if i: "i \<in> set (ms_subs ?m)" for i
  proof -
    define sb where "sb = ms_store ?m ! i"
    have "if sub_nodeName sb = localName then sub_allocCIDR sb = v4CIDR
        else Option.bind (announced m (sub_nodeName sb)) ciliumNodeIPv4CIDR = Some (sub_allocCIDR sb)"
      using subs_from_new [of "announced m" localName v4CIDR managed] i unfolding subs_from_def sb_def by blast
    then have "sub_allocCIDR sb \<in> set (node_pod_cidrs m (sub_nodeName sb))"
      using v4 announced_cidr [of m "sub_nodeName sb" "sub_allocCIDR sb"] by (auto split: if_splits)
    then show ?thesis by (simp add: sb_def)
  qed
  have "ms_disjoint ?m"
    unfolding ms_disjoint_def
  proof (intro ballI impI)
    fix i j assume ij: "i \<in> set (ms_subs ?m)" "j \<in> set (ms_subs ?m)" "i \<noteq> j"
    then have "sub_nodeName (ms_store ?m ! i) \<noteq> sub_nodeName (ms_store ?m ! j)"
      using ms_invD(4) [OF inv ij(1)] ms_invD(4) [OF inv ij(2)] by auto
    from core_exclusive [OF assms(1) sub [OF ij(1)] sub [OF ij(2)] this]
    show "\<forall>a. \<not> (pfx_contains (sub_allocCIDR (ms_store ?m ! i)) a \<and> pfx_contains (sub_allocCIDR (ms_store ?m ! j)) a)"
      by (simp add: pfx_disjoint_def)
  qed
  then show ?thesis using w4 v4 assms(2,3,4) wf' by (simp add: good_setup_def)
qed

text \<open>
  (C6) The operator's CIDRs are what the agents rely on. After any history of an operator, take an agent whose own node
  the operator has given an IPv4 CIDR, and any managed nodes. With the CIDRs that the operator holds for the nodes, the agent
  finds the conditions under which its allocators are correct: the CIDRs are valid and those of different
  nodes do not overlap. Its configuration succeeds, is well formed and has no address in use, and no other node of the
  cluster has a CIDR that overlaps the agent's own, so that no address is handed out twice, neither by one agent nor by two.
\<close>

theorem operator_cidrs_suffice_for_agents:
  assumes "pm_configured e4 c4 m4 e6 c6 m6 v4s v6s" "list_all (pm_op_ok m4 m6) ops"
    and "m = foldl pm_exec (NewNodesPodCIDRManager v4s v6s) ops"
    and "pfx_wf v6CIDR" "\<not> addr_is4 (pfx_addr v6CIDR)" "distinct managed"
    and "Option.bind (announced m localName) ciliumNodeIPv4CIDR = Some v4CIDR"
  shows "good_setup (announced m) localName managed v4CIDR v6CIDR \<and>
    (\<exists>im. configure_kubernetes_clusterpool (NewIPAM c md stz) cp (announced m) localName managed v4CIDR v6CIDR = (im, None) \<and>
       ipam_inv im \<and> (\<forall>a. \<not> in_use im a)) \<and>
    (\<forall>n q. n \<noteq> localName \<longrightarrow> q \<in> set (node_pod_cidrs m n) \<longrightarrow> pfx_disjoint q v4CIDR)"
proof -
  have i: "pm_inv m4 m6 v4s v6s m" unfolding assms(3) by (rule pm_run_inv [OF configured_inv(1) [OF assms(1)] assms(2)])
  note core = pm_invD(1) [OF i]
  have good: "good_setup (announced m) localName managed v4CIDR v6CIDR" by (rule announced_good_setup [OF core assms(4-7)])
  obtain im e where c: "configure_kubernetes_clusterpool (NewIPAM c md stz) cp (announced m) localName managed v4CIDR v6CIDR = (im, e)"
    by (rule prod.exhaust)
  have "e = None \<and> ipam_inv im \<and> (\<forall>a. \<not> in_use im a)" using configured_state [OF good c] by simp
  moreover have "pfx_disjoint q v4CIDR" if "q \<in> set (node_pod_cidrs m n)" "n \<noteq> localName" for n q
    using core_exclusive [OF core that(1) _ that(2)] announced_cidr [OF assms(7)] by blast
  ultimately show ?thesis using good c by auto
qed

theorem operator_cidrs_suffice_for_agents_witness:
  "good_setup (announced ex_pm) ''a'' [''a'', ''b''] (prefix_from (V4 0x0A400000) 10) ex_v6 \<and>
   announced ex_pm ''b'' = Some [prefix_from (V4 0x0A000000) 10]"
proof -
  have a: "Option.bind (announced ex_pm ''a'') ciliumNodeIPv4CIDR = Some (prefix_from (V4 0x0A400000) 10)"
    "announced ex_pm ''b'' = Some [prefix_from (V4 0x0A000000) 10]"
    using ex_pm_facts by (simp_all add: announced_def prefix_from_def)
  have "pfx_wf ex_v6" "\<not> addr_is4 (pfx_addr ex_v6)" by (simp_all add: ex_v6_def netip_eval)
  from operator_cidrs_suffice_for_agents [OF ex_pm_configured ex_ops_ok ex_pm_def this _ a(1), of "[''a'', ''b'']"] a(2)
  show ?thesis by simp
qed

section \<open>From cluster-pool to multi-pool\<close>

text \<open>
  (C7) The migration of a cluster from cluster-pool to multi-pool keeps the nodes' CIDRs. Take what a cluster-pool operator holds
  after any history, and the CiliumNodes with these pod CIDRs after their migration. A new multi-pool operator whose
  default pool has the CIDRs and mask sizes of the old configuration, and which is given the nodes in any order before
  \<open>RestoreFinished\<close>, does not panic and holds for every node exactly the CIDRs it had, all of the default pool.
\<close>

theorem migration_keeps_cidrs:
  fixes node :: "string \<Rightarrow> 'r pool_node"
  assumes "pm_configured e4 c4 m4 e6 c6 m6 v4s v6s" "list_all (pm_op_ok m4 m6) ops" "m = foldl pm_exec (NewNodesPodCIDRManager v4s v6s) ops"
    and "started own msk p0" "migration_pool msk d m4 m6 v4s v6s p0"
    and "\<forall>n \<in> set ns. mn_podCIDRs (node n) = node_pod_cidrs m n \<and> mn_allocated (node n) = []"
  defines "p \<equiv> restore_nodes (\<lambda>n. mn_allocated (after_migration d (node n))) (\<lambda>n. mn_requested (after_migration d (node n))) ns p0"
  shows "\<not> pa_panicked p \<and> (\<forall>n q c. isAllocated p n q c \<longleftrightarrow> n \<in> set ns \<and> q = d \<and> c \<in> set (node_pod_cidrs m n)) \<and>
    (\<forall>n q c. \<not> isOrphan p n q c)"
proof -
  let ?as = "\<lambda>n. mn_allocated (after_migration d (node n))"
  have core: "pm_core m4 m6 v4s v6s m" unfolding assms(3) by (rule pm_invD(1) [OF pm_run_inv [OF configured_inv(1) [OF assms(1)] assms(2)]])
  note cl = migration_claims [OF core assms(5,6)]
  have d: "pa_pools p0 d \<noteq> None" using assms(5) by (auto simp: migration_pool_def)
  have a: "distinct (map al_Pool (?as n))" if "n \<in> set ns" for n using assms(6) that by (intro migrated_distinct) blast
  note r = restored_exact [OF assms(4) cl(2) a, where rs = "\<lambda>n. mn_requested (after_migration d (node n))", folded p_def, unfolded cl(1)]
  have "isAllocated p n q c \<longleftrightarrow> n \<in> set ns \<and> q = d \<and> c \<in> set (node_pod_cidrs m n)" "\<not> isOrphan p n q c" for n q c
    using r(2,3) [of n q c] d by auto
  with r(1) show ?thesis by blast
qed

theorem migration_keeps_cidrs_witness:
  "isAllocated (restore_nodes (\<lambda>n. mn_allocated (after_migration ''default'' (ex_old_node n)))
      (\<lambda>n. mn_requested (after_migration ''default'' (ex_old_node n))) [''b'', ''a''] ex_default) ''a'' ''default'' (prefix_from (V4 0x0A400000) 10)"
proof -
  have n: "\<forall>n \<in> set [''b'', ''a'']. mn_podCIDRs (ex_old_node n) = node_pod_cidrs ex_pm n \<and> mn_allocated (ex_old_node n) = []"
    by (simp add: ex_old_node_def)
  have "prefix_from (V4 0x0A400000) 10 \<in> set (node_pod_cidrs ex_pm ''a'')" using ex_pm_facts(1) by (simp add: node_pod_cidrs_def)
  with migration_keeps_cidrs [OF ex_pm_configured ex_ops_ok ex_pm_def ex_default_started ex_default_pool n] show ?thesis by simp
qed
section \<open>A node joins\<close>

text \<open>The agent registers \<open>addManagedNodeCIDR\<close> as a node-added callback: these are the calls one watch event makes.\<close>

definition ipam_after_event ::
  "string \<Rightarrow> ((string \<rightharpoonup> string) \<Rightarrow> bool) \<Rightarrow> (string \<Rightarrow> prefix list option) \<Rightarrow> watch_event \<Rightarrow> node_watcher \<times> ipam \<Rightarrow> node_watcher \<times> ipam" where
  "ipam_after_event localName matches get evt = (\<lambda>(nw, im).
     let nw' = handleEvent localName matches nw evt
     in (nw', foldl (\<lambda>im n. addManagedNodeCIDR im get n) im (drop (length (nw_notified nw)) (nw_notified nw'))))"

text \<open>
  (C10) What a node that joins gets. The event is handed on to IPAM even when the node is already known. If its
  CiliumNode has an IPv4 CIDR by then, the node is served from that CIDR afterwards and the other nodes as before; if not,
  which is the case for a node whose CiliumNode is only being created, IPAM does not change, and while the node has no
  sub-allocator its pods are given addresses of the primary node.
\<close>

theorem joining_node_reaches_ipam:
  assumes "matches (no_Labels node)" "\<not> nw_panicked (handleEvent localName matches nw (Added (Some node)))"
    and "im_ipv4Allocator im = Some (ManagedScope m)" "ms_inv m"
    and "ipam_after_event localName matches get (Added (Some node)) (nw, im) = (nw', im')"
  shows "no_Name node \<in> set (nw_known nw') \<and>
    (case Option.bind (get (no_Name node)) ciliumNodeIPv4CIDR of
       Some q \<Rightarrow> pfx_wf q \<longrightarrow> (\<exists>m' i. im_ipv4Allocator im' = Some (ManagedScope m') \<and> ms_inv m' \<and>
         ms_subByNode m' (no_Name node) = Some i \<and> sub_allocCIDR (ms_store m' ! i) = q \<and>
         (\<forall>n. n \<noteq> no_Name node \<longrightarrow> ms_subByNode m' n = ms_subByNode m n))
     | None \<Rightarrow> im' = im \<and> (ms_subByNode m (no_Name node) = None \<and> no_Name node \<noteq> [] \<longrightarrow>
         (\<forall>rnd own t res. ms_AllocateNext m rnd own (no_Name node) = Inr (t, res) \<longrightarrow> res_IPPoolName res = ms_primaryNode m)))"
proof -
  let ?n = "no_Name node"
  have "nw_notified (handleEvent localName matches nw (Added (Some node))) = nw_notified nw @ [?n]"
    and k: "?n \<in> set (nw_known (handleEvent localName matches nw (Added (Some node))))"
    using assms(1,2)
    by (auto simp: handleEvent_def handleAdded_def Let_def fireNodeAdded_def RegisterReflector_def split: if_splits)
  then have im': "im' = addManagedNodeCIDR im get ?n" and nw': "?n \<in> set (nw_known nw')"
    using assms(5) by (auto simp: ipam_after_event_def Let_def)
  show ?thesis
  proof (cases "Option.bind (get ?n) ciliumNodeIPv4CIDR")
    case None
    then have "im' = im" using assms(3) by (auto simp: im' addManagedNodeCIDR_def split: option.splits bind_splits)
    moreover have "res_IPPoolName res = ms_primaryNode m"
      if u: "ms_subByNode m ?n = None" "?n \<noteq> []" and a: "ms_AllocateNext m rnd own ?n = Inr (t, res)" for rnd own t res
    proof -
      obtain i where i: "ms_subByNode m (ms_primaryNode m) = Some i" "res_IPPoolName res = sub_nodeName (ms_store m ! i)"
        using u a by (auto simp: ms_AllocateNext_def ms_resolvePool_def Let_def alloc_result_def split: option.splits sum.splits)
      then show ?thesis using ms_inv_mapD(2) [OF assms(4)] by simp
    qed
    ultimately show ?thesis using None nw' by auto
  next
    case (Some q)
    then obtain ps where ps: "get ?n = Some ps" "ciliumNodeIPv4CIDR ps = Some q" by (auto simp: bind_eq_Some_conv)
    then have "im_ipv4Allocator im' = Some (ManagedScope (ms_AddCIDR m ?n (Some q)))"
      using assms(3) by (simp add: im' addManagedNodeCIDR_def)
    then show ?thesis
      using Some nw' ms_AddCIDR_inv [OF assms(4)] ms_AddCIDR_entry(1,2) [OF assms(4)] by auto
  qed
qed

theorem joining_node_reaches_ipam_witness:
  "let node = \<lparr>no_Name = ''w2'', no_Labels = [''pawn'' \<mapsto> ''yes'']\<rparr>;
       nw = NewPodTableAndReflector ''infra'' [''infra'', ''w1''] [''infra'', ''w1''];
       matches = (\<lambda>ls. ls ''pawn'' = Some ''yes'')
   in (\<exists>nw'. ipam_after_event ''infra'' matches ex_get (Added (Some node)) (nw, ex_ipam) = (nw', ex_ipam)) \<and>
      (\<exists>nw' im' m i. ipam_after_event ''infra'' matches (\<lambda>_. Some [prefix_from (V4 0x0a002000) 20]) (Added (Some node)) (nw, ex_ipam) = (nw', im') \<and>
         im_ipv4Allocator im' = Some (ManagedScope m) \<and> ms_subByNode m ''w2'' = Some i \<and>
         sub_allocCIDR (ms_store m ! i) = prefix_from (V4 0x0a002000) 20)"
proof -
  define node :: node_object where "node = \<lparr>no_Name = ''w2'', no_Labels = [''pawn'' \<mapsto> ''yes'']\<rparr>"
  define nw where "nw = NewPodTableAndReflector ''infra'' [''infra'', ''w1''] [''infra'', ''w1'']"
  define matches :: "(string \<rightharpoonup> string) \<Rightarrow> bool" where "matches = (\<lambda>ls. ls ''pawn'' = Some ''yes'')"
  have m: "matches (no_Labels node)" by (simp add: matches_def node_def)
  have p: "\<not> nw_panicked (handleEvent ''infra'' matches nw (Added (Some node)))"
    by (simp add: matches_def node_def nw_def handleEvent_def handleAdded_def NewPodTableAndReflector_def startNodeWatcher_def
        RegisterReflector_def reflector_name_def fireNodeAdded_def Let_def)
  have im: "im_ipv4Allocator ex_ipam = Some (ManagedScope ex_managed)" by (simp add: ex_ipam_eq)
  have n: "no_Name node = ''w2''" by (simp add: node_def)
  have "\<exists>nw'. ipam_after_event ''infra'' matches ex_get (Added (Some node)) (nw, ex_ipam) = (nw', ex_ipam)"
  proof -
    obtain nw' im' where e: "ipam_after_event ''infra'' matches ex_get (Added (Some node)) (nw, ex_ipam) = (nw', im')" by (rule prod.exhaust)
    have g: "Option.bind (ex_get ''w2'') ciliumNodeIPv4CIDR = None" by (simp add: ex_get_def)
    from joining_node_reaches_ipam [OF m p im ex_managed_inv e, unfolded n g] e show ?thesis by simp
  qed
  moreover have "\<exists>nw' im' m i. ipam_after_event ''infra'' matches (\<lambda>_. Some [prefix_from (V4 0x0a002000) 20]) (Added (Some node)) (nw, ex_ipam) = (nw', im') \<and>
      im_ipv4Allocator im' = Some (ManagedScope m) \<and> ms_subByNode m ''w2'' = Some i \<and>
      sub_allocCIDR (ms_store m ! i) = prefix_from (V4 0x0a002000) 20"
  proof -
    define q where "q = prefix_from (V4 0x0a002000) 20"
    obtain nw' im' where e: "ipam_after_event ''infra'' matches (\<lambda>_. Some [q]) (Added (Some node)) (nw, ex_ipam) = (nw', im')" by (rule prod.exhaust)
    have g: "Option.bind (Some [q]) ciliumNodeIPv4CIDR = Some q" by (simp add: q_def prefix_from_def)
    have "pfx_wf q" unfolding q_def by (rule ex_prefix_wf)
    with joining_node_reaches_ipam [OF m p im ex_managed_inv e, unfolded n g] e show ?thesis unfolding q_def [symmetric] by auto
  qed
  ultimately show ?thesis unfolding Let_def node_def [symmetric] nw_def [symmetric] matches_def [symmetric] by (rule conjI)
qed

section \<open>Allocation and the scale-to-zero trap\<close>

text \<open>
  The host as IPAM and the datapath see it: both work on the same kernel maps. Arming triggers is done from outside of this
  program and is not among the steps.
\<close>

datatype host_step = IpamStep ipam_op | PacketStep packet nat u64 bool

fun host_exec :: "ipam \<times> u32 list \<Rightarrow> host_step \<Rightarrow> ipam \<times> u32 list" where
  "host_exec (im, ev) (IpamStep op) = (exec_op im op, ev)"
| "host_exec (im, ev) (PacketStep load l3_off now room) =
     (let (v, s) = constellation_stz_ingress4 load l3_off now room \<lparr>sd_maps = im_stz im, sd_events = ev\<rparr>
      in (im\<lparr>im_stz := sd_maps s\<rparr>, sd_events s))"

lemma clear_triggers: "stz_triggers (im_stz im) k = None \<Longrightarrow> stz_triggers (im_stz (clearScaleToZeroState im ip)) k = None"
  by (simp add: clearScaleToZeroState_def stz_Clear_mono)

lemma next_loop_triggers:
  "stz_triggers (im_stz im) k = None \<Longrightarrow> stz_triggers (im_stz (fst (next_loop n i im b rnd own p sync))) k = None"
  by (induction n arbitrary: i im) (simp_all add: Let_def clear_triggers split: option.split sum.split)

lemma exec_op_triggers:
  assumes "stz_triggers (im_stz im) k = None"
  shows "stz_triggers (im_stz (exec_op im op)) k = None"
proof (cases op)
  case (OpNodeAdded get n)
  with assms show ?thesis by (cases rule: addManagedNodeCIDR_cases [of im get n]) simp_all
qed (use assms in \<open>auto simp: allocateIP_def allocateNextFamily_def ReleaseIP_def releaseIPLocked_def
      StartExpirationTimer_def StopExpirationTimer_def expire_timer_def ExcludeIP_def Let_def next_loop_triggers clear_triggers
      simp del: next_loop.simps split: option.split sum.split family.split if_splits\<close>)

lemma host_exec_triggers:
  assumes "stz_triggers (im_stz (fst h)) k = None"
  shows "stz_triggers (im_stz (fst (host_exec h st))) k = None"
proof (cases h)
  case (Pair im ev)
  then show ?thesis using assms exec_op_triggers [of im k]
    by (cases st) (simp_all add: ingress4_eq Let_def)
qed

lemma host_run_triggers:
  "stz_triggers (im_stz (fst h)) k = None \<Longrightarrow> stz_triggers (im_stz (fst (foldl host_exec h sts))) k = None"
  by (induction sts arbitrary: h) (simp_all add: host_exec_triggers)

lemma handed_out_clean:
  assumes "ipam_inv im" "op_result im op = Some a" "cfg_EnableScaleToZeroDatapath (im_config im)" "stz_deletable (im_stz im) a"
  shows "stz_clean (im_stz (exec_op im op)) a"
proof (cases op)
  case (OpAllocateIP ip own p sync)
  then obtain im' res where r: "allocateIP im ip own p sync = (im', Inr res)" "a = res_IP res"
    using assms(2) by (cases "allocateIP im ip own p sync") (auto split: sum.splits)
  with allocateIP_Inr [OF assms(1) r(1)] assms(3,4) OpAllocateIP show ?thesis by simp
next
  case (OpAllocateNextFamily rnd fam own p sync)
  then obtain im' res where r: "allocateNextFamily im rnd fam own p sync = (im', Inr res)" "a = res_IP res"
    using assms(2) by (cases "allocateNextFamily im rnd fam own p sync") (auto split: sum.splits)
  from allocateNextFamily_spec [OF assms(1) r(1)] obtain p' X where "next_result p' own im im' (Inr res) X" by auto
  then show ?thesis using assms(3,4) r OpAllocateNextFamily by (simp add: next_result_def)
qed (use assms(2) in simp_all)

text \<open>
  (C9) An address that IPAM hands out is reachable. When the scale-to-zero datapath is on and the kernel carries out the
  deletions, a trigger left over from an earlier pod with the same address never traps traffic to the new one: whatever
  sequence of IPAM operations and packets follows, every packet to the address is delivered, until somebody arms the trigger
  again.
\<close>

theorem handed_out_address_not_trapped:
  assumes "ipam_inv im" "op_result im op = Some a" "cfg_EnableScaleToZeroDatapath (im_config im)" "stz_deletable (im_stz im) a"
    and "stz_newKey a = pkt_daddr load l3_off" "foldl host_exec (exec_op im op, ev) sts = (im', ev')"
  shows "fst (constellation_stz_ingress4 load l3_off now room \<lparr>sd_maps = im_stz im', sd_events = ev'\<rparr>) = CTX_ACT_OK"
proof -
  have "stz_triggers (im_stz im') k = None" if "pkt_daddr load l3_off = Some k" for k
    using host_run_triggers [of "(exec_op im op, ev)" k sts] handed_out_clean [OF assms(1-4)] assms(5,6) that
    by (simp add: stz_clean_def)
  then show ?thesis by (auto simp: ingress4_eq trapped_def)
qed

theorem handed_out_address_not_trapped_witness:
  "fst (constellation_stz_ingress4 (ex_packet 0x02) 0 1 True \<lparr>sd_maps = im_stz ex_ipam, sd_events = []\<rparr>) = CTX_ACT_DROP \<and>
   (let (im', ev') = foldl host_exec (exec_op ex_ipam ex_op, []) [PacketStep (ex_packet 0x02) 0 2 True, IpamStep ex_op]
    in fst (constellation_stz_ingress4 (ex_packet 0x02) 0 3 True \<lparr>sd_maps = im_stz im', sd_events = ev'\<rparr>) = CTX_ACT_OK)"
proof -
  note d = ex_packet_loads(1) [of "0x02"] and b = ex_packet_loads(2)
  have t: "fst (constellation_stz_ingress4 (ex_packet 0x02) 0 1 True \<lparr>sd_maps = im_stz ex_ipam, sd_events = []\<rparr>) = CTX_ACT_DROP"
    using b d by (simp add: ingress4_eq trapped_def ex_ipam_eq ex_stz_def)
  have e: "stz_deletable (im_stz ex_ipam) (V4 0x0a001008)" "cfg_EnableScaleToZeroDatapath (im_config ex_ipam)"
    by (simp_all add: ex_ipam_eq ex_stz_def ex_config_def stz_deletable_def)
  have k: "stz_newKey (V4 0x0a001008) = pkt_daddr (ex_packet 0x02) 0" unfolding d by (simp add: stz_newKey_def)
  obtain im' ev' where f: "foldl host_exec (exec_op ex_ipam ex_op, []) [PacketStep (ex_packet 0x02) 0 2 True, IpamStep ex_op] = (im', ev')"
    by (rule prod.exhaust)
  from handed_out_address_not_trapped [OF ex_ipam_inv ex_op_result e(2,1) k f, of 3 True] t show ?thesis
    unfolding f by simp
qed

end
